(* ===== verification/Prelude.thy ===== *)
theory Prelude
  imports Main "HOL-Library.Word"
begin

unbundle bit_operations_syntax

section \<open>Shared library of the development\<close>

text \<open>
  What every component uses: the collections that carry the component proofs, the
  JavaScript value conventions (a string is the list of its UTF-16 code units, a byte
  buffer the list of its bytes, a thrown exception the left side of a sum), and generic
  lemmas on lists, sums and integer bit operations.
\<close>

named_theorems js_num \<open>arithmetic reading of the 32-bit operators, under range side conditions\<close>
named_theorems ops_defs \<open>definitions of small operations, unfolded in component proofs\<close>

type_synonym unit16 = "16 word"
type_synonym jsstr = "unit16 list"
type_synonym byte = "8 word"
type_synonym buffer = "byte list"

text \<open>The code units of an ASCII literal.\<close>

definition js :: "string \<Rightarrow> jsstr" where
  "js s = map (\<lambda>c. of_nat (of_char c)) s"

lemma length_js [simp]: "length (js s) = length s"
  by (simp add: js_def)

text \<open>The exceptions of the code, with their message.\<close>

datatype js_error = RangeError string | TypeError string | PlainError string

lemma unit_bounds: "0 \<le> uint (c :: unit16)" "uint (c :: unit16) < 65536"
  using uint_bounded [of c] by simp_all

lemma byte_bounds: "0 \<le> uint (x :: byte)" "uint (x :: byte) < 256"
  using uint_bounded [of x] by simp_all

subsection \<open>Sums as results\<close>

text \<open>Sequencing of computations that may throw: the first exception wins.\<close>

definition andthen :: "'e + 'a \<Rightarrow> ('a \<Rightarrow> 'e + 'b) \<Rightarrow> 'e + 'b" where
  "andthen r f = (case r of Inl e \<Rightarrow> Inl e | Inr x \<Rightarrow> f x)"

lemma andthen_simps [simp]:
  "andthen (Inl e) f = Inl e"
  "andthen (Inr x) f = f x"
  by (simp_all add: andthen_def)

lemma andthen_Inr_iff: "andthen r f = Inr y \<longleftrightarrow> (\<exists>x. r = Inr x \<and> f x = Inr y)"
  by (cases r) auto

lemma andthen_Inl_iff:
  "andthen r f = Inl e \<longleftrightarrow> r = Inl e \<or> (\<exists>x. r = Inr x \<and> f x = Inl e)"
  by (cases r) auto

definition guard :: "bool \<Rightarrow> 'e \<Rightarrow> 'e + unit" where
  "guard b e = (if b then Inr () else Inl e)"

lemma guard_simps [simp]:
  "guard True e = Inr ()"
  "guard False e = Inl e"
  "guard b e = Inr u \<longleftrightarrow> b"
  "guard b e = Inl e' \<longleftrightarrow> \<not> b \<and> e' = e"
  by (auto simp: guard_def)

subsection \<open>Lists\<close>

lemma drop_eq_Cons_nth: "i < length xs \<Longrightarrow> drop i xs = xs ! i # drop (Suc i) xs"
  by (simp add: Cons_nth_drop_Suc)

lemma take_Suc_nth: "i < length xs \<Longrightarrow> take (Suc i) xs = take i xs @ [xs ! i]"
  by (simp add: take_Suc_conv_app_nth)

lemma append_update_length:
  "length xs = n \<Longrightarrow> (xs @ y # ys)[n := z] = xs @ z # ys"
  by (simp add: list_update_append)

lemma replicate_append_same_update:
  "length xs = n \<Longrightarrow> 0 < k \<Longrightarrow>
   (xs @ replicate k z)[n := v] = (xs @ [v]) @ replicate (k - 1) z"
  by (cases k) (simp_all add: list_update_append)

lemma take_drop_slice:
  "i \<le> j \<Longrightarrow> j \<le> length xs \<Longrightarrow> length (take (j - i) (drop i xs)) = j - i"
  by simp

subsection \<open>String functions of the language\<close>

text \<open>\<open>split\<close> and \<open>join\<close> with a separator of one unit, and \<open>toLowerCase\<close>.\<close>

fun js_split :: "unit16 \<Rightarrow> jsstr \<Rightarrow> jsstr list" where
  "js_split c [] = [[]]"
| "js_split c (x # xs) = (let r = js_split c xs in if x = c then [] # r else (x # hd r) # tl r)"

fun js_join :: "unit16 \<Rightarrow> jsstr list \<Rightarrow> jsstr" where
  "js_join c [] = []"
| "js_join c [x] = x"
| "js_join c (x # y # ys) = x @ c # js_join c (y # ys)"

text \<open>
  \<open>toLowerCase\<close> up to characters outside ASCII: only the dotted capital I and the Kelvin sign have
  lower-case forms with an ASCII letter; every other character outside ASCII stays outside. The
  users of the function only compare with ASCII text (the Punycode decoder, which fails in the same
  way on all of them, and the list of link schemes), so the rest of the case table makes no
  difference to them.
\<close>

definition to_lower :: "jsstr \<Rightarrow> jsstr" where
  "to_lower e = concat (map (\<lambda>c. if 65 \<le> c \<and> c \<le> 90 then [c + 32] else if c = 304 then [105, 775]
     else if c = 8490 then [107] else [c]) e)"

lemma js_split_no: "c \<notin> set x \<Longrightarrow> js_split c x = [x]"
  by (induction x) (auto simp: Let_def)

lemma js_split_nonempty: "js_split c x \<noteq> []"
  by (induction x) (auto simp: Let_def)

lemma js_split_append: "c \<notin> set x \<Longrightarrow> js_split c (x @ c # y) = x # js_split c y"
  by (induction x) (auto simp: Let_def)

lemma js_split_join: "ls \<noteq> [] \<Longrightarrow> list_all (\<lambda>x. c \<notin> set x) ls \<Longrightarrow> js_split c (js_join c ls) = ls"
  by (induction c ls rule: js_join.induct) (auto simp: js_split_no js_split_append)

lemma set_js_join: "set (js_join c ls) \<subseteq> {c} \<union> \<Union> (set ` set ls)"
  by (induction c ls rule: js_join.induct) auto

lemma to_lower_lower: "list_all (\<lambda>c. \<not> (65 \<le> c \<and> c \<le> 90) \<and> c < 128) e \<Longrightarrow> to_lower e = e"
  by (induction e) (auto simp: to_lower_def)

subsection \<open>Bit operations on integers, read as arithmetic\<close>

lemma and_mask_int: "(x::int) AND (2 ^ k - 1) = x mod 2 ^ k"
  by (simp add: take_bit_eq_mask mask_eq_exp_minus_1 flip: take_bit_eq_mod)

lemma or_disjoint_int:
  assumes "(2::int) ^ k dvd a" and "0 \<le> b" and "b < 2 ^ k"
  shows "a OR b = a + b"
proof -
  obtain c where "a = 2 ^ k * c" using assms(1) by (rule dvdE)
  then have a: "a = push_bit k c" by (simp add: push_bit_eq_mult mult.commute)
  have b: "b = take_bit k b" using assms(2,3) by (simp add: take_bit_int_eq_self)
  have "push_bit k c AND take_bit k b = 0"
    by (rule bit_eqI) (simp add: bit_and_iff bit_push_bit_iff bit_take_bit_iff)
  then have "a AND b = 0" using a b by simp
  then show ?thesis using plus_and_or [of a b] by simp
qed

subsection \<open>The interface of a codec\<close>

text \<open>
  What the console relies on when it encodes a value and another part decodes it: decoding an
  encoded value gives the value back, for every value of the codec's domain. The client lemma is
  that the encoder loses nothing.
\<close>

locale codec =
  fixes enc :: "'a \<Rightarrow> 'b" and dec :: "'b \<Rightarrow> 'e + 'a" and dom_ok :: "'a \<Rightarrow> bool"
  assumes dec_enc: "dom_ok x \<Longrightarrow> dec (enc x) = Inr x"
begin

lemma enc_inject:
  assumes "dom_ok x" and "dom_ok y" and "enc x = enc y"
  shows "x = y"
  using dec_enc [OF assms(1)] dec_enc [OF assms(2)] unfolding assms(3) by simp

lemma dec_total_on_range:
  assumes "dom_ok x"
  shows "\<exists>y. dec (enc x) = Inr y \<and> dom_ok y"
  using assms dec_enc by blast

end

end
