(* ===== verification/JsNum.thy ===== *)
theory JsNum
  imports Prelude
begin

unbundle bit_operations_syntax

section \<open>JavaScript integers\<close>

text \<open>
  A JavaScript number that is an integer is an \<open>int\<close> (exact below \<open>2 ^ 53\<close>). The bitwise
  operators first convert their operands with the language's \<open>ToInt32\<close> or \<open>ToUint32\<close> and give
  a 32-bit result, so the wrap-around is written out here and every use of \<open><<\<close>, \<open>>>\<close>, \<open>>>>\<close>,
  \<open>&\<close>, \<open>|\<close>, \<open>^\<close> in the code is one of these operators. The lemmas of the collection
  \<open>js_num\<close> read them as arithmetic where the operands are in range.
\<close>

definition to_uint32 :: "int \<Rightarrow> int" where
  "to_uint32 x = x mod 2 ^ 32"

definition to_int32 :: "int \<Rightarrow> int" where
  "to_int32 x = (let m = x mod 2 ^ 32 in if 2 ^ 31 \<le> m then m - 2 ^ 32 else m)"

definition js_shl :: "int \<Rightarrow> nat \<Rightarrow> int" where
  "js_shl x k = to_int32 (to_int32 x * 2 ^ (k mod 32))"

definition js_sar :: "int \<Rightarrow> nat \<Rightarrow> int" where
  "js_sar x k = to_int32 x div 2 ^ (k mod 32)"

definition js_shr :: "int \<Rightarrow> nat \<Rightarrow> int" where
  "js_shr x k = to_uint32 x div 2 ^ (k mod 32)"

definition js_and :: "int \<Rightarrow> int \<Rightarrow> int" where
  "js_and x y = to_int32 x AND to_int32 y"

definition js_or :: "int \<Rightarrow> int \<Rightarrow> int" where
  "js_or x y = to_int32 x OR to_int32 y"

definition js_xor :: "int \<Rightarrow> int \<Rightarrow> int" where
  "js_xor x y = to_int32 x XOR to_int32 y"

subsection \<open>The conversions\<close>

lemma to_int32_id [js_num]:
  assumes "- (2 ^ 31) \<le> x" and "x < 2 ^ 31"
  shows "to_int32 x = x"
proof (cases "0 \<le> x")
  case True
  with assms show ?thesis by (simp add: to_int32_def)
next
  case False
  have "x mod 2 ^ 32 = (x + 2 ^ 32) mod 2 ^ 32" by simp
  also have "\<dots> = x + 2 ^ 32"
    using assms False by (intro mod_pos_pos_trivial) auto
  finally show ?thesis using assms False by (simp add: to_int32_def)
qed

lemma to_int32_range: "- (2 ^ 31) \<le> to_int32 x \<and> to_int32 x < 2 ^ 31"
  using pos_mod_bound [of "2 ^ 32" x] pos_mod_sign [of "2 ^ 32" x]
  by (auto simp: to_int32_def Let_def)

lemma to_uint32_range: "0 \<le> to_uint32 x \<and> to_uint32 x < 2 ^ 32"
  by (simp add: to_uint32_def)

lemma to_int32_mod: "to_int32 x mod 2 ^ 32 = x mod 2 ^ 32"
  by (simp add: to_int32_def Let_def)

lemma to_int32_mod_le:
  assumes "k \<le> 32"
  shows "to_int32 x mod 2 ^ k = x mod 2 ^ k"
proof -
  have "(2::int) ^ k dvd 2 ^ 32" using assms by (rule le_imp_power_dvd)
  then have "y mod 2 ^ 32 mod 2 ^ k = y mod 2 ^ k" for y :: int by (rule mod_mod_cancel)
  from this [of "to_int32 x"] this [of x] show ?thesis by (simp only: to_int32_mod)
qed

lemma to_int32_cong: "x mod 2 ^ 32 = y mod 2 ^ 32 \<Longrightarrow> to_int32 x = to_int32 y"
  by (simp add: to_int32_def)

lemma to_int32_idem [simp]: "to_int32 (to_int32 x) = to_int32 x"
  by (rule to_int32_cong) (rule to_int32_mod)

lemma to_uint32_id [js_num]: "0 \<le> x \<Longrightarrow> x < 2 ^ 32 \<Longrightarrow> to_uint32 x = x"
  by (simp add: to_uint32_def)

subsection \<open>The operators in range\<close>

lemma js_and_mask: "k < 31 \<Longrightarrow> js_and x (2 ^ k - 1) = x mod 2 ^ k"
proof -
  assume k: "k < 31"
  have "(2::int) ^ k \<le> 2 ^ 30" using k by (intro power_increasing) auto
  then have "(2::int) ^ k \<le> 1073741824" by simp
  moreover have "(1::int) \<le> 2 ^ k" by simp
  ultimately have "- 2147483648 \<le> (2::int) ^ k - 1" "(2::int) ^ k - 1 < 2147483648"
    by linarith+
  then have "to_int32 (2 ^ k - 1) = 2 ^ k - 1" by (intro to_int32_id) simp_all
  then have "js_and x (2 ^ k - 1) = to_int32 x mod 2 ^ k"
    by (simp only: js_and_def and_mask_int)
  then show ?thesis using k by (simp only: to_int32_mod_le)
qed

lemma js_and_masks [js_num]:
  "js_and x 1 = x mod 2" "js_and x 7 = x mod 8" "js_and x 15 = x mod 16"
  "js_and x 31 = x mod 32" "js_and x 63 = x mod 64" "js_and x 127 = x mod 128"
  "js_and x 255 = x mod 256" "js_and x 1023 = x mod 1024" "js_and x 65535 = x mod 65536"
  subgoal by (rule js_and_mask [of 1 x, simplified])
  subgoal by (rule js_and_mask [of 3 x, simplified])
  subgoal by (rule js_and_mask [of 4 x, simplified])
  subgoal by (rule js_and_mask [of 5 x, simplified])
  subgoal by (rule js_and_mask [of 6 x, simplified])
  subgoal by (rule js_and_mask [of 7 x, simplified])
  subgoal by (rule js_and_mask [of 8 x, simplified])
  subgoal by (rule js_and_mask [of 10 x, simplified])
  subgoal by (rule js_and_mask [of 16 x, simplified])
  done

lemma js_and_commute: "js_and x y = js_and y x"
  by (simp add: js_and_def and.commute)

lemma js_and_masks_left [js_num]:
  "js_and 1 x = x mod 2" "js_and 7 x = x mod 8" "js_and 15 x = x mod 16"
  "js_and 31 x = x mod 32" "js_and 63 x = x mod 64" "js_and 127 x = x mod 128"
  "js_and 255 x = x mod 256" "js_and 1023 x = x mod 1024" "js_and 65535 x = x mod 65536"
  by (simp_all add: js_and_commute [of _ x] js_num)

lemma js_sar_div [js_num]:
  "- (2 ^ 31) \<le> x \<Longrightarrow> x < 2 ^ 31 \<Longrightarrow> k < 32 \<Longrightarrow> js_sar x k = x div 2 ^ k"
  by (simp add: js_sar_def to_int32_id)

lemma js_shr_div [js_num]:
  "0 \<le> x \<Longrightarrow> x < 2 ^ 32 \<Longrightarrow> k < 32 \<Longrightarrow> js_shr x k = x div 2 ^ k"
  by (simp add: js_shr_def to_uint32_id)

lemma js_shl_mult [js_num]:
  assumes "0 \<le> x" and "x < 2 ^ (31 - k)" and "k < 32"
  shows "js_shl x k = x * 2 ^ k"
proof -
  have "x * 2 ^ k < 2 ^ (31 - k) * 2 ^ k"
    using assms by simp
  also have "(2::int) ^ (31 - k) * 2 ^ k = 2 ^ 31"
    using assms by (simp flip: power_add)
  finally have *: "x * 2 ^ k < 2 ^ 31" .
  have "(2::int) ^ (31 - k) \<le> 2 ^ 31" by (intro power_increasing) auto
  then have "x < 2 ^ 31" using assms by linarith
  then show ?thesis
    using assms to_int32_id [of x] to_int32_id [OF _ *] by (simp add: js_shl_def order_trans [of _ 0])
qed

lemma js_or_disjoint:
  assumes "(2::int) ^ k dvd a" and "0 \<le> b" and "b < 2 ^ k" and "0 \<le> a" and "a < 2 ^ 31"
    and "b < 2 ^ 31"
  shows "js_or a b = a + b"
proof -
  have "to_int32 a = a" "to_int32 b = b"
    using assms by (auto intro!: to_int32_id)
  then show ?thesis
    using or_disjoint_int [OF assms(1-3)] by (simp add: js_or_def)
qed

lemma js_or_commute: "js_or x y = js_or y x"
  by (simp add: js_or_def or.commute)

lemma js_and_range_nonneg: "0 \<le> y \<Longrightarrow> y < 2 ^ 31 \<Longrightarrow> 0 \<le> js_and x y \<and> js_and x y \<le> y"
  by (simp add: js_and_def to_int32_id AND_upper2)

end
