(* ===== verification/Base64.thy ===== *)
theory Base64
  imports JsNum
begin

section \<open>Base64 codec (base64-js, module 528 of swagger-ui-bundle.js)\<close>

text \<open>
  The console encodes basic-auth credentials and binary request bodies with
  \<open>Buffer.toString("base64")\<close>, which is this module. The alphabet and the reverse table, the
  length computation, the encoder with its 16383-byte chunks and the decoder with its one
  and two byte tails are translated as written. The reference encoding \<open>b64_spec\<close> works on
  three bytes at a time with no chunking; the encoder is proved equal to it, and the decoder is
  proved to invert it.
\<close>

subsection \<open>Tables\<close>

definition b64_alphabet :: jsstr where
  "b64_alphabet = js ''ABCDEFGHIJKLMNOPQRSTUVWXYZabcdefghijklmnopqrstuvwxyz0123456789+/''"

text \<open>\<open>r[i]\<close>, for an index the encoder has masked to six bits.\<close>

definition b64_char :: "int \<Rightarrow> unit16" where
  "b64_char i = b64_alphabet ! nat i"

text \<open>
  \<open>o[c]\<close>: the table filled from the alphabet, then the URL-safe entries for \<open>-\<close> and \<open>_\<close>. A code
  with no entry is \<open>undefined\<close>, which the shift operators read as 0.
\<close>

definition b64_entries :: "(unit16 \<times> int) list" where
  "b64_entries = (js ''-'' ! 0, 62) # (js ''_'' ! 0, 63) # zip b64_alphabet [0..63]"

definition b64_rev :: "unit16 \<Rightarrow> int" where
  "b64_rev c = (case map_of b64_entries c of None \<Rightarrow> 0 | Some v \<Rightarrow> v)"

definition b64_pad :: unit16 where
  "b64_pad = js ''='' ! 0"

subsection \<open>Lengths\<close>

datatype b64_error = BadLength | InvalidArrayLength

definition index_of :: "unit16 \<Rightarrow> jsstr \<Rightarrow> nat option" where
  "index_of c s = (let n = length (takeWhile (\<lambda>x. x \<noteq> c) s) in if n < length s then Some n else None)"

text \<open>\<open>l(e)\<close>: the length of the data part and the number of padding positions.\<close>

definition b64_get_lens :: "jsstr \<Rightarrow> b64_error + (nat \<times> nat)" where
  "b64_get_lens e =
     (let t = length e in
      if 0 < t mod 4 then Inl BadLength
      else let n = (case index_of b64_pad e of None \<Rightarrow> t | Some k \<Rightarrow> k)
           in Inr (n, if n = t then 0 else 4 - n mod 4))"

definition b64_byte_len :: "nat \<Rightarrow> nat \<Rightarrow> int" where
  "b64_byte_len n r = 3 * (int n + int r) div 4 - int r"

definition b64_byte_length :: "jsstr \<Rightarrow> b64_error + int" where
  "b64_byte_length e = andthen (b64_get_lens e) (\<lambda>(n, r). Inr (b64_byte_len n r))"

subsection \<open>Decoding\<close>

text \<open>\<open>e.charCodeAt(i)\<close> followed by the table lookup; past the end the code is NaN, so \<open>undefined\<close>.\<close>

definition b64_at :: "jsstr \<Rightarrow> nat \<Rightarrow> int" where
  "b64_at e i = (if i < length e then b64_rev (e ! i) else 0)"

text \<open>
  The loop over whole quadruples: the typed array \<open>u\<close>, the write position \<open>s\<close> and the read
  position \<open>f\<close> (a write past the end of a typed array is ignored, as a list update is). It
  returns the array and both positions.
\<close>

function b64_quads :: "jsstr \<Rightarrow> int \<Rightarrow> byte list \<Rightarrow> nat \<Rightarrow> nat \<Rightarrow> byte list \<times> nat \<times> nat" where
  "b64_quads e c u s f =
     (if int f < c then
        let t = js_or (js_or (js_or (js_shl (b64_at e f) 18) (js_shl (b64_at e (f + 1)) 12))
                             (js_shl (b64_at e (f + 2)) 6)) (b64_at e (f + 3));
            u1 = u[s := of_int (js_and (js_sar t 16) 255)];
            u2 = u1[s + 1 := of_int (js_and (js_sar t 8) 255)];
            u3 = u2[s + 2 := of_int (js_and 255 t)]
        in b64_quads e c u3 (s + 3) (f + 4)
      else (u, s, f))"
  by pat_completeness auto
termination
  by (relation "measure (\<lambda>(e, c, u, s, f). nat (c - int f))") auto

declare b64_quads.simps [simp del]

definition to_byte_array :: "jsstr \<Rightarrow> b64_error + buffer" where
  "to_byte_array e =
     andthen (b64_get_lens e) (\<lambda>(r, a).
       let len = b64_byte_len r a in
       if len < 0 then Inl InvalidArrayLength
       else
         let c = (if 0 < a then int r - 4 else int r);
             (u, s, f) = b64_quads e c (replicate (nat len) 0) 0 0
         in if a = 2 then
              let t = js_or (js_shl (b64_at e f) 2) (js_sar (b64_at e (f + 1)) 4)
              in Inr (u[s := of_int (js_and 255 t)])
            else if a = 1 then
              let t = js_or (js_or (js_shl (b64_at e f) 10) (js_shl (b64_at e (f + 1)) 4))
                            (js_sar (b64_at e (f + 2)) 2);
                  u1 = u[s := of_int (js_and (js_sar t 8) 255)]
              in Inr (u1[s + 1 := of_int (js_and 255 t)])
            else Inr u)"

subsection \<open>Encoding\<close>

definition byte_at :: "buffer \<Rightarrow> nat \<Rightarrow> int" where
  "byte_at e i = (if i < length e then uint (e ! i) else 0)"

text \<open>\<open>c(e, t, n)\<close>: the characters of the bytes from \<open>u\<close> up to \<open>n\<close>, three at a time.\<close>

function encode_chunk :: "buffer \<Rightarrow> nat \<Rightarrow> nat \<Rightarrow> jsstr" where
  "encode_chunk e u n =
     (if u < n then
        let o' = js_and (js_shl (byte_at e u) 16) 16711680
               + js_and (js_shl (byte_at e (u + 1)) 8) 65280 + js_and 255 (byte_at e (u + 2))
        in [b64_char (js_and (js_sar o' 18) 63), b64_char (js_and (js_sar o' 12) 63),
            b64_char (js_and (js_sar o' 6) 63), b64_char (js_and 63 o')]
           @ encode_chunk e (u + 3) n
      else [])"
  by pat_completeness auto
termination
  by (relation "measure (\<lambda>(e, u, n). n - u)") auto

declare encode_chunk.simps [simp del]

text \<open>The chunk loop of \<open>fromByteArray\<close>: \<open>a\<close> advances by 16383.\<close>

function encode_chunks :: "buffer \<Rightarrow> nat \<Rightarrow> nat \<Rightarrow> jsstr" where
  "encode_chunks e a u =
     (if a < u then encode_chunk e a (if u < a + 16383 then u else a + 16383)
                    @ encode_chunks e (a + 16383) u
      else [])"
  by pat_completeness auto
termination
  by (relation "measure (\<lambda>(e, a, u). u - a)") auto

declare encode_chunks.simps [simp del]

definition from_byte_array :: "buffer \<Rightarrow> jsstr" where
  "from_byte_array e =
     (let n = length e; o' = n mod 3; body = encode_chunks e 0 (n - o') in
      if o' = 1 then
        let t = byte_at e (n - 1)
        in body @ [b64_char (js_sar t 2), b64_char (js_and (js_shl t 4) 63), b64_pad, b64_pad]
      else if o' = 2 then
        let t = js_shl (byte_at e (n - 2)) 8 + byte_at e (n - 1)
        in body @ [b64_char (js_sar t 10), b64_char (js_and (js_sar t 4) 63),
                   b64_char (js_and (js_shl t 2) 63), b64_pad]
      else body)"

subsection \<open>The reference encoding\<close>

fun b64_spec :: "buffer \<Rightarrow> jsstr" where
  "b64_spec [] = []"
| "b64_spec [x] = [b64_char (uint x div 4), b64_char (uint x mod 4 * 16), b64_pad, b64_pad]"
| "b64_spec [x, y] =
     (let n = uint x * 256 + uint y
      in [b64_char (n div 1024), b64_char (n div 16 mod 64), b64_char (n mod 16 * 4), b64_pad])"
| "b64_spec (x # y # z # r) =
     (let n = uint x * 65536 + uint y * 256 + uint z
      in [b64_char (n div 262144), b64_char (n div 4096 mod 64), b64_char (n div 64 mod 64),
          b64_char (n mod 64)] @ b64_spec r)"

lemma mod_byte: "uint (w :: byte) mod 256 = uint w"
  using byte_bounds [of w] by simp

lemma length_b64_spec: "length (b64_spec e) = 4 * ((length e + 2) div 3)"
proof (induction e rule: b64_spec.induct)
  case (4 x y z r)
  have "(length (x # y # z # r) + 2) div 3 = Suc ((length r + 2) div 3)" by simp
  with 4 show ?case by (simp add: Let_def)
qed (simp_all add: Let_def)

lemma dvd3_Suc3: "3 dvd Suc (Suc (Suc k)) \<longleftrightarrow> 3 dvd k" "\<not> 3 dvd Suc 0" "\<not> 3 dvd Suc (Suc 0)"
  by presburger+

lemma b64_spec_append:
  "3 dvd length xs \<Longrightarrow> b64_spec (xs @ ys) = b64_spec xs @ b64_spec ys"
  by (induction xs rule: b64_spec.induct) (simp_all add: Let_def dvd3_Suc3)

subsection \<open>The encoder is the reference encoding\<close>

lemma and_ff00:
  assumes "0 \<le> y" "y < 256"
  shows "js_and (js_shl y 8) 65280 = y * 256"
proof -
  have 1: "js_shl y 8 = y * 256" using assms by (simp add: js_shl_mult)
  have "y * 256 AND 65280 = push_bit 8 y AND push_bit 8 (255 :: int)"
    by (simp add: push_bit_eq_mult)
  also have "\<dots> = push_bit 8 (y AND 255)" by (simp only: push_bit_and)
  also have "y AND 255 = y" using and_mask_int [of y 8] assms by simp
  finally have 2: "y * 256 AND 65280 = y * 256" by (simp add: push_bit_eq_mult)
  show ?thesis using assms 2 by (simp add: 1 js_and_def to_int32_id)
qed

lemma and_ff0000:
  assumes "0 \<le> y" "y < 256"
  shows "js_and (js_shl y 16) 16711680 = y * 65536"
proof -
  have 1: "js_shl y 16 = y * 65536" using assms by (simp add: js_shl_mult)
  have "y * 65536 AND 16711680 = push_bit 16 y AND push_bit 16 (255 :: int)"
    by (simp add: push_bit_eq_mult)
  also have "\<dots> = push_bit 16 (y AND 255)" by (simp only: push_bit_and)
  also have "y AND 255 = y" using and_mask_int [of y 8] assms by simp
  finally have 2: "y * 65536 AND 16711680 = y * 65536" by (simp add: push_bit_eq_mult)
  show ?thesis using assms 2 by (simp add: 1 js_and_def to_int32_id)
qed

lemma sar_24:
  assumes "0 \<le> n" "n < 16777216"
  shows "js_sar n 18 = n div 262144" "js_sar n 12 = n div 4096" "js_sar n 6 = n div 64"
    "js_sar n 16 = n div 65536" "js_sar n 8 = n div 256" "n div 262144 mod 64 = n div 262144"
    "n div 65536 mod 256 = n div 65536"
  using assms by (simp_all add: js_sar_div)

lemma encode_chunk_spec:
  assumes "n \<le> length e" and "3 dvd n - u"
  shows "encode_chunk e u n = b64_spec (take (n - u) (drop u e))"
  using assms
proof (induction e u n rule: encode_chunk.induct)
  case (1 e u n)
  show ?case
  proof (cases "u < n")
    case False
    then show ?thesis by (simp add: encode_chunk.simps [of e u n])
  next
    case True
    with "1.prems" have u3: "u + 3 \<le> n" by presburger
    with "1.prems" have "u + 2 < length e" by simp
    then have dr: "drop u e = e ! u # e ! (u + 1) # e ! (u + 2) # drop (u + 3) e"
      by (simp add: drop_eq_Cons_nth numeral_2_eq_2 numeral_3_eq_3)
    define k where "k = n - (u + 3)"
    have k: "n - u = Suc (Suc (Suc k))" "n - (u + 3) = k"
      using u3 by (simp_all add: k_def)
    then have "3 dvd n - (u + 3)" using "1.prems"(2) by (simp add: dvd3_Suc3)
    with "1.IH" [OF True] "1.prems"(1) k
    have IH: "encode_chunk e (u + 3) n = b64_spec (take k (drop (u + 3) e))" by simp
    have x: "byte_at e u = uint (e ! u)" "byte_at e (u + 1) = uint (e ! (u + 1))"
      "byte_at e (u + 2) = uint (e ! (u + 2))"
      using \<open>u + 2 < length e\<close> by (simp_all add: byte_at_def)
    note b = byte_bounds [of "e ! u"] byte_bounds [of "e ! (u + 1)"] byte_bounds [of "e ! (u + 2)"]
    let ?n = "uint (e ! u) * 65536 + uint (e ! (u + 1)) * 256 + uint (e ! (u + 2))"
    have n: "0 \<le> ?n" "?n < 16777216" using b by linarith+
    show ?thesis
      using True
      by (simp only: encode_chunk.simps [of e u n] if_True IH dr k x and_ff00 [OF b(3,4)]
          and_ff0000 [OF b(1,2)] js_and_masks js_and_masks_left mod_byte sar_24 [OF n] Let_def
          take_Suc_Cons b64_spec.simps)
  qed
qed

lemma encode_chunks_spec:
  assumes "u \<le> length e" and "3 dvd u - a"
  shows "encode_chunks e a u = b64_spec (take (u - a) (drop a e))"
  using assms
proof (induction e a u rule: encode_chunks.induct)
  case (1 e a u)
  show ?case
  proof (cases "a + 16383 \<le> u")
    case True
    then have dvd: "3 dvd u - (a + 16383)"
      using "1.prems"(2) by presburger
    have hd: "encode_chunk e a (a + 16383) = b64_spec (take 16383 (drop a e))"
      using encode_chunk_spec [of "a + 16383" e a] True "1.prems"(1) by simp
    have tl: "encode_chunks e (a + 16383) u = b64_spec (take (u - (a + 16383)) (drop (a + 16383) e))"
      using "1.IH" True "1.prems"(1) dvd by simp
    have len: "16383 + (u - (a + 16383)) = u - a" using True by simp
    have "take (u - a) (drop a e)
        = take 16383 (drop a e) @ take (u - (a + 16383)) (drop (a + 16383) e)"
      using take_add [of 16383 "u - (a + 16383)" "drop a e"]
      by (simp only: len drop_drop add.commute [of 16383 a])
    then show ?thesis
      using True "1.prems"(1)
      by (simp add: encode_chunks.simps [of e a u] hd tl b64_spec_append)
  next
    case False
    then show ?thesis
      using "1.prems" encode_chunk_spec [of u e a]
      by (simp add: encode_chunks.simps [of e a u] encode_chunks.simps [of e "a + 16383" u])
  qed
qed

lemma split_last_group:
  obtains p t where "e = p @ t" "3 dvd length p" "t = [] \<or> (\<exists>x. t = [x]) \<or> (\<exists>x y. t = [x, y])"
proof -
  define m where "m = length e - length e mod 3"
  define t where "t = drop m e"
  have "length t = length e mod 3" by (simp add: t_def m_def)
  moreover have "length e mod 3 = 0 \<or> length e mod 3 = Suc 0 \<or> length e mod 3 = Suc (Suc 0)"
    by presburger
  ultimately have "length t = 0 \<or> length t = Suc 0 \<or> length t = Suc (Suc 0)" by simp
  then have t: "t = [] \<or> (\<exists>x. t = [x]) \<or> (\<exists>x y. t = [x, y])"
    by (auto simp: length_Suc_conv)
  have "3 dvd length (take m e)" by (simp add: m_def minus_mod_eq_mult_div)
  then show ?thesis using t that [of "take m e" t] by (simp add: t_def)
qed

lemma encode_body:
  "3 dvd length p \<Longrightarrow> encode_chunks (p @ t) 0 (length p) = b64_spec p"
  using encode_chunks_spec [of "length p" "p @ t" 0] by simp

lemma dvd3_mod:
  fixes n :: nat
  assumes "3 dvd n"
  shows "n mod 3 = 0" "Suc n mod 3 = 1" "Suc (Suc n) mod 3 = 2"
  using assms by presburger+

lemma tail_arith1:
  fixes x :: int
  assumes "0 \<le> x" "x < 256"
  shows "js_sar x 2 = x div 4" "js_and (js_shl x 4) 63 = x mod 4 * 16" "js_shl x 8 = x * 256"
  using assms mult_mod_left [of x 4 16]
  by (simp_all add: js_sar_div js_shl_mult js_and_masks)

lemma tail_arith2:
  fixes n :: int
  assumes "0 \<le> n" "n < 65536"
  shows "js_sar n 10 = n div 1024" "js_sar n 4 = n div 16" "js_shl n 2 mod 64 = n mod 16 * 4"
  using assms mult_mod_left [of n 16 4]
  by (simp_all add: js_sar_div js_shl_mult js_and_masks)

lemma pair_bounds: "0 \<le> uint (x :: byte) * 256 + uint (y :: byte)" "uint x * 256 + uint y < 65536"
  using byte_bounds [of x] byte_bounds [of y] by linarith+

lemma from_byte_array_eq_spec: "from_byte_array e = b64_spec e"
proof -
  obtain p t where e: "e = p @ t" "3 dvd length p"
    and t: "t = [] \<or> (\<exists>x. t = [x]) \<or> (\<exists>x y. t = [x, y])"
    by (rule split_last_group)
  note m = dvd3_mod [OF e(2)]
  from t consider (none) "t = []" | (one) x where "t = [x]" | (two) x y where "t = [x, y]" by blast
  then show ?thesis
  proof cases
    case none
    then show ?thesis
      using e m encode_body [OF e(2), of "[]"] by (simp add: from_byte_array_def)
  next
    case (one x)
    then show ?thesis
      using e m encode_body [OF e(2), of "[x]"]
      by (simp add: from_byte_array_def b64_spec_append byte_at_def nth_append byte_bounds
          tail_arith1 Let_def)
  next
    case (two x y)
    then show ?thesis
      using e m encode_body [OF e(2), of "[x, y]"]
      by (simp add: from_byte_array_def b64_spec_append byte_at_def nth_append byte_bounds
          tail_arith1 tail_arith2 pair_bounds js_and_masks Let_def)
  qed
qed

subsection \<open>The decoder inverts it\<close>

lemma b64_alphabet_facts:
  "length b64_alphabet = 64" "distinct b64_alphabet" "b64_pad \<notin> set b64_alphabet"
  "js ''-'' ! 0 \<notin> set b64_alphabet" "js ''_'' ! 0 \<notin> set b64_alphabet"
  by (simp_all add: b64_alphabet_def b64_pad_def js_def)

lemma map_of_zip_upto:
  assumes "distinct xs" "k < length xs" "int (length xs) = n + 1"
  shows "map_of (zip xs [0..n]) (xs ! k) = Some (int k)"
  using map_of_zip_nth [of xs "[0..n]" k] assms by simp

lemma b64_rev_char:
  assumes "0 \<le> k" "k < 64"
  shows "b64_rev (b64_char k) = k" "b64_char k \<noteq> b64_pad"
proof -
  have mem: "b64_char k \<in> set b64_alphabet"
    using assms b64_alphabet_facts(1) by (simp add: b64_char_def)
  then show "b64_char k \<noteq> b64_pad" using b64_alphabet_facts(3) by auto
  have "map_of (zip b64_alphabet [0..63]) (b64_char k) = Some k"
    using assms b64_alphabet_facts(1,2) map_of_zip_upto [of b64_alphabet "nat k" 63]
    by (simp add: b64_char_def)
  moreover have "b64_char k \<noteq> js ''-'' ! 0" "b64_char k \<noteq> js ''_'' ! 0"
    using mem b64_alphabet_facts(4,5) by metis+
  ultimately show "b64_rev (b64_char k) = k"
    by (simp add: b64_rev_def b64_entries_def)
qed

lemma or4:
  assumes "0 \<le> a" "a < 64" "0 \<le> b" "b < 64" "0 \<le> c" "c < 64" "0 \<le> d" "d < 64"
  shows "js_or (js_or (js_or (js_shl a 18) (js_shl b 12)) (js_shl c 6)) d
    = a * 262144 + b * 4096 + c * 64 + d"
proof -
  have 1: "js_or (a * 262144) (b * 4096) = a * 262144 + b * 4096"
    using assms by (intro js_or_disjoint [where k = 18]) auto
  have 2: "js_or (a * 262144 + b * 4096) (c * 64) = a * 262144 + b * 4096 + c * 64"
    using assms by (intro js_or_disjoint [where k = 12]) auto
  have 3: "js_or (a * 262144 + b * 4096 + c * 64) d = a * 262144 + b * 4096 + c * 64 + d"
    using assms by (intro js_or_disjoint [where k = 6]) auto
  show ?thesis using assms by (simp add: js_shl_mult 1 2 3)
qed

lemma digits64_sum:
  fixes n :: int
  assumes "n = q1 * 64 + r0" "q1 = q2 * 64 + r1" "q2 = q3 * 64 + r2"
  shows "q3 * 262144 + r2 * 4096 + r1 * 64 + r0 = n"
  using assms by simp

lemma digits64:
  fixes n :: int
  assumes "0 \<le> n" "n < 16777216"
  shows "n div 262144 * 262144 + n div 4096 mod 64 * 4096 + n div 64 mod 64 * 64 + n mod 64 = n"
    "n div 262144 < 64" "0 \<le> n div 262144"
proof -
  have q: "n div 4096 = n div 64 div 64" "n div 262144 = n div 4096 div 64"
    by (simp_all flip: zdiv_zmult2_eq)
  show "n div 262144 * 262144 + n div 4096 mod 64 * 4096 + n div 64 mod 64 * 64 + n mod 64 = n"
    by (rule digits64_sum [of n "n div 64" "n mod 64" "n div 4096" _ "n div 262144"])
      (simp_all only: q mod_div_trivial div_mult_mod_eq)
  show "n div 262144 < 64" "0 \<le> n div 262144" using assms by simp_all
qed

text \<open>One quadruple of the reference encoding decodes to its three bytes.\<close>

lemma quad_decodes:
  fixes x y z :: byte
  defines "n \<equiv> uint x * 65536 + uint y * 256 + uint z"
  shows "js_or (js_or (js_or (js_shl (n div 262144) 18) (js_shl (n div 4096 mod 64) 12))
           (js_shl (n div 64 mod 64) 6)) (n mod 64) = n"
    and "of_int (js_and (js_sar n 16) 255) = x" and "of_int (js_and (js_sar n 8) 255) = y"
    and "of_int (js_and 255 n) = z" and "0 \<le> n div 262144" and "n div 262144 < 64"
proof -
  note b = byte_bounds [of x] byte_bounds [of y] byte_bounds [of z]
  have n: "0 \<le> n" "n < 16777216" using b unfolding n_def by linarith+
  show "js_or (js_or (js_or (js_shl (n div 262144) 18) (js_shl (n div 4096 mod 64) 12))
           (js_shl (n div 64 mod 64) 6)) (n mod 64) = n"
    by (rule trans [OF or4 digits64(1) [OF n]]) (use digits64(2,3) [OF n] in simp_all)
  have nx: "n = (uint y * 256 + uint z) + uint x * 65536"
    and ny: "n = uint z + (uint x * 256 + uint y) * 256" by (simp_all add: n_def)
  have "n div 65536 = uint x"
    unfolding nx using b pair_bounds [of y z] by (simp add: div_mult_self1)
  moreover have "n div 256 = uint x * 256 + uint y"
    unfolding ny using b by (simp only: div_mult_self1 div_pos_pos_trivial)
  ultimately show "of_int (js_and (js_sar n 16) 255) = x" "of_int (js_and (js_sar n 8) 255) = y"
    using mod_byte [of x] mod_byte [of y] by (simp_all add: sar_24 [OF n] js_and_masks)
  have "n = (uint x * 256 + uint y) * 256 + uint z" by (simp add: n_def)
  then have "n mod 256 = uint z" by (simp only: mod_mult_self3 mod_byte)
  then show "of_int (js_and 255 n) = z" by (simp only: js_and_masks_left word_of_int_uint)
  show "0 \<le> n div 262144" "n div 262144 < 64" by (rule digits64(3) [OF n], rule digits64(2) [OF n])
qed

lemma b64_at_drop: "drop f e = c # q \<Longrightarrow> b64_at e f = b64_rev c"
  by (metis b64_at_def drop_all list.distinct(1) not_less nth_via_drop)

lemma drop_shift: "drop f e = c # q \<Longrightarrow> drop (Suc f) e = q"
  by (metis drop_Suc list.sel(3) tl_drop)

lemma b64_at4:
  assumes "drop f e = c0 # c1 # c2 # c3 # q"
  shows "b64_at e f = b64_rev c0" "b64_at e (f + 1) = b64_rev c1" "b64_at e (f + 2) = b64_rev c2"
    "b64_at e (f + 3) = b64_rev c3" "drop (f + 4) e = q"
proof -
  note d1 = drop_shift [OF assms]
  note d2 = drop_shift [OF d1]
  note d3 = drop_shift [OF d2]
  show "b64_at e f = b64_rev c0" "b64_at e (f + 1) = b64_rev c1" "b64_at e (f + 2) = b64_rev c2"
    "b64_at e (f + 3) = b64_rev c3" "drop (f + 4) e = q"
    using b64_at_drop [OF assms] b64_at_drop [OF d1] b64_at_drop [OF d2] b64_at_drop [OF d3]
      drop_shift [OF d3] by (simp_all add: eval_nat_numeral)
qed

lemma update3:
  "length pre = s \<Longrightarrow>
   ((pre @ a # b # c # rest)[s := x])[s + 1 := y, s + 2 := z] = pre @ x # y # z # rest"
  by (simp add: list_update_append)

lemma b64_quads_spec:
  assumes "drop f e = b64_spec xs @ tl0" and "3 dvd length xs"
    and "c \<le> int (f + 4 * (length xs div 3))" and "int (f + 4 * (length xs div 3)) < c + 4"
    and "length pre = s" and "length xs \<le> length rest"
  shows "b64_quads e c (pre @ rest) s f
    = (pre @ xs @ drop (length xs) rest, s + length xs, f + 4 * (length xs div 3))"
  using assms
proof (induction xs arbitrary: f pre rest s rule: b64_spec.induct)
  case 1
  then show ?case by (simp add: b64_quads.simps)
next
  case (2 x)
  then show ?case by (simp add: dvd3_Suc3)
next
  case (3 x y)
  then show ?case by (simp add: dvd3_Suc3)
next
  case (4 x y z r)
  let ?n = "uint x * 65536 + uint y * 256 + uint z"
  note qd = quad_decodes [of x y z]
  have div3: "length (x # y # z # r) div 3 = Suc (length r div 3)" by simp
  have fc: "int f < c" using "4.prems"(4) div3 by simp
  obtain a b d rest' where rest: "rest = a # b # d # rest'" "length r \<le> length rest'"
    using "4.prems"(6) by (auto simp: Suc_le_length_iff)
  have d0: "drop f e = b64_char (?n div 262144) # b64_char (?n div 4096 mod 64)
      # b64_char (?n div 64 mod 64) # b64_char (?n mod 64) # b64_spec r @ tl0"
    using "4.prems"(1) by (simp add: Let_def)
  have rev: "b64_rev (b64_char (?n div 262144)) = ?n div 262144"
    "b64_rev (b64_char (?n div 4096 mod 64)) = ?n div 4096 mod 64"
    "b64_rev (b64_char (?n div 64 mod 64)) = ?n div 64 mod 64"
    "b64_rev (b64_char (?n mod 64)) = ?n mod 64"
    by (rule b64_rev_char(1); rule qd(5) qd(6) pos_mod_sign pos_mod_bound; simp)+
  note at = b64_at4 [OF d0, unfolded rev]
  have IH: "b64_quads e c ((pre @ [x, y, z]) @ rest') (s + 3) (f + 4)
    = ((pre @ [x, y, z]) @ r @ drop (length r) rest', s + 3 + length r, f + 4 + 4 * (length r div 3))"
  proof (rule "4.IH" [OF refl])
    show "drop (f + 4) e = b64_spec r @ tl0"
      by (rule at(5))
    show "3 dvd length r" using "4.prems"(2) by (simp add: dvd3_Suc3)
    show "c \<le> int (f + 4 + 4 * (length r div 3))" "int (f + 4 + 4 * (length r div 3)) < c + 4"
      using "4.prems"(3,4) unfolding div3 by simp_all
    show "length (pre @ [x, y, z]) = s + 3" using "4.prems"(5) by simp
    show "length r \<le> length rest'" by (rule rest(2))
  qed
  have "b64_quads e c (pre @ rest) s f = b64_quads e c ((pre @ [x, y, z]) @ rest') (s + 3) (f + 4)"
    using fc update3 [OF "4.prems"(5), of a b d rest' x y z]
    by (simp only: b64_quads.simps [of e c _ s f] if_True at(1-4) qd(1-4) Let_def rest(1))
      (simp add: eval_nat_numeral)
  then show ?case unfolding IH div3 by (simp add: rest(1))
qed

lemma no_pad_in_groups:
  "3 dvd length p \<Longrightarrow> b64_pad \<notin> set (b64_spec p)"
proof (induction p rule: b64_spec.induct)
  case (4 x y z r)
  let ?n = "uint x * 65536 + uint y * 256 + uint z"
  have "b64_char (?n div 262144) \<noteq> b64_pad" "b64_char (?n div 4096 mod 64) \<noteq> b64_pad"
    "b64_char (?n div 64 mod 64) \<noteq> b64_pad" "b64_char (?n mod 64) \<noteq> b64_pad"
    by (rule b64_rev_char(2); rule quad_decodes(5,6) pos_mod_sign pos_mod_bound; simp)+
  with 4 show ?case by (simp add: Let_def dvd3_Suc3)
qed (simp_all add: dvd3_Suc3)

lemma index_of_append: "c \<notin> set d \<Longrightarrow> index_of c (d @ c # q) = Some (length d)"
proof -
  assume "c \<notin> set d"
  then have "takeWhile (\<lambda>x. x \<noteq> c) (d @ c # q) = d"
    by (metis (mono_tags, lifting) takeWhile_append2 takeWhile.simps(2) append_Nil2)
  then show ?thesis by (simp add: index_of_def)
qed

lemma index_of_none: "c \<notin> set d \<Longrightarrow> index_of c d = None"
  by (induction d) (auto simp: index_of_def Let_def split: if_splits)

text \<open>The two tails, as the decoder's shifts see them.\<close>

lemma tail1_decodes:
  fixes x :: byte
  shows "js_or (js_shl (uint x div 4) 2) (js_sar (uint x mod 4 * 16) 4) = uint x"
    and "0 \<le> uint x div 4" "uint x div 4 < 64" "0 \<le> uint x mod 4 * 16" "uint x mod 4 * 16 < 64"
proof -
  note b = byte_bounds [of x]
  have m: "0 \<le> uint x mod 4" "uint x mod 4 < 4" by simp_all
  show r: "0 \<le> uint x div 4" "uint x div 4 < 64" "0 \<le> uint x mod 4 * 16" "uint x mod 4 * 16 < 64"
    using b m by linarith+
  have "js_shl (uint x div 4) 2 = uint x div 4 * 4" "js_sar (uint x mod 4 * 16) 4 = uint x mod 4"
    using r by (simp_all add: js_shl_mult js_sar_div)
  moreover have "js_or (uint x div 4 * 4) (uint x mod 4) = uint x div 4 * 4 + uint x mod 4"
    using r m by (intro js_or_disjoint [where k = 2]) auto
  ultimately show "js_or (js_shl (uint x div 4) 2) (js_sar (uint x mod 4 * 16) 4) = uint x"
    by (simp only: div_mult_mod_eq)
qed

lemma or3:
  assumes "0 \<le> a" "a < 64" "0 \<le> b" "b < 64" "0 \<le> c" "c < 16"
  shows "js_or (js_or (js_shl a 10) (js_shl b 4)) c = a * 1024 + b * 16 + c"
proof -
  have 1: "js_or (a * 1024) (b * 16) = a * 1024 + b * 16"
    using assms by (intro js_or_disjoint [where k = 10]) auto
  have 2: "js_or (a * 1024 + b * 16) c = a * 1024 + b * 16 + c"
    using assms by (intro js_or_disjoint [where k = 4]) auto
  show ?thesis using assms by (simp add: js_shl_mult 1 2)
qed

lemma digits16:
  fixes n :: int
  assumes "n = q1 * 16 + r0" "q1 = q2 * 64 + r1"
  shows "q2 * 1024 + r1 * 16 + r0 = n"
  using assms by simp

lemma tail2_decodes:
  fixes x y :: byte
  defines "n \<equiv> uint x * 256 + uint y"
  shows "js_or (js_or (js_shl (n div 1024) 10) (js_shl (n div 16 mod 64) 4)) (js_sar (n mod 16 * 4) 2) = n"
    and "of_int (js_and (js_sar n 8) 255) = x" and "of_int (js_and 255 n) = y"
    and "0 \<le> n div 1024" "n div 1024 < 64" "0 \<le> n mod 16 * 4" "n mod 16 * 4 < 64"
proof -
  have n: "0 \<le> n" "n < 65536" using pair_bounds [of x y] by (simp_all add: n_def)
  show r: "0 \<le> n div 1024" "n div 1024 < 64" "0 \<le> n mod 16 * 4" "n mod 16 * 4 < 64"
    using n by simp_all
  have m: "0 \<le> n mod 16" "n mod 16 < 16" "0 \<le> n div 16 mod 64" "n div 16 mod 64 < 64" by simp_all
  have sh: "js_sar (n mod 16 * 4) 2 = n mod 16"
    using r by (simp add: js_sar_div)
  have q: "n div 1024 = n div 16 div 64" by (simp flip: zdiv_zmult2_eq)
  have "n div 1024 * 1024 + n div 16 mod 64 * 16 + n mod 16 = n"
    by (rule digits16 [of n "n div 16" "n mod 16"]) (simp_all only: q div_mult_mod_eq)
  with or3 [OF r(1,2) m(3,4) m(1,2)]
  show "js_or (js_or (js_shl (n div 1024) 10) (js_shl (n div 16 mod 64) 4))
      (js_sar (n mod 16 * 4) 2) = n" by (simp only: sh)
  have "n div 256 = uint x"
    unfolding n_def using byte_bounds [of y] by (simp add: add.commute [of _ "uint y"])
  then show "of_int (js_and (js_sar n 8) 255) = x"
    using n by (simp add: js_sar_div js_and_masks mod_byte)
  show "of_int (js_and 255 n) = y"
    by (simp only: js_and_masks_left n_def mod_mult_self3 mod_byte word_of_int_uint)
qed

lemma b64_get_lens_groups:
  assumes "3 dvd length p" and "b64_pad \<notin> set d" and "length d < 4"
    and "length d = 0 \<and> q = 0 \<or> 2 \<le> length d \<and> q = 4 - length d"
  shows "b64_get_lens (b64_spec p @ d @ replicate q b64_pad)
    = Inr (4 * (length p div 3) + length d, q)"
proof -
  have len: "length (b64_spec p) = 4 * (length p div 3)"
    using assms(1) by (auto simp: length_b64_spec)
  have np: "b64_pad \<notin> set (b64_spec p @ d)"
    using no_pad_in_groups [OF assms(1)] assms(2) by simp
  show ?thesis
  proof (cases "q = 0")
    case True
    then show ?thesis
      using assms(3,4) np index_of_none [OF np] by (auto simp: b64_get_lens_def len Let_def)
  next
    case False
    then obtain q' where q': "q = Suc q'" by (cases q) auto
    have ix: "index_of b64_pad (b64_spec p @ d @ replicate q b64_pad)
        = Some (4 * (length p div 3) + length d)"
      using index_of_append [OF np, of "replicate q' b64_pad"] by (simp add: len q')
    have ql: "length d + q = 4" "0 < q" using assms(3,4) False by auto
    have m4: "(4 * (length p div 3) + length d) mod 4 = length d"
      using assms(3) by simp
    have tot: "length (b64_spec p @ d @ replicate q b64_pad) = 4 * (length p div 3) + 4"
      using ql by (simp add: len)
    have "4 * (length p div 3) + length d \<noteq> 4 * (length p div 3) + 4" "4 - length d = q"
      using ql by simp_all
    then show ?thesis
      by (simp only: b64_get_lens_def ix tot m4 Let_def option.case) simp
  qed
qed

lemma replicate_small: "replicate 1 x = [x]" "replicate 2 x = [x, x]"
  by (simp_all add: eval_nat_numeral)

lemma length_small: "length [a, b] = 2" "length [a, b, c] = 3"
  by simp_all

lemma b64_get_lens_tail1:
  assumes "3 dvd length p" and "b64_pad \<notin> set [a, b]"
  shows "b64_get_lens (b64_spec p @ [a, b, b64_pad, b64_pad]) = Inr (4 * (length p div 3) + 2, 2)"
proof -
  have "b64_get_lens (b64_spec p @ [a, b] @ replicate 2 b64_pad)
      = Inr (4 * (length p div 3) + length [a, b], 2)"
    by (rule b64_get_lens_groups [OF assms]) simp_all
  then show ?thesis by (simp only: replicate_small length_small append.simps)
qed

lemma b64_get_lens_tail2:
  assumes "3 dvd length p" and "b64_pad \<notin> set [a, b, c]"
  shows "b64_get_lens (b64_spec p @ [a, b, c, b64_pad]) = Inr (4 * (length p div 3) + 3, 1)"
proof -
  have "b64_get_lens (b64_spec p @ [a, b, c] @ replicate 1 b64_pad)
      = Inr (4 * (length p div 3) + length [a, b, c], 1)"
    by (rule b64_get_lens_groups [OF assms]) simp_all
  then show ?thesis by (simp only: replicate_small length_small append.simps)
qed

lemma decode_groups:
  assumes "3 dvd length p" and "r < 3" and "c = 4 * int (length p div 3) + (if r = 0 then 0 else int r - 3)"
  shows "b64_quads (b64_spec p @ tl0) c (replicate (length p + r) 0) 0 0
    = (p @ replicate r 0, length p, 4 * (length p div 3))"
  using assms b64_quads_spec [of 0 "b64_spec p @ tl0" p tl0 c "[]" 0 "replicate (length p + r) 0"]
  by auto

lemma to_byte_array_eval:
  assumes "b64_get_lens e = Inr (r, a)" and "b64_byte_len r a = int n"
    and "b64_quads e (if 0 < a then int r - 4 else int r) (replicate n 0) 0 0 = (u, s, f)"
  shows "to_byte_array e =
    (if a = 2 then
       Inr (u[s := of_int (js_and 255 (js_or (js_shl (b64_at e f) 2) (js_sar (b64_at e (f + 1)) 4)))])
     else if a = 1 then
       let t = js_or (js_or (js_shl (b64_at e f) 10) (js_shl (b64_at e (f + 1)) 4))
                 (js_sar (b64_at e (f + 2)) 2)
       in Inr (u[s := of_int (js_and (js_sar t 8) 255), s + 1 := of_int (js_and 255 t)])
     else Inr u)"
  using assms by (simp only: to_byte_array_def andthen_simps prod.case Let_def nat_int of_nat_less_0_iff
      if_False)

lemma groups_length:
  assumes "3 dvd length p" and "k = length p div 3"
  shows "length p = 3 * k" "length (b64_spec p) = 4 * k"
  using assms by (auto simp: length_b64_spec)

lemma b64_at_tail:
  assumes "length q = n"
  shows "b64_at (q @ [c0, c1, c2, c3]) n = b64_rev c0" "b64_at (q @ [c0, c1, c2, c3]) (n + 1) = b64_rev c1"
    "b64_at (q @ [c0, c1, c2, c3]) (n + 2) = b64_rev c2"
  using assms by (simp_all add: b64_at_def nth_append)

lemma get_lens_tail1:
  assumes "3 dvd length p"
  shows "b64_get_lens (b64_spec p @ b64_spec [x]) = Inr (4 * (length p div 3) + 2, 2)"
proof -
  note td = tail1_decodes [of x]
  have "b64_pad \<notin> set [b64_char (uint x div 4), b64_char (uint x mod 4 * 16)]"
    using b64_rev_char(2) td(2-5) by (metis empty_iff empty_set set_ConsD)
  from b64_get_lens_tail1 [OF assms this] show ?thesis by (simp only: b64_spec.simps)
qed

lemma get_lens_tail2:
  assumes "3 dvd length p"
  shows "b64_get_lens (b64_spec p @ b64_spec [x, y]) = Inr (4 * (length p div 3) + 3, 1)"
proof -
  let ?n = "uint x * 256 + uint y"
  note td = tail2_decodes [of x y]
  have m: "0 \<le> ?n div 16 mod 64" "?n div 16 mod 64 < 64" by simp_all
  have "b64_pad \<notin> set [b64_char (?n div 1024), b64_char (?n div 16 mod 64), b64_char (?n mod 16 * 4)]"
    using b64_rev_char(2) [OF td(4,5)] b64_rev_char(2) [OF m] b64_rev_char(2) [OF td(6,7)]
    by simp
  from b64_get_lens_tail2 [OF assms this] show ?thesis by (simp only: b64_spec.simps Let_def)
qed

lemma decode_tail0:
  assumes "3 dvd length p"
  shows "to_byte_array (b64_spec p) = Inr p"
proof -
  define k where "k = length p div 3"
  note lp = groups_length [OF assms k_def]
  have l: "b64_get_lens (b64_spec p) = Inr (4 * k, 0)"
    using b64_get_lens_groups [OF assms, of "[]" 0] by (simp add: k_def [symmetric])
  have q: "b64_quads (b64_spec p) (int (4 * k)) (replicate (3 * k) 0) 0 0 = (p, 3 * k, 4 * k)"
    using decode_groups [OF assms, of 0 "int (4 * k)" "[]"] by (simp add: lp k_def [symmetric])
  have bl: "b64_byte_len (4 * k) 0 = int (3 * k)" by (simp add: b64_byte_len_def)
  show ?thesis
    using to_byte_array_eval [OF l bl, of p "3 * k" "4 * k"] q by simp
qed

lemma decode_tail1:
  assumes "3 dvd length p"
  shows "to_byte_array (b64_spec p @ b64_spec [x]) = Inr (p @ [x])"
proof -
  define k where "k = length p div 3"
  note lp = groups_length [OF assms k_def]
  note td = tail1_decodes [of x]
  note l = get_lens_tail1 [OF assms, of x, folded k_def]
  have q: "b64_quads (b64_spec p @ tl0) (int (4 * k + 2) - 4) (replicate (3 * k + 1) 0) 0 0
      = (p @ [0], 3 * k, 4 * k)" for tl0
    using decode_groups [OF assms, of 1 "int (4 * k + 2) - 4" tl0]
    by (simp add: lp k_def [symmetric])
  note at = b64_at_tail(1,2) [OF lp(2), of "b64_char (uint x div 4)" "b64_char (uint x mod 4 * 16)" b64_pad b64_pad,
      folded b64_spec.simps(2), unfolded b64_rev_char(1) [OF td(2,3)] b64_rev_char(1) [OF td(4,5)]]
  have bl: "b64_byte_len (4 * k + 2) 2 = int (3 * k + 1)" by (simp add: b64_byte_len_def)
  have "to_byte_array (b64_spec p @ b64_spec [x]) = Inr ((p @ [0])[3 * k := of_int (js_and 255 (uint x))])"
    by (subst to_byte_array_eval [OF l bl, of "p @ [0]" "3 * k" "4 * k"])
      (simp_all only: q at td(1) zero_less_numeral if_True, simp_all)
  then show ?thesis by (simp add: js_and_masks_left mod_byte list_update_append lp)
qed

lemma decode_tail2:
  assumes "3 dvd length p"
  shows "to_byte_array (b64_spec p @ b64_spec [x, y]) = Inr (p @ [x, y])"
proof -
  define k where "k = length p div 3"
  note lp = groups_length [OF assms k_def]
  note td = tail2_decodes [of x y]
  let ?n = "uint x * 256 + uint y" let ?t = "b64_spec [x, y]"
  have m: "0 \<le> ?n div 16 mod 64" "?n div 16 mod 64 < 64" by simp_all
  have t: "?t = [b64_char (?n div 1024), b64_char (?n div 16 mod 64), b64_char (?n mod 16 * 4), b64_pad]"
    by (simp only: b64_spec.simps Let_def)
  note l = get_lens_tail2 [OF assms, of x y, folded k_def]
  have q: "b64_quads (b64_spec p @ tl0) (int (4 * k + 3) - 4) (replicate (3 * k + 2) 0) 0 0
      = (p @ [0, 0], 3 * k, 4 * k)" for tl0
    using decode_groups [OF assms, of 2 "int (4 * k + 3) - 4" tl0]
    by (simp add: lp k_def [symmetric] replicate_small)
  note at = b64_at_tail [OF lp(2), of "b64_char (?n div 1024)" "b64_char (?n div 16 mod 64)"
      "b64_char (?n mod 16 * 4)" b64_pad, folded t, unfolded b64_rev_char(1) [OF td(4,5)]
      b64_rev_char(1) [OF m] b64_rev_char(1) [OF td(6,7)]]
  have bl: "b64_byte_len (4 * k + 3) 1 = int (3 * k + 2)" by (simp add: b64_byte_len_def)
  have "to_byte_array (b64_spec p @ ?t) = Inr ((p @ [0, 0])[3 * k := x, 3 * k + 1 := y])"
    by (subst to_byte_array_eval [OF l bl, of "p @ [0, 0]" "3 * k" "4 * k"])
      (simp_all only: q at td(1-3) Let_def zero_less_one if_True, simp_all)
  then show ?thesis by (simp add: list_update_append lp)
qed

lemma to_byte_array_spec: "to_byte_array (b64_spec e) = Inr e"
proof -
  obtain p t where e: "e = p @ t" "3 dvd length p"
    and t: "t = [] \<or> (\<exists>x. t = [x]) \<or> (\<exists>x y. t = [x, y])"
    by (rule split_last_group)
  then show ?thesis
    using decode_tail0 [OF e(2)] decode_tail1 [OF e(2)] decode_tail2 [OF e(2)]
    by (auto simp: b64_spec_append simp del: b64_spec.simps(2-4))
qed

lemma b64_byte_length_spec: "b64_byte_length (b64_spec e) = Inr (int (length e))"
proof -
  obtain p t where e: "e = p @ t" "3 dvd length p"
    and t: "t = [] \<or> (\<exists>x. t = [x]) \<or> (\<exists>x y. t = [x, y])"
    by (rule split_last_group)
  define k where "k = length p div 3"
  have lp: "length p = 3 * k" using e(2) by (simp add: k_def)
  have l0: "b64_get_lens (b64_spec p) = Inr (4 * k, 0)"
    using b64_get_lens_groups [OF e(2), of "[]" 0] by (simp add: k_def [symmetric])
  note l = l0 get_lens_tail1 [OF e(2), folded k_def] get_lens_tail2 [OF e(2), folded k_def]
  show ?thesis
    using t by (elim disjE exE)
      (simp_all add: e b64_spec_append b64_byte_length_def b64_byte_len_def l lp del: b64_spec.simps(2-4))
qed

subsection \<open>The codec interface and the properties\<close>

interpretation base64: codec from_byte_array to_byte_array "\<lambda>_. True"
  by unfold_locales (simp add: from_byte_array_eq_spec to_byte_array_spec)

text \<open>
  Property C3. Decoding what the encoder produced gives back exactly the original bytes, for every
  byte string: the chunked encoder, its padding and the decoder's length computation, whole
  quadruples and short tails fit together.
\<close>

theorem base64_roundtrip: "to_byte_array (from_byte_array e) = Inr e"
  by (rule base64.dec_enc) simp

text \<open>
  Property C4. The chunked encoder (16383 bytes at a time, an explicit tail) is the plain base64
  encoding of the whole input, its output has four characters for every started group of three
  bytes, and the decoder's length prediction on it is the number of input bytes.
\<close>

theorem base64_encoder_is_reference:
  "from_byte_array e = b64_spec e
   \<and> length (from_byte_array e) = 4 * ((length e + 2) div 3)
   \<and> b64_byte_length (from_byte_array e) = Inr (int (length e))"
  using b64_byte_length_spec by (simp add: from_byte_array_eq_spec length_b64_spec)

end
