(* ===== verification/Utf8.thy ===== *)
theory Utf8
  imports JsNum
begin

section \<open>UTF-8 in the Buffer polyfill (module 54 of swagger-ui-bundle.js)\<close>

text \<open>
  The bundled \<open>Buffer\<close> converts strings to bytes and back when the console builds an
  \<open>Authorization\<close> header or shows a binary response. \<open>F\<close> (here \<open>utf8_to_bytes\<close>) turns UTF-16
  code units into UTF-8 with a byte budget, replacing lone surrogates; \<open>C\<close> (here \<open>utf8_slice\<close>)
  decodes, replacing what is not well formed. Both are related to the same reference: the
  list of Unicode scalar values of the string.
\<close>

subsection \<open>Encoding: \<open>F(e, t)\<close>\<close>

datatype utf8_error = InvalidCodePoint

text \<open>The bytes of one code point, from the \<open>n < 128\<close>, \<open>n < 2048\<close>, \<dots> chain.\<close>

definition utf8_cp :: "int \<Rightarrow> utf8_error + int list" where
  "utf8_cp n =
     (if n < 128 then Inr [n]
      else if n < 2048 then Inr [js_or (js_sar n 6) 192, js_or (js_and 63 n) 128]
      else if n < 65536 then
        Inr [js_or (js_sar n 12) 224, js_or (js_and (js_sar n 6) 63) 128, js_or (js_and 63 n) 128]
      else if \<not> n < 1114112 then Inl InvalidCodePoint
      else Inr [js_or (js_sar n 18) 240, js_or (js_and (js_sar n 12) 63) 128,
                js_or (js_and (js_sar n 6) 63) 128, js_or (js_and 63 n) 128])"

text \<open>The byte budget \<open>t\<close>: \<open>None\<close> is \<open>Infinity\<close>.\<close>

definition spend :: "int \<Rightarrow> int option \<Rightarrow> int option" where
  "spend k t = map_option (\<lambda>v. v - k) t"

definition overdrawn :: "int option \<Rightarrow> bool" where
  "overdrawn t = (case t of None \<Rightarrow> False | Some v \<Rightarrow> v < 0)"

text \<open>\<open>(t -= 3) > -1 && i.push(239, 191, 189)\<close>: the bytes of U+FFFD.\<close>

definition replacement :: "int option \<Rightarrow> int list" where
  "replacement t = (if overdrawn (spend 3 t) then [] else [239, 191, 189])"

text \<open>
  The loop: the rest of the string, the pending lead surrogate \<open>o\<close> (\<open>null\<close> is \<open>None\<close>), the budget.
  \<open>a + 1 === r\<close> says that the current unit is the last one. The code point test comes before the
  budget test, and an overdrawn budget ends the loop.
\<close>

fun utf8_go :: "jsstr \<Rightarrow> int option \<Rightarrow> int option \<Rightarrow> utf8_error + int list"
and utf8_put :: "int \<Rightarrow> jsstr \<Rightarrow> int option \<Rightarrow> utf8_error + int list" where
  "utf8_go [] lead t = Inr []"
| "utf8_go (c # s) lead t =
     (let n = uint c in
      if 55295 < n \<and> n < 57344 then
        (case lead of
           None \<Rightarrow>
             if 56319 < n then andthen (utf8_go s None (spend 3 t)) (\<lambda>r. Inr (replacement t @ r))
             else if s = [] then andthen (utf8_go s None (spend 3 t)) (\<lambda>r. Inr (replacement t @ r))
             else utf8_go s (Some n) t
         | Some l \<Rightarrow>
             if n < 56320 then
               andthen (utf8_go s (Some n) (spend 3 t)) (\<lambda>r. Inr (replacement t @ r))
             else utf8_put (65536 + js_or (js_shl (l - 55296) 10) (n - 56320)) s t)
      else
        (case lead of
           None \<Rightarrow> utf8_put n s t
         | Some l \<Rightarrow> andthen (utf8_put n s (spend 3 t)) (\<lambda>r. Inr (replacement t @ r))))"
| "utf8_put n s t =
     andthen (utf8_cp n) (\<lambda>b.
       let t' = spend (int (length b)) t
       in if overdrawn t' then Inr [] else andthen (utf8_go s None t') (\<lambda>r. Inr (b @ r)))"

text \<open>\<open>t = t || 1 / 0\<close>: an absent budget and a budget of 0 are both no limit.\<close>

definition utf8_to_bytes :: "jsstr \<Rightarrow> int option \<Rightarrow> utf8_error + int list" where
  "utf8_to_bytes s t = utf8_go s None (if t = Some 0 then None else t)"

subsection \<open>Decoding: \<open>C(e, t, n)\<close>\<close>

definition seq_length :: "int \<Rightarrow> nat" where
  "seq_length l = (if 239 < l then 4 else if 223 < l then 3 else if 191 < l then 2 else 1)"

definition cont :: "int \<Rightarrow> bool" where
  "cont b \<longleftrightarrow> js_and 192 b = 128"

text \<open>The value of the sequence of length \<open>f\<close> at \<open>o\<close>, \<open>None\<close> for \<open>null\<close>.\<close>

definition utf8_seq :: "buffer \<Rightarrow> nat \<Rightarrow> nat \<Rightarrow> int option" where
  "utf8_seq e p f =
     (let l = uint (e ! p) in
      if f = 1 then (if l < 128 then Some l else None)
      else if f = 2 then
        (let i = uint (e ! (p + 1)); s = js_or (js_shl (js_and 31 l) 6) (js_and 63 i)
         in if cont i \<and> 127 < s then Some s else None)
      else if f = 3 then
        (let i = uint (e ! (p + 1)); a = uint (e ! (p + 2));
             s = js_or (js_or (js_shl (js_and 15 l) 12) (js_shl (js_and 63 i) 6)) (js_and 63 a)
         in if cont i \<and> cont a \<and> 2047 < s \<and> (s < 55296 \<or> 57343 < s) then Some s else None)
      else
        (let i = uint (e ! (p + 1)); a = uint (e ! (p + 2)); u = uint (e ! (p + 3));
             s = js_or (js_or (js_or (js_shl (js_and 15 l) 18) (js_shl (js_and 63 i) 12))
                              (js_shl (js_and 63 a) 6)) (js_and 63 u)
         in if cont i \<and> cont a \<and> cont u \<and> 65535 < s \<and> s < 1114112 then Some s else None))"

text \<open>The code units pushed for a decoded value.\<close>

definition push_cp :: "int \<Rightarrow> int list" where
  "push_cp c =
     (if 65535 < c then
        let d = c - 65536
        in [js_or (js_and (js_shr d 10) 1023) 55296, js_or 56320 (js_and 1023 d)]
      else [c])"

function utf8_loop :: "buffer \<Rightarrow> nat \<Rightarrow> nat \<Rightarrow> int list" where
  "utf8_loop e p n =
     (if p < n then
        let f = seq_length (uint (e ! p));
            c = (if p + f \<le> n then utf8_seq e p f else None)
        in (case c of
              None \<Rightarrow> 65533 # utf8_loop e (p + 1) n
            | Some v \<Rightarrow> push_cp v @ utf8_loop e (p + f) n)
      else [])"
  by pat_completeness auto
termination
  by (relation "measure (\<lambda>(e, p, n). n - p)") (auto simp: seq_length_def)

declare utf8_loop.simps [simp del]

text \<open>
  \<open>String.fromCharCode\<close> on the code units, in one call or in slices of \<open>k = 4096\<close>.
\<close>

definition from_char_code :: "int list \<Rightarrow> jsstr" where
  "from_char_code us = map of_int us"

function char_code_slices :: "int list \<Rightarrow> nat \<Rightarrow> jsstr" where
  "char_code_slices us r =
     (if r < length us
      then from_char_code (take 4096 (drop r us)) @ char_code_slices us (r + 4096) else [])"
  by pat_completeness auto
termination
  by (relation "measure (\<lambda>(us, r). length us - r)") auto

declare char_code_slices.simps [simp del]

definition decode_code_points :: "int list \<Rightarrow> jsstr" where
  "decode_code_points us =
     (if length us \<le> 4096 then from_char_code us else char_code_slices us 0)"

definition utf8_slice :: "buffer \<Rightarrow> nat \<Rightarrow> nat \<Rightarrow> jsstr" where
  "utf8_slice e start end' = decode_code_points (utf8_loop e start (min (length e) end'))"

subsection \<open>The reference: Unicode scalar values\<close>

definition is_lead :: "unit16 \<Rightarrow> bool" where
  "is_lead c \<longleftrightarrow> 55296 \<le> uint c \<and> uint c < 56320"

definition is_trail :: "unit16 \<Rightarrow> bool" where
  "is_trail c \<longleftrightarrow> 56320 \<le> uint c \<and> uint c < 57344"

definition lone_value :: "unit16 \<Rightarrow> int" where
  "lone_value c = (if is_lead c \<or> is_trail c then 65533 else uint c)"

text \<open>The scalar values of a string; a surrogate outside a pair counts as U+FFFD.\<close>

fun scalars :: "jsstr \<Rightarrow> int list" where
  "scalars [] = []"
| "scalars [c] = [lone_value c]"
| "scalars (c # d # s) =
     (if is_lead c \<and> is_trail d
      then (65536 + (uint c - 55296) * 1024 + (uint d - 56320)) # scalars s
      else lone_value c # scalars (d # s))"

definition scalar :: "int \<Rightarrow> bool" where
  "scalar n \<longleftrightarrow> 0 \<le> n \<and> n < 1114112 \<and> (n < 55296 \<or> 57343 < n)"

definition ref_utf8 :: "int \<Rightarrow> int list" where
  "ref_utf8 n =
     (if n < 128 then [n]
      else if n < 2048 then [192 + n div 64, 128 + n mod 64]
      else if n < 65536 then [224 + n div 4096, 128 + n div 64 mod 64, 128 + n mod 64]
      else [240 + n div 262144, 128 + n div 4096 mod 64, 128 + n div 64 mod 64, 128 + n mod 64])"

definition ref_utf16 :: "int \<Rightarrow> int list" where
  "ref_utf16 n =
     (if n < 65536 then [n]
      else [55296 + (n - 65536) div 1024, 56320 + (n - 65536) mod 1024])"

text \<open>The string with every lone surrogate replaced, as the language's \<open>toWellFormed\<close> does.\<close>

definition to_well_formed :: "jsstr \<Rightarrow> jsstr" where
  "to_well_formed s = map of_int (concat (map ref_utf16 (scalars s)))"

fun well_formed :: "jsstr \<Rightarrow> bool" where
  "well_formed [] = True"
| "well_formed [c] = (\<not> is_lead c \<and> \<not> is_trail c)"
| "well_formed (c # d # s) =
     (if is_lead c \<and> is_trail d then well_formed s
      else \<not> is_lead c \<and> \<not> is_trail c \<and> well_formed (d # s))"

text \<open>Strings whose last two code units are both lead surrogates.\<close>

fun ends_in_two_leads :: "jsstr \<Rightarrow> bool" where
  "ends_in_two_leads (c # d # e # s) = ends_in_two_leads (d # e # s)"
| "ends_in_two_leads [c, d] = (is_lead c \<and> is_lead d)"
| "ends_in_two_leads s = False"

subsection \<open>Arithmetic of the bit packing\<close>

lemma js_or_tag:
  "0 \<le> x \<Longrightarrow> x < 64 \<Longrightarrow> js_or x 192 = 192 + x"
  "0 \<le> x \<Longrightarrow> x < 32 \<Longrightarrow> js_or x 224 = 224 + x"
  "0 \<le> x \<Longrightarrow> x < 16 \<Longrightarrow> js_or x 240 = 240 + x"
  "0 \<le> x \<Longrightarrow> x < 64 \<Longrightarrow> js_or x 128 = 128 + x"
  "0 \<le> x \<Longrightarrow> x < 1024 \<Longrightarrow> js_or x 55296 = 55296 + x"
  "0 \<le> x \<Longrightarrow> x < 1024 \<Longrightarrow> js_or 56320 x = 56320 + x"
  using js_or_disjoint [of 6 192 x] js_or_disjoint [of 5 224 x] js_or_disjoint [of 4 240 x]
    js_or_disjoint [of 7 128 x] js_or_disjoint [of 10 55296 x] js_or_disjoint [of 10 56320 x]
  by (simp_all add: js_or_commute [of x])

lemma utf8_cp_ref:
  assumes "0 \<le> n" "n < 1114112"
  shows "utf8_cp n = Inr (ref_utf8 n)"
proof -
  have sh: "js_sar n 6 = n div 64" "js_sar n 12 = n div 4096" "js_sar n 18 = n div 262144"
    using assms by (simp_all add: js_sar_div)
  have m: "0 \<le> m mod 64" "m mod 64 < 64" for m :: int by simp_all
  have "n < 2048 \<Longrightarrow> n div 64 < 64" "n < 65536 \<Longrightarrow> n div 4096 < 32" "n div 262144 < 16"
    "0 \<le> n div 64" "0 \<le> n div 4096" "0 \<le> n div 262144"
    using assms by simp_all
  then show ?thesis
    using assms by (simp add: utf8_cp_def ref_utf8_def sh js_and_masks js_and_masks_left js_or_tag m)
qed

lemma js_and_192:
  assumes "0 \<le> i" "i < 256"
  shows "js_and 192 i = i div 64 * 64"
proof -
  have "(192 :: int) AND i = push_bit 6 (take_bit 2 (drop_bit 6 i))"
  proof (rule bit_eqI)
    fix n
    have "(192 :: int) = push_bit 6 (mask 2)" by (simp add: push_bit_eq_mult mask_eq_exp_minus_1)
    then have "bit (192 :: int) n \<longleftrightarrow> 6 \<le> n \<and> n < 8"
      by (simp only: bit_push_bit_iff_int bit_mask_iff possible_bit_int) auto
    then show "bit ((192 :: int) AND i) n \<longleftrightarrow> bit (push_bit 6 (take_bit 2 (drop_bit 6 i))) n"
      by (auto simp: bit_and_iff bit_push_bit_iff bit_take_bit_iff bit_drop_bit_eq)
  qed
  also have "\<dots> = i div 64 mod 4 * 64"
    by (simp add: push_bit_eq_mult take_bit_eq_mod drop_bit_eq_div)
  also have "i div 64 mod 4 = i div 64" using assms by simp
  finally show ?thesis using assms by (simp add: js_and_def to_int32_id)
qed

lemma cont_tag: "0 \<le> x \<Longrightarrow> x < 64 \<Longrightarrow> cont (128 + x)"
  by (simp add: cont_def js_and_192)

lemma surrogate_value:
  assumes "is_lead c" "is_trail d"
  shows "65536 + js_or (js_shl (uint c - 55296) 10) (uint d - 56320)
    = 65536 + (uint c - 55296) * 1024 + (uint d - 56320)"
  using assms js_or_disjoint [of 10 "(uint c - 55296) * 1024" "uint d - 56320"]
  by (simp add: is_lead_def is_trail_def js_shl_mult)

subsection \<open>The encoder computes the reference\<close>

lemma length_ref_utf8_pos: "ref_utf8 n \<noteq> []"
  by (simp add: ref_utf8_def)

lemma unlimited [simp]: "spend k None = None" "\<not> overdrawn None" "replacement None = [239, 191, 189]"
  by (simp_all add: spend_def overdrawn_def replacement_def)

lemma utf8_put_unlimited:
  assumes "0 \<le> n" "n < 1114112"
  shows "utf8_put n s None = andthen (utf8_go s None None) (\<lambda>r. Inr (ref_utf8 n @ r))"
  by (simp add: utf8_cp_ref [OF assms] Let_def)

lemma ref_utf8_replacement: "ref_utf8 65533 = [239, 191, 189]"
  by (simp add: ref_utf8_def)

lemma pair_range:
  assumes "is_lead c" "is_trail d"
  shows "0 \<le> 65536 + (uint c - 55296) * 1024 + (uint d - 56320)"
    "65536 + (uint c - 55296) * 1024 + (uint d - 56320) < 1114112"
    "65536 \<le> 65536 + (uint c - 55296) * 1024 + (uint d - 56320)"
  using assms by (simp_all add: is_lead_def is_trail_def)

definition enc_all :: "int list \<Rightarrow> int list" where
  "enc_all ns = concat (map ref_utf8 ns)"

lemma enc_all_simps [simp]:
  "enc_all [] = []" "enc_all (n # ns) = ref_utf8 n @ enc_all ns"
  by (simp_all add: enc_all_def)

text \<open>One step of the loop, by the kind of the current unit and the pending lead.\<close>

lemma go_scalar:
  assumes "\<not> is_lead c" "\<not> is_trail c"
  shows "utf8_go (c # s) None None = andthen (utf8_go s None None) (\<lambda>r. Inr (ref_utf8 (uint c) @ r))"
    and "utf8_go (c # s) (Some l) None
      = andthen (utf8_go s None None) (\<lambda>r. Inr ([239, 191, 189] @ ref_utf8 (uint c) @ r))"
proof -
  have n: "\<not> (55295 < uint c \<and> uint c < 57344)" using assms by (auto simp: is_lead_def is_trail_def)
  note b = unit_bounds [of c]
  have p: "utf8_put (uint c) s None = andthen (utf8_go s None None) (\<lambda>r. Inr (ref_utf8 (uint c) @ r))"
    using b by (intro utf8_put_unlimited) simp_all
  show "utf8_go (c # s) None None = andthen (utf8_go s None None) (\<lambda>r. Inr (ref_utf8 (uint c) @ r))"
    using n p by (simp only: utf8_go.simps Let_def if_False option.case)
  show "utf8_go (c # s) (Some l) None
      = andthen (utf8_go s None None) (\<lambda>r. Inr ([239, 191, 189] @ ref_utf8 (uint c) @ r))"
    using n p by (cases "utf8_go s None None")
      (simp_all only: utf8_go.simps Let_def if_False option.case unlimited andthen_simps)
qed

lemma go_trail:
  assumes "is_trail c"
  shows "utf8_go (c # s) None None = andthen (utf8_go s None None) (\<lambda>r. Inr ([239, 191, 189] @ r))"
  using assms by (simp add: is_trail_def)

lemma go_pair:
  assumes "is_lead l" "is_trail c"
  shows "utf8_go (c # s) (Some (uint l)) None = andthen (utf8_go s None None)
    (\<lambda>r. Inr (ref_utf8 (65536 + (uint l - 55296) * 1024 + (uint c - 56320)) @ r))"
proof -
  have n: "55295 < uint c" "uint c < 57344" "\<not> uint c < 56320" using assms(2) by (simp_all add: is_trail_def)
  show ?thesis
    using n utf8_put_unlimited [OF pair_range(1,2) [OF assms], of s]
    by (simp only: utf8_go.simps Let_def simp_thms if_True if_False option.case surrogate_value [OF assms])
qed

lemma go_lead:
  assumes "is_lead c"
  shows "utf8_go [c] None None = Inr [239, 191, 189]"
    and "s \<noteq> [] \<Longrightarrow> utf8_go (c # s) None None = utf8_go s (Some (uint c)) None"
    and "utf8_go (c # s) (Some l) None
      = andthen (utf8_go s (Some (uint c)) None) (\<lambda>r. Inr ([239, 191, 189] @ r))"
  using assms by (simp_all add: is_lead_def)

lemma lone_value_simps:
  "is_lead c \<Longrightarrow> lone_value c = 65533" "is_trail c \<Longrightarrow> lone_value c = 65533"
  "\<not> is_lead c \<Longrightarrow> \<not> is_trail c \<Longrightarrow> lone_value c = uint c"
  by (simp_all add: lone_value_def)

lemma lead_not_trail: "is_lead c \<Longrightarrow> \<not> is_trail c"
  by (simp add: is_lead_def is_trail_def)

lemma utf8_go_scalars:
  shows "\<not> ends_in_two_leads s \<Longrightarrow> utf8_go s None None = Inr (enc_all (scalars s))"
    and "is_lead l \<Longrightarrow> s \<noteq> [] \<Longrightarrow> \<not> ends_in_two_leads (l # s) \<Longrightarrow>
      utf8_go s (Some (uint l)) None = Inr (enc_all (scalars (l # s)))"
proof (induction s arbitrary: l)
  case Nil
  { case 1 show ?case by simp }
  { case 2 then show ?case by simp }
next
  case (Cons c s)
  { case 1
    have e: "\<not> ends_in_two_leads s" using 1 by (cases s; cases "tl s") auto
    consider "is_lead c" | "is_trail c" | "\<not> is_lead c" "\<not> is_trail c" by blast
    then show ?case
    proof cases
      case 1
      then show ?thesis
        using go_lead [OF 1] Cons.IH(2) [OF 1] \<open>\<not> ends_in_two_leads (c # s)\<close>
        by (cases "s = []") (simp_all add: lone_value_simps ref_utf8_replacement)
    next
      case 2
      then show ?thesis
        using Cons.IH(1) [OF e]
        by (cases s) (auto simp: go_trail lone_value_simps ref_utf8_replacement dest: lead_not_trail simp del: utf8_go.simps)
    next
      case 3
      then show ?thesis
        using Cons.IH(1) [OF e]
        by (cases s) (simp_all add: go_scalar lone_value_simps del: utf8_go.simps(2))
    qed }
  { case 2
    have e: "\<not> ends_in_two_leads (c # s)" using 2(3) by (cases s) auto
    then have e': "\<not> ends_in_two_leads s" by (cases s; cases "tl s") auto
    consider "is_lead c" | "is_trail c" | "\<not> is_lead c" "\<not> is_trail c" by blast
    then show ?case
    proof cases
      case 1
      then have "s \<noteq> []" using 2 by auto
      then show ?thesis
        using go_lead(3) [OF 1] Cons.IH(2) [OF 1 _ e] 1 2(1) lead_not_trail [OF 1]
        by (simp add: lone_value_simps ref_utf8_replacement del: utf8_go.simps)
    next
      case c: 2
      then show ?thesis
        using Cons.IH(1) [OF e'] go_pair [OF 2(1) c] 2(1) by (simp del: utf8_go.simps)
    next
      case 3
      then show ?thesis
        using Cons.IH(1) [OF e'] 2(1)
        by (cases s) (simp_all add: go_scalar lone_value_simps ref_utf8_replacement del: utf8_go.simps(2))
    qed }
qed

subsection \<open>The decoder inverts the reference\<close>

lemma drop_len:
  assumes "drop p e = xs @ rest" and "xs \<noteq> []"
  shows "p + length xs \<le> length e"
proof -
  have "length e - p = length xs + length rest" using arg_cong [OF assms(1), of length] by simp
  then show ?thesis using assms(2) by (cases xs) auto
qed

lemma nth_drop_app:
  assumes "drop p e = xs @ rest" and "i < length xs"
  shows "e ! (p + i) = xs ! i"
proof -
  have "p + length xs \<le> length e" using assms by (intro drop_len) auto
  then have "e ! (p + i) = drop p e ! i" by (simp add: nth_drop)
  then show ?thesis using assms by (simp add: nth_append)
qed

lemma uint_byte: "0 \<le> b \<Longrightarrow> b < 256 \<Longrightarrow> uint (of_int b :: byte) = b"
  by (simp add: uint_word_of_int)

text \<open>The four shapes of a sequence, with its digits as variables.\<close>

lemma mod_tag: "k = q * m \<Longrightarrow> 0 \<le> x \<Longrightarrow> x < m \<Longrightarrow> (k + x) mod m = (x :: int)"
  by simp

lemma tag_mod:
  "0 \<le> x \<Longrightarrow> x < 64 \<Longrightarrow> (128 + x) mod 64 = (x :: int)"
  "0 \<le> x \<Longrightarrow> x < 32 \<Longrightarrow> (192 + x) mod 32 = (x :: int)"
  "0 \<le> x \<Longrightarrow> x < 16 \<Longrightarrow> (224 + x) mod 16 = (x :: int)"
  "0 \<le> x \<Longrightarrow> x < 16 \<Longrightarrow> (240 + x) mod 16 = (x :: int)"
  by (rule mod_tag [of _ 2] mod_tag [of _ 6] mod_tag [of _ 14] mod_tag [of _ 15]; simp)+

lemma seq_length_tags:
  "x < 32 \<Longrightarrow> 0 \<le> x \<Longrightarrow> seq_length (192 + x) = 2"
  "x < 16 \<Longrightarrow> 0 \<le> x \<Longrightarrow> seq_length (224 + x) = 3"
  "0 \<le> x \<Longrightarrow> seq_length (240 + x) = 4"
  by (simp_all add: seq_length_def)

lemma seq2:
  assumes "0 \<le> x" "x < 32" "0 \<le> y" "y < 64" "127 < x * 64 + y"
    and "uint (e ! p) = 192 + x" "uint (e ! (p + 1)) = 128 + y"
  shows "seq_length (uint (e ! p)) = 2 \<and> utf8_seq e p 2 = Some (x * 64 + y)"
proof -
  have "js_or (x * 64) y = x * 64 + y"
    using assms(1-4) by (intro js_or_disjoint [where k = 6]) auto
  moreover have "js_shl x 6 = x * 64" using assms(1,2) by (simp add: js_shl_mult)
  ultimately have "js_or (js_shl (js_and 31 (192 + x)) 6) (js_and 63 (128 + y)) = x * 64 + y"
    using assms(1-4) by (simp only: js_and_masks_left tag_mod)
  then show ?thesis
    using assms(5) cont_tag [OF assms(3,4)] seq_length_tags(1) [OF assms(2,1)]
    by (simp add: utf8_seq_def assms(6,7) del: One_nat_def)
qed

lemma seq3:
  assumes "0 \<le> x" "x < 16" "0 \<le> y" "y < 64" "0 \<le> z" "z < 64"
    and "2047 < x * 4096 + y * 64 + z" "x * 4096 + y * 64 + z < 55296 \<or> 57343 < x * 4096 + y * 64 + z"
    and "uint (e ! p) = 224 + x" "uint (e ! (p + 1)) = 128 + y" "uint (e ! (p + 2)) = 128 + z"
  shows "seq_length (uint (e ! p)) = 3 \<and> utf8_seq e p 3 = Some (x * 4096 + y * 64 + z)"
proof -
  have 1: "js_or (x * 4096) (y * 64) = x * 4096 + y * 64"
    using assms(1-6) by (intro js_or_disjoint [where k = 12]) auto
  have 2: "js_or (x * 4096 + y * 64) z = x * 4096 + y * 64 + z"
    using assms(1-6) by (intro js_or_disjoint [where k = 6]) auto
  have "js_shl x 12 = x * 4096" "js_shl y 6 = y * 64" using assms(1-4) by (simp_all add: js_shl_mult)
  then have v: "js_or (js_or (js_shl (js_and 15 (224 + x)) 12) (js_shl (js_and 63 (128 + y)) 6))
      (js_and 63 (128 + z)) = x * 4096 + y * 64 + z"
    using assms(1-6) 1 2 by (simp only: js_and_masks_left tag_mod)
  show ?thesis
    using assms(7,8) cont_tag [OF assms(3,4)] cont_tag [OF assms(5,6)] seq_length_tags(2) [OF assms(2,1)]
    by (simp only: utf8_seq_def assms(9-11) v Let_def) simp
qed

lemma seq4:
  assumes "0 \<le> x" "x < 8" "0 \<le> y" "y < 64" "0 \<le> z" "z < 64" "0 \<le> w" "w < 64"
    and "65535 < x * 262144 + y * 4096 + z * 64 + w" "x * 262144 + y * 4096 + z * 64 + w < 1114112"
    and "uint (e ! p) = 240 + x" "uint (e ! (p + 1)) = 128 + y" "uint (e ! (p + 2)) = 128 + z"
    and "uint (e ! (p + 3)) = 128 + w"
  shows "seq_length (uint (e ! p)) = 4 \<and> utf8_seq e p 4 = Some (x * 262144 + y * 4096 + z * 64 + w)"
proof -
  have 1: "js_or (x * 262144) (y * 4096) = x * 262144 + y * 4096"
    using assms(1-8) by (intro js_or_disjoint [where k = 18]) auto
  have 2: "js_or (x * 262144 + y * 4096) (z * 64) = x * 262144 + y * 4096 + z * 64"
    using assms(1-8) by (intro js_or_disjoint [where k = 12]) auto
  have 3: "js_or (x * 262144 + y * 4096 + z * 64) w = x * 262144 + y * 4096 + z * 64 + w"
    using assms(1-8) by (intro js_or_disjoint [where k = 6]) auto
  have x: "x < 16" using assms(2) by simp
  have "js_shl x 18 = x * 262144" "js_shl y 12 = y * 4096" "js_shl z 6 = z * 64"
    using assms(1-6) by (simp_all add: js_shl_mult)
  then have v: "js_or (js_or (js_or (js_shl (js_and 15 (240 + x)) 18) (js_shl (js_and 63 (128 + y)) 12))
      (js_shl (js_and 63 (128 + z)) 6)) (js_and 63 (128 + w)) = x * 262144 + y * 4096 + z * 64 + w"
    using assms(1-8) x 1 2 3 by (simp only: js_and_masks_left tag_mod)
  show ?thesis
    using assms(9,10) cont_tag [OF assms(3,4)] cont_tag [OF assms(5,6)] cont_tag [OF assms(7,8)]
      seq_length_tags(3) [OF assms(1)]
    by (simp only: utf8_seq_def assms(11-14) v Let_def) simp
qed

lemma digits_sum2: "(n :: int) div 64 * 64 + n mod 64 = n"
  by (rule div_mult_mod_eq)

lemma digits_sum3: "(n :: int) div 4096 * 4096 + n div 64 mod 64 * 64 + n mod 64 = n"
proof -
  have "n div 4096 = n div 64 div 64" by (simp flip: zdiv_zmult2_eq)
  moreover have "a * 4096 + b * 64 + c = (a * 64 + b) * 64 + c" for a b c :: int by simp
  ultimately show ?thesis by (simp only: div_mult_mod_eq)
qed

lemma digits_sum4:
  "(n :: int) div 262144 * 262144 + n div 4096 mod 64 * 4096 + n div 64 mod 64 * 64 + n mod 64 = n"
proof -
  have "n div 4096 = n div 64 div 64" "n div 262144 = n div 64 div 64 div 64"
    by (simp_all flip: zdiv_zmult2_eq)
  moreover have "a * 262144 + b * 4096 + c * 64 + d = ((a * 64 + b) * 64 + c) * 64 + d" for a b c d :: int
    by simp
  ultimately show ?thesis by (simp only: div_mult_mod_eq)
qed

lemma ref_utf8_byte: "scalar n \<Longrightarrow> b \<in> set (ref_utf8 n) \<Longrightarrow> 0 \<le> b \<and> b < 256"
  using pos_mod_bound [of 64 n] pos_mod_bound [of 64 "n div 64"] pos_mod_bound [of 64 "n div 4096"]
    pos_mod_sign [of 64 n] pos_mod_sign [of 64 "n div 64"] pos_mod_sign [of 64 "n div 4096"]
  by (auto simp: ref_utf8_def scalar_def split: if_splits)

lemma utf8_seq_ref:
  assumes n: "scalar n" and d: "drop p e = map of_int (ref_utf8 n) @ rest"
  shows "seq_length (uint (e ! p)) = length (ref_utf8 n)
    \<and> utf8_seq e p (length (ref_utf8 n)) = Some n"
proof -
  have b: "uint (e ! (p + i)) = ref_utf8 n ! i" if "i < length (ref_utf8 n)" for i
    using that nth_drop_app [OF d, of i] ref_utf8_byte [OF n, of "ref_utf8 n ! i"]
    by (simp add: uint_byte)
  have b0: "uint (e ! p) = ref_utf8 n ! 0" using b [of 0] length_ref_utf8_pos [of n] by simp
  have r: "0 \<le> n mod 64" "n mod 64 < 64" "0 \<le> n div 64 mod 64" "n div 64 mod 64 < 64"
    "0 \<le> n div 4096 mod 64" "n div 4096 mod 64 < 64" by simp_all
  have s: "0 \<le> n" "n < 1114112" "n < 55296 \<or> 57343 < n" using n by (simp_all add: scalar_def)
  consider "n < 128" | "128 \<le> n" "n < 2048" | "2048 \<le> n" "n < 65536" | "65536 \<le> n" by linarith
  then show ?thesis
  proof cases
    case 1
    then have "ref_utf8 n = [n]" by (simp add: ref_utf8_def)
    then show ?thesis using b0 1 by (simp add: seq_length_def utf8_seq_def)
  next
    case 2
    then have l: "ref_utf8 n = [192 + n div 64, 128 + n mod 64]" by (simp add: ref_utf8_def)
    then have len: "length (ref_utf8 n) = 2" by simp
    have "0 \<le> n div 64" "n div 64 < 32" "127 < n" using 2 by simp_all
    with seq2 [OF this(1,2) r(1,2), unfolded digits_sum2, of e p] b0 b [of 1]
    show ?thesis unfolding len by (simp add: l)
  next
    case 3
    then have l: "ref_utf8 n = [224 + n div 4096, 128 + n div 64 mod 64, 128 + n mod 64]"
      by (simp add: ref_utf8_def)
    then have len: "length (ref_utf8 n) = 3" by simp
    have "0 \<le> n div 4096" "n div 4096 < 16" "2047 < n" using 3 by simp_all
    with seq3 [OF this(1,2) r(3,4) r(1,2), unfolded digits_sum3, of e p] s(3) b0 b [of 1] b [of 2]
    show ?thesis unfolding len by (simp add: l)
  next
    case 4
    then have l: "ref_utf8 n = [240 + n div 262144, 128 + n div 4096 mod 64, 128 + n div 64 mod 64, 128 + n mod 64]"
      by (simp add: ref_utf8_def)
    then have len: "length (ref_utf8 n) = 4" by simp
    have q: "0 \<le> n div 262144" "n div 262144 < 8" and g: "65535 < n" using 4 s by simp_all
    note * = seq4 [OF q r(5,6) r(3,4) r(1,2), unfolded digits_sum4, of e p, OF g s(2)]
    show ?thesis unfolding len
    proof (rule *)
      show "uint (e ! p) = 240 + n div 262144" unfolding b0 l by simp
      show "uint (e ! (p + 1)) = 128 + n div 4096 mod 64" using b [of 1] unfolding len unfolding l by simp
      show "uint (e ! (p + 2)) = 128 + n div 64 mod 64" using b [of 2] unfolding len unfolding l by simp
      show "uint (e ! (p + 3)) = 128 + n mod 64" using b [of 3] unfolding len unfolding l by simp
    qed
  qed
qed

lemma surrogate_digits:
  assumes "0 \<le> d" "d < 1048576"
  shows "js_or (js_and (js_shr d 10) 1023) 55296 = 55296 + d div 1024"
    and "js_or 56320 (js_and 1023 d) = 56320 + d mod 1024"
proof -
  have q: "0 \<le> d div 1024" "d div 1024 < 1024" using assms by simp_all
  have "js_shr d 10 = d div 2 ^ 10" using assms by (intro js_shr_div) simp_all
  then have "js_shr d 10 = d div 1024" by (simp only: power_numeral Num.pow.simps) simp
  then have "js_and (js_shr d 10) 1023 = d div 1024"
    using q by (simp only: js_and_masks mod_pos_pos_trivial)
  then show "js_or (js_and (js_shr d 10) 1023) 55296 = 55296 + d div 1024"
    using js_or_tag(5) [OF q] by simp
  show "js_or 56320 (js_and 1023 d) = 56320 + d mod 1024"
    unfolding js_and_masks_left by (rule js_or_tag(6)) simp_all
qed

lemma push_cp_ref:
  assumes "0 \<le> n" "n < 1114112"
  shows "push_cp n = ref_utf16 n"
proof (cases "65535 < n")
  case True
  then have "0 \<le> n - 65536" "n - 65536 < 1048576" using assms by simp_all
  from surrogate_digits [OF this] True show ?thesis
    unfolding push_cp_def ref_utf16_def Let_def by simp
next
  case False
  then show ?thesis by (simp add: push_cp_def ref_utf16_def)
qed

subsection \<open>The decoding loop on the encoding of scalar values\<close>

lemma loop_end [simp]: "n \<le> p \<Longrightarrow> utf8_loop e p n = []"
  by (subst utf8_loop.simps) simp

lemma loop_step:
  assumes "scalar v" and d: "drop p e = map of_int (ref_utf8 v) @ rest"
    and n: "n = length e"
  shows "utf8_loop e p n = ref_utf16 v @ utf8_loop e (p + length (ref_utf8 v)) n"
proof -
  have le: "p + length (ref_utf8 v) \<le> n"
    using drop_len [OF d] length_ref_utf8_pos [of v] n by simp
  have pos: "0 < length (ref_utf8 v)" using length_ref_utf8_pos [of v] by simp
  have "push_cp v = ref_utf16 v" using assms(1) by (intro push_cp_ref) (simp_all add: scalar_def)
  then show ?thesis
    using utf8_seq_ref [OF assms(1) d] le pos utf8_loop.simps [of e p n]
    by (cases "p < n") (simp_all add: Let_def)
qed

lemma loop_enc_all:
  assumes "\<forall>v\<in>set ns. scalar v" and "drop p e = map of_int (enc_all ns)" and "p \<le> length e"
  shows "utf8_loop e p (length e) = concat (map ref_utf16 ns)"
  using assms
proof (induction ns arbitrary: p)
  case Nil
  then show ?case by simp
next
  case (Cons v ns)
  have d: "drop p e = map of_int (ref_utf8 v) @ map of_int (enc_all ns)" using Cons.prems(2) by simp
  have le: "p + length (ref_utf8 v) \<le> length e"
    using drop_len [OF d] length_ref_utf8_pos [of v] by simp
  have "drop (length (ref_utf8 v)) (drop p e) = map of_int (enc_all ns)" by (simp add: d)
  then have d': "drop (p + length (ref_utf8 v)) e = map of_int (enc_all ns)"
    by (simp add: add.commute)
  show ?case
    using loop_step [OF _ d refl] Cons.IH [OF _ d' le] Cons.prems(1) by simp
qed

lemma char_code_slices_all: "char_code_slices us r = from_char_code (drop r us)"
proof (induction us r rule: char_code_slices.induct)
  case (1 us r)
  show ?case
  proof (cases "r < length us")
    case True
    have "take 4096 (drop r us) @ drop (r + 4096) us = drop r us"
      by (metis append_take_drop_id drop_drop add.commute)
    then show ?thesis
      using 1 [OF True] True
      by (subst char_code_slices.simps) (simp add: from_char_code_def flip: map_append)
  next
    case False
    then show ?thesis by (subst char_code_slices.simps) (simp add: from_char_code_def)
  qed
qed

lemma decode_code_points_all: "decode_code_points us = from_char_code us"
  by (simp add: decode_code_points_def char_code_slices_all)

lemma scalars_scalar: "v \<in> set (scalars s) \<Longrightarrow> scalar v"
proof (induction s rule: scalars.induct)
  case (2 c)
  then show ?case using unit_bounds [of c]
    by (auto simp: scalar_def lone_value_def is_lead_def is_trail_def split: if_splits)
next
  case (3 c d s)
  show ?case
  proof (cases "is_lead c \<and> is_trail d")
    case True
    then show ?thesis using 3 pair_range [of c d] by (auto simp: scalar_def)
  next
    case False
    then show ?thesis using 3 unit_bounds [of c]
      by (auto simp: scalar_def lone_value_def is_lead_def is_trail_def split: if_splits)
  qed
qed simp

lemma slice_enc_all:
  assumes "\<forall>v\<in>set ns. scalar v"
  shows "utf8_slice (map of_int (enc_all ns)) 0 (length (enc_all ns))
    = map of_int (concat (map ref_utf16 ns))"
  using loop_enc_all [OF assms, of 0 "map of_int (enc_all ns)"]
  by (simp add: utf8_slice_def decode_code_points_all from_char_code_def)

lemma ref_utf16_pair:
  assumes "is_lead c" "is_trail d"
  shows "map of_int (ref_utf16 (65536 + (uint c - 55296) * 1024 + (uint d - 56320))) = [c, d]"
proof -
  define x y where "x = uint c - 55296" and "y = uint d - 56320"
  have y: "0 \<le> y" "y < 1024" and x: "0 \<le> x" using assms by (simp_all add: is_lead_def is_trail_def x_def y_def)
  have "(x * 1024 + y) div 1024 = x" "(x * 1024 + y) mod 1024 = y" using y by simp_all
  moreover have "\<not> 65536 + x * 1024 + y < 65536" using x y by simp
  ultimately have "ref_utf16 (65536 + x * 1024 + y) = [55296 + x, 56320 + y]"
    by (simp add: ref_utf16_def algebra_simps)
  then show ?thesis by (simp add: x_def y_def)
qed

lemma well_formed_id: "well_formed s \<Longrightarrow> to_well_formed s = s"
proof (induction s rule: well_formed.induct)
  case (2 c)
  then show ?case using unit_bounds [of c] by (simp add: to_well_formed_def lone_value_def ref_utf16_def)
next
  case (3 c d s)
  show ?case
  proof (cases "is_lead c \<and> is_trail d")
    case True
    then have "to_well_formed s = s" using 3 by simp
    then show ?thesis using True ref_utf16_pair [of c d] by (simp add: to_well_formed_def)
  next
    case False
    then have "to_well_formed (d # s) = d # s" using 3 by (auto split: if_splits)
    then show ?thesis using 3(3) False unit_bounds [of c]
      by (auto simp: to_well_formed_def lone_value_def ref_utf16_def split: if_splits)
  qed
qed (simp add: to_well_formed_def)

lemma well_formed_not_two_leads: "well_formed s \<Longrightarrow> \<not> ends_in_two_leads s"
proof (induction s rule: well_formed.induct)
  case (3 c d s)
  show ?case
  proof (cases "is_lead c \<and> is_trail d")
    case True
    then have "\<not> ends_in_two_leads s" using 3 by simp
    then show ?thesis using lead_not_trail [of d] True by (cases s rule: ends_in_two_leads.cases) auto
  next
    case False
    then have "\<not> ends_in_two_leads (d # s)" "\<not> is_lead c" using 3 by (auto split: if_splits)
    then show ?thesis by (cases s) simp_all
  qed
qed simp_all


subsection \<open>The byte budget\<close>

lemma ends_two_leads_Cons:
  "\<not> is_lead c \<Longrightarrow> ends_in_two_leads (c # s) = ends_in_two_leads s"
  "is_lead c \<Longrightarrow> s \<noteq> [] \<Longrightarrow> \<not> is_lead (hd s) \<Longrightarrow> ends_in_two_leads (c # s) = ends_in_two_leads s"
  by (cases s; cases "tl s"; simp)+

lemma ends_two_leads_not_short: "ends_in_two_leads s \<Longrightarrow> s \<noteq> [] \<and> scalars s \<noteq> []"
  by (cases s rule: scalars.cases) simp_all

lemma utf8_go_two_leads:
  shows "ends_in_two_leads s \<Longrightarrow> utf8_go s None None = Inr (enc_all (butlast (scalars s)))"
    and "is_lead l \<Longrightarrow> ends_in_two_leads (l # s) \<Longrightarrow>
      utf8_go s (Some (uint l)) None = Inr (enc_all (butlast (scalars (l # s))))"
proof (induction s arbitrary: l)
  case Nil
  { case 1 then show ?case by simp }
  { case 2 then show ?case by simp }
next
  case (Cons c s)
  have e: "ends_in_two_leads s" if "\<not> is_lead c" "ends_in_two_leads (c # s)"
    using that ends_two_leads_Cons(1) by blast
  { case 1
    consider "is_lead c" | "is_trail c" | "\<not> is_lead c" "\<not> is_trail c" by blast
    then show ?case
    proof cases
      case c: 1
      have "s \<noteq> []" using 1 by auto
      then show ?thesis using go_lead(2) [OF c] Cons.IH(2) [OF c 1] by (simp del: utf8_go.simps)
    next
      case c: 2
      have s: "ends_in_two_leads s" using e 1 c lead_not_trail by blast
      then show ?thesis using Cons.IH(1) [OF s] c ends_two_leads_not_short [OF s]
        by (cases s) (auto simp: go_trail lone_value_simps ref_utf8_replacement dest: lead_not_trail simp del: utf8_go.simps)
    next
      case c: 3
      have s: "ends_in_two_leads s" using e 1 c by blast
      then show ?thesis using Cons.IH(1) [OF s] c ends_two_leads_not_short [OF s]
        by (cases s) (auto simp: go_scalar lone_value_simps simp del: utf8_go.simps)
    qed }
  { case 2
    consider "is_lead c" | "is_trail c" | "\<not> is_lead c" "\<not> is_trail c" by blast
    then show ?case
    proof cases
      case c: 1
      show ?thesis
      proof (cases "s = []")
        case True
        then show ?thesis using go_lead(3) [OF c] c 2 lead_not_trail [OF c]
          by (simp add: lone_value_simps ref_utf8_replacement)
      next
        case False
        then have s: "ends_in_two_leads (c # s)" using 2(2) by (cases s) auto
        show ?thesis
          using go_lead(3) [OF c] Cons.IH(2) [OF c s] c 2(1) lead_not_trail [OF c]
            ends_two_leads_not_short [OF s]
          by (simp add: lone_value_simps ref_utf8_replacement del: utf8_go.simps)
      qed
    next
      case c: 2
      have "\<not> is_lead c" using c lead_not_trail by blast
      then have s: "ends_in_two_leads s" using e 2 ends_two_leads_Cons(2) [of l "c # s"] by simp
      show ?thesis
        using Cons.IH(1) [OF s] go_pair [OF 2(1) c] 2(1) c ends_two_leads_not_short [OF s]
        by (simp del: utf8_go.simps)
    next
      case c: 3
      then have s: "ends_in_two_leads s" using e 2 ends_two_leads_Cons(2) [of l "c # s"] by simp
      show ?thesis
        using Cons.IH(1) [OF s] 2(1) c ends_two_leads_not_short [OF s]
        by (cases s) (auto simp: go_scalar lone_value_simps ref_utf8_replacement simp del: utf8_go.simps)
    qed }
qed

text \<open>
  A limited run writes a prefix of what the unlimited run writes: once a test fails, the budget
  stays negative and every later test fails as well.
\<close>

definition lead_ok :: "int option \<Rightarrow> bool" where
  "lead_ok lead = (case lead of None \<Rightarrow> True | Some l \<Rightarrow> 55296 \<le> l \<and> l < 56320)"

definition limited :: "utf8_error + int list \<Rightarrow> utf8_error + int list \<Rightarrow> int \<Rightarrow> bool" where
  "limited r full t \<longleftrightarrow> (\<exists>bs rest. r = Inr bs \<and> full = Inr (bs @ rest) \<and> int (length bs) \<le> max 0 t
      \<and> (int (length (bs @ rest)) \<le> t \<longrightarrow> rest = []))"

lemma limited_replacement:
  assumes "limited r full (t - 3)"
  shows "limited (andthen r (\<lambda>r. Inr (replacement (Some t) @ r)))
    (andthen full (\<lambda>r. Inr ([239, 191, 189] @ r))) t"
proof -
  obtain bs rest where b: "r = Inr bs" "full = Inr (bs @ rest)" "int (length bs) \<le> max 0 (t - 3)"
      "int (length (bs @ rest)) \<le> t - 3 \<longrightarrow> rest = []"
    using assms by (auto simp: limited_def)
  show ?thesis
  proof (cases "t < 3")
    case True
    then have "bs = []" using b(3) by simp
    then show ?thesis using b True by (simp add: limited_def replacement_def overdrawn_def spend_def)
  next
    case False
    then show ?thesis using b by (simp add: limited_def replacement_def overdrawn_def spend_def)
  qed
qed

lemma limited_put:
  assumes n: "0 \<le> n" "n < 1114112" and IH: "\<And>t. limited (utf8_go s None (Some t)) (utf8_go s None None) t"
  shows "limited (utf8_put n s (Some t)) (utf8_put n s None) t"
proof -
  let ?t = "t - int (length (ref_utf8 n))"
  obtain bs rest where b: "utf8_go s None (Some ?t) = Inr bs" "utf8_go s None None = Inr (bs @ rest)"
      "int (length bs) \<le> max 0 ?t" "int (length (bs @ rest)) \<le> ?t \<longrightarrow> rest = []"
    using IH [of ?t] by (auto simp: limited_def)
  have full: "utf8_put n s None = Inr (ref_utf8 n @ bs @ rest)"
    using utf8_put_unlimited [OF n, of s] b(2) by simp
  show ?thesis
  proof (cases "?t < 0")
    case True
    then have "utf8_put n s (Some t) = Inr []"
      by (simp add: utf8_cp_ref [OF n] spend_def overdrawn_def)
    then show ?thesis using True unfolding full limited_def by auto
  next
    case False
    then have "utf8_put n s (Some t) = Inr (ref_utf8 n @ bs)"
      using b(1) by (simp add: utf8_cp_ref [OF n] spend_def overdrawn_def)
    then show ?thesis using b(3,4) False unfolding full limited_def by auto
  qed
qed

lemma surrogate_pair_range:
  assumes "55296 \<le> l" "l < 56320" "56320 \<le> n" "n < 57344"
  shows "0 \<le> 65536 + js_or (js_shl (l - 55296) 10) (n - 56320)"
    "65536 + js_or (js_shl (l - 55296) 10) (n - 56320) < 1114112"
proof -
  have "js_or ((l - 55296) * 1024) (n - 56320) = (l - 55296) * 1024 + (n - 56320)"
    using assms by (intro js_or_disjoint [where k = 10]) auto
  then have "js_or (js_shl (l - 55296) 10) (n - 56320) = (l - 55296) * 1024 + (n - 56320)"
    using assms by (simp add: js_shl_mult)
  then show "0 \<le> 65536 + js_or (js_shl (l - 55296) 10) (n - 56320)"
    "65536 + js_or (js_shl (l - 55296) 10) (n - 56320) < 1114112" using assms by simp_all
qed

lemma utf8_go_limited:
  "lead_ok lead \<Longrightarrow> limited (utf8_go s lead (Some t)) (utf8_go s lead None) t"
proof (induction s arbitrary: lead t)
  case Nil
  then show ?case by (simp add: limited_def)
next
  case (Cons c s)
  note IH = Cons.IH [of None, simplified lead_ok_def option.case, OF TrueI]
  have b: "0 \<le> uint c" "uint c < 1114112" using unit_bounds [of c] by simp_all
  note rep = limited_replacement [OF IH [of "t - 3"]]
  note put = limited_put [OF b IH]
  have sp: "spend 3 (Some t) = Some (t - 3)" "spend 3 None = None" by (simp_all add: spend_def)
  show ?case
  proof (cases "55295 < uint c \<and> uint c < 57344")
    case True
    show ?thesis
    proof (cases lead)
      case None
      show ?thesis
      proof (cases "56319 < uint c \<or> s = []")
        case True
        then show ?thesis using \<open>55295 < uint c \<and> uint c < 57344\<close> None rep
          by (auto simp: sp Let_def)
      next
        case False
        then have "lead_ok (Some (uint c))" using True by (simp add: lead_ok_def)
        then show ?thesis using Cons.IH [of "Some (uint c)" t] True False None by simp
      qed
    next
      case (Some l)
      show ?thesis
      proof (cases "uint c < 56320")
        case lead': True
        then have "lead_ok (Some (uint c))" using True by (simp add: lead_ok_def)
        from limited_replacement [OF Cons.IH [OF this, of "t - 3"]]
        show ?thesis using True lead' Some by (simp add: sp)
      next
        case False
        have l: "55296 \<le> l" "l < 56320" using Cons.prems Some by (simp_all add: lead_ok_def)
        have c: "56320 \<le> uint c" "uint c < 57344" using True False by simp_all
        show ?thesis
          using limited_put [OF surrogate_pair_range [OF l c] IH, of t] True False Some
          by (simp del: utf8_put.simps)
      qed
    qed
  next
    case False
    show ?thesis
    proof (cases lead)
      case None
      then show ?thesis using False put [of t] by (auto simp del: utf8_put.simps)
    next
      case (Some l)
      show ?thesis
        using False Some limited_replacement [OF put [of "t - 3"]] by (auto simp: sp simp del: utf8_put.simps)
    qed
  qed
qed


lemma utf8_budget_enough:
  assumes "utf8_to_bytes s None = Inr bs"
  shows "utf8_to_bytes s (Some (int (length bs))) = Inr bs"
proof (cases "bs = []")
  case True
  then show ?thesis using assms by (simp add: utf8_to_bytes_def)
next
  case False
  then show ?thesis using utf8_go_limited [of None s "int (length bs)"] assms
    by (auto simp: utf8_to_bytes_def limited_def lead_ok_def)
qed

lemma enc_all_concat: "enc_all ns = concat (map ref_utf8 ns)"
  by (rule enc_all_def)

lemma utf8_decode_error:
  assumes "128 \<le> uint b" "uint b < 192"
  shows "utf8_loop (b # e) 0 (Suc (length e)) = 65533 # utf8_loop (b # e) 1 (Suc (length e))"
proof -
  have "seq_length (uint b) = 1" using assms by (simp add: seq_length_def)
  then show ?thesis
    using utf8_loop.simps [of "b # e" 0 "Suc (length e)"] assms by (simp add: utf8_seq_def)
qed

subsection \<open>UTF-8 as a codec\<close>

text \<open>
  On well-formed strings the encoder and the decoder form a codec of the library: the client
  lemmas of the interface (injectivity, totality) hold for the code's functions.
\<close>

definition utf8_encode :: "jsstr \<Rightarrow> buffer" where
  "utf8_encode s = (case utf8_to_bytes s None of Inl e \<Rightarrow> [] | Inr bs \<Rightarrow> map of_int bs)"

definition utf8_decode :: "buffer \<Rightarrow> unit + jsstr" where
  "utf8_decode b = Inr (utf8_slice b 0 (length b))"

lemma utf8_to_bytes_scalars:
  "\<not> ends_in_two_leads s \<Longrightarrow> utf8_to_bytes s None = Inr (enc_all (scalars s))"
  by (simp add: utf8_to_bytes_def utf8_go_scalars(1))

lemma utf8_decode_encode: "well_formed s \<Longrightarrow> utf8_decode (utf8_encode s) = Inr s"
  using slice_enc_all [of "scalars s"] scalars_scalar [of _ s] well_formed_id [of s]
  by (simp add: utf8_decode_def utf8_encode_def utf8_to_bytes_scalars well_formed_not_two_leads
      to_well_formed_def)

interpretation utf8: codec utf8_encode utf8_decode well_formed
  by unfold_locales (rule utf8_decode_encode)

subsection \<open>Properties\<close>

text \<open>
  Property C5. Encoding and decoding a string: the encoder writes the UTF-8 forms of the string's
  scalar values (surrogate pairs combined, a surrogate outside a pair as U+FFFD) and the decoder
  gives back the string with its lone surrogates replaced; for every string but those that end in
  two lead surrogates.
\<close>

theorem utf8_roundtrip:
  assumes "\<not> ends_in_two_leads s"
  shows "utf8_to_bytes s None = Inr (concat (map ref_utf8 (scalars s))) \<and>
    utf8_slice (map of_int (concat (map ref_utf8 (scalars s)))) 0
      (length (concat (map ref_utf8 (scalars s)))) = to_well_formed s"
  using utf8_to_bytes_scalars [OF assms] slice_enc_all [of "scalars s"] scalars_scalar [of _ s]
  by (simp add: to_well_formed_def enc_all_def)

theorem utf8_roundtrip_witness:
  "utf8_to_bytes [0x20AC, 0xD83D, 0xDE00, 0xDC00] None
     = Inr (concat (map ref_utf8 (scalars [0x20AC, 0xD83D, 0xDE00, 0xDC00]))) \<and>
   to_well_formed [0x20AC, 0xD83D, 0xDE00, 0xDC00] = [0x20AC, 0xD83D, 0xDE00, 0xFFFD]"
  using utf8_roundtrip [of "[0x20AC, 0xD83D, 0xDE00, 0xDC00]"]
  by (simp add: is_lead_def is_trail_def to_well_formed_def lone_value_def ref_utf16_def)

text \<open>
  Property C6. What the code does on the remaining strings: when the last two code units are both
  lead surrogates, the last one is lost, while every other scalar value is written. (The pending
  lead is only flushed by a later unit, and the test \<open>a + 1 === r\<close> is made only when no lead is
  pending.)
\<close>

theorem utf8_drops_last_lead:
  assumes "ends_in_two_leads s"
  shows "utf8_to_bytes s None = Inr (concat (map ref_utf8 (butlast (scalars s))))"
  using utf8_go_two_leads(1) [OF assms] by (simp add: utf8_to_bytes_def enc_all_def)

theorem utf8_drops_last_lead_witness:
  "utf8_to_bytes [0xD800, 0xD800] None = Inr [239, 191, 189]"
  using utf8_drops_last_lead [of "[0xD800, 0xD800]"]
  by (simp add: is_lead_def is_trail_def lone_value_def ref_utf8_def)

text \<open>
  Property C7. The byte budget: with a budget \<open>t > 0\<close> the encoder succeeds, writes at most \<open>t\<close>
  bytes, and what it writes is a prefix of the unlimited encoding.
\<close>

theorem utf8_budget:
  assumes "0 < t"
  shows "\<exists>bs rest. utf8_to_bytes s (Some t) = Inr bs \<and> utf8_to_bytes s None = Inr (bs @ rest)
    \<and> int (length bs) \<le> t"
  using utf8_go_limited [of None s t] assms
  by (auto simp: utf8_to_bytes_def limited_def lead_ok_def)

theorem utf8_budget_witness:
  "\<exists>bs rest. utf8_to_bytes [0x41, 0x20AC] (Some 3) = Inr bs
    \<and> utf8_to_bytes [0x41, 0x20AC] None = Inr (bs @ rest) \<and> int (length bs) \<le> 3"
  using utf8_budget [of 3 "[0x41, 0x20AC]"] by simp

end
