(* ===== verification/JsDouble.thy ===== *)
theory JsDouble
  imports JsNum
begin

section \<open>Whole doubles\<close>

text \<open>
  The additions and multiplications of the loops that assemble an integer from bytes work on
  IEEE-754 doubles. A whole value stays exact up to 53 bits and is rounded to 53 significant bits
  (ties to the even neighbour) above, and from 1024 bits on it is an infinity. \<open>Undef\<close> is
  \<open>undefined\<close>. \<open>Frac\<close> is a value that is not whole: only a result, never an operand, and its digits
  are not modelled.
\<close>

datatype double = Fin int | PInf | NInf | NaN | Undef | Frac

subsection \<open>Rounding\<close>

text \<open>The number of bits a positive value has in excess of 53.\<close>

function excess :: "int \<Rightarrow> nat" where
  "excess a = (if a < 2 ^ 53 then 0 else Suc (excess (a div 2)))"
  by pat_completeness auto
termination by (relation "measure nat") (auto simp: nat_less_iff)

declare excess.simps [simp del]

definition round53 :: "int \<Rightarrow> int" where
  "round53 a =
     (let u = 2 ^ excess a; q = a div u; r = a mod u
      in (if u < 2 * r \<or> u = 2 * r \<and> odd q then q + 1 else q) * u)"

definition dbl :: "int \<Rightarrow> double" where
  "dbl x =
     (if \<bar>x\<bar> < 2 ^ 53 then Fin x
      else let v = round53 \<bar>x\<bar>
           in if 2 ^ 1024 \<le> v then (if x < 0 then NInf else PInf) else Fin (sgn x * v))"

subsection \<open>The operators\<close>

definition d_neg :: "double \<Rightarrow> double" where
  "d_neg a = (case a of Fin x \<Rightarrow> Fin (- x) | PInf \<Rightarrow> NInf | NInf \<Rightarrow> PInf | Frac \<Rightarrow> Frac | _ \<Rightarrow> NaN)"

fun d_add :: "double \<Rightarrow> double \<Rightarrow> double" where
  "d_add (Fin x) (Fin y) = dbl (x + y)"
| "d_add (Fin x) PInf = PInf"
| "d_add (Fin x) NInf = NInf"
| "d_add PInf (Fin y) = PInf"
| "d_add NInf (Fin y) = NInf"
| "d_add PInf PInf = PInf"
| "d_add NInf NInf = NInf"
| "d_add _ _ = NaN"

text \<open>\<open>0 * Infinity\<close> is \<open>NaN\<close>.\<close>

fun d_mul :: "double \<Rightarrow> double \<Rightarrow> double" where
  "d_mul (Fin x) (Fin y) = dbl (x * y)"
| "d_mul (Fin x) PInf = (if x = 0 then NaN else if 0 < x then PInf else NInf)"
| "d_mul PInf (Fin y) = (if y = 0 then NaN else if 0 < y then PInf else NInf)"
| "d_mul PInf PInf = PInf"
| "d_mul _ _ = NaN"

text \<open>\<open>a < b\<close>, false as soon as one side is \<open>NaN\<close> or \<open>undefined\<close>.\<close>

fun d_less :: "double \<Rightarrow> double \<Rightarrow> bool" where
  "d_less (Fin x) (Fin y) \<longleftrightarrow> x < y"
| "d_less (Fin x) PInf \<longleftrightarrow> True"
| "d_less NInf (Fin y) \<longleftrightarrow> True"
| "d_less NInf PInf \<longleftrightarrow> True"
| "d_less _ _ \<longleftrightarrow> False"

fun d_le :: "double \<Rightarrow> double \<Rightarrow> bool" where
  "d_le (Fin x) (Fin y) \<longleftrightarrow> x \<le> y"
| "d_le (Fin x) PInf \<longleftrightarrow> True"
| "d_le NInf (Fin y) \<longleftrightarrow> True"
| "d_le NInf PInf \<longleftrightarrow> True"
| "d_le NInf NInf \<longleftrightarrow> True"
| "d_le PInf PInf \<longleftrightarrow> True"
| "d_le _ _ \<longleftrightarrow> False"

text \<open>\<open>Math.pow(2, k)\<close> for \<open>k\<close> not below 0.\<close>

definition d_pow2 :: "int \<Rightarrow> double" where
  "d_pow2 k = (if k < 1024 then Fin (2 ^ nat k) else PInf)"

subsection \<open>Exact results\<close>

lemma dbl_exact: "\<bar>x\<bar> < 2 ^ 53 \<Longrightarrow> dbl x = Fin x"
  by (simp add: dbl_def)

lemma d_ops_exact:
  "\<bar>x + y\<bar> < 2 ^ 53 \<Longrightarrow> d_add (Fin x) (Fin y) = Fin (x + y)"
  "\<bar>x * y\<bar> < 2 ^ 53 \<Longrightarrow> d_mul (Fin x) (Fin y) = Fin (x * y)"
  by (simp_all add: dbl_exact)

text \<open>A rounded value is one of the two neighbours with 53 bits, at most half a unit away.\<close>

lemma excess_bounds:
  assumes "0 \<le> a"
  shows "a div 2 ^ excess a < 2 ^ 53"
  using assms
proof (induction a rule: excess.induct)
  case (1 a)
  show ?case
  proof (cases "a < 2 ^ 53")
    case True
    then show ?thesis by (simp add: excess.simps [of a])
  next
    case False
    then have "a div 2 div 2 ^ excess (a div 2) < 2 ^ 53" using 1 by simp
    then show ?thesis using False by (simp add: excess.simps [of a] zdiv_zmult2_eq)
  qed
qed

lemma round53_near:
  "2 * \<bar>round53 a - a\<bar> \<le> 2 ^ excess a"
proof -
  define u q r where d: "u = (2 :: int) ^ excess a" "q = a div u" "r = a mod u"
  have e: "a = q * u + r" unfolding d by (rule div_mult_mod_eq [symmetric])
  have r: "0 \<le> r" "r < u" by (simp_all add: d)
  have "round53 a = (if u < 2 * r \<or> u = 2 * r \<and> odd q then q * u + u else q * u)"
    by (simp add: round53_def d [symmetric] Let_def algebra_simps)
  then have "2 * \<bar>round53 a - a\<bar> \<le> u" using e r by (auto simp: abs_if)
  then show ?thesis by (simp only: d(1))
qed

lemma dbl_examples:
  "dbl (2 ^ 56 - 1) = Fin (2 ^ 56)" "dbl (2 ^ 53 + 1) = Fin (2 ^ 53)" "dbl (2 ^ 53 + 3) = Fin (2 ^ 53 + 4)"
  "dbl (- (2 ^ 54 + 3)) = Fin (- (2 ^ 54 + 4))"
  by (simp_all add: dbl_def round53_def excess.simps Let_def)

end
