(* ===== verification/BufInt.thy ===== *)
theory BufInt
  imports JsDouble "HOL-Library.Signed_Division"
begin

section \<open>Integers in buffers (module 54 of swagger-ui-bundle.js)\<close>

text \<open>
  The \<open>readX\<close> and \<open>writeX\<close> methods of the \<open>Buffer\<close> polyfill, on typed arrays and on the plain
  objects that stand in for them. Values and offsets to be written are whole numbers. The sums of
  the variable-width readers and the limits of the writers are sums of doubles (theory
  \<open>JsDouble\<close>), exact for the documented widths of at most six bytes. Every method is related to
  one reference: the little-endian digits \<open>le_bytes\<close> and their value.
\<close>

subsection \<open>Byte access\<close>

text \<open>Access to a typed array: an index outside it reads as \<open>undefined\<close>, and a store there is lost.\<close>

definition get8 :: "buffer \<Rightarrow> int \<Rightarrow> int option" where
  "get8 b i = (if 0 \<le> i \<and> i < int (length b) then Some (uint (b ! nat i)) else None)"

definition put8 :: "buffer \<Rightarrow> int \<Rightarrow> int \<Rightarrow> buffer" where
  "put8 b i v = (if 0 \<le> i \<and> i < int (length b) then b[nat i := of_int v] else b)"

text \<open>
  Without typed arrays a buffer is a plain object with a \<open>length\<close>: a store keeps the number as it
  is, under any index.
\<close>

record plain_buffer =
  pl_length :: int
  pl_slot :: "int \<Rightarrow> int option"

datatype bstore = Typed buffer | Plain plain_buffer

definition typed_support :: "bstore \<Rightarrow> bool" where
  "typed_support s = (case s of Typed b \<Rightarrow> True | Plain o' \<Rightarrow> False)"

definition st_length :: "bstore \<Rightarrow> int" where
  "st_length s = (case s of Typed b \<Rightarrow> int (length b) | Plain o' \<Rightarrow> pl_length o')"

definition item :: "bstore \<Rightarrow> int \<Rightarrow> int option" where
  "item s i = (case s of Typed b \<Rightarrow> get8 b i | Plain o' \<Rightarrow> pl_slot o' i)"

definition put :: "bstore \<Rightarrow> int \<Rightarrow> int \<Rightarrow> bstore" where
  "put s i v =
     (case s of Typed b \<Rightarrow> Typed (put8 b i v)
      | Plain o' \<Rightarrow> Plain (o'\<lparr>pl_slot := (pl_slot o')(i \<mapsto> v)\<rparr>))"

lemma typed_simps [simp]:
  "typed_support (Typed b)" "\<not> typed_support (Plain o')"
  "st_length (Typed b) = int (length b)" "st_length (Plain o') = pl_length o'"
  "item (Typed b) = get8 b" "item (Plain o') = pl_slot o'"
  "put (Typed b) i v = Typed (put8 b i v)"
  "put (Plain o') i v = Plain (o'\<lparr>pl_slot := (pl_slot o')(i \<mapsto> v)\<rparr>)"
  by (simp_all add: typed_support_def st_length_def item_def put_def fun_eq_iff)

text \<open>\<open>undefined\<close> is 0 for the bitwise operators and counts as \<open>NaN\<close> in sums and products.\<close>

definition bits :: "int option \<Rightarrow> int" where
  "bits v = (case v of None \<Rightarrow> 0 | Some x \<Rightarrow> x)"

definition num :: "int option \<Rightarrow> double" where
  "num v = (case v of None \<Rightarrow> Undef | Some x \<Rightarrow> Fin x)"

subsection \<open>Range checks \<open>M\<close> and \<open>I\<close>\<close>

definition check_offset :: "int \<Rightarrow> int \<Rightarrow> int \<Rightarrow> js_error + unit" where
  "check_offset e t n =
     (if e < 0 then Inl (RangeError ''offset is not uint'')
      else if n < e + t then Inl (RangeError ''Trying to access beyond buffer length'')
      else Inr ())"

definition check_int :: "bstore \<Rightarrow> int \<Rightarrow> int \<Rightarrow> int \<Rightarrow> double \<Rightarrow> double \<Rightarrow> js_error + unit" where
  "check_int e t n r ub lb =
     (if d_less ub (Fin t) \<or> d_less (Fin t) lb then Inl (RangeError ''value argument is out of bounds'')
      else if st_length e < n + r then Inl (RangeError ''Index out of range'')
      else Inr ())"

definition unless :: "bool \<Rightarrow> 'e + unit \<Rightarrow> 'e + unit" where
  "unless noAssert c = (if noAssert then Inr () else c)"

subsection \<open>Readers\<close>

text \<open>\<open>for (...; ++i < t && (o *= 256);) r += this[e + i] * o\<close>, returning \<open>r\<close> and the last \<open>o\<close>.\<close>

function read_up :: "bstore \<Rightarrow> int \<Rightarrow> int \<Rightarrow> int \<Rightarrow> double \<Rightarrow> double \<Rightarrow> double \<times> double" where
  "read_up b e t i m r =
     (if i + 1 < t
      then let o' = d_mul m (Fin 256)
           in read_up b e t (i + 1) o' (d_add r (d_mul (num (item b (e + (i + 1)))) o'))
      else (r, m))"
  by pat_completeness auto
termination by (relation "measure (\<lambda>(b, e, t, i, m, r). nat (t - i))") auto

text \<open>\<open>for (...; t > 0 && (o *= 256);) r += this[e + --t] * o\<close>.\<close>

function read_down :: "bstore \<Rightarrow> int \<Rightarrow> int \<Rightarrow> double \<Rightarrow> double \<Rightarrow> double \<times> double" where
  "read_down b e t m r =
     (if 0 < t
      then let o' = d_mul m (Fin 256)
           in read_down b e (t - 1) o' (d_add r (d_mul (num (item b (e + (t - 1)))) o'))
      else (r, m))"
  by pat_completeness auto
termination by (relation "measure (\<lambda>(b, e, t, m, r). nat t)") auto

declare read_up.simps [simp del] read_down.simps [simp del]

definition readUIntLE :: "bstore \<Rightarrow> int \<Rightarrow> int \<Rightarrow> bool \<Rightarrow> js_error + double" where
  "readUIntLE b e t na =
     (let e = to_int32 e; t = to_int32 t
      in andthen (unless na (check_offset e t (st_length b))) (\<lambda>_.
           Inr (fst (read_up b e t 0 (Fin 1) (num (item b e))))))"

definition readUIntBE :: "bstore \<Rightarrow> int \<Rightarrow> int \<Rightarrow> bool \<Rightarrow> js_error + double" where
  "readUIntBE b e t na =
     (let e = to_int32 e; t = to_int32 t
      in andthen (unless na (check_offset e t (st_length b))) (\<lambda>_.
           Inr (fst (read_down b e (t - 1) (Fin 1) (num (item b (e + (t - 1))))))))"

text \<open>
  \<open>r >= (o *= 128) && (r -= Math.pow(2, 8 * t)), r\<close>; the comparison with \<open>NaN\<close> is false. A width
  below 0 makes the subtrahend a fraction, which, taken from a byte, is lost in the rounding from
  \<open>2 ^ -48\<close> on.
\<close>

definition sign_adjust :: "int \<Rightarrow> double \<times> double \<Rightarrow> double" where
  "sign_adjust t p =
     (if d_le (d_mul (snd p) (Fin 128)) (fst p)
      then if 0 \<le> t then d_add (fst p) (d_neg (d_pow2 (8 * t))) else if -5 \<le> t then Frac else fst p
      else fst p)"

definition readIntLE :: "bstore \<Rightarrow> int \<Rightarrow> int \<Rightarrow> bool \<Rightarrow> js_error + double" where
  "readIntLE b e t na =
     (let e = to_int32 e; t = to_int32 t
      in andthen (unless na (check_offset e t (st_length b))) (\<lambda>_.
           Inr (sign_adjust t (read_up b e t 0 (Fin 1) (num (item b e))))))"

definition readIntBE :: "bstore \<Rightarrow> int \<Rightarrow> int \<Rightarrow> bool \<Rightarrow> js_error + double" where
  "readIntBE b e t na =
     (let e = to_int32 e; t = to_int32 t
      in andthen (unless na (check_offset e t (st_length b))) (\<lambda>_.
           Inr (sign_adjust t (read_down b e (t - 1) (Fin 1) (num (item b (e + (t - 1))))))))"

definition reader :: "bstore \<Rightarrow> int \<Rightarrow> int \<Rightarrow> bool \<Rightarrow> double \<Rightarrow> js_error + double" where
  "reader b e w na v = andthen (unless na (check_offset e w (st_length b))) (\<lambda>_. Inr v)"

definition readUInt8 :: "bstore \<Rightarrow> int \<Rightarrow> bool \<Rightarrow> js_error + double" where
  "readUInt8 b e na = reader b e 1 na (num (item b e))"

definition readUInt16LE :: "bstore \<Rightarrow> int \<Rightarrow> bool \<Rightarrow> js_error + double" where
  "readUInt16LE b e na =
     reader b e 2 na (Fin (js_or (bits (item b e)) (js_shl (bits (item b (e + 1))) 8)))"

definition readUInt16BE :: "bstore \<Rightarrow> int \<Rightarrow> bool \<Rightarrow> js_error + double" where
  "readUInt16BE b e na =
     reader b e 2 na (Fin (js_or (js_shl (bits (item b e)) 8) (bits (item b (e + 1)))))"

definition readUInt32LE :: "bstore \<Rightarrow> int \<Rightarrow> bool \<Rightarrow> js_error + double" where
  "readUInt32LE b e na = reader b e 4 na
     (d_add (Fin (js_or (js_or (bits (item b e)) (js_shl (bits (item b (e + 1))) 8))
                        (js_shl (bits (item b (e + 2))) 16)))
            (d_mul (Fin 16777216) (num (item b (e + 3)))))"

definition readUInt32BE :: "bstore \<Rightarrow> int \<Rightarrow> bool \<Rightarrow> js_error + double" where
  "readUInt32BE b e na = reader b e 4 na
     (d_add (d_mul (Fin 16777216) (num (item b e)))
            (Fin (js_or (js_or (js_shl (bits (item b (e + 1))) 16)
               (js_shl (bits (item b (e + 2))) 8)) (bits (item b (e + 3))))))"

definition readInt8 :: "bstore \<Rightarrow> int \<Rightarrow> bool \<Rightarrow> js_error + double" where
  "readInt8 b e na = reader b e 1 na
     (if js_and 128 (bits (item b e)) \<noteq> 0
      then Fin (-1 * (255 - bits (item b e) + 1)) else num (item b e))"

definition sign16 :: "int \<Rightarrow> int" where
  "sign16 n = (if js_and 32768 n \<noteq> 0 then js_or 4294901760 n else n)"

definition readInt16LE :: "bstore \<Rightarrow> int \<Rightarrow> bool \<Rightarrow> js_error + double" where
  "readInt16LE b e na = reader b e 2 na
     (Fin (sign16 (js_or (bits (item b e)) (js_shl (bits (item b (e + 1))) 8))))"

definition readInt16BE :: "bstore \<Rightarrow> int \<Rightarrow> bool \<Rightarrow> js_error + double" where
  "readInt16BE b e na = reader b e 2 na
     (Fin (sign16 (js_or (bits (item b (e + 1))) (js_shl (bits (item b e)) 8))))"

definition readInt32LE :: "bstore \<Rightarrow> int \<Rightarrow> bool \<Rightarrow> js_error + double" where
  "readInt32LE b e na = reader b e 4 na
     (Fin (js_or (js_or (js_or (bits (item b e)) (js_shl (bits (item b (e + 1))) 8))
        (js_shl (bits (item b (e + 2))) 16)) (js_shl (bits (item b (e + 3))) 24)))"

definition readInt32BE :: "bstore \<Rightarrow> int \<Rightarrow> bool \<Rightarrow> js_error + double" where
  "readInt32BE b e na = reader b e 4 na
     (Fin (js_or (js_or (js_or (js_shl (bits (item b e)) 24) (js_shl (bits (item b (e + 1))) 16))
        (js_shl (bits (item b (e + 2))) 8)) (bits (item b (e + 3)))))"

subsection \<open>Writers\<close>

text \<open>
  \<open>for (...; ++i < n && (o *= 256);) this[t + i] = e / o & 255\<close>. Dividing a double by a power of
  two is exact, and the operator \<open>&\<close> truncates the quotient; a power beyond the doubles is an
  infinity, for which the quotient is 0, as it is here for every value below the power.
\<close>

function write_up :: "bstore \<Rightarrow> int \<Rightarrow> int \<Rightarrow> int \<Rightarrow> int \<Rightarrow> int \<Rightarrow> bstore" where
  "write_up b e t n i m =
     (if i + 1 < n
      then write_up (put b (t + (i + 1)) (js_and (e sdiv (m * 256)) 255)) e t n (i + 1) (m * 256)
      else b)"
  by pat_completeness auto
termination by (relation "measure (\<lambda>(b, e, t, n, i, m). nat (n - i))") auto

text \<open>\<open>for (...; --o >= 0 && (i *= 256);) this[t + o] = e / i & 255\<close>.\<close>

function write_down :: "bstore \<Rightarrow> int \<Rightarrow> int \<Rightarrow> int \<Rightarrow> int \<Rightarrow> bstore" where
  "write_down b e t i m =
     (if 0 \<le> i - 1
      then write_down (put b (t + (i - 1)) (js_and (e sdiv (m * 256)) 255)) e t (i - 1) (m * 256)
      else b)"
  by pat_completeness auto
termination by (relation "measure (\<lambda>(b, e, t, i, m). nat i)") auto

text \<open>The signed loops carry the borrow \<open>u\<close>, set once a lower byte of a negative value is not 0.\<close>

definition borrow :: "bstore \<Rightarrow> int \<Rightarrow> int \<Rightarrow> int \<Rightarrow> int" where
  "borrow b e j u = (if e < 0 \<and> u = 0 \<and> item b j \<noteq> Some 0 then 1 else u)"

function write_up_s :: "bstore \<Rightarrow> int \<Rightarrow> int \<Rightarrow> int \<Rightarrow> int \<Rightarrow> int \<Rightarrow> int \<Rightarrow> bstore" where
  "write_up_s b e t n i m u =
     (if i + 1 < n then
        let u' = borrow b e (t + (i + 1) - 1) u
        in write_up_s (put b (t + (i + 1)) (js_and (js_sar (e sdiv (m * 256)) 0 - u') 255))
             e t n (i + 1) (m * 256) u'
      else b)"
  by pat_completeness auto
termination by (relation "measure (\<lambda>(b, e, t, n, i, m, u). nat (n - i))") auto

function write_down_s :: "bstore \<Rightarrow> int \<Rightarrow> int \<Rightarrow> int \<Rightarrow> int \<Rightarrow> int \<Rightarrow> bstore" where
  "write_down_s b e t i m u =
     (if 0 \<le> i - 1 then
        let u' = borrow b e (t + (i - 1) + 1) u
        in write_down_s (put b (t + (i - 1)) (js_and (js_sar (e sdiv (m * 256)) 0 - u') 255))
             e t (i - 1) (m * 256) u'
      else b)"
  by pat_completeness auto
termination by (relation "measure (\<lambda>(b, e, t, i, m, u). nat i)") auto

declare write_up.simps [simp del] write_down.simps [simp del]
  write_up_s.simps [simp del] write_down_s.simps [simp del]

definition writer :: "bstore \<Rightarrow> int \<Rightarrow> int \<Rightarrow> int \<Rightarrow> double \<Rightarrow> double \<Rightarrow> bool \<Rightarrow> bstore \<Rightarrow> js_error + bstore \<times> int" where
  "writer b e t w ub lb na b' =
     andthen (unless na (check_int b e t w ub lb)) (\<lambda>_. Inr (b', t + w))"

text \<open>
  \<open>Math.pow(2, k) - 1\<close> and \<open>-Math.pow(2, k)\<close> as bounds of whole values: for a negative \<open>k\<close> they are
  fractions, and the nearest whole bounds inside them, -1 and 0, admit the same values (none).
\<close>

definition top_limit :: "int \<Rightarrow> double" where
  "top_limit k = (if k < 0 then Fin (-1) else d_add (d_pow2 k) (Fin (-1)))"

definition low_limit :: "int \<Rightarrow> double" where
  "low_limit k = (if k < 0 then Fin 0 else d_neg (d_pow2 k))"

definition writeUIntLE :: "bstore \<Rightarrow> int \<Rightarrow> int \<Rightarrow> int \<Rightarrow> bool \<Rightarrow> js_error + bstore \<times> int" where
  "writeUIntLE b e t n na =
     (let t = to_int32 t; n = to_int32 n
      in writer b e t n (top_limit (8 * n)) (Fin 0) na (write_up (put b t (js_and 255 e)) e t n 0 1))"

definition writeUIntBE :: "bstore \<Rightarrow> int \<Rightarrow> int \<Rightarrow> int \<Rightarrow> bool \<Rightarrow> js_error + bstore \<times> int" where
  "writeUIntBE b e t n na =
     (let t = to_int32 t; n = to_int32 n
      in writer b e t n (top_limit (8 * n)) (Fin 0) na
           (write_down (put b (t + (n - 1)) (js_and 255 e)) e t (n - 1) 1))"

definition writeIntLE :: "bstore \<Rightarrow> int \<Rightarrow> int \<Rightarrow> int \<Rightarrow> bool \<Rightarrow> js_error + bstore \<times> int" where
  "writeIntLE b e t n na =
     (let t = to_int32 t; n = to_int32 n
      in writer b e t n (top_limit (8 * n - 1)) (low_limit (8 * n - 1)) na
           (write_up_s (put b t (js_and 255 e)) e t n 0 1 0))"

definition writeIntBE :: "bstore \<Rightarrow> int \<Rightarrow> int \<Rightarrow> int \<Rightarrow> bool \<Rightarrow> js_error + bstore \<times> int" where
  "writeIntBE b e t n na =
     (let t = to_int32 t; n = to_int32 n
      in writer b e t n (top_limit (8 * n - 1)) (low_limit (8 * n - 1)) na
           (write_down_s (put b (t + (n - 1)) (js_and 255 e)) e t (n - 1) 1 0))"

text \<open>
  The fixed widths. Where the buffer is a typed array the bytes are stored directly, and the array
  truncates them; a plain object goes through the loops \<open>j\<close> and \<open>N\<close>, which mask them.
\<close>

function write16_loop :: "bstore \<Rightarrow> int \<Rightarrow> int \<Rightarrow> bool \<Rightarrow> nat \<Rightarrow> bstore" where
  "write16_loop e t n le k =
     (if int k < min (st_length e - n) 2
      then let s = 8 * (if le then k else 1 - k)
           in write16_loop (put e (n + int k) (js_shr (js_and t (js_shl 255 s)) s)) t n le (k + 1)
      else e)"
  by pat_completeness auto
termination by (relation "measure (\<lambda>(e, t, n, le, k). 2 - k)") auto

function write32_loop :: "bstore \<Rightarrow> int \<Rightarrow> int \<Rightarrow> bool \<Rightarrow> nat \<Rightarrow> bstore" where
  "write32_loop e t n le k =
     (if int k < min (st_length e - n) 4
      then write32_loop (put e (n + int k) (js_and (js_shr t (8 * (if le then k else 3 - k))) 255)) t n le (k + 1)
      else e)"
  by pat_completeness auto
termination by (relation "measure (\<lambda>(e, t, n, le, k). 4 - k)") auto

declare write16_loop.simps [simp del] write32_loop.simps [simp del]

definition objectWriteUInt16 :: "bstore \<Rightarrow> int \<Rightarrow> int \<Rightarrow> bool \<Rightarrow> bstore" where
  "objectWriteUInt16 e t n le = write16_loop e (if t < 0 then 65535 + t + 1 else t) n le 0"

definition objectWriteUInt32 :: "bstore \<Rightarrow> int \<Rightarrow> int \<Rightarrow> bool \<Rightarrow> bstore" where
  "objectWriteUInt32 e t n le = write32_loop e (if t < 0 then 4294967295 + t + 1 else t) n le 0"

definition store16LE :: "bstore \<Rightarrow> int \<Rightarrow> int \<Rightarrow> bstore" where
  "store16LE b e t =
     (if typed_support b then put (put b t (js_and 255 e)) (t + 1) (js_shr e 8)
      else objectWriteUInt16 b e t True)"

definition store16BE :: "bstore \<Rightarrow> int \<Rightarrow> int \<Rightarrow> bstore" where
  "store16BE b e t =
     (if typed_support b then put (put b t (js_shr e 8)) (t + 1) (js_and 255 e)
      else objectWriteUInt16 b e t False)"

definition store32BE :: "bstore \<Rightarrow> int \<Rightarrow> int \<Rightarrow> bstore" where
  "store32BE b e t =
     (if typed_support b
      then put (put (put (put b t (js_shr e 24)) (t + 1) (js_shr e 16)) (t + 2) (js_shr e 8))
             (t + 3) (js_and 255 e)
      else objectWriteUInt32 b e t False)"

definition writeUInt8 :: "bstore \<Rightarrow> int \<Rightarrow> int \<Rightarrow> bool \<Rightarrow> js_error + bstore \<times> int" where
  "writeUInt8 b e t na =
     (let t = to_int32 t in writer b e t 1 (Fin 255) (Fin 0) na (put b t (js_and 255 e)))"

definition writeUInt16LE :: "bstore \<Rightarrow> int \<Rightarrow> int \<Rightarrow> bool \<Rightarrow> js_error + bstore \<times> int" where
  "writeUInt16LE b e t na =
     (let t = to_int32 t in writer b e t 2 (Fin 65535) (Fin 0) na (store16LE b e t))"

definition writeUInt16BE :: "bstore \<Rightarrow> int \<Rightarrow> int \<Rightarrow> bool \<Rightarrow> js_error + bstore \<times> int" where
  "writeUInt16BE b e t na =
     (let t = to_int32 t in writer b e t 2 (Fin 65535) (Fin 0) na (store16BE b e t))"

definition writeUInt32LE :: "bstore \<Rightarrow> int \<Rightarrow> int \<Rightarrow> bool \<Rightarrow> js_error + bstore \<times> int" where
  "writeUInt32LE b e t na =
     (let t = to_int32 t in writer b e t 4 (Fin 4294967295) (Fin 0) na
        (if typed_support b
         then put (put (put (put b (t + 3) (js_shr e 24)) (t + 2) (js_shr e 16)) (t + 1) (js_shr e 8))
                t (js_and 255 e)
         else objectWriteUInt32 b e t True))"

definition writeUInt32BE :: "bstore \<Rightarrow> int \<Rightarrow> int \<Rightarrow> bool \<Rightarrow> js_error + bstore \<times> int" where
  "writeUInt32BE b e t na =
     (let t = to_int32 t in writer b e t 4 (Fin 4294967295) (Fin 0) na (store32BE b e t))"

definition writeInt8 :: "bstore \<Rightarrow> int \<Rightarrow> int \<Rightarrow> bool \<Rightarrow> js_error + bstore \<times> int" where
  "writeInt8 b e t na =
     (let t = to_int32 t in writer b e t 1 (Fin 127) (Fin (-128)) na
        (put b t (js_and 255 (if e < 0 then 255 + e + 1 else e))))"

definition writeInt16LE :: "bstore \<Rightarrow> int \<Rightarrow> int \<Rightarrow> bool \<Rightarrow> js_error + bstore \<times> int" where
  "writeInt16LE b e t na =
     (let t = to_int32 t in writer b e t 2 (Fin 32767) (Fin (-32768)) na (store16LE b e t))"

definition writeInt16BE :: "bstore \<Rightarrow> int \<Rightarrow> int \<Rightarrow> bool \<Rightarrow> js_error + bstore \<times> int" where
  "writeInt16BE b e t na =
     (let t = to_int32 t in writer b e t 2 (Fin 32767) (Fin (-32768)) na (store16BE b e t))"

definition writeInt32LE :: "bstore \<Rightarrow> int \<Rightarrow> int \<Rightarrow> bool \<Rightarrow> js_error + bstore \<times> int" where
  "writeInt32LE b e t na =
     (let t = to_int32 t in writer b e t 4 (Fin 2147483647) (Fin (-2147483648)) na
        (if typed_support b
         then put (put (put (put b t (js_and 255 e)) (t + 1) (js_shr e 8)) (t + 2) (js_shr e 16))
                (t + 3) (js_shr e 24)
         else objectWriteUInt32 b e t True))"

definition writeInt32BE :: "bstore \<Rightarrow> int \<Rightarrow> int \<Rightarrow> bool \<Rightarrow> js_error + bstore \<times> int" where
  "writeInt32BE b e t na =
     (let t = to_int32 t in writer b e t 4 (Fin 2147483647) (Fin (-2147483648)) na
        (store32BE b (if e < 0 then 4294967295 + e + 1 else e) t))"


subsection \<open>The reference: little-endian digits\<close>

definition le_bytes :: "nat \<Rightarrow> int \<Rightarrow> buffer" where
  "le_bytes n v = map (\<lambda>i. of_int (v div 256 ^ i)) [0..<n]"

fun le_value :: "buffer \<Rightarrow> int" where
  "le_value [] = 0"
| "le_value (x # xs) = uint x + 256 * le_value xs"

definition store_at :: "buffer \<Rightarrow> nat \<Rightarrow> buffer \<Rightarrow> buffer" where
  "store_at b p xs = take p b @ xs @ drop (p + length xs) b"

definition signed_value :: "nat \<Rightarrow> int \<Rightarrow> int" where
  "signed_value n x = (if 2 ^ (8 * n - 1) \<le> x then x - 2 ^ (8 * n) else x)"

lemma of_int_byte_mod [simp]: "of_int (x mod 256) = (of_int x :: byte)"
  using word_of_int_eq_iff [where 'a = 8, of "x mod 256" x] by (simp add: take_bit_eq_mod)

lemma uint_byte_of_int: "uint (of_int x :: byte) = x mod 256"
  by (simp add: uint_word_of_int)

lemma length_le_bytes [simp]: "length (le_bytes n v) = n"
  by (simp add: le_bytes_def)

lemma le_bytes_Suc: "le_bytes (Suc n) v = le_bytes n v @ [of_int (v div 256 ^ n)]"
  by (simp add: le_bytes_def)

lemma le_bytes_0 [simp]: "le_bytes 0 v = []"
  by (simp add: le_bytes_def)

lemma le_bytes_Cons: "le_bytes (Suc n) v = of_int v # le_bytes n (v div 256)"
proof -
  have "v div 256 ^ Suc i = v div 256 div 256 ^ i" for i
    by (simp add: zdiv_zmult2_eq)
  then show ?thesis by (simp add: le_bytes_def upt_conv_Cons map_Suc_upt [symmetric] del: upt_Suc)
qed

lemma nth_le_bytes: "i < n \<Longrightarrow> le_bytes n v ! i = of_int (v div 256 ^ i)"
  by (simp add: le_bytes_def)

lemma le_value_le_bytes: "le_value (le_bytes n v) = v mod 256 ^ n"
proof (induction n arbitrary: v)
  case (Suc n)
  have "v mod (256 * 256 ^ n) = 256 * (v div 256 mod 256 ^ n) + v mod 256"
    by (rule zmod_zmult2_eq) simp
  then show ?case using Suc by (simp add: le_bytes_Cons uint_byte_of_int)
qed simp

lemma le_value_range: "0 \<le> le_value xs \<and> le_value xs < 256 ^ length xs"
proof (induction xs)
  case (Cons x xs)
  then show ?case using byte_bounds [of x] by simp
qed simp

lemma signed_le_value:
  assumes "0 < n" "- (2 ^ (8 * n - 1)) \<le> v" "v < 2 ^ (8 * n - 1)"
  shows "signed_value n (v mod 256 ^ n) = v"
proof -
  have e: "(256 :: int) ^ n = 2 ^ (8 * n)" by (simp add: power_mult)
  have h: "(2 :: int) ^ (8 * n) = 2 * 2 ^ (8 * n - 1)" using assms(1) by (simp flip: power_Suc)
  show ?thesis
  proof (cases "0 \<le> v")
    case True
    then have "v mod 2 ^ (8 * n) = v" using assms h by (intro mod_pos_pos_trivial) auto
    then show ?thesis using assms by (simp add: signed_value_def e)
  next
    case False
    have "v mod 2 ^ (8 * n) = (v + 2 ^ (8 * n)) mod 2 ^ (8 * n)" by simp
    also have "\<dots> = v + 2 ^ (8 * n)" using assms h False by (intro mod_pos_pos_trivial) auto
    finally show ?thesis using assms h False by (simp add: signed_value_def e)
  qed
qed

subsection \<open>Stores as splices\<close>

lemma length_store [simp]: "p + length xs \<le> length b \<Longrightarrow> length (store_at b p xs) = length b"
  by (simp add: store_at_def)

lemma length_put8 [simp]: "length (put8 b i v) = length b"
  by (simp add: put8_def)

text \<open>
  The contents of a buffer in either representation, \<open>ta\<close> for \<open>TYPED_ARRAY_SUPPORT\<close>. As long as
  only byte values are stored at indices of the buffer, the two stay in step.
\<close>

definition plain_of :: "buffer \<Rightarrow> plain_buffer" where
  "plain_of b = \<lparr>pl_length = int (length b), pl_slot = get8 b\<rparr>"

definition as_store :: "bool \<Rightarrow> buffer \<Rightarrow> bstore" where
  "as_store ta b = (if ta then Typed b else Plain (plain_of b))"

lemma as_store_simps [simp]:
  "st_length (as_store ta b) = int (length b)"
  "item (as_store ta b) = get8 b"
  "typed_support (as_store ta b) = ta"
  by (simp_all add: as_store_def plain_of_def)

lemma as_store_typed: "as_store True b = Typed b" "as_store False b = Plain (plain_of b)"
  by (simp_all add: as_store_def)

lemma put_as_store:
  assumes "0 \<le> i" "i < int (length b)" "0 \<le> v" "v < 256"
  shows "put (as_store ta b) i v = as_store ta (put8 b i v)"
proof -
  have "uint (of_int v :: byte) = v" using assms by (simp add: uint_byte_of_int)
  then have "(get8 b)(i \<mapsto> v) = get8 (put8 b i v)"
    using assms by (auto simp: get8_def put8_def fun_eq_iff nth_list_update eq_nat_nat_iff)
  then show ?thesis by (simp add: as_store_def plain_of_def)
qed

lemma put_byte:
  assumes "0 \<le> i" "i < int (length b)"
  shows "put (as_store ta b) i (v mod 256) = as_store ta (put8 b i v)"
    and "put (as_store ta b) i (js_and v 255) = as_store ta (put8 b i v)"
    and "put (as_store ta b) i (js_and 255 v) = as_store ta (put8 b i v)"
proof -
  have "put8 b i (v mod 256) = put8 b i v" by (simp add: put8_def)
  then show "put (as_store ta b) i (v mod 256) = as_store ta (put8 b i v)"
    using put_as_store [OF assms, of "v mod 256"] by simp
  then show "put (as_store ta b) i (js_and v 255) = as_store ta (put8 b i v)"
    "put (as_store ta b) i (js_and 255 v) = as_store ta (put8 b i v)" by (simp_all add: js_num)
qed

lemma put8_store1: "p < length b \<Longrightarrow> put8 b (int p) v = store_at b p [of_int v]"
  by (simp add: put8_def store_at_def upd_conv_take_nth_drop)

lemma put8_append:
  assumes "p + length xs < length b" "j = int (p + length xs)"
  shows "put8 (store_at b p xs) j v = store_at b p (xs @ [of_int v])"
proof -
  have "drop (p + length xs) b = b ! (p + length xs) # drop (Suc (p + length xs)) b"
    using assms(1) by (simp add: Cons_nth_drop_Suc)
  then show ?thesis
    using assms by (simp add: put8_def store_at_def list_update_append del: of_nat_add)
qed

lemma put8_prepend:
  assumes "Suc q + length xs \<le> length b" "j = int q"
  shows "put8 (store_at b (Suc q) xs) j v = store_at b q (of_int v # xs)"
proof -
  have "take (Suc q) b = take q b @ [b ! q]" using assms(1) by (simp add: take_Suc_conv_app_nth)
  then show ?thesis
    using assms by (simp add: put8_def store_at_def list_update_append)
qed

lemma take_store:
  "p + length xs \<le> length b \<Longrightarrow> take (length xs) (drop p (store_at b p xs)) = xs"
  by (simp add: store_at_def)

lemma take_store_other:
  assumes "p + length xs \<le> length b" "q + n \<le> p \<or> p + length xs \<le> q"
  shows "take n (drop q (store_at b p xs)) = take n (drop q b)"
proof (rule nth_equalityI)
  show "length (take n (drop q (store_at b p xs))) = length (take n (drop q b))" using assms by simp
  fix i assume "i < length (take n (drop q (store_at b p xs)))"
  then show "take n (drop q (store_at b p xs)) ! i = take n (drop q b) ! i"
    using assms by (auto simp: store_at_def nth_append)
qed

lemma byte_js_and: "of_int (js_and 255 x) = (of_int x :: byte)" "of_int (js_and x 255) = (of_int x :: byte)"
  by (simp_all add: js_num)

lemma byte_shr:
  assumes "k + 8 \<le> 32"
  shows "of_int (js_shr x k) = (of_int (x div 2 ^ k) :: byte)"
proof -
  have "take_bit 8 (drop_bit k (take_bit 32 x)) = take_bit 8 (drop_bit k x)"
    using assms by (intro bit_eqI) (auto simp: bit_take_bit_iff bit_drop_bit_eq)
  then have "take_bit 8 (js_shr x k) = take_bit 8 (x div 2 ^ k)"
    using assms by (simp add: js_shr_def to_uint32_def take_bit_eq_mod drop_bit_eq_div)
  then show ?thesis using word_of_int_eq_iff [where 'a = 8, of "js_shr x k" "x div 2 ^ k"] by simp
qed

lemma sdiv_nonneg: "0 \<le> e \<Longrightarrow> 0 < m \<Longrightarrow> e sdiv m = (e :: int) div m"
  by (cases "e = 0") (simp_all add: signed_divide_int_def)

lemma write_up_store:
  assumes "0 \<le> e" "p + Suc i + k \<le> length b"
  shows "write_up (as_store ta (store_at b p (le_bytes (Suc i) e))) e (int p) (int i + 1 + int k) (int i) (256 ^ i)
    = as_store ta (store_at b p (le_bytes (Suc i + k) e))"
  using assms(2)
proof (induction k arbitrary: i)
  case 0
  then show ?case by (subst write_up.simps) simp
next
  case (Suc k)
  let ?S = "store_at b p (le_bytes (Suc i) e)"
  have "e sdiv (256 ^ i * 256) = e div 256 ^ Suc i"
    using assms(1) by (simp add: sdiv_nonneg mult.commute)
  then have "put8 ?S (int p + (int i + 1)) (e sdiv (256 ^ i * 256))
      = store_at b p (le_bytes (Suc (Suc i)) e)"
    using put8_append [of p "le_bytes (Suc i) e" b "int p + (int i + 1)"] Suc.prems
    by (simp add: byte_js_and le_bytes_Suc [of "Suc i"])
  then have st: "put (as_store ta ?S) (int p + (int i + 1)) (js_and (e sdiv (256 ^ i * 256)) 255)
      = as_store ta (store_at b p (le_bytes (Suc (Suc i)) e))"
    using Suc.prems by (subst put_byte(2)) simp_all
  have "write_up (as_store ta ?S) e (int p) (int i + 1 + int (Suc k)) (int i) (256 ^ i)
      = write_up (put (as_store ta ?S) (int p + (int i + 1)) (js_and (e sdiv (256 ^ i * 256)) 255))
          e (int p) (int i + 1 + int (Suc k)) (int i + 1) (256 ^ i * 256)"
    by (subst write_up.simps) simp
  also have "\<dots> = as_store ta (store_at b p (le_bytes (Suc (Suc i) + k) e))"
    using Suc.IH [of "Suc i"] Suc.prems unfolding st by (simp add: mult.commute add.commute add.left_commute)
  finally show ?case by simp
qed

lemma write_down_store:
  assumes "0 \<le> e" "p + i + length xs \<le> length b" and "xs = rev (le_bytes (Suc j) e)"
  shows "write_down (as_store ta (store_at b (p + i) xs)) e (int p) (int i) (256 ^ j)
    = as_store ta (store_at b p (rev (le_bytes (Suc j + i) e)))"
  using assms(2-)
proof (induction i arbitrary: xs j)
  case 0
  then show ?case by (subst write_down.simps) simp
next
  case (Suc i)
  let ?S = "store_at b (p + Suc i) xs"
  have m: "(256 :: int) ^ j * 256 = 256 ^ Suc j" by simp
  have "put8 ?S (int p + (int (Suc i) - 1)) (e sdiv (256 ^ Suc j))
      = store_at b (p + i) (rev (le_bytes (Suc (Suc j)) e))"
    using put8_prepend [of "p + i" xs b "int p + (int (Suc i) - 1)"] Suc.prems assms(1)
    by (simp add: byte_js_and le_bytes_Suc [of "Suc j"] sdiv_nonneg del: power_Suc)
  then have st: "put (as_store ta ?S) (int p + (int (Suc i) - 1)) (js_and (e sdiv (256 ^ Suc j)) 255)
      = as_store ta (store_at b (p + i) (rev (le_bytes (Suc (Suc j)) e)))"
    using Suc.prems by (subst put_byte(2)) simp_all
  have "write_down (as_store ta ?S) e (int p) (int (Suc i)) (256 ^ j)
      = write_down (put (as_store ta ?S) (int p + (int (Suc i) - 1)) (js_and (e sdiv (256 ^ Suc j)) 255))
          e (int p) (int (Suc i) - 1) (256 ^ Suc j)"
    by (subst write_down.simps) (simp only: m Let_def, simp)
  also have "\<dots> = as_store ta (store_at b p (rev (le_bytes (Suc (Suc j) + i) e)))"
    using Suc.IH [of "rev (le_bytes (Suc (Suc j)) e)" "Suc j"] Suc.prems unfolding st by simp
  finally show ?case by simp
qed

text \<open>The borrow of the signed loops is exactly "a negative value with a non-zero lower part".\<close>

definition carry :: "int \<Rightarrow> nat \<Rightarrow> int" where
  "carry e i = (if e < 0 \<and> \<not> 256 ^ i dvd e then 1 else 0)"

lemma borrow_carry:
  assumes "item s j = Some (e div 256 ^ i mod 256)"
  shows "borrow s e j (carry e i) = carry e (Suc i)"
proof (cases "256 ^ i dvd e")
  case True
  then obtain q where q: "e = 256 ^ i * q" by (rule dvdE)
  have "256 ^ Suc i dvd e \<longleftrightarrow> 256 dvd q" unfolding q by (simp add: mult.commute)
  then show ?thesis using assms True q by (auto simp: borrow_def carry_def dvd_eq_mod_eq_0)
next
  case False
  then have "\<not> 256 ^ Suc i dvd e" using dvd_trans [OF le_imp_power_dvd [of i "Suc i" 256]] by auto
  then show ?thesis using False by (auto simp: borrow_def carry_def)
qed

lemma sdiv_carry: "e sdiv (256 ^ i) - carry e i = e div 256 ^ i"
proof (cases "0 \<le> e")
  case True
  then show ?thesis by (simp add: sdiv_nonneg carry_def)
next
  case False
  then have "e sdiv (256 ^ i) = - (- e div 256 ^ i)" by (simp add: signed_divide_int_def)
  then show ?thesis using False by (simp add: carry_def zdiv_zminus1_eq_if mod_eq_0_iff_dvd)
qed

lemma byte_borrow: "of_int (js_sar x 0 - u) = (of_int (x - u) :: byte)"
proof -
  have "(to_int32 x - u) mod 256 = (x - u) mod 256"
    using to_int32_mod_le [of 8 x] by (intro mod_diff_cong) simp_all
  then show ?thesis
    using of_int_byte_mod [of "to_int32 x - u"] of_int_byte_mod [of "x - u"]
    by (simp add: js_sar_def del: of_int_byte_mod)
qed

lemma get8_store:
  assumes "i < length xs" "p + length xs \<le> length b" "j = int (p + i)"
  shows "get8 (store_at b p xs) j = Some (uint (xs ! i))"
  using assms by (simp add: get8_def store_at_def nth_append del: of_nat_add)

lemma write_up_s_store:
  assumes "p + Suc i + k \<le> length b"
  shows "write_up_s (as_store ta (store_at b p (le_bytes (Suc i) e))) e (int p) (int i + 1 + int k) (int i) (256 ^ i) (carry e i)
    = as_store ta (store_at b p (le_bytes (Suc i + k) e))"
  using assms
proof (induction k arbitrary: i)
  case 0
  then show ?case by (subst write_up_s.simps) simp
next
  case (Suc k)
  let ?S = "store_at b p (le_bytes (Suc i) e)"
  have "item (as_store ta ?S) (int p + (int i + 1) - 1) = Some (e div 256 ^ i mod 256)"
    using Suc.prems get8_store [of i "le_bytes (Suc i) e" p b "int p + (int i + 1) - 1"]
    by (simp add: nth_le_bytes uint_byte_of_int)
  from borrow_carry [OF this] have u: "borrow (as_store ta ?S) e (int p + (int i + 1) - 1) (carry e i) = carry e (Suc i)" .
  have m: "(256 :: int) ^ i * 256 = 256 ^ Suc i" by simp
  have "put8 ?S (int p + (int i + 1)) (js_sar (e sdiv (256 ^ Suc i)) 0 - carry e (Suc i))
      = store_at b p (le_bytes (Suc (Suc i)) e)"
    using put8_append [of p "le_bytes (Suc i) e" b "int p + (int i + 1)"] Suc.prems
    by (simp add: byte_borrow sdiv_carry le_bytes_Suc [of "Suc i"] del: power_Suc of_int_diff)
  then have st: "put (as_store ta ?S) (int p + (int i + 1)) (js_and (js_sar (e sdiv (256 ^ Suc i)) 0 - carry e (Suc i)) 255)
      = as_store ta (store_at b p (le_bytes (Suc (Suc i)) e))"
    using Suc.prems by (subst put_byte(2)) simp_all
  have "write_up_s (as_store ta ?S) e (int p) (int i + 1 + int (Suc k)) (int i) (256 ^ i) (carry e i)
      = write_up_s (put (as_store ta ?S) (int p + (int i + 1)) (js_and (js_sar (e sdiv (256 ^ Suc i)) 0 - carry e (Suc i)) 255))
          e (int p) (int i + 1 + int (Suc k)) (int i + 1) (256 ^ Suc i) (carry e (Suc i))"
    by (subst write_up_s.simps) (simp only: u m Let_def, simp)
  also have "\<dots> = as_store ta (store_at b p (le_bytes (Suc (Suc i) + k) e))"
    using Suc.IH [of "Suc i"] Suc.prems unfolding st by (simp add: add.commute add.left_commute)
  finally show ?case by simp
qed

lemma write_down_s_store:
  assumes "p + i + length xs \<le> length b" and "xs = rev (le_bytes (Suc j) e)"
  shows "write_down_s (as_store ta (store_at b (p + i) xs)) e (int p) (int i) (256 ^ j) (carry e j)
    = as_store ta (store_at b p (rev (le_bytes (Suc j + i) e)))"
  using assms
proof (induction i arbitrary: xs j)
  case 0
  then show ?case by (subst write_down_s.simps) simp
next
  case (Suc i)
  let ?S = "store_at b (p + Suc i) xs"
  have "item (as_store ta ?S) (int p + (int (Suc i) - 1) + 1) = Some (e div 256 ^ j mod 256)"
    using Suc.prems get8_store [of 0 xs "p + Suc i" b "int p + (int (Suc i) - 1) + 1"]
    by (simp add: le_bytes_Suc uint_byte_of_int)
  from borrow_carry [OF this]
  have u: "borrow (as_store ta ?S) e (int p + (int (Suc i) - 1) + 1) (carry e j) = carry e (Suc j)" .
  have m: "(256 :: int) ^ j * 256 = 256 ^ Suc j" by simp
  have "put8 ?S (int p + (int (Suc i) - 1)) (js_sar (e sdiv (256 ^ Suc j)) 0 - carry e (Suc j))
      = store_at b (p + i) (rev (le_bytes (Suc (Suc j)) e))"
    using put8_prepend [of "p + i" xs b "int p + (int (Suc i) - 1)"] Suc.prems
    by (simp add: byte_borrow sdiv_carry le_bytes_Suc [of "Suc j"] del: power_Suc of_int_diff)
  then have st: "put (as_store ta ?S) (int p + (int (Suc i) - 1)) (js_and (js_sar (e sdiv (256 ^ Suc j)) 0 - carry e (Suc j)) 255)
      = as_store ta (store_at b (p + i) (rev (le_bytes (Suc (Suc j)) e)))"
    using Suc.prems by (subst put_byte(2)) simp_all
  have "write_down_s (as_store ta ?S) e (int p) (int (Suc i)) (256 ^ j) (carry e j)
      = write_down_s (put (as_store ta ?S) (int p + (int (Suc i) - 1)) (js_and (js_sar (e sdiv (256 ^ Suc j)) 0 - carry e (Suc j)) 255))
          e (int p) (int (Suc i) - 1) (256 ^ Suc j) (carry e (Suc j))"
    by (subst write_down_s.simps) (simp only: u m Let_def, simp)
  also have "\<dots> = as_store ta (store_at b p (rev (le_bytes (Suc (Suc j) + i) e)))"
    using Suc.IH [of "rev (le_bytes (Suc (Suc j)) e)" "Suc j"] Suc.prems unfolding st by simp
  finally show ?case by simp
qed


subsection \<open>Reads as values of a window\<close>

definition window :: "buffer \<Rightarrow> nat \<Rightarrow> nat \<Rightarrow> buffer" where
  "window b p n = take n (drop p b)"

lemma length_window [simp]: "p + n \<le> length b \<Longrightarrow> length (window b p n) = n"
  by (simp add: window_def)

lemma window_Suc: "p < length b \<Longrightarrow> window b p (Suc n) = b ! p # window b (Suc p) n"
  by (simp add: window_def Cons_nth_drop_Suc [symmetric])

lemma window_snoc: "p + n < length b \<Longrightarrow> window b p (Suc n) = window b p n @ [b ! (p + n)]"
  by (simp add: window_def take_Suc_conv_app_nth)

lemma window_0 [simp]: "window b p 0 = []"
  by (simp add: window_def)

lemma get8_nat: "p < length b \<Longrightarrow> j = int p \<Longrightarrow> get8 b j = Some (uint (b ! p))"
  by (simp add: get8_def)

text \<open>
  Up to six bytes every factor is at most \<open>256 ^ 5\<close> and every sum below \<open>256 ^ 6 = 2 ^ 48\<close>, so the
  doubles of the loops are exact.
\<close>

lemma pow256_exact: "j \<le> 6 \<Longrightarrow> (256 :: int) ^ j \<le> 281474976710656"
  using power_increasing [of j 6 "256 :: int"] by simp

lemma dbl_48: "\<bar>x\<bar> \<le> 281474976710656 \<Longrightarrow> dbl x = Fin x"
  by (simp add: dbl_exact)

lemma factor_step: "j \<le> 4 \<Longrightarrow> d_mul (Fin (256 ^ j)) (Fin 256) = Fin (256 ^ Suc j)"
  using pow256_exact [of "Suc j"] by (simp add: dbl_exact mult.commute)

lemma byte_step:
  assumes "j \<le> 4" "0 \<le> r" "r < 256 ^ Suc j"
  shows "d_add (Fin r) (d_mul (num (Some (uint (x :: byte)))) (Fin (256 ^ Suc j)))
      = Fin (r + uint x * 256 ^ Suc j)"
    and "0 \<le> r + uint x * 256 ^ Suc j" "r + uint x * 256 ^ Suc j < 256 ^ Suc (Suc j)"
proof -
  have p: "(256 :: int) ^ Suc j \<le> 281474976710656" "(256 :: int) ^ Suc (Suc j) \<le> 281474976710656"
    using assms(1) by (intro pow256_exact, simp)+
  have x: "0 \<le> uint x" "uint x \<le> 255" using byte_bounds [of x] by simp_all
  then have m: "0 \<le> uint x * 256 ^ Suc j" "uint x * 256 ^ Suc j \<le> 255 * 256 ^ Suc j"
    by (simp, intro mult_right_mono) simp_all
  have "(256 :: int) ^ Suc (Suc j) = 256 ^ Suc j + 255 * 256 ^ Suc j" by simp
  then show b: "0 \<le> r + uint x * 256 ^ Suc j" "r + uint x * 256 ^ Suc j < 256 ^ Suc (Suc j)"
    using assms m by linarith+
  then show "d_add (Fin r) (d_mul (num (Some (uint x))) (Fin (256 ^ Suc j))) = Fin (r + uint x * 256 ^ Suc j)"
    using assms m p by (simp add: num_def dbl_exact del: power_Suc)
qed

lemma read_up_value:
  assumes "p + k \<le> length b" "e + (i + 1) = int p" "j + k \<le> 5" "0 \<le> r" "r < 256 ^ Suc j"
  shows "read_up (as_store ta b) e (i + 1 + int k) i (Fin (256 ^ j)) (Fin r)
    = (Fin (r + 256 ^ Suc j * le_value (window b p k)), Fin (256 ^ (j + k)))"
  using assms
proof (induction k arbitrary: p i j r)
  case 0
  then show ?case by (subst read_up.simps) simp
next
  case (Suc k)
  have g: "get8 b (e + (i + 1)) = Some (uint (b ! p))" using Suc.prems by (intro get8_nat) simp_all
  have j: "j \<le> 4" using Suc.prems(3) by simp
  note st = byte_step [OF j Suc.prems(4,5), of "b ! p"]
  have "read_up (as_store ta b) e (i + 1 + int (Suc k)) i (Fin (256 ^ j)) (Fin r)
      = read_up (as_store ta b) e (i + 1 + 1 + int k) (i + 1) (Fin (256 ^ Suc j)) (Fin (r + uint (b ! p) * 256 ^ Suc j))"
    by (subst read_up.simps) (simp only: g as_store_simps factor_step [OF j] st(1) Let_def, simp add: add.assoc)
  also have "\<dots> = (Fin (r + uint (b ! p) * 256 ^ Suc j + 256 ^ Suc (Suc j) * le_value (window b (Suc p) k)),
      Fin (256 ^ (Suc j + k)))"
    using Suc.prems st(2,3) by (intro Suc.IH) simp_all
  finally show ?case using Suc.prems by (simp add: window_Suc algebra_simps)
qed

lemma read_down_value:
  assumes "p + k \<le> length b" "j + k \<le> 5" "0 \<le> r" "r < 256 ^ Suc j"
  shows "read_down (as_store ta b) (int p) (int k) (Fin (256 ^ j)) (Fin r)
    = (Fin (r + 256 ^ Suc j * le_value (rev (window b p k))), Fin (256 ^ (j + k)))"
  using assms
proof (induction k arbitrary: j r)
  case 0
  then show ?case by (subst read_down.simps) simp
next
  case (Suc k)
  have g: "get8 b (int p + (int (Suc k) - 1)) = Some (uint (b ! (p + k)))"
    using Suc.prems by (intro get8_nat) simp_all
  have j: "j \<le> 4" using Suc.prems(2) by simp
  note st = byte_step [OF j Suc.prems(3,4), of "b ! (p + k)"]
  have "read_down (as_store ta b) (int p) (int (Suc k)) (Fin (256 ^ j)) (Fin r)
      = read_down (as_store ta b) (int p) (int k) (Fin (256 ^ Suc j)) (Fin (r + uint (b ! (p + k)) * 256 ^ Suc j))"
    by (subst read_down.simps) (simp only: g as_store_simps factor_step [OF j] st(1) Let_def, simp)
  also have "\<dots> = (Fin (r + uint (b ! (p + k)) * 256 ^ Suc j + 256 ^ Suc (Suc j) * le_value (rev (window b p k))),
      Fin (256 ^ (Suc j + k)))"
    using Suc.prems st(2,3) by (intro Suc.IH) simp_all
  finally show ?case using Suc.prems by (simp add: window_snoc algebra_simps)
qed

text \<open>
  An access of 1 to 6 bytes (the documented widths) at \<open>p\<close> that lies in the buffer, with operands
  in the 32-bit range.
\<close>

definition in_range :: "buffer \<Rightarrow> nat \<Rightarrow> nat \<Rightarrow> bool" where
  "in_range b p n \<longleftrightarrow> 0 < n \<and> n \<le> 6 \<and> p + n \<le> length b \<and> length b < 2 ^ 31"

lemma in_range_args:
  assumes "in_range b p n"
  shows "to_int32 (int p) = int p" "to_int32 (int n) = int n" "p < length b"
    "check_offset (int p) (int n) (int (length b)) = Inr ()"
  using assms by (auto simp: in_range_def check_offset_def intro!: to_int32_id)

lemma read_up_window:
  assumes "in_range b p n"
  shows "read_up (as_store ta b) (int p) (int n) 0 (Fin 1) (num (get8 b (int p)))
    = (Fin (le_value (window b p n)), Fin (256 ^ (n - 1)))"
proof -
  obtain k where n: "n = Suc k" using assms by (cases n) (auto simp: in_range_def)
  have "read_up (as_store ta b) (int p) (0 + 1 + int k) 0 (Fin (256 ^ 0)) (Fin (uint (b ! p)))
      = (Fin (uint (b ! p) + 256 ^ Suc 0 * le_value (window b (Suc p) k)), Fin (256 ^ (0 + k)))"
    using assms byte_bounds [of "b ! p"] by (intro read_up_value) (simp_all add: in_range_def n)
  then show ?thesis
    using get8_nat [of p b "int p"] in_range_args(3) [OF assms]
    by (simp add: n num_def window_Suc add.commute)
qed

lemma read_down_window:
  assumes "in_range b p n"
  shows "read_down (as_store ta b) (int p) (int n - 1) (Fin 1) (num (get8 b (int p + (int n - 1))))
    = (Fin (le_value (rev (window b p n))), Fin (256 ^ (n - 1)))"
proof -
  obtain k where n: "n = Suc k" using assms by (cases n) (auto simp: in_range_def)
  have l: "p + k < length b" using assms by (simp add: in_range_def n)
  have "read_down (as_store ta b) (int p) (int k) (Fin (256 ^ 0)) (Fin (uint (b ! (p + k))))
      = (Fin (uint (b ! (p + k)) + 256 ^ Suc 0 * le_value (rev (window b p k))), Fin (256 ^ (0 + k)))"
    using l assms byte_bounds [of "b ! (p + k)"] by (intro read_down_value) (simp_all add: in_range_def n)
  then show ?thesis
    using get8_nat [OF l] l by (simp add: n num_def window_snoc)
qed

lemma sign_adjust_value:
  assumes "0 < n" "n \<le> 6" "0 \<le> v" "v < 256 ^ n"
  shows "sign_adjust (int n) (Fin v, Fin (256 ^ (n - 1))) = Fin (signed_value n v)"
proof -
  obtain k where k: "n = Suc k" using assms by (cases n) auto
  have h: "(256 :: int) ^ (n - 1) * 128 = 2 ^ (8 * n - 1)"
  proof -
    have "(256 :: int) ^ k * 128 = (2 ^ 8) ^ k * 2 ^ 7" by simp
    also have "\<dots> = 2 ^ (8 * k + 7)" by (simp only: power_mult power_add)
    finally show ?thesis by (simp add: k add.commute)
  qed
  have e: "(256 :: int) ^ n = 2 ^ (8 * n)" by (simp add: power_mult)
  have p: "(256 :: int) ^ n \<le> 281474976710656" using assms(2) by (rule pow256_exact)
  have "(2 :: int) ^ (8 * n - 1) \<le> 2 ^ (8 * n)" "(0 :: int) \<le> 2 ^ (8 * n - 1)"
    by (intro power_increasing) simp_all
  then have "\<bar>(2 :: int) ^ (8 * n - 1)\<bar> \<le> 281474976710656" using p [unfolded e] by linarith
  then have m: "d_mul (Fin (256 ^ (n - 1))) (Fin 128) = Fin (2 ^ (8 * n - 1))"
    by (simp only: d_mul.simps h dbl_48)
  have "d_neg (d_pow2 (8 * int n)) = Fin (- (2 ^ (8 * n)))"
    using assms(2) by (simp add: d_pow2_def d_neg_def nat_mult_distrib)
  moreover have "d_add (Fin v) (Fin (- (2 ^ (8 * n)))) = Fin (v - 2 ^ (8 * n))"
    using assms p by (simp add: e dbl_exact)
  ultimately show ?thesis
    by (simp only: sign_adjust_def fst_conv snd_conv m signed_value_def) simp
qed

lemma window_range:
  "p + n \<le> length b \<Longrightarrow> 0 \<le> le_value (window b p n) \<and> le_value (window b p n) < 256 ^ n"
  "p + n \<le> length b \<Longrightarrow> 0 \<le> le_value (rev (window b p n)) \<and> le_value (rev (window b p n)) < 256 ^ n"
  using le_value_range [of "window b p n"] le_value_range [of "rev (window b p n)"] by simp_all

lemma read_window:
  assumes "in_range b p n"
  shows "readUIntLE (as_store ta b) (int p) (int n) False = Inr (Fin (le_value (window b p n)))"
    "readUIntBE (as_store ta b) (int p) (int n) False = Inr (Fin (le_value (rev (window b p n))))"
    "readIntLE (as_store ta b) (int p) (int n) False = Inr (Fin (signed_value n (le_value (window b p n))))"
    "readIntBE (as_store ta b) (int p) (int n) False = Inr (Fin (signed_value n (le_value (rev (window b p n)))))"
  using assms in_range_args [OF assms] read_up_window [OF assms] read_down_window [OF assms]
    sign_adjust_value [of n] window_range [of p n b]
  by (simp_all add: readUIntLE_def readUIntBE_def readIntLE_def readIntBE_def unless_def Let_def in_range_def)

subsection \<open>Writers as stores\<close>

lemma writer_ok:
  assumes "in_range b p n" "lb \<le> v" "v \<le> ub"
  shows "writer (as_store ta b) v (int p) (int n) (Fin ub) (Fin lb) False b' = Inr (b', int p + int n)"
  using assms by (simp add: writer_def unless_def check_int_def in_range_def)

lemma limits:
  assumes "n \<le> 6"
  shows "top_limit (8 * int n) = Fin (256 ^ n - 1)"
    and "0 < n \<Longrightarrow> top_limit (8 * int n - 1) = Fin (2 ^ (8 * n - 1) - 1)"
    and "0 < n \<Longrightarrow> low_limit (8 * int n - 1) = Fin (- (2 ^ (8 * n - 1)))"
proof -
  have e: "nat (8 * int n) = 8 * n" "nat (8 * int n - 1) = 8 * n - 1" by simp_all
  have "(2 :: int) ^ (8 * n) \<le> 281474976710656"
    using pow256_exact [OF assms] by (simp add: power_mult)
  moreover have "(2 :: int) ^ (8 * n - 1) \<le> 2 ^ (8 * n)" by (intro power_increasing) simp_all
  moreover have "(1 :: int) \<le> 2 ^ (8 * n)" "(1 :: int) \<le> 2 ^ (8 * n - 1)" by simp_all
  ultimately have "dbl (2 ^ (8 * n) - 1) = Fin (2 ^ (8 * n) - 1)"
    and "dbl (2 ^ (8 * n - 1) - 1) = Fin (2 ^ (8 * n - 1) - 1)"
    by (intro dbl_48, linarith)+
  then show "top_limit (8 * int n) = Fin (256 ^ n - 1)"
    "0 < n \<Longrightarrow> top_limit (8 * int n - 1) = Fin (2 ^ (8 * n - 1) - 1)"
    "0 < n \<Longrightarrow> low_limit (8 * int n - 1) = Fin (- (2 ^ (8 * n - 1)))"
    using assms by (simp_all add: top_limit_def low_limit_def d_pow2_def d_neg_def e power_mult)
qed

lemma le_bytes_1: "le_bytes (Suc 0) v = [of_int v]"
  by (simp add: le_bytes_Suc)

lemma write_store:
  assumes r: "in_range b p n"
  shows "0 \<le> v \<Longrightarrow> v < 256 ^ n \<Longrightarrow>
      writeUIntLE (as_store ta b) v (int p) (int n) False = Inr (as_store ta (store_at b p (le_bytes n v)), int p + int n)"
    "0 \<le> v \<Longrightarrow> v < 256 ^ n \<Longrightarrow>
      writeUIntBE (as_store ta b) v (int p) (int n) False = Inr (as_store ta (store_at b p (rev (le_bytes n v))), int p + int n)"
    "- (2 ^ (8 * n - 1)) \<le> v \<Longrightarrow> v < 2 ^ (8 * n - 1) \<Longrightarrow>
      writeIntLE (as_store ta b) v (int p) (int n) False = Inr (as_store ta (store_at b p (le_bytes n v)), int p + int n)"
    "- (2 ^ (8 * n - 1)) \<le> v \<Longrightarrow> v < 2 ^ (8 * n - 1) \<Longrightarrow>
      writeIntBE (as_store ta b) v (int p) (int n) False = Inr (as_store ta (store_at b p (rev (le_bytes n v))), int p + int n)"
proof -
  obtain k where n: "n = Suc k" using r by (cases n) (auto simp: in_range_def)
  have l: "p + Suc k \<le> length b" using r by (simp add: in_range_def n)
  have n6: "n \<le> 6" "0 < n" using r by (simp_all add: in_range_def)
  note e = limits [OF n6(1)] and e' = limits(2,3) [OF n6]
  note a = in_range_args [OF r]
  have lo: "put (as_store ta b) (int p) (js_and 255 v) = as_store ta (store_at b p (le_bytes (Suc 0) v))"
    using put8_store1 [of p b] l by (simp add: put_byte le_bytes_1)
  have hi: "put (as_store ta b) (int p + (int n - 1)) (js_and 255 v)
      = as_store ta (store_at b (p + k) (rev (le_bytes (Suc 0) v)))"
    using put8_store1 [of "p + k" b] l put_byte(3) [of "int p + (int n - 1)" b] by (simp add: le_bytes_1 n)
  have c: "carry v 0 = 0" by (simp add: carry_def)
  { assume v: "0 \<le> v" "v < 256 ^ n"
    have W: "write_up (as_store ta (store_at b p (le_bytes (Suc 0) v))) v (int p) (int n) 0 1 = as_store ta (store_at b p (le_bytes n v))"
      using write_up_store [OF v(1), of p 0 k b] l by (simp add: n)
    show "writeUIntLE (as_store ta b) v (int p) (int n) False = Inr (as_store ta (store_at b p (le_bytes n v)), int p + int n)"
      using writer_ok [OF r v(1)] v(2) by (simp add: writeUIntLE_def Let_def a e lo W)
    have W: "write_down (as_store ta (store_at b (p + k) (rev (le_bytes (Suc 0) v)))) v (int p) (int n - 1) 1
        = as_store ta (store_at b p (rev (le_bytes n v)))"
      using write_down_store [OF v(1), of p k _ b 0] l by (simp add: n)
    show "writeUIntBE (as_store ta b) v (int p) (int n) False = Inr (as_store ta (store_at b p (rev (le_bytes n v))), int p + int n)"
      using writer_ok [OF r v(1)] v(2) by (simp add: writeUIntBE_def Let_def a e hi W) }
  { assume v: "- (2 ^ (8 * n - 1)) \<le> v" "v < 2 ^ (8 * n - 1)"
    have W: "write_up_s (as_store ta (store_at b p (le_bytes (Suc 0) v))) v (int p) (int n) 0 1 0 = as_store ta (store_at b p (le_bytes n v))"
      using write_up_s_store [of p 0 k b ta v] l by (simp add: n c)
    show "writeIntLE (as_store ta b) v (int p) (int n) False = Inr (as_store ta (store_at b p (le_bytes n v)), int p + int n)"
      using writer_ok [OF r v(1)] v(2) by (simp add: writeIntLE_def Let_def a e' lo W)
    have W: "write_down_s (as_store ta (store_at b (p + k) (rev (le_bytes (Suc 0) v)))) v (int p) (int n - 1) 1 0
        = as_store ta (store_at b p (rev (le_bytes n v)))"
      using write_down_s_store [of p k _ b 0 v] l by (simp add: n c)
    show "writeIntBE (as_store ta b) v (int p) (int n) False = Inr (as_store ta (store_at b p (rev (le_bytes n v))), int p + int n)"
      using writer_ok [OF r v(1)] v(2) by (simp add: writeIntBE_def Let_def a e' hi W) }
qed

subsection \<open>The fixed widths\<close>

lemma window_bytes:
  assumes "p + n \<le> length b"
  shows "n = 1 \<Longrightarrow> window b p n = [b ! p]"
    "n = 2 \<Longrightarrow> window b p n = [b ! p, b ! Suc p]"
    "n = 4 \<Longrightarrow> window b p n = [b ! p, b ! Suc p, b ! Suc (Suc p), b ! Suc (Suc (Suc p))]"
  using assms by (simp_all add: window_Suc numeral_eq_Suc)

lemma get8_window:
  assumes "p + 3 < length b"
  shows "get8 b (int p) = Some (uint (b ! p))" "get8 b (int p + 1) = Some (uint (b ! Suc p))"
    "get8 b (int p + 2) = Some (uint (b ! Suc (Suc p)))"
    "get8 b (int p + 3) = Some (uint (b ! Suc (Suc (Suc p))))"
  using assms by (simp_all add: get8_def nat_add_distrib numeral_3_eq_3 numeral_2_eq_2)

lemma get8_window2:
  assumes "p + 1 < length b"
  shows "get8 b (int p) = Some (uint (b ! p))" "get8 b (int p + 1) = Some (uint (b ! Suc p))"
  using assms by (simp_all add: get8_def nat_add_distrib)

lemma to_int32_dvd: "k \<le> 32 \<Longrightarrow> 2 ^ k dvd x \<Longrightarrow> 2 ^ k dvd to_int32 x"
  using to_int32_mod_le [of k x] by (simp add: dvd_eq_mod_eq_0)

text \<open>Or of a shifted value and a smaller one, signs included.\<close>

lemma js_or_low:
  assumes "k \<le> 31" "2 ^ k dvd x" "0 \<le> b" "b < 2 ^ k"
  shows "js_or (to_int32 x) b = to_int32 x + b" "js_or b (to_int32 x) = to_int32 x + b"
proof -
  have "(2 :: int) ^ k \<le> 2 ^ 31" using assms(1) by (intro power_increasing) auto
  then have "to_int32 b = b" using assms(3,4) by (intro to_int32_id) auto
  then show "js_or (to_int32 x) b = to_int32 x + b"
    using or_disjoint_int [OF to_int32_dvd [OF _ assms(2)] assms(3,4)] assms(1) by (simp add: js_or_def)
  then show "js_or b (to_int32 x) = to_int32 x + b" by (simp only: js_or_commute)
qed

lemma js_shl_byte:
  assumes "0 \<le> x" "x < 256"
  shows "js_shl x 8 = x * 256" "js_shl x 16 = x * 65536" "js_shl x 24 = to_int32 (x * 16777216)"
  using assms by (simp_all add: js_shl_def to_int32_id)

lemma js_or_bytes:
  assumes "0 \<le> x" "x < 256" "0 \<le> y" "y < 256" "0 \<le> z" "z < 256"
  shows "js_or x (y * 256) = x + y * 256" "js_or (y * 256) x = x + y * 256"
    "js_or (x + y * 256) (z * 65536) = x + y * 256 + z * 65536"
    "js_or (z * 65536) (y * 256) = y * 256 + z * 65536"
    "js_or (y * 256 + z * 65536) x = x + y * 256 + z * 65536"
  using assms js_or_disjoint [of 8 "y * 256" x] js_or_disjoint [of 16 "z * 65536" "x + y * 256"]
    js_or_disjoint [of 16 "z * 65536" "y * 256"] js_or_disjoint [of 8 "y * 256 + z * 65536" x]
  by (simp_all add: js_or_commute [of x] js_or_commute [of "x + y * 256"])


lemma fixed_in_range:
  assumes "in_range b p n"
  shows "p + n \<le> length b" "p < length b" "\<not> int p < 0" "\<not> int (length b) < int p + int n"
  using assms by (simp_all add: in_range_def)

lemma reader_ok: "in_range b p n \<Longrightarrow> reader (as_store ta b) (int p) (int n) False v = Inr v"
  using in_range_args(4) [of b p n] by (simp add: reader_def unless_def)

lemma sign16_value: "0 \<le> x \<Longrightarrow> x < 65536 \<Longrightarrow> sign16 x = signed_value 2 x"
proof -
  assume x: "0 \<le> x" "x < 65536"
  have x32: "to_int32 x = x" using x by (intro to_int32_id) auto
  have b: "(32768 :: int) AND x = push_bit 15 (take_bit 1 (drop_bit 15 x))"
  proof (rule bit_eqI)
    fix n
    have "(32768 :: int) = push_bit 15 (mask 1)" by (simp add: push_bit_eq_mult mask_eq_exp_minus_1)
    then have "bit (32768 :: int) n \<longleftrightarrow> n = 15"
      by (simp only: bit_push_bit_iff_int bit_mask_iff possible_bit_int) auto
    then show "bit ((32768 :: int) AND x) n \<longleftrightarrow> bit (push_bit 15 (take_bit 1 (drop_bit 15 x))) n"
      by (auto simp: bit_and_iff bit_push_bit_iff bit_take_bit_iff bit_drop_bit_eq bit_iff_odd_drop_bit [of x 15])
  qed
  have "x div 32768 < 2" "0 \<le> x div 32768" using x by simp_all
  then have "js_and 32768 x = x div 32768 * 32768"
    using b x32 by (simp add: js_and_def to_int32_id push_bit_eq_mult take_bit_eq_mod drop_bit_eq_div)
  moreover have "x div 32768 = 0 \<longleftrightarrow> x < 32768" using x by (auto simp: zdiv_eq_0_iff)
  ultimately have c: "js_and 32768 x \<noteq> 0 \<longleftrightarrow> 32768 \<le> x" by auto
  have "js_or 4294901760 x = js_or (to_int32 4294901760) x" by (simp only: js_or_def to_int32_idem)
  also have "\<dots> = to_int32 4294901760 + x" using x by (intro js_or_low(1) [of 16]) auto
  also have "\<dots> = x - 65536" by (simp add: to_int32_def)
  finally have "js_or 4294901760 x = x - 65536" .
  then show ?thesis using c by (simp add: sign16_def signed_value_def)
qed

lemma sign8_value:
  "0 \<le> x \<Longrightarrow> x < 256 \<Longrightarrow> js_and 128 x \<noteq> 0 \<longleftrightarrow> 128 \<le> x"
proof -
  assume x: "0 \<le> x" "x < 256"
  have b: "(128 :: int) AND x = push_bit 7 (take_bit 1 (drop_bit 7 x))"
  proof (rule bit_eqI)
    fix n
    have "(128 :: int) = push_bit 7 (mask 1)" by (simp add: push_bit_eq_mult mask_eq_exp_minus_1)
    then have "bit (128 :: int) n \<longleftrightarrow> n = 7"
      by (simp only: bit_push_bit_iff_int bit_mask_iff possible_bit_int) auto
    then show "bit ((128 :: int) AND x) n \<longleftrightarrow> bit (push_bit 7 (take_bit 1 (drop_bit 7 x))) n"
      by (auto simp: bit_and_iff bit_push_bit_iff bit_take_bit_iff bit_drop_bit_eq bit_iff_odd_drop_bit [of x 7])
  qed
  have "x div 128 < 2" "0 \<le> x div 128" using x by simp_all
  moreover have "to_int32 x = x" using x by (intro to_int32_id) auto
  ultimately have "js_and 128 x = x div 128 * 128"
    using b by (simp add: js_and_def to_int32_id push_bit_eq_mult take_bit_eq_mod drop_bit_eq_div)
  moreover have "x div 128 = 0 \<longleftrightarrow> x < 128" using x by (auto simp: zdiv_eq_0_iff)
  ultimately show ?thesis by auto
qed

text \<open>The four bytes of a 32-bit read.\<close>

lemma to_int32_signed:
  assumes "0 \<le> x" "x < 256" "0 \<le> r" "r < 16777216"
  shows "to_int32 (x * 16777216) + r = signed_value 4 (r + x * 16777216)"
  using assms by (auto simp: to_int32_def signed_value_def Let_def)

lemma to_int32_add:
  assumes "0 \<le> x" "x < 256" "0 \<le> r" "0 \<le> q" "r + q < 16777216"
  shows "to_int32 (x * 16777216 + r) + q = to_int32 (x * 16777216 + r + q)"
  using assms by (cases "x < 128") (auto simp: to_int32_def Let_def)

lemma read_fixed:
  shows "in_range b p 1 \<Longrightarrow> readUInt8 (as_store ta b) (int p) False = Inr (Fin (le_value (window b p 1)))"
    "in_range b p 1 \<Longrightarrow> readInt8 (as_store ta b) (int p) False = Inr (Fin (signed_value 1 (le_value (window b p 1))))"
    "in_range b p 2 \<Longrightarrow> readUInt16LE (as_store ta b) (int p) False = Inr (Fin (le_value (window b p 2)))"
    "in_range b p 2 \<Longrightarrow> readUInt16BE (as_store ta b) (int p) False = Inr (Fin (le_value (rev (window b p 2))))"
    "in_range b p 2 \<Longrightarrow> readInt16LE (as_store ta b) (int p) False = Inr (Fin (signed_value 2 (le_value (window b p 2))))"
    "in_range b p 2 \<Longrightarrow> readInt16BE (as_store ta b) (int p) False = Inr (Fin (signed_value 2 (le_value (rev (window b p 2)))))"
proof -
  { assume r: "in_range b p 1"
    note w = window_bytes(1) [OF fixed_in_range(1) [OF r] refl, unfolded One_nat_def]
    have g: "get8 b (int p) = Some (uint (b ! p))" using fixed_in_range(2) [OF r] by (intro get8_nat) simp_all
    note B = byte_bounds [of "b ! p"]
    show "readUInt8 (as_store ta b) (int p) False = Inr (Fin (le_value (window b p 1)))"
      using reader_ok [OF r] by (simp add: readUInt8_def w g num_def)
    show "readInt8 (as_store ta b) (int p) False = Inr (Fin (signed_value 1 (le_value (window b p 1))))"
      using reader_ok [OF r] sign8_value [OF B]
      by (simp add: readInt8_def w g bits_def num_def signed_value_def) }
  { assume r: "in_range b p 2"
    note w = window_bytes(2) [OF fixed_in_range(1) [OF r] refl]
    have "p + 1 < length b" using fixed_in_range(1) [OF r] by simp
    note g = get8_window2 [OF this]
    note B = byte_bounds [of "b ! p"] byte_bounds [of "b ! Suc p"]
    note o = js_or_bytes [OF B B(1,2)] js_or_bytes [OF B(3,4) B(1,2) B(1,2)]
      js_shl_byte(1) [OF B(1,2)] js_shl_byte(1) [OF B(3,4)]
    have s: "sign16 (uint (b ! p) + uint (b ! Suc p) * 256) = signed_value 2 (uint (b ! p) + uint (b ! Suc p) * 256)"
      "sign16 (uint (b ! Suc p) + uint (b ! p) * 256) = signed_value 2 (uint (b ! Suc p) + uint (b ! p) * 256)"
      using B by (auto intro!: sign16_value)
    note R = reader_ok [OF r, simplified of_nat_numeral]
    show "readUInt16LE (as_store ta b) (int p) False = Inr (Fin (le_value (window b p 2)))"
      by (simp add: readUInt16LE_def w g bits_def o R)
    show "readUInt16BE (as_store ta b) (int p) False = Inr (Fin (le_value (rev (window b p 2))))"
      by (simp add: readUInt16BE_def w g bits_def o R)
    show "readInt16LE (as_store ta b) (int p) False = Inr (Fin (signed_value 2 (le_value (window b p 2))))"
      by (simp add: readInt16LE_def w g bits_def o R s mult.commute)
    show "readInt16BE (as_store ta b) (int p) False = Inr (Fin (signed_value 2 (le_value (rev (window b p 2)))))"
      by (simp add: readInt16BE_def w g bits_def o R s mult.commute) }
qed

lemma read_fixed4:
  assumes r: "in_range b p 4"
  shows "readUInt32LE (as_store ta b) (int p) False = Inr (Fin (le_value (window b p 4)))"
    "readUInt32BE (as_store ta b) (int p) False = Inr (Fin (le_value (rev (window b p 4))))"
    "readInt32LE (as_store ta b) (int p) False = Inr (Fin (signed_value 4 (le_value (window b p 4))))"
    "readInt32BE (as_store ta b) (int p) False = Inr (Fin (signed_value 4 (le_value (rev (window b p 4)))))"
proof -
  note w = window_bytes(3) [OF fixed_in_range(1) [OF r] refl]
  have "p + 3 < length b" using fixed_in_range(1) [OF r] by simp
  note g = get8_window [OF this]
  define x y z u where v: "x = uint (b ! p)" "y = uint (b ! Suc p)" "z = uint (b ! Suc (Suc p))"
    "u = uint (b ! Suc (Suc (Suc p)))"
  have B: "0 \<le> x" "x < 256" "0 \<le> y" "y < 256" "0 \<le> z" "z < 256" "0 \<le> u" "u < 256"
    unfolding v by (rule byte_bounds)+
  note o = js_or_bytes [OF B(1-6)] js_or_bytes [OF B(7,8) B(5,6) B(3,4)]
    js_shl_byte [OF B(1,2)] js_shl_byte [OF B(3,4)] js_shl_byte [OF B(5,6)] js_shl_byte [OF B(7,8)]
  note R = reader_ok [OF r, simplified of_nat_numeral]
  note vs = v [symmetric]
  show "readUInt32LE (as_store ta b) (int p) False = Inr (Fin (le_value (window b p 4)))"
    using B by (simp add: readUInt32LE_def w g bits_def num_def o R vs dbl_48, (simp add: algebra_simps)?)
  show "readUInt32BE (as_store ta b) (int p) False = Inr (Fin (le_value (rev (window b p 4))))"
    using B by (simp add: readUInt32BE_def w g bits_def num_def o R vs dbl_48, (simp add: algebra_simps)?)
  have "js_or (x + y * 256 + z * 65536) (to_int32 (u * 16777216))
      = to_int32 (u * 16777216) + (x + y * 256 + z * 65536)"
    using B by (intro js_or_low(2) [of 24]) auto
  also have "\<dots> = signed_value 4 (x + y * 256 + z * 65536 + u * 16777216)"
    using B by (intro to_int32_signed) auto
  finally show "readInt32LE (as_store ta b) (int p) False = Inr (Fin (signed_value 4 (le_value (window b p 4))))"
    by (simp add: readInt32LE_def w g bits_def o R vs, (simp add: algebra_simps)?)
  have 1: "js_or (to_int32 (x * 16777216)) (y * 65536) = to_int32 (x * 16777216) + y * 65536"
    using B by (intro js_or_low(1) [of 24]) auto
  have 2: "to_int32 (x * 16777216) + y * 65536 = to_int32 (x * 16777216 + y * 65536)"
    using B to_int32_add [of x 0 "y * 65536"] by simp
  have 3: "js_or (to_int32 (x * 16777216 + y * 65536)) (z * 256) = to_int32 (x * 16777216 + y * 65536) + z * 256"
    using B by (intro js_or_low(1) [of 16]) (auto intro: dvd_add dvd_mult)
  have 4: "to_int32 (x * 16777216 + y * 65536) + z * 256 = to_int32 (x * 16777216 + y * 65536 + z * 256)"
    using B by (intro to_int32_add) auto
  have 5: "js_or (to_int32 (x * 16777216 + y * 65536 + z * 256)) u = to_int32 (x * 16777216 + y * 65536 + z * 256) + u"
    using B by (intro js_or_low(1) [of 8]) (auto intro: dvd_add dvd_mult)
  have 6: "to_int32 (x * 16777216 + y * 65536 + z * 256) + u
      = signed_value 4 (u + z * 256 + y * 65536 + x * 16777216)"
    using B to_int32_add [of x 0 "y * 65536 + z * 256"] to_int32_signed [of x "y * 65536 + z * 256 + u"]
    by (simp add: algebra_simps)
  show "readInt32BE (as_store ta b) (int p) False = Inr (Fin (signed_value 4 (le_value (rev (window b p 4)))))"
    using 6 by (simp add: readInt32BE_def w g bits_def o R vs 1 2 3 4 5, (simp add: algebra_simps)?)
qed


lemma le_bytes_fixed:
  "le_bytes (Suc 0) v = [of_int v]"
  "le_bytes (Suc (Suc 0)) v = [of_int v, of_int (v div 256)]"
  "le_bytes (Suc (Suc (Suc (Suc 0)))) v
    = [of_int v, of_int (v div 256), of_int (v div 65536), of_int (v div 16777216)]"
  by (simp_all add: le_bytes_Suc)

lemma two_Suc: "2 = Suc (Suc 0)" and four_Suc: "4 = Suc (Suc (Suc (Suc 0)))"
  by simp_all

lemma le_bytes_widths:
  "le_bytes 1 v = [of_int v]"
  "le_bytes 2 v = [of_int v, of_int (v div 256)]"
  "le_bytes 4 v = [of_int v, of_int (v div 256), of_int (v div 65536), of_int (v div 16777216)]"
  unfolding two_Suc four_Suc One_nat_def by (rule le_bytes_fixed)+

text \<open>Bytes stored one after the other, upwards from \<open>p\<close> or downwards to \<open>p\<close>.\<close>

lemma put8_chain:
  assumes "p + 4 \<le> length b"
  shows "put8 (put8 (put8 (put8 b (int p) x) (int p + 1) y) (int p + 2) z) (int p + 3) u
      = store_at b p [of_int x, of_int y, of_int z, of_int u]"
    "put8 (put8 (put8 (put8 b (int p + 3) u) (int p + 2) z) (int p + 1) y) (int p) x
      = store_at b p [of_int x, of_int y, of_int z, of_int u]"
proof -
  have l: "p < length b" "p + 1 < length b" "p + 2 < length b" "p + 3 < length b" using assms by simp_all
  show "put8 (put8 (put8 (put8 b (int p) x) (int p + 1) y) (int p + 2) z) (int p + 3) u
      = store_at b p [of_int x, of_int y, of_int z, of_int u]"
    using l by (simp add: put8_store1 put8_append)
  have e: "int p + 3 = int (Suc (p + 2))" by simp
  have "put8 b (int p + 3) u = store_at b (Suc (p + 2)) [of_int u]"
    unfolding e using l by (intro put8_store1) simp
  moreover have "put8 (store_at b (Suc (p + 2)) [of_int u]) (int p + 2) z = store_at b (Suc (p + 1)) [of_int z, of_int u]"
    using l put8_prepend [of "p + 2" "[of_int u]" b "int p + 2" z] by (simp add: numeral_2_eq_2)
  moreover have "put8 (store_at b (Suc (p + 1)) [of_int z, of_int u]) (int p + 1) y
      = store_at b (Suc p) [of_int y, of_int z, of_int u]"
    using l put8_prepend [of "p + 1" "[of_int z, of_int u]" b "int p + 1" y] by simp
  moreover have "put8 (store_at b (Suc p) [of_int y, of_int z, of_int u]) (int p) x
      = store_at b p [of_int x, of_int y, of_int z, of_int u]"
    using l put8_prepend [of p "[of_int y, of_int z, of_int u]" b "int p" x] by simp
  ultimately show "put8 (put8 (put8 (put8 b (int p + 3) u) (int p + 2) z) (int p + 1) y) (int p) x
      = store_at b p [of_int x, of_int y, of_int z, of_int u]" by simp
qed

lemma put8_chain2:
  assumes "p + 2 \<le> length b"
  shows "put8 (put8 b (int p) x) (int p + 1) y = store_at b p [of_int x, of_int y]"
  using assms by (simp add: put8_store1 put8_append)

text \<open>The two paths of the fixed-width stores give the same bytes.\<close>

lemma byte_shrs:
  "of_int (js_shr x 8) = (of_int (x div 256) :: byte)"
  "of_int (js_shr x 16) = (of_int (x div 65536) :: byte)"
  "of_int (js_shr x 24) = (of_int (x div 16777216) :: byte)"
  using byte_shr [of 8 x] byte_shr [of 16 x] byte_shr [of 24 x] by simp_all

lemma js_shr_0: "0 \<le> t \<Longrightarrow> t < 2 ^ 32 \<Longrightarrow> js_shr t 0 = t"
  by (simp add: js_shr_def to_uint32_id)

lemma mask16_values:
  "js_shr (js_and t (js_shl 255 0)) 0 = t mod 256"
  "js_shr (js_and t (js_shl 255 8)) 8 = t div 256 mod 256"
proof -
  have 0: "js_shl 255 0 = 255" by (simp add: js_shl_mult)
  have "js_shr (t mod 256) 0 = t mod 256"
    using pos_mod_bound [of 256 t] pos_mod_sign [of 256 t] by (intro js_shr_0) auto
  then show "js_shr (js_and t (js_shl 255 0)) 0 = t mod 256"
    by (simp add: 0 js_num)
  have 8: "js_shl 255 8 = 65280" by (simp add: js_shl_mult)
  have b: "x AND (65280 :: int) = push_bit 8 (take_bit 8 (drop_bit 8 x))" for x
  proof (rule bit_eqI)
    fix n
    have "(65280 :: int) = push_bit 8 (mask 8)" by (simp add: push_bit_eq_mult mask_eq_exp_minus_1)
    then have "bit (65280 :: int) n \<longleftrightarrow> 8 \<le> n \<and> n < 16"
      by (simp only: bit_push_bit_iff_int bit_mask_iff possible_bit_int) auto
    then show "bit (x AND (65280 :: int)) n \<longleftrightarrow> bit (push_bit 8 (take_bit 8 (drop_bit 8 x))) n"
      by (auto simp: bit_and_iff bit_push_bit_iff bit_take_bit_iff bit_drop_bit_eq)
  qed
  have "js_and t 65280 = to_int32 t div 256 mod 256 * 256"
    using b [of "to_int32 t"]
    by (simp add: js_and_def to_int32_id push_bit_eq_mult take_bit_eq_mod drop_bit_eq_div)
  moreover have "js_shr (q * 256) 8 = q" if "0 \<le> q" "q < 256" for q
    using that js_shr_div [of "q * 256" 8] by simp
  ultimately have "js_shr (js_and t (js_shl 255 8)) 8 = to_int32 t div 256 mod 256"
    by (simp add: 8)
  also have "\<dots> = to_int32 t mod 65536 div 256" using zmod_zmult2_eq [of 256 "to_int32 t" 256] by simp
  also have "\<dots> = t mod 65536 div 256" using to_int32_mod_le [of 16 t] by simp
  also have "\<dots> = t div 256 mod 256" using zmod_zmult2_eq [of 256 t 256] by simp
  finally show "js_shr (js_and t (js_shl 255 8)) 8 = t div 256 mod 256" .
qed


lemma write16_store:
  assumes "p + 2 \<le> length b"
  shows "write16_loop (as_store ta b) t (int p) True 0 = as_store ta (store_at b p [of_int t, of_int (t div 256)])"
    "write16_loop (as_store ta b) t (int p) False 0 = as_store ta (store_at b p [of_int (t div 256), of_int t])"
  using assms put8_chain2 [OF assms]
  by (simp_all add: write16_loop.simps mask16_values put_byte)

lemma write32_store:
  assumes "p + 4 \<le> length b" "0 \<le> t" "t < 2 ^ 32"
  shows "write32_loop (as_store ta b) t (int p) True 0 = as_store ta (store_at b p (le_bytes 4 t))"
    "write32_loop (as_store ta b) t (int p) False 0 = as_store ta (store_at b p (rev (le_bytes 4 t)))"
  using assms put8_chain(1) [OF assms(1)]
  by (simp_all add: write32_loop.simps js_shr_0 put_byte byte_shrs le_bytes_widths(3))

lemma of_int_byte_cong: "x mod 256 = y mod 256 \<Longrightarrow> (of_int x :: byte) = of_int y"
  using of_int_byte_mod [of x] of_int_byte_mod [of y] by simp

lemma byte_zero: "(256 :: byte) = 0" "(65536 :: byte) = 0"
  by (simp_all add: word_eq_iff_unsigned take_bit_eq_mod)

lemma byte_wrap:
  "(of_int (x + 256) :: byte) = of_int x"
  "(of_int ((x + 65536) div 256) :: byte) = of_int (x div 256)"
  "(of_int (x + 65536) :: byte) = of_int x"
proof -
  have e: "x + 65536 = x + 256 * 256" by simp
  then have d: "(x + 65536) div 256 = x div 256 + 256" by (simp only: div_mult_self2, simp?)
  show "(of_int (x + 256) :: byte) = of_int x" for x by (rule of_int_byte_cong) simp
  then show "(of_int ((x + 65536) div 256) :: byte) = of_int (x div 256)" unfolding d .
  show "(of_int (x + 65536) :: byte) = of_int x"
    by (rule of_int_byte_cong) (simp only: e mod_mult_self2)
qed

lemma le_bytes_mod: "le_bytes n (v mod 256 ^ n) = le_bytes n v"
proof (induction n arbitrary: v)
  case (Suc n)
  have "v mod 256 ^ Suc n div 256 = v div 256 mod 256 ^ n"
    using zmod_zmult2_eq [of "256 ^ n" v 256] by simp
  moreover have "(of_int (v mod 256 ^ Suc n) :: byte) = of_int v"
    by (rule of_int_byte_cong) (simp add: mod_mod_cancel)
  ultimately show ?case using Suc [of "v div 256"] by (simp only: le_bytes_Cons)
qed simp

lemma le_bytes_wrap: "le_bytes 4 (v + 4294967296) = le_bytes 4 v"
  using le_bytes_mod [of 4 v] le_bytes_mod [of 4 "v + 4294967296"] by simp

lemma write_fixed:
  assumes "in_range b p 1"
  shows "0 \<le> v \<Longrightarrow> v < 256 \<Longrightarrow>
      writeUInt8 (as_store ta b) v (int p) False = Inr (as_store ta (store_at b p (le_bytes 1 v)), int p + 1)"
    "-128 \<le> v \<Longrightarrow> v < 128 \<Longrightarrow>
      writeInt8 (as_store ta b) v (int p) False = Inr (as_store ta (store_at b p (le_bytes 1 v)), int p + 1)"
  using writer_ok [OF assms, of _ v _ ta] in_range_args [OF assms] byte_wrap(1) [of v]
  by (simp_all add: writeUInt8_def writeInt8_def Let_def put_byte put8_store1 le_bytes_fixed(1) byte_zero)

lemma store16_bytes:
  assumes "p + 2 \<le> length b"
  shows "store16LE (as_store ta b) v (int p) = as_store ta (store_at b p (le_bytes 2 v))"
    "store16BE (as_store ta b) v (int p) = as_store ta (store_at b p (rev (le_bytes 2 v)))"
  using put8_chain2 [OF assms] write16_store [OF assms, of False] byte_wrap [of v]
  by (cases ta; simp add: store16LE_def store16BE_def objectWriteUInt16_def byte_js_and byte_shrs as_store_def
    le_bytes_widths(2) byte_zero add.commute [of 65536])+

lemma store32_bytes:
  assumes "p + 4 \<le> length b" "0 \<le> v" "v < 4294967296"
  shows "store32BE (as_store ta b) v (int p) = as_store ta (store_at b p (rev (le_bytes 4 v)))"
  using assms(2-) put8_chain [OF assms(1)] write32_store(2) [OF assms(1), of v False]
  by (cases ta) (simp_all add: store32BE_def objectWriteUInt32_def byte_js_and byte_shrs as_store_def
    le_bytes_widths(3))

lemma write_fixed2:
  assumes r: "in_range b p 2"
  shows "0 \<le> v \<Longrightarrow> v < 65536 \<Longrightarrow>
      writeUInt16LE (as_store ta b) v (int p) False = Inr (as_store ta (store_at b p (le_bytes 2 v)), int p + 2)"
    "0 \<le> v \<Longrightarrow> v < 65536 \<Longrightarrow>
      writeUInt16BE (as_store ta b) v (int p) False = Inr (as_store ta (store_at b p (rev (le_bytes 2 v))), int p + 2)"
    "-32768 \<le> v \<Longrightarrow> v < 32768 \<Longrightarrow>
      writeInt16LE (as_store ta b) v (int p) False = Inr (as_store ta (store_at b p (le_bytes 2 v)), int p + 2)"
    "-32768 \<le> v \<Longrightarrow> v < 32768 \<Longrightarrow>
      writeInt16BE (as_store ta b) v (int p) False = Inr (as_store ta (store_at b p (rev (le_bytes 2 v))), int p + 2)"
  using store16_bytes [OF fixed_in_range(1) [OF r], of ta v] writer_ok [OF r, simplified of_nat_numeral]
    in_range_args(1) [OF r]
  by (simp_all add: writeUInt16LE_def writeUInt16BE_def writeInt16LE_def writeInt16BE_def Let_def)

lemma write_fixed4:
  assumes r: "in_range b p 4"
  shows "0 \<le> v \<Longrightarrow> v < 4294967296 \<Longrightarrow>
      writeUInt32LE (as_store ta b) v (int p) False = Inr (as_store ta (store_at b p (le_bytes 4 v)), int p + 4)"
    "0 \<le> v \<Longrightarrow> v < 4294967296 \<Longrightarrow>
      writeUInt32BE (as_store ta b) v (int p) False = Inr (as_store ta (store_at b p (rev (le_bytes 4 v))), int p + 4)"
    "-2147483648 \<le> v \<Longrightarrow> v < 2147483648 \<Longrightarrow>
      writeInt32LE (as_store ta b) v (int p) False = Inr (as_store ta (store_at b p (le_bytes 4 v)), int p + 4)"
    "-2147483648 \<le> v \<Longrightarrow> v < 2147483648 \<Longrightarrow>
      writeInt32BE (as_store ta b) v (int p) False = Inr (as_store ta (store_at b p (rev (le_bytes 4 v))), int p + 4)"
proof -
  note l = fixed_in_range(1) [OF r]
  note w = writer_ok [OF r, simplified of_nat_numeral] in_range_args(1) [OF r]
  note bytes = byte_js_and byte_shrs le_bytes_widths(3) put8_chain [OF l]
  note be = store32_bytes [OF l, of _ ta]
  have obj: "objectWriteUInt32 (as_store ta b) v (int p) True = as_store ta (store_at b p (le_bytes 4 v))"
    if "-2147483648 \<le> v" "v < 4294967296"
    using that write32_store(1) [OF l, of v] write32_store(1) [OF l, of "v + 4294967296"]
    by (simp add: objectWriteUInt32_def le_bytes_wrap add.commute [of 4294967296])
  have up: "(if ta then put (put (put (put (as_store ta b) (int p) (js_and 255 v)) (int p + 1) (js_shr v 8))
        (int p + 2) (js_shr v 16)) (int p + 3) (js_shr v 24) else objectWriteUInt32 (as_store ta b) v (int p) True)
      = as_store ta (store_at b p (le_bytes 4 v))"
    and down: "(if ta then put (put (put (put (as_store ta b) (int p + 3) (js_shr v 24)) (int p + 2) (js_shr v 16))
        (int p + 1) (js_shr v 8)) (int p) (js_and 255 v) else objectWriteUInt32 (as_store ta b) v (int p) True)
      = as_store ta (store_at b p (le_bytes 4 v))" if "-2147483648 \<le> v" "v < 4294967296"
    using obj [OF that] by (cases ta; simp add: bytes as_store_typed)+
  show "0 \<le> v \<Longrightarrow> v < 4294967296 \<Longrightarrow>
      writeUInt32LE (as_store ta b) v (int p) False = Inr (as_store ta (store_at b p (le_bytes 4 v)), int p + 4)"
    using down by (simp add: writeUInt32LE_def Let_def w)
  show "-2147483648 \<le> v \<Longrightarrow> v < 2147483648 \<Longrightarrow>
      writeInt32LE (as_store ta b) v (int p) False = Inr (as_store ta (store_at b p (le_bytes 4 v)), int p + 4)"
    using up by (simp add: writeInt32LE_def Let_def w)
  show "0 \<le> v \<Longrightarrow> v < 4294967296 \<Longrightarrow>
      writeUInt32BE (as_store ta b) v (int p) False = Inr (as_store ta (store_at b p (rev (le_bytes 4 v))), int p + 4)"
    by (simp add: writeUInt32BE_def Let_def w be)
  show "-2147483648 \<le> v \<Longrightarrow> v < 2147483648 \<Longrightarrow>
      writeInt32BE (as_store ta b) v (int p) False = Inr (as_store ta (store_at b p (rev (le_bytes 4 v))), int p + 4)"
    using be [of v] be [of "v + 4294967296"]
    by (simp add: writeInt32BE_def Let_def w le_bytes_wrap add.commute [of 4294967296])
qed


subsection \<open>The interface of an integer format\<close>

text \<open>
  What the callers of a \<open>readX\<close>/\<open>writeX\<close> pair rely on: a write in range stores the bytes of the
  value at the offset and returns the next offset, a read gives the value of the bytes of its
  window, and the two are inverse on the format's values, whichever representation the buffer has.
  The client lemmas hold for every pair of the module.
\<close>

locale int_format =
  fixes wr :: "bstore \<Rightarrow> int \<Rightarrow> int \<Rightarrow> js_error + bstore \<times> int"
    and rd :: "bstore \<Rightarrow> int \<Rightarrow> js_error + double"
    and width :: nat and lo hi :: int
    and enc :: "int \<Rightarrow> buffer" and dec :: "buffer \<Rightarrow> int"
  assumes wr_stores: "in_range b p width \<Longrightarrow> lo \<le> v \<Longrightarrow> v < hi \<Longrightarrow>
      wr (as_store ta b) v (int p) = Inr (as_store ta (store_at b p (enc v)), int p + int width)"
    and rd_window: "in_range b p width \<Longrightarrow> rd (as_store ta b) (int p) = Inr (Fin (dec (window b p width)))"
    and length_enc: "length (enc v) = width"
    and dec_enc: "lo \<le> v \<Longrightarrow> v < hi \<Longrightarrow> dec (enc v) = v"
begin

lemma stored_in_range: "in_range b p width \<Longrightarrow> in_range (store_at b p (enc v)) q n = in_range b q n"
  by (simp add: in_range_def length_enc)

lemma read_back:
  assumes "in_range b p width" "lo \<le> v" "v < hi"
  shows "\<exists>b'. wr (as_store ta b) v (int p) = Inr (as_store ta b', int p + int width) \<and> length b' = length b
    \<and> rd (as_store ta b') (int p) = Inr (Fin v)
    \<and> (\<forall>q n. q + n \<le> p \<or> p + width \<le> q \<longrightarrow> window b' q n = window b q n)"
proof (intro exI conjI allI impI)
  have l: "p + length (enc v) \<le> length b" using assms(1) by (simp add: in_range_def length_enc)
  show "wr (as_store ta b) v (int p) = Inr (as_store ta (store_at b p (enc v)), int p + int width)"
    using assms by (rule wr_stores)
  show "length (store_at b p (enc v)) = length b" using l by simp
  have "window (store_at b p (enc v)) p width = enc v"
    using take_store [OF l] by (simp add: window_def length_enc)
  then show "rd (as_store ta (store_at b p (enc v))) (int p) = Inr (Fin v)"
    using assms by (simp add: rd_window stored_in_range dec_enc)
  fix q n assume "q + n \<le> p \<or> p + width \<le> q"
  then show "window (store_at b p (enc v)) q n = window b q n"
    using take_store_other [OF l, of q n] by (simp add: window_def length_enc)
qed

text \<open>Typed array or plain object: the same bytes and the same next offset.\<close>

lemma same_on_both:
  assumes "in_range b p width" "lo \<le> v" "v < hi"
  shows "\<exists>c. wr (Typed b) v (int p) = Inr (Typed c, int p + int width)
    \<and> wr (Plain (plain_of b)) v (int p) = Inr (Plain (plain_of c), int p + int width)"
  using wr_stores [OF assms, of True] wr_stores [OF assms, of False] by (simp add: as_store_typed)

lemma write_over:
  assumes "in_range b p width" "lo \<le> v" "v < hi" "lo \<le> w" "w < hi"
  shows "\<exists>b'. wr (as_store ta b) v (int p) = Inr (as_store ta b', int p + int width)
    \<and> wr (as_store ta b') w (int p) = wr (as_store ta b) w (int p)"
proof -
  have "store_at (store_at b p (enc v)) p (enc w) = store_at b p (enc w)"
    using assms(1) by (simp add: store_at_def length_enc in_range_def)
  then have "wr (as_store ta (store_at b p (enc v))) w (int p) = wr (as_store ta b) w (int p)"
    using assms by (simp add: wr_stores stored_in_range)
  then show ?thesis using assms by (intro exI [of _ "store_at b p (enc v)"]) (simp add: wr_stores)
qed

end

lemma le_value_bytes_id: "0 \<le> v \<Longrightarrow> v < 256 ^ n \<Longrightarrow> le_value (le_bytes n v) = v"
  by (simp add: le_value_le_bytes)

lemma signed_bytes_id:
  "0 < n \<Longrightarrow> - (2 ^ (8 * n - 1)) \<le> v \<Longrightarrow> v < 2 ^ (8 * n - 1) \<Longrightarrow> signed_value n (le_value (le_bytes n v)) = v"
  by (simp add: le_value_le_bytes signed_le_value)

text \<open>
  The variable-width pairs, at every width from 1 to 6 bytes (\<open>in_range\<close>; the offset and the width
  are in the signed 32-bit range because the buffer is).
\<close>

definition wrUIntLE where "wrUIntLE n b v p = writeUIntLE b v p (int n) False"
definition wrUIntBE where "wrUIntBE n b v p = writeUIntBE b v p (int n) False"
definition wrIntLE where "wrIntLE n b v p = writeIntLE b v p (int n) False"
definition wrIntBE where "wrIntBE n b v p = writeIntBE b v p (int n) False"
definition rdUIntLE where "rdUIntLE n b p = readUIntLE b p (int n) False"
definition rdUIntBE where "rdUIntBE n b p = readUIntBE b p (int n) False"
definition rdIntLE where "rdIntLE n b p = readIntLE b p (int n) False"
definition rdIntBE where "rdIntBE n b p = readIntBE b p (int n) False"

interpretation uintLE: int_format "wrUIntLE n" "rdUIntLE n" n 0 "256 ^ n" "le_bytes n" le_value
  by unfold_locales (simp_all add: wrUIntLE_def rdUIntLE_def write_store read_window le_value_bytes_id)

interpretation uintBE: int_format "wrUIntBE n" "rdUIntBE n" n 0 "256 ^ n" "\<lambda>v. rev (le_bytes n v)"
    "\<lambda>w. le_value (rev w)"
  by unfold_locales (simp_all add: wrUIntBE_def rdUIntBE_def write_store read_window le_value_bytes_id)

interpretation intLE: int_format "wrIntLE (Suc n)" "rdIntLE (Suc n)" "Suc n"
    "- (2 ^ (8 * Suc n - 1))" "2 ^ (8 * Suc n - 1)" "le_bytes (Suc n)"
    "\<lambda>w. signed_value (Suc n) (le_value w)"
  unfolding int_format_def wrIntLE_def rdIntLE_def
  by (intro conjI allI impI; (rule write_store | rule read_window | rule length_le_bytes | rule signed_bytes_id); (assumption | simp only: zero_less_Suc)?)

interpretation intBE: int_format "wrIntBE (Suc n)" "rdIntBE (Suc n)" "Suc n"
    "- (2 ^ (8 * Suc n - 1))" "2 ^ (8 * Suc n - 1)" "\<lambda>v. rev (le_bytes (Suc n) v)"
    "\<lambda>w. signed_value (Suc n) (le_value (rev w))"
  unfolding int_format_def wrIntBE_def rdIntBE_def rev_rev_ident length_rev
  by (intro conjI allI impI; (rule write_store | rule read_window | rule length_le_bytes | rule signed_bytes_id); (assumption | simp only: zero_less_Suc)?)


text \<open>The fixed widths.\<close>

lemma value_ids:
  "0 \<le> v \<Longrightarrow> v < 256 \<Longrightarrow> le_value (le_bytes 1 v) = v"
  "0 \<le> v \<Longrightarrow> v < 65536 \<Longrightarrow> le_value (le_bytes 2 v) = v"
  "0 \<le> v \<Longrightarrow> v < 4294967296 \<Longrightarrow> le_value (le_bytes 4 v) = v"
  "-128 \<le> v \<Longrightarrow> v < 128 \<Longrightarrow> signed_value 1 (le_value (le_bytes 1 v)) = v"
  "-32768 \<le> v \<Longrightarrow> v < 32768 \<Longrightarrow> signed_value 2 (le_value (le_bytes 2 v)) = v"
  "-2147483648 \<le> v \<Longrightarrow> v < 2147483648 \<Longrightarrow> signed_value 4 (le_value (le_bytes 4 v)) = v"
  using le_value_bytes_id [of v 1] le_value_bytes_id [of v 2] le_value_bytes_id [of v 4]
    signed_bytes_id [of 1 v] signed_bytes_id [of 2 v] signed_bytes_id [of 4 v]
  by simp_all

lemmas fixed_width_laws = write_fixed write_fixed2 write_fixed4 read_fixed read_fixed4 value_ids
  of_nat_1 of_nat_numeral length_rev length_le_bytes rev_rev_ident

interpretation uint8: int_format "\<lambda>b v p. writeUInt8 b v p False" "\<lambda>b p. readUInt8 b p False" 1
    0 256 "le_bytes 1" le_value
  by unfold_locales (simp_all only: fixed_width_laws)

interpretation int8: int_format "\<lambda>b v p. writeInt8 b v p False" "\<lambda>b p. readInt8 b p False" 1
    "-128" 128 "le_bytes 1" "\<lambda>w. signed_value 1 (le_value w)"
  by unfold_locales (simp_all only: fixed_width_laws)

interpretation uint16LE: int_format "\<lambda>b v p. writeUInt16LE b v p False" "\<lambda>b p. readUInt16LE b p False" 2
    0 65536 "le_bytes 2" le_value
  by unfold_locales (simp_all only: fixed_width_laws)

interpretation uint16BE: int_format "\<lambda>b v p. writeUInt16BE b v p False" "\<lambda>b p. readUInt16BE b p False" 2
    0 65536 "\<lambda>v. rev (le_bytes 2 v)" "\<lambda>w. le_value (rev w)"
  by unfold_locales (simp_all only: fixed_width_laws)

interpretation int16LE: int_format "\<lambda>b v p. writeInt16LE b v p False" "\<lambda>b p. readInt16LE b p False" 2
    "-32768" 32768 "le_bytes 2" "\<lambda>w. signed_value 2 (le_value w)"
  by unfold_locales (simp_all only: fixed_width_laws)

interpretation int16BE: int_format "\<lambda>b v p. writeInt16BE b v p False" "\<lambda>b p. readInt16BE b p False" 2
    "-32768" 32768 "\<lambda>v. rev (le_bytes 2 v)" "\<lambda>w. signed_value 2 (le_value (rev w))"
  by unfold_locales (simp_all only: fixed_width_laws)

interpretation uint32LE: int_format "\<lambda>b v p. writeUInt32LE b v p False" "\<lambda>b p. readUInt32LE b p False" 4
    0 4294967296 "le_bytes 4" le_value
  by unfold_locales (simp_all only: fixed_width_laws)

interpretation uint32BE: int_format "\<lambda>b v p. writeUInt32BE b v p False" "\<lambda>b p. readUInt32BE b p False" 4
    0 4294967296 "\<lambda>v. rev (le_bytes 4 v)" "\<lambda>w. le_value (rev w)"
  by unfold_locales (simp_all only: fixed_width_laws)

interpretation int32LE: int_format "\<lambda>b v p. writeInt32LE b v p False" "\<lambda>b p. readInt32LE b p False" 4
    "-2147483648" 2147483648 "le_bytes 4" "\<lambda>w. signed_value 4 (le_value w)"
  by unfold_locales (simp_all only: fixed_width_laws)

interpretation int32BE: int_format "\<lambda>b v p. writeInt32BE b v p False" "\<lambda>b p. readInt32BE b p False" 4
    "-2147483648" 2147483648 "\<lambda>v. rev (le_bytes 4 v)" "\<lambda>w. signed_value 4 (le_value (rev w))"
  by unfold_locales (simp_all only: fixed_width_laws)

subsection \<open>Properties\<close>

text \<open>
  Property C8. Signed integers of one to six bytes, in both byte orders, on typed arrays and on
  plain objects: the store succeeds, returns the next offset, leaves every byte outside its window
  alone, and reading the window gives the value back. The writer's borrow makes the truncating
  divisions floor divisions, and the reader's comparison with \<open>128 * 256 ^ (n - 1)\<close> restores the
  sign.
\<close>

theorem signed_int_roundtrip:
  assumes "in_range b p (Suc n)" "- (2 ^ (8 * Suc n - 1)) \<le> v" "v < 2 ^ (8 * Suc n - 1)"
  shows "(\<exists>b'. writeIntLE (as_store ta b) v (int p) (int (Suc n)) False = Inr (as_store ta b', int p + int (Suc n))
      \<and> length b' = length b \<and> readIntLE (as_store ta b') (int p) (int (Suc n)) False = Inr (Fin v)
      \<and> (\<forall>q k. q + k \<le> p \<or> p + Suc n \<le> q \<longrightarrow> window b' q k = window b q k))
    \<and> (\<exists>b'. writeIntBE (as_store ta b) v (int p) (int (Suc n)) False = Inr (as_store ta b', int p + int (Suc n))
      \<and> length b' = length b \<and> readIntBE (as_store ta b') (int p) (int (Suc n)) False = Inr (Fin v)
      \<and> (\<forall>q k. q + k \<le> p \<or> p + Suc n \<le> q \<longrightarrow> window b' q k = window b q k))"
  using intLE.read_back [OF assms, of ta] intBE.read_back [OF assms, of ta]
  unfolding wrIntLE_def wrIntBE_def rdIntLE_def rdIntBE_def by (rule conjI)

theorem signed_int_roundtrip_witness:
  "(\<exists>b'. writeIntBE (Typed [0, 0, 0, 0, 7]) (-70000) 1 3 False = Inr (Typed b', 4)
      \<and> readIntBE (Typed b') 1 3 False = Inr (Fin (-70000)))"
  using signed_int_roundtrip [of "[0, 0, 0, 0, 7]" 1 2 "-70000" True]
  by (auto simp: in_range_def as_store_typed)

text \<open>
  From seven bytes on the sum of the bytes is no longer exact: -1 is stored as seven bytes 255 and
  read back as 0.
\<close>

lemma seven_bytes_lost:
  "writeIntLE (Typed [0, 0, 0, 0, 0, 0, 0]) (-1) 0 7 False = Inr (Typed [255, 255, 255, 255, 255, 255, 255], 7)
   \<and> readIntLE (Typed [255, 255, 255, 255, 255, 255, 255]) 0 7 False = Inr (Fin 0)"
proof
  have "dbl 36028797018963967 = Fin 36028797018963968"
    by (simp add: dbl_def round53_def excess.simps Let_def)
  moreover have "put8 [0, 0, 0, 0, 0, 0, 0] 0 (js_and 255 (- 1)) = [-1, 0, 0, 0, 0, 0, 0]"
    by (simp add: put8_def js_num)
  moreover have "(255 :: byte) = -1" by simp
  ultimately show "writeIntLE (Typed [0, 0, 0, 0, 0, 0, 0]) (-1) 0 7 False = Inr (Typed [255, 255, 255, 255, 255, 255, 255], 7)"
    using write_up_s_store [of 0 0 6 "[0, 0, 0, 0, 0, 0, 0]" True "-1"]
    by (simp add: writeIntLE_def writer_def unless_def check_int_def top_limit_def low_limit_def d_pow2_def
      d_neg_def to_int32_def as_store_typed le_bytes_def upt_rec store_at_def carry_def)
  show "readIntLE (Typed [255, 255, 255, 255, 255, 255, 255]) 0 7 False = Inr (Fin 0)" by code_simp
qed

text \<open>
  Property C9. Unsigned integers of one to six bytes, in both byte orders and both representations,
  with the bytes they leave in the buffer: the little-endian store writes the base-256 digits of the
  value upwards, the big-endian store the same digits downwards, and each read is their value.
\<close>

theorem unsigned_int_layout:
  assumes "in_range b p n" "0 \<le> v" "v < 256 ^ n"
  shows "writeUIntLE (as_store ta b) v (int p) (int n) False
      = Inr (as_store ta (store_at b p (le_bytes n v)), int p + int n)
    \<and> writeUIntBE (as_store ta b) v (int p) (int n) False
      = Inr (as_store ta (store_at b p (rev (le_bytes n v))), int p + int n)
    \<and> readUIntLE (as_store ta (store_at b p (le_bytes n v))) (int p) (int n) False = Inr (Fin v)
    \<and> readUIntBE (as_store ta (store_at b p (rev (le_bytes n v)))) (int p) (int n) False = Inr (Fin v)"
proof -
  have r: "in_range (store_at b p (le_bytes n v)) p n" "in_range (store_at b p (rev (le_bytes n v))) p n"
    using assms(1) uintLE.stored_in_range [of b p n v] uintBE.stored_in_range [of b p n v] by simp_all
  have l: "p + n \<le> length b" using assms(1) by (simp add: in_range_def)
  have w: "window (store_at b p (le_bytes n v)) p n = le_bytes n v"
    "window (store_at b p (rev (le_bytes n v))) p n = rev (le_bytes n v)"
    using take_store [of p "le_bytes n v" b] take_store [of p "rev (le_bytes n v)" b] l
    by (simp_all add: window_def)
  show ?thesis
    using uintLE.wr_stores [OF assms, of ta] uintBE.wr_stores [OF assms, of ta]
      uintLE.rd_window [OF r(1), of ta] uintBE.rd_window [OF r(2), of ta]
      le_value_bytes_id [OF assms(2,3)]
    by (simp add: wrUIntLE_def wrUIntBE_def rdUIntLE_def rdUIntBE_def w)
qed

theorem unsigned_int_layout_witness:
  "writeUIntBE (Typed [9, 9, 9, 9]) 66051 0 3 False = Inr (Typed [1, 2, 3, 9], 3)"
  using unsigned_int_layout [of "[9, 9, 9, 9]" 0 3 66051 True]
  by (simp add: in_range_def store_at_def le_bytes_def upt_rec as_store_typed)

text \<open>The same bytes and the same next offset on a typed array and on a plain object.\<close>

definition in_step :: "js_error + bstore \<times> int \<Rightarrow> js_error + bstore \<times> int \<Rightarrow> bool" where
  "in_step r s \<longleftrightarrow> (\<exists>c n. r = Inr (Typed c, n) \<and> s = Inr (Plain (plain_of c), n))"

text \<open>
  Property C10. The fixed-width methods do not depend on typed-array support. On a typed array the
  bytes are stored as they come and the array truncates them; on a plain object, which keeps what
  is stored, the fallback loops have to mask them. For every value and offset in range both leave
  the same bytes, in the 16-bit and 32-bit methods, signed and unsigned, and return the same offset.
\<close>

theorem fallback_equivalence:
  assumes "in_range b p w"
  shows "(w = 4 \<and> -2147483648 \<le> v \<and> v < 2147483648 \<longrightarrow>
      in_step (writeInt32LE (Typed b) v (int p) False) (writeInt32LE (Plain (plain_of b)) v (int p) False)
      \<and> in_step (writeInt32BE (Typed b) v (int p) False) (writeInt32BE (Plain (plain_of b)) v (int p) False))
    \<and> (w = 4 \<and> 0 \<le> v \<and> v < 4294967296 \<longrightarrow>
      in_step (writeUInt32LE (Typed b) v (int p) False) (writeUInt32LE (Plain (plain_of b)) v (int p) False)
      \<and> in_step (writeUInt32BE (Typed b) v (int p) False) (writeUInt32BE (Plain (plain_of b)) v (int p) False))
    \<and> (w = 2 \<and> -32768 \<le> v \<and> v < 32768 \<longrightarrow>
      in_step (writeInt16LE (Typed b) v (int p) False) (writeInt16LE (Plain (plain_of b)) v (int p) False)
      \<and> in_step (writeInt16BE (Typed b) v (int p) False) (writeInt16BE (Plain (plain_of b)) v (int p) False))
    \<and> (w = 2 \<and> 0 \<le> v \<and> v < 65536 \<longrightarrow>
      in_step (writeUInt16LE (Typed b) v (int p) False) (writeUInt16LE (Plain (plain_of b)) v (int p) False)
      \<and> in_step (writeUInt16BE (Typed b) v (int p) False) (writeUInt16BE (Plain (plain_of b)) v (int p) False))"
  using assms int32LE.same_on_both [of b p v] int32BE.same_on_both [of b p v]
    uint32LE.same_on_both [of b p v] uint32BE.same_on_both [of b p v]
    int16LE.same_on_both [of b p v] int16BE.same_on_both [of b p v]
    uint16LE.same_on_both [of b p v] uint16BE.same_on_both [of b p v]
  unfolding in_step_def by blast

theorem fallback_equivalence_witness:
  "in_step (writeInt32LE (Typed [0, 0, 0, 0]) (-2) 0 False) (writeInt32LE (Plain (plain_of [0, 0, 0, 0])) (-2) 0 False)"
  using fallback_equivalence [of "[0, 0, 0, 0]" 0 4 "-2"] by (simp add: in_range_def)

text \<open>
  The range check of the writers looks at the end of the window only: a store at offset
  -1 is accepted, loses the byte that would lie before the buffer and reports success.
\<close>

lemma negative_offset_accepted:
  assumes "0 < length b" "0 \<le> v" "v < 65536"
  shows "writeUInt16LE (Typed b) v (-1) False = Inr (Typed (put8 b 0 (v div 256)), 1)
    \<and> readUInt16LE (Typed b) (-1) False = Inl (RangeError ''offset is not uint'')"
proof -
  have "put8 b 0 (js_shr v 8) = put8 b 0 (v div 256)" by (simp add: put8_def byte_shrs)
  then show ?thesis
    using assms by (simp add: writeUInt16LE_def writer_def unless_def check_int_def store16LE_def
        readUInt16LE_def reader_def check_offset_def to_int32_def put8_def)
qed

lemma negative_offset_accepted_witness:
  "writeUInt16LE (Typed [0, 0]) 513 (-1) False = Inr (Typed (put8 [0, 0] 0 2), 1)"
  using negative_offset_accepted [of "[0, 0]" 513] by simp

end
