(* ===== verification/BufOps.thy ===== *)
theory BufOps
  imports Base64 Utf8 BufInt
begin

section \<open>Buffer operations (module 54 of swagger-ui-bundle.js)\<close>

text \<open>
  Slices, comparison, copying, filling, searching, swapping, and the conversions between strings
  and buffers in the encodings of the polyfill. A buffer is the list of its bytes: \<open>slice\<close> gives
  the bytes of the view it creates. Offsets are integers.
\<close>

subsection \<open>\<open>slice\<close>\<close>

definition clamp_index :: "int \<Rightarrow> int \<Rightarrow> int" where
  "clamp_index r e =
     (if e < 0 then (if e + r < 0 then 0 else e + r) else if r < e then r else e)"

definition slice_bounds :: "int \<Rightarrow> int \<Rightarrow> int option \<Rightarrow> int \<times> int" where
  "slice_bounds r e t =
     (let e = clamp_index r (to_int32 e);
          t = clamp_index r (case t of None \<Rightarrow> r | Some t \<Rightarrow> to_int32 t)
      in (e, if t < e then e else t))"

definition buf_slice :: "buffer \<Rightarrow> int \<Rightarrow> int option \<Rightarrow> buffer" where
  "buf_slice b e t =
     (let (e, t) = slice_bounds (int (length b)) e t in take (nat (t - e)) (drop (nat e) b))"

subsection \<open>Comparison\<close>

text \<open>The loop that looks for the first difference, then compares the bytes or the lengths.\<close>

function first_diff :: "buffer \<Rightarrow> buffer \<Rightarrow> nat \<Rightarrow> nat \<Rightarrow> int \<times> int" where
  "first_diff e t k i =
     (if k < i then
        (if e ! k \<noteq> t ! k then (uint (e ! k), uint (t ! k)) else first_diff e t (k + 1) i)
      else (int (length e), int (length t)))"
  by pat_completeness auto
termination by (relation "measure (\<lambda>(e, t, k, i). i - k)") auto

declare first_diff.simps [simp del]

definition three_way :: "int \<times> int \<Rightarrow> int" where
  "three_way p = (if fst p < snd p then -1 else if snd p < fst p then 1 else 0)"

definition buf_compare :: "buffer \<Rightarrow> buffer \<Rightarrow> int" where
  "buf_compare e t = three_way (first_diff e t 0 (min (length e) (length t)))"

definition buf_equals :: "buffer \<Rightarrow> buffer \<Rightarrow> bool" where
  "buf_equals b e \<longleftrightarrow> buf_compare b e = 0"

text \<open>\<open>this.compare(e, t, n, r, o)\<close>, its bounds given or defaulted.\<close>

definition buf_compare_ranges ::
  "buffer \<Rightarrow> buffer \<Rightarrow> int option \<Rightarrow> int option \<Rightarrow> int option \<Rightarrow> int option \<Rightarrow> js_error + int" where
  "buf_compare_ranges this e t n r u =
     (let t = (case t of None \<Rightarrow> 0 | Some x \<Rightarrow> x);
          n = (case n of None \<Rightarrow> int (length e) | Some x \<Rightarrow> x);
          r = (case r of None \<Rightarrow> 0 | Some x \<Rightarrow> x);
          u = (case u of None \<Rightarrow> int (length this) | Some x \<Rightarrow> x)
      in if t < 0 \<or> int (length e) < n \<or> r < 0 \<or> int (length this) < u
           then Inl (RangeError ''out of range index'')
         else if u \<le> r \<and> n \<le> t then Inr 0
         else if u \<le> r then Inr (-1)
         else if n \<le> t then Inr 1
         else Inr (buf_compare (buf_slice this r (Some u)) (buf_slice e t (Some n))))"

subsection \<open>\<open>copy\<close> and \<open>concat\<close>\<close>

text \<open>The bounds of a copy; \<open>None\<close> where the call returns 0 before any bound is checked.\<close>

definition copy_bounds ::
  "int \<Rightarrow> int \<Rightarrow> int \<Rightarrow> int \<Rightarrow> int option \<Rightarrow> js_error + (int \<times> int \<times> int) option" where
  "copy_bounds slen tlen t n r =
     (let r = (case r of None \<Rightarrow> slen | Some x \<Rightarrow> x);
          t = (if tlen \<le> t then tlen else t);
          r = (if 0 < r \<and> r < n then n else r)
      in if r = n then Inr None
         else if tlen = 0 \<or> slen = 0 then Inr None
         else if t < 0 then Inl (RangeError ''targetStart out of bounds'')
         else if n < 0 \<or> slen \<le> n then Inl (RangeError ''sourceStart out of bounds'')
         else if r < 0 then Inl (RangeError ''sourceEnd out of bounds'')
         else
           let r = (if slen < r then slen else r);
               r = (if tlen - t < r - n then tlen - t + n else r)
           in Inr (Some (t, n, r)))"

text \<open>\<open>e[o + t] = this[o + n]\<close> for ascending and for descending \<open>o\<close>, target and source distinct.\<close>

function copy_up :: "buffer \<Rightarrow> buffer \<Rightarrow> nat \<Rightarrow> nat \<Rightarrow> nat \<Rightarrow> nat \<Rightarrow> buffer" where
  "copy_up e this t n k i =
     (if k < i then copy_up (e[k + t := this ! (k + n)]) this t n (k + 1) i else e)"
  by pat_completeness auto
termination by (relation "measure (\<lambda>(e, this, t, n, k, i). i - k)") auto

text \<open>The same buffer as target and source: every iteration reads what the earlier ones wrote.\<close>

function self_up :: "buffer \<Rightarrow> nat \<Rightarrow> nat \<Rightarrow> nat \<Rightarrow> nat \<Rightarrow> buffer" where
  "self_up b t n k i = (if k < i then self_up (b[k + t := b ! (k + n)]) t n (k + 1) i else b)"
  by pat_completeness auto
termination by (relation "measure (\<lambda>(b, t, n, k, i). i - k)") auto

fun self_down :: "buffer \<Rightarrow> nat \<Rightarrow> nat \<Rightarrow> nat \<Rightarrow> buffer" where
  "self_down b t n 0 = b"
| "self_down b t n (Suc k) = self_down (b[k + t := b ! (k + n)]) t n k"

declare copy_up.simps [simp del] self_up.simps [simp del]

text \<open>
  \<open>Uint8Array.prototype.set\<close> with a subarray, used from 1000 bytes on: the standard's
  \<open>set\<close> copies as if through a temporary.
\<close>

definition typed_set :: "buffer \<Rightarrow> nat \<Rightarrow> buffer \<Rightarrow> buffer" where
  "typed_set e t xs = store_at e t xs"

definition buf_copy :: "bool \<Rightarrow> buffer \<Rightarrow> buffer \<Rightarrow> int \<Rightarrow> int \<Rightarrow> int option \<Rightarrow> js_error + buffer \<times> int" where
  "buf_copy ta this e t n r =
     andthen (copy_bounds (int (length this)) (int (length e)) t n r) (\<lambda>bd.
       case bd of None \<Rightarrow> Inr (e, 0)
       | Some (t, n, r) \<Rightarrow>
           let i = nat (r - n)
           in Inr (if i < 1000 \<or> \<not> ta then copy_up e this (nat t) (nat n) 0 i
                   else typed_set e (nat t) (window this (nat n) i), r - n))"

definition buf_copy_self :: "bool \<Rightarrow> buffer \<Rightarrow> int \<Rightarrow> int \<Rightarrow> int option \<Rightarrow> js_error + buffer \<times> int" where
  "buf_copy_self ta b t n r =
     andthen (copy_bounds (int (length b)) (int (length b)) t n r) (\<lambda>bd.
       case bd of None \<Rightarrow> Inr (b, 0)
       | Some (t, n, r) \<Rightarrow>
           let i = nat (r - n)
           in Inr (if n < t \<and> t < r then self_down b (nat t) (nat n) i
                   else if i < 1000 \<or> \<not> ta then self_up b (nat t) (nat n) 0 i
                   else typed_set b (nat t) (window b (nat n) i), r - n))"

text \<open>\<open>alloc(size)\<close>: the checks of \<open>c\<close> and \<open>u\<close>, with \<open>kMaxLength\<close> from \<open>a()\<close>.\<close>

definition kMaxLength :: "bool \<Rightarrow> int" where
  "kMaxLength ta = (if ta then 2147483647 else 1073741823)"

definition buf_alloc :: "bool \<Rightarrow> int \<Rightarrow> js_error + buffer" where
  "buf_alloc ta n =
     (if n < 0 then Inl (RangeError ''size argument must not be negative'')
      else if kMaxLength ta < n then Inl (RangeError ''Invalid typed array length'')
      else Inr (replicate (nat n) 0))"

definition checked_length :: "bool \<Rightarrow> int \<Rightarrow> js_error + int" where
  "checked_length ta n =
     (if kMaxLength ta \<le> n then Inl (RangeError ''Attempt to allocate Buffer larger than maximum size'')
      else Inr (js_or 0 n))"

definition buf_allocUnsafe :: "bool \<Rightarrow> int \<Rightarrow> js_error + buffer" where
  "buf_allocUnsafe ta n =
     (if n < 0 then Inl (RangeError ''size argument must not be negative'')
      else andthen (checked_length ta n) (\<lambda>m. buf_alloc ta m))"

fun concat_loop :: "bool \<Rightarrow> buffer list \<Rightarrow> buffer \<Rightarrow> int \<Rightarrow> js_error + buffer" where
  "concat_loop ta [] r k = Inr r"
| "concat_loop ta (a # e) r k =
     andthen (buf_copy ta a r k 0 None) (\<lambda>(r', c). concat_loop ta e r' (k + int (length a)))"

definition buf_concat :: "bool \<Rightarrow> buffer list \<Rightarrow> int option \<Rightarrow> js_error + buffer" where
  "buf_concat ta e t =
     (if e = [] then buf_alloc ta 0
      else
        let t = (case t of None \<Rightarrow> sum_list (map (\<lambda>b. int (length b)) e) | Some t \<Rightarrow> t)
        in andthen (buf_allocUnsafe ta t) (\<lambda>r. concat_loop ta e r 0))"

subsection \<open>\<open>fill\<close>\<close>

function fill_byte :: "buffer \<Rightarrow> int \<Rightarrow> nat \<Rightarrow> nat \<Rightarrow> buffer" where
  "fill_byte b v i n = (if i < n then fill_byte (b[i := of_int v]) v (i + 1) n else b)"
  by pat_completeness auto
termination by (relation "measure (\<lambda>(b, v, i, n). n - i)") auto

text \<open>\<open>this[i + t] = a[i % u]\<close>; with an empty pattern \<open>i % 0\<close> is \<open>NaN\<close> and \<open>undefined\<close> stores 0.\<close>

function fill_pattern :: "buffer \<Rightarrow> buffer \<Rightarrow> nat \<Rightarrow> nat \<Rightarrow> nat \<Rightarrow> buffer" where
  "fill_pattern b a t i m =
     (if i < m
      then fill_pattern (b[i + t := if a = [] then 0 else a ! (i mod length a)]) a t (i + 1) m
      else b)"
  by pat_completeness auto
termination by (relation "measure (\<lambda>(b, a, t, i, m). m - i)") auto

declare fill_byte.simps [simp del] fill_pattern.simps [simp del]

definition fill_bounds :: "buffer \<Rightarrow> int option \<Rightarrow> int option \<Rightarrow> js_error + (nat \<times> nat) option" where
  "fill_bounds b t n =
     (let len = int (length b);
          bad_t = (case t of None \<Rightarrow> False | Some t \<Rightarrow> t < 0 \<or> len < t);
          bad_n = (case n of None \<Rightarrow> False | Some n \<Rightarrow> len < n);
          empty = (case (t, n) of (Some t, Some n) \<Rightarrow> n \<le> t | _ \<Rightarrow> False)
      in if bad_t \<or> bad_n then Inl (RangeError ''Out of range index'')
         else if empty then Inr None
         else Inr (Some (nat (to_uint32 (case t of None \<Rightarrow> 0 | Some t \<Rightarrow> t)),
                         nat (case n of None \<Rightarrow> len | Some n \<Rightarrow> to_uint32 n))))"

definition buf_fill_number :: "buffer \<Rightarrow> int \<Rightarrow> int option \<Rightarrow> int option \<Rightarrow> js_error + buffer" where
  "buf_fill_number b v t n =
     andthen (fill_bounds b t n) (\<lambda>bd. case bd of None \<Rightarrow> Inr b
       | Some (t, n) \<Rightarrow> Inr (fill_byte b (js_and v 255) t n))"

definition buf_fill_bytes :: "buffer \<Rightarrow> buffer \<Rightarrow> int option \<Rightarrow> int option \<Rightarrow> js_error + buffer" where
  "buf_fill_bytes b a t n =
     andthen (fill_bounds b t n) (\<lambda>bd. case bd of None \<Rightarrow> Inr b
       | Some (t, n) \<Rightarrow> Inr (fill_pattern b a t 0 (n - t)))"

subsection \<open>Searching: \<open>g(e, t, n, r, o)\<close> on bytes\<close>

text \<open>The forward loop: \<open>c\<close> is the start of the match under way, \<open>None\<close> for -1.\<close>

function index_up :: "buffer \<Rightarrow> buffer \<Rightarrow> nat option \<Rightarrow> nat \<Rightarrow> nat option" where
  "index_up e t c i =
     (if i < length e then
        (if e ! i = t ! (case c of None \<Rightarrow> 0 | Some c \<Rightarrow> i - c) then
           let c' = (case c of None \<Rightarrow> i | Some c \<Rightarrow> c)
           in if i - c' + 1 = length t then Some c'
              else if c' \<le> i then index_up e t (Some c') (i + 1) else None
         else (case c of None \<Rightarrow> index_up e t None (i + 1)
               | Some c \<Rightarrow> if c \<le> i then index_up e t None (c + 1) else None))
      else None)"
  by pat_completeness auto
termination
proof (relation "inv_image (less_than <*lex*> less_than)
    (\<lambda>(e, t, c, i). (length e - (case c of None \<Rightarrow> i | Some c \<Rightarrow> min c i),
                     case c of None \<Rightarrow> Suc (length e) | Some c \<Rightarrow> length e - i))", goal_cases)
  case 1
  then show ?case by (intro wf_inv_image wf_lex_prod wf_less_than)
qed (auto split: option.splits simp: min_def)

declare index_up.simps [simp del]

fun match_at :: "buffer \<Rightarrow> buffer \<Rightarrow> nat \<Rightarrow> nat \<Rightarrow> nat \<Rightarrow> bool" where
  "match_at e t i p 0 = True"
| "match_at e t i p (Suc k) =
     (if i + p < length e \<and> e ! (i + p) = t ! p then match_at e t i (p + 1) k else False)"

fun index_down :: "buffer \<Rightarrow> buffer \<Rightarrow> nat \<Rightarrow> nat option" where
  "index_down e t 0 = (if match_at e t 0 0 (length t) then Some 0 else None)"
| "index_down e t (Suc i) =
     (if match_at e t (Suc i) 0 (length t) then Some (Suc i) else index_down e t i)"

definition array_index_of :: "buffer \<Rightarrow> buffer \<Rightarrow> nat \<Rightarrow> bool \<Rightarrow> nat option" where
  "array_index_of e t n fwd =
     (if fwd then index_up e t None n
      else if length e < n + length t
           then (if length e < length t then None else index_down e t (length e - length t))
           else index_down e t n)"

text \<open>\<open>m(e, t, n, r, o)\<close> on a buffer to find: the normalised start and the empty cases.\<close>

definition bidirectional_index_of :: "buffer \<Rightarrow> buffer \<Rightarrow> int option \<Rightarrow> bool \<Rightarrow> int" where
  "bidirectional_index_of e t n fwd =
     (if e = [] then -1
      else
        let len = int (length e);
            n = (case n of None \<Rightarrow> (if fwd then 0 else len - 1)
                 | Some n \<Rightarrow> if 2147483647 < n then 2147483647 else if n < -2147483648 then -2147483648 else n);
            n = (if n < 0 then len + n else n)
        in if len \<le> n \<and> fwd then -1
           else if n < 0 \<and> \<not> fwd then -1
           else
             let n = (if len \<le> n then len - 1 else if n < 0 then 0 else n)
             in if t = [] then -1
                else (case array_index_of e t (nat n) fwd of None \<Rightarrow> -1 | Some k \<Rightarrow> int k))"

subsection \<open>Swapping bytes\<close>

definition swap :: "buffer \<Rightarrow> nat \<Rightarrow> nat \<Rightarrow> buffer" where
  "swap e t n = (let r = e ! t in (e[t := e ! n])[n := r])"

function swap_groups :: "(buffer \<Rightarrow> nat \<Rightarrow> buffer) \<Rightarrow> nat \<Rightarrow> buffer \<Rightarrow> nat \<Rightarrow> nat \<Rightarrow> buffer" where
  "swap_groups f w b t e =
     (if t < e \<and> 0 < w then swap_groups f w (f b t) (t + w) e else b)"
  by pat_completeness auto
termination by (relation "measure (\<lambda>(f, w, b, t, e). e - t)") auto

declare swap_groups.simps [simp del]

definition swap16 :: "buffer \<Rightarrow> js_error + buffer" where
  "swap16 b =
     (if length b mod 2 \<noteq> 0 then Inl (RangeError ''Buffer size must be a multiple of 16-bits'')
      else Inr (swap_groups (\<lambda>b t. swap b t (t + 1)) 2 b 0 (length b)))"

definition swap32 :: "buffer \<Rightarrow> js_error + buffer" where
  "swap32 b =
     (if length b mod 4 \<noteq> 0 then Inl (RangeError ''Buffer size must be a multiple of 32-bits'')
      else Inr (swap_groups (\<lambda>b t. swap (swap b t (t + 3)) (t + 1) (t + 2)) 4 b 0 (length b)))"

definition swap64 :: "buffer \<Rightarrow> js_error + buffer" where
  "swap64 b =
     (if length b mod 8 \<noteq> 0 then Inl (RangeError ''Buffer size must be a multiple of 64-bits'')
      else Inr (swap_groups (\<lambda>b t. swap (swap (swap (swap b t (t + 7)) (t + 1) (t + 6)) (t + 2) (t + 5))
                                       (t + 3) (t + 4)) 8 b 0 (length b)))"


subsection \<open>The order of buffers\<close>

fun lex_cmp :: "buffer \<Rightarrow> buffer \<Rightarrow> int" where
  "lex_cmp [] [] = 0"
| "lex_cmp [] (y # ys) = -1"
| "lex_cmp (x # xs) [] = 1"
| "lex_cmp (x # xs) (y # ys) = (if x = y then lex_cmp xs ys else if x < y then -1 else 1)"

lemma three_way_diff: "x \<noteq> y \<Longrightarrow> three_way (uint x, uint y) = (if x < (y :: byte) then -1 else 1)"
  unfolding three_way_def fst_conv snd_conv word_less_def by (simp add: word_uint_eq_iff)

lemma first_diff_lex:
  "k \<le> min (length e) (length t) \<Longrightarrow>
    three_way (first_diff e t k (min (length e) (length t))) = lex_cmp (drop k e) (drop k t)"
proof (induction "min (length e) (length t) - k" arbitrary: k)
  case 0
  then have "\<not> k < min (length e) (length t)" by simp
  then have f: "first_diff e t k (min (length e) (length t)) = (int (length e), int (length t))"
    by (subst first_diff.simps) (simp only: if_False)
  have "k = length e \<or> k = length t" "k \<le> length e" "k \<le> length t" using 0 by auto
  then have "drop k e = [] \<and> length t - k = length (drop k t) \<or> drop k t = [] \<and> length e - k = length (drop k e)"
    by auto
  then show ?case
    using \<open>k \<le> length e\<close> \<open>k \<le> length t\<close> unfolding f
    by (cases "drop k e"; cases "drop k t") (auto simp: three_way_def)
next
  case (Suc d)
  then have k: "k < length e" "k < length t" by auto
  have d: "drop k e = e ! k # drop (Suc k) e" "drop k t = t ! k # drop (Suc k) t"
    using k by (simp_all add: Cons_nth_drop_Suc)
  have "three_way (first_diff e t (k + 1) (min (length e) (length t))) = lex_cmp (drop (Suc k) e) (drop (Suc k) t)"
    using Suc.hyps(1) [of "k + 1"] Suc.hyps(2) k by simp
  moreover have "first_diff e t k (min (length e) (length t))
      = (if e ! k \<noteq> t ! k then (uint (e ! k), uint (t ! k))
         else first_diff e t (k + 1) (min (length e) (length t)))"
    using k by (subst first_diff.simps) simp
  moreover have "lex_cmp (drop k e) (drop k t)
      = (if e ! k = t ! k then lex_cmp (drop (Suc k) e) (drop (Suc k) t) else if e ! k < t ! k then -1 else 1)"
    unfolding d by (rule lex_cmp.simps)
  ultimately show ?case
    by (cases "e ! k = t ! k") (simp_all only: simp_thms if_True if_False not_True_eq_False three_way_diff)
qed

lemma buf_compare_lex: "buf_compare e t = lex_cmp e t"
  using first_diff_lex [of 0 e t] by (simp add: buf_compare_def)

lemma lex_cmp_order: "lex_cmp a b = (if a = b then 0 else if ord_class.lexordp a b then -1 else 1)"
  by (induction a b rule: lex_cmp.induct) auto

lemma lex_cmp_swap: "lex_cmp b a = - lex_cmp a b"
  by (induction a b rule: lex_cmp.induct) auto

lemma lex_cmp_eq_0: "lex_cmp a b = 0 \<longleftrightarrow> a = b"
  by (induction a b rule: lex_cmp.induct) auto

subsection \<open>Copies\<close>

lemma nth_store:
  "p + length xs \<le> length b \<Longrightarrow> j < length b \<Longrightarrow>
    store_at b p xs ! j = (if p \<le> j \<and> j < p + length xs then xs ! (j - p) else b ! j)"
  by (auto simp: store_at_def nth_append)

lemma store_empty [simp]: "store_at b p [] = b"
  by (simp add: store_at_def)

lemma store_snoc:
  assumes "p + length xs < length b"
  shows "(store_at b p xs)[p + length xs := v] = store_at b p (xs @ [v])"
proof -
  have "drop (p + length xs) b = b ! (p + length xs) # drop (Suc (p + length xs)) b"
    using assms by (simp add: Cons_nth_drop_Suc)
  then show ?thesis using assms by (simp add: store_at_def list_update_append)
qed

lemma store_cons:
  assumes "Suc q + length xs \<le> length b"
  shows "(store_at b (Suc q) xs)[q := v] = store_at b q (v # xs)"
proof -
  have "take (Suc q) b = take q b @ [b ! q]" using assms by (simp add: take_Suc_conv_app_nth)
  then show ?thesis using assms by (simp add: store_at_def list_update_append)
qed

lemma copy_up_store:
  assumes "k \<le> i" "t + i \<le> length e" "n + i \<le> length this"
  shows "copy_up (store_at e t (window this n k)) this t n k i = store_at e t (window this n i)"
  using assms
proof (induction "i - k" arbitrary: k)
  case 0
  then show ?case by (subst copy_up.simps) simp
next
  case (Suc d)
  have "(store_at e t (window this n k))[k + t := this ! (k + n)] = store_at e t (window this n (k + 1))"
    using store_snoc [of t "window this n k" e "this ! (k + n)"] Suc.hyps(2) Suc.prems
    by (simp add: window_snoc add.commute)
  then show ?case using Suc.hyps(1) [of "k + 1"] Suc.hyps(2) Suc.prems
    by (subst copy_up.simps) simp
qed

lemma self_up_store:
  assumes "k \<le> i" "t + i \<le> length b" "n + i \<le> length b" "t \<le> n \<or> n + i \<le> t"
  shows "self_up (store_at b t (window b n k)) t n k i = store_at b t (window b n i)"
  using assms
proof (induction "i - k" arbitrary: k)
  case 0
  then show ?case by (subst self_up.simps) simp
next
  case (Suc d)
  have r: "store_at b t (window b n k) ! (k + n) = b ! (n + k)"
    using Suc.prems Suc.hyps(2) by (subst nth_store) (auto simp: add.commute)
  have "(store_at b t (window b n k))[k + t := b ! (n + k)] = store_at b t (window b n (k + 1))"
    using store_snoc [of t "window b n k" b "b ! (n + k)"] Suc.hyps(2) Suc.prems
    by (simp add: window_snoc add.commute)
  then show ?case using Suc.hyps(1) [of "k + 1"] Suc.hyps(2) Suc.prems
    by (subst self_up.simps) (simp add: r)
qed

lemma self_down_store:
  assumes "t + k + m \<le> length b" "n + k + m \<le> length b" "n \<le> t"
  shows "self_down (store_at b (t + k) (window b (n + k) m)) t n k = store_at b t (window b n (k + m))"
  using assms
proof (induction k arbitrary: m)
  case 0
  then show ?case by simp
next
  case (Suc k)
  have r: "store_at b (t + Suc k) (window b (n + Suc k) m) ! (k + n) = b ! (n + k)"
    using Suc.prems by (subst nth_store) (auto simp: add.commute)
  have w: "b ! (n + k) # window b (n + Suc k) m = window b (n + k) (Suc m)"
    using Suc.prems by (simp add: window_Suc)
  have "(store_at b (t + Suc k) (window b (n + Suc k) m))[k + t := b ! (n + k)]
      = store_at b (t + k) (window b (n + k) (Suc m))"
    using store_cons [of "t + k" "window b (n + Suc k) m" b "b ! (n + k)"] Suc.prems
    unfolding w by (simp add: add.commute)
  then show ?case using Suc.IH [of "Suc m"] Suc.prems by (simp only: self_down.simps r) simp
qed

lemma copy_bounds_range:
  assumes "copy_bounds slen tlen t n r = Inr (Some (t', n', r'))" "0 \<le> tlen"
  shows "0 \<le> t'" "t' \<le> tlen" "0 \<le> n'" "n' < slen" "r' \<le> slen" "t' + (r' - n') \<le> tlen"
    "n' = n" "t' = min t tlen"
  using assms by (auto simp: copy_bounds_def Let_def split: if_splits option.splits)

lemma buf_copy_store:
  assumes "copy_bounds (int (length this)) (int (length e)) t n r = Inr (Some (t', n', r'))"
  shows "buf_copy ta this e t n r
    = Inr (store_at e (nat t') (window this (nat n') (nat (r' - n'))), r' - n')"
proof -
  note b = copy_bounds_range [OF assms]
  have "nat t' + nat (r' - n') \<le> length e" "nat n' + nat (r' - n') \<le> length this" using b by auto
  with copy_up_store [of 0 "nat (r' - n')" "nat t'" e "nat n'" this]
  show ?thesis using assms by (simp add: buf_copy_def Let_def typed_set_def)
qed

lemma buf_copy_self_store:
  assumes "copy_bounds (int (length b)) (int (length b)) t n r = Inr (Some (t', n', r'))"
  shows "buf_copy_self ta b t n r
    = Inr (store_at b (nat t') (window b (nat n') (nat (r' - n'))), r' - n')"
proof -
  note bd = copy_bounds_range [OF assms]
  have l: "nat t' + nat (r' - n') \<le> length b" "nat n' + nat (r' - n') \<le> length b" using bd by auto
  show ?thesis
  proof (cases "n' < t' \<and> t' < r'")
    case True
    then have "nat n' \<le> nat t'" by (intro nat_mono) simp
    with self_down_store [of "nat t'" "nat (r' - n')" 0 b "nat n'"] l True
    show ?thesis using assms by (simp add: buf_copy_self_def Let_def)
  next
    case False
    then have "nat t' \<le> nat n' \<or> nat n' + nat (r' - n') \<le> nat t'" using bd by auto
    then show ?thesis
      using self_up_store [of 0 "nat (r' - n')" "nat t'" b "nat n'"] l assms False
      by (auto simp: buf_copy_self_def Let_def typed_set_def)
  qed
qed

subsection \<open>Searching\<close>

definition occurs :: "buffer \<Rightarrow> buffer \<Rightarrow> nat \<Rightarrow> bool" where
  "occurs e t k \<longleftrightarrow> k + length t \<le> length e \<and> window e k (length t) = t"

definition first_from :: "buffer \<Rightarrow> buffer \<Rightarrow> nat \<Rightarrow> nat option \<Rightarrow> bool" where
  "first_from e t i r \<longleftrightarrow>
     (case r of None \<Rightarrow> (\<forall>k\<ge>i. \<not> occurs e t k)
      | Some k \<Rightarrow> i \<le> k \<and> occurs e t k \<and> (\<forall>j. i \<le> j \<and> j < k \<longrightarrow> \<not> occurs e t j))"

definition last_upto :: "buffer \<Rightarrow> buffer \<Rightarrow> nat \<Rightarrow> nat option \<Rightarrow> bool" where
  "last_upto e t i r \<longleftrightarrow>
     (case r of None \<Rightarrow> (\<forall>k\<le>i. \<not> occurs e t k)
      | Some k \<Rightarrow> k \<le> i \<and> occurs e t k \<and> (\<forall>j. k < j \<and> j \<le> i \<longrightarrow> \<not> occurs e t j))"

lemma first_from_skip: "first_from e t (Suc i) r \<Longrightarrow> \<not> occurs e t i \<Longrightarrow> first_from e t i r"
  unfolding first_from_def
  by (auto split: option.splits simp: Suc_le_eq)
     (metis le_neq_implies_less less_Suc_eq_le not_less_eq_eq Suc_le_eq)+

lemma occurs_prefix:
  assumes "occurs e t c" "c + j < length e" "j < length t"
  shows "e ! (c + j) = t ! j"
proof -
  have "window e c (length t) ! j = t ! j" using assms(1) by (simp add: occurs_def)
  then show ?thesis using assms by (simp add: window_def occurs_def)
qed

text \<open>The invariant: a match under way covers a non-empty proper prefix of the pattern.\<close>

definition up_inv :: "buffer \<Rightarrow> buffer \<Rightarrow> nat option \<Rightarrow> nat \<Rightarrow> bool" where
  "up_inv e t c i \<longleftrightarrow>
     (case c of None \<Rightarrow> True
      | Some c \<Rightarrow> c \<le> i \<and> i \<le> length e \<and> i - c < length t \<and> window e c (i - c) = take (i - c) t)"

lemma index_up_first:
  assumes "t \<noteq> []" "up_inv e t c i"
  shows "first_from e t (case c of None \<Rightarrow> i | Some c \<Rightarrow> c) (index_up e t c i)"
  using assms
proof (induction e t c i rule: index_up.induct)
  case (1 e t c i)
  define s where "s = (case c of None \<Rightarrow> i | Some c \<Rightarrow> c)"
  have si: "s \<le> i" and pre: "i - s < length t" "window e s (i - s) = take (i - s) t"
    using 1(5) 1(4) by (auto simp: up_inv_def s_def split: option.splits)
  have sub: "(case c of None \<Rightarrow> 0 | Some c \<Rightarrow> i - c) = i - s" by (auto simp: s_def split: option.splits)
  show ?case
  proof (cases "i < length e")
    case False
    have "i = s \<or> i \<le> length e" using 1(5) by (auto simp: up_inv_def s_def split: option.splits)
    then have "length e < s + length t" using False si pre(1) by linarith
    then have "\<not> occurs e t k" if "s \<le> k" for k
      using that by (simp add: occurs_def)
    then show ?thesis
      using False by (subst index_up.simps) (simp add: first_from_def s_def)
  next
    case i: True
    show ?thesis
    proof (cases "e ! i = t ! (i - s)")
      case True
      have w: "window e s (Suc i - s) = take (Suc i - s) t"
        using pre si i True by (simp add: Suc_diff_le window_snoc take_Suc_conv_app_nth)
      show ?thesis
      proof (cases "i - s + 1 = length t")
        case full: True
        then have "occurs e t s" using w si i by (simp add: occurs_def Suc_diff_le)
        moreover have "index_up e t c i = Some s"
          using i True full by (subst index_up.simps) (simp add: sub, simp add: s_def split: option.splits)
        ultimately show ?thesis by (auto simp: first_from_def s_def [symmetric])
      next
        case more: False
        have "up_inv e t (Some s) (i + 1)" using w si i pre(1) more by (auto simp: up_inv_def)
        moreover have "e ! i = t ! (case c of None \<Rightarrow> 0 | Some c \<Rightarrow> i - c)" unfolding sub by (rule True)
        ultimately have "first_from e t s (index_up e t (Some s) (i + 1))"
          using 1(1) [OF i _ s_def more si 1(4)] by simp
        moreover have "index_up e t c i = index_up e t (Some s) (i + 1)"
          using i True more si
          by (subst index_up.simps) (simp add: sub s_def [symmetric])
        ultimately show ?thesis by (simp add: s_def [symmetric])
      qed
    next
      case miss: False
      have no: "\<not> occurs e t s"
        using occurs_prefix [of e t s "i - s"] miss si i pre(1) by auto
      show ?thesis
      proof (cases c)
        case None
        have "first_from e t (i + 1) (index_up e t None (i + 1))"
          using 1(2) 1(4) i miss None by (simp add: sub up_inv_def s_def)
        moreover have "index_up e t c i = index_up e t None (i + 1)"
          using i miss None by (subst index_up.simps) (simp add: s_def)
        ultimately show ?thesis using first_from_skip [of e t i] no None by (simp add: s_def)
      next
        case (Some c0)
        have "first_from e t (c0 + 1) (index_up e t None (c0 + 1))"
          using 1(3) [of c0] 1(4) i miss Some si by (simp add: sub up_inv_def s_def)
        moreover have "index_up e t c i = index_up e t None (c0 + 1)"
          using i miss Some si by (subst index_up.simps) (simp add: s_def)
        ultimately show ?thesis using first_from_skip [of e t c0] no Some by (simp add: s_def)
      qed
    qed
  qed
qed

lemma match_at_window:
  "p + k = length t \<Longrightarrow> match_at e t i p k \<longleftrightarrow>
    (k = 0 \<or> i + length t \<le> length e) \<and> window e (i + p) k = drop p t"
proof (induction k arbitrary: p)
  case 0
  then show ?case by simp
next
  case (Suc k)
  have d: "drop p t = t ! p # drop (Suc p) t" using Suc.prems by (simp add: Cons_nth_drop_Suc)
  show ?case
  proof (cases "i + p < length e")
    case True
    then show ?thesis using Suc.IH [of "p + 1"] Suc.prems
      by (cases k) (auto simp: d window_Suc)
  next
    case False
    then show ?thesis using Suc.prems by auto
  qed
qed

lemma match_at_occurs: "t \<noteq> [] \<Longrightarrow> match_at e t i 0 (length t) \<longleftrightarrow> occurs e t i"
  by (simp add: match_at_window occurs_def)

lemma index_down_last: "t \<noteq> [] \<Longrightarrow> last_upto e t i (index_down e t i)"
proof (induction i)
  case 0
  then show ?case by (auto simp: last_upto_def match_at_occurs)
next
  case (Suc i)
  show ?case
  proof (cases "occurs e t (Suc i)")
    case True
    then show ?thesis using Suc(2) by (auto simp: last_upto_def match_at_occurs)
  next
    case False
    then show ?thesis using Suc
      by (auto simp: last_upto_def match_at_occurs le_Suc_eq split: option.splits)
  qed
qed

lemma last_upto_bound:
  assumes "last_upto e t (length e - length t) r" "t \<noteq> []" "length e < n + length t"
  shows "last_upto e t n r"
proof -
  have "k \<le> length e - length t" if "occurs e t k" for k using that by (auto simp: occurs_def)
  moreover have "length e - length t \<le> n" using assms(3) by simp
  ultimately show ?thesis using assms(1) unfolding last_upto_def
    by (auto split: option.splits dest: le_trans)
qed

subsection \<open>Swaps as reversals of windows\<close>

lemma length_swap [simp]: "length (swap b i j) = length b"
  by (simp add: swap_def Let_def)

lemma nth_swap:
  "i < length b \<Longrightarrow> j < length b \<Longrightarrow> k < length b \<Longrightarrow>
    swap b i j ! k = (if k = j then b ! i else if k = i then b ! j else b ! k)"
  by (simp add: swap_def Let_def nth_list_update)

lemma nth_window: "i < n \<Longrightarrow> p + n \<le> length b \<Longrightarrow> window b p n ! i = b ! (p + i)"
  by (simp add: window_def)

lemma nth_rev_window: "i < n \<Longrightarrow> p + n \<le> length b \<Longrightarrow> rev (window b p n) ! i = b ! (p + (n - Suc i))"
  by (simp add: rev_nth nth_window)

lemma swap_2: "t + 2 \<le> length b \<Longrightarrow> swap b t (t + 1) = store_at b t (rev (window b t 2))"
  by (rule nth_equalityI) (auto simp: nth_swap nth_store nth_rev_window)

lemma swap_4:
  "t + 4 \<le> length b \<Longrightarrow>
    swap (swap b t (t + 3)) (t + 1) (t + 2) = store_at b t (rev (window b t 4))"
  by (rule nth_equalityI) (auto simp: nth_swap nth_store nth_rev_window)


lemma swap_8:
  assumes "t + 8 \<le> length b"
  shows "swap (swap (swap (swap b t (t + 7)) (t + 1) (t + 6)) (t + 2) (t + 5)) (t + 3) (t + 4)
    = store_at b t (rev (window b t 8))"
proof (rule nth_equalityI)
  show "length (swap (swap (swap (swap b t (t + 7)) (t + 1) (t + 6)) (t + 2) (t + 5)) (t + 3) (t + 4))
    = length (store_at b t (rev (window b t 8)))" using assms by simp
  fix k assume k: "k < length (swap (swap (swap (swap b t (t + 7)) (t + 1) (t + 6)) (t + 2) (t + 5)) (t + 3) (t + 4))"
  consider "k < t \<or> t + 8 \<le> k" | i where "i < 8" "k = t + i"
    by (metis add_diff_inverse_nat add_less_cancel_left not_le)
  then show "swap (swap (swap (swap b t (t + 7)) (t + 1) (t + 6)) (t + 2) (t + 5)) (t + 3) (t + 4) ! k
    = store_at b t (rev (window b t 8)) ! k"
  proof cases
    case 1
    then show ?thesis using assms k by (auto simp: nth_swap nth_store)
  next
    case (2 i)
    then have "i \<in> {0, 1, 2, 3, 4, 5, 6, 7}" by auto
    then show ?thesis using assms unfolding 2(2)
      by (auto simp: nth_swap nth_store nth_rev_window)
  qed
qed

definition reverses :: "nat \<Rightarrow> (buffer \<Rightarrow> nat \<Rightarrow> buffer) \<Rightarrow> bool" where
  "reverses w f \<longleftrightarrow> 0 < w \<and> (\<forall>b t. t + w \<le> length b \<longrightarrow> f b t = store_at b t (rev (window b t w)))"

lemma reverses_swaps:
  "reverses 2 (\<lambda>b t. swap b t (t + 1))"
  "reverses 4 (\<lambda>b t. swap (swap b t (t + 3)) (t + 1) (t + 2))"
  "reverses 8 (\<lambda>b t. swap (swap (swap (swap b t (t + 7)) (t + 1) (t + 6)) (t + 2) (t + 5)) (t + 3) (t + 4))"
  unfolding reverses_def using swap_2 swap_4 swap_8 by auto

text \<open>What a run over all groups leaves in each group.\<close>

lemma swap_groups_windows:
  assumes f: "reverses w f" and len: "length b = (j + m) * w"
    and fin: "\<forall>i<j. window b (i * w) w = rev (window b0 (i * w) w)"
    and todo: "\<forall>i. j \<le> i \<and> i < j + m \<longrightarrow> window b (i * w) w = window b0 (i * w) w"
  shows "length (swap_groups f w b (j * w) (length b)) = length b \<and>
    (\<forall>i<j + m. window (swap_groups f w b (j * w) (length b)) (i * w) w = rev (window b0 (i * w) w))"
  using len fin todo
proof (induction m arbitrary: j b)
  case 0
  then show ?case by (subst (1 2) swap_groups.simps) simp
next
  case (Suc m)
  have w: "0 < w" using f by (simp add: reverses_def)
  have l: "j * w + w \<le> length b" using Suc.prems(1) by simp
  define b' where "b' = store_at b (j * w) (rev (window b (j * w) w))"
  have lb: "length b' = length b" using l by (simp add: b'_def)
  have other: "window b' (i * w) w = window b (i * w) w" if "i \<noteq> j" for i
  proof -
    have "i * w + w \<le> j * w \<or> j * w + w \<le> i * w"
      using that by (metis add.commute mult_Suc mult_le_mono1 not_less_eq_eq less_or_eq_imp_le linorder_neqE_nat Suc_leI)
    then show ?thesis unfolding window_def b'_def
      using take_store_other [of "j * w" "rev (take w (drop (j * w) b))" b "i * w" w] l by simp
  qed
  have cur: "window b' (j * w) w = rev (window b0 (j * w) w)"
    using take_store [of "j * w" "rev (window b (j * w) w)" b] l Suc.prems(3)
    by (simp add: window_def b'_def)
  have step: "swap_groups f w b (j * w) (length b) = swap_groups f w b' (Suc j * w) (length b')"
    using f l w by (subst swap_groups.simps) (simp add: reverses_def b'_def add.commute)
  have "length b' = (Suc j + m) * w" using lb Suc.prems(1) by simp
  moreover have "\<forall>i<Suc j. window b' (i * w) w = rev (window b0 (i * w) w)"
    using cur other Suc.prems(2) by (auto simp: less_Suc_eq)
  moreover have "\<forall>i. Suc j \<le> i \<and> i < Suc j + m \<longrightarrow> window b' (i * w) w = window b0 (i * w) w"
    using other Suc.prems(3) by auto
  ultimately show ?case using Suc.IH [of b' "Suc j"] unfolding step by (simp add: lb)
qed

lemma swap_all_windows:
  assumes "reverses w f" "length b mod w = 0"
  shows "length (swap_groups f w b 0 (length b)) = length b"
    and "p mod w = 0 \<Longrightarrow> p + w \<le> length b \<Longrightarrow>
      window (swap_groups f w b 0 (length b)) p w = rev (window b p w)"
proof -
  obtain m where m: "length b = m * w" using assms(2) by (metis mod_0_imp_dvd dvdE mult.commute)
  from swap_groups_windows [OF assms(1), of b 0 m b] m
  have *: "length (swap_groups f w b 0 (length b)) = length b"
    "\<forall>i<m. window (swap_groups f w b 0 (length b)) (i * w) w = rev (window b (i * w) w)" by auto
  show "length (swap_groups f w b 0 (length b)) = length b" by (rule *)
  assume "p mod w = 0" "p + w \<le> length b"
  moreover from this obtain i where "p = i * w" by (metis mod_0_imp_dvd dvdE mult.commute)
  moreover have "i < m" if "i * w + w \<le> m * w" using that assms(1)
    by (metis add.commute mult_Suc mult_le_cancel2 Suc_le_eq reverses_def)
  ultimately show "window (swap_groups f w b 0 (length b)) p w = rev (window b p w)"
    using * m by auto
qed

lemma windows_eqI:
  assumes "length b = length c" "0 < w" "length b mod w = 0"
    and "\<And>p. p mod w = 0 \<Longrightarrow> p + w \<le> length b \<Longrightarrow> window b p w = window c p w"
  shows "b = c"
proof (rule nth_equalityI)
  show "length b = length c" by (rule assms)
  fix i assume i: "i < length b"
  define p where "p = i div w * w"
  have "p mod w = 0" by (simp add: p_def)
  obtain m where m: "length b = m * w" using assms(3) by (metis mod_0_imp_dvd dvdE mult.commute)
  then have "i div w < m" using i assms(2) by (simp add: less_mult_imp_div_less)
  then have "p + w \<le> length b" using mult_le_mono1 [of "Suc (i div w)" m w] by (simp add: p_def m)
  have "p + i mod w = i" by (simp add: p_def)
  moreover have "window b p w ! (i mod w) = window c p w ! (i mod w)"
    using assms(4) [OF \<open>p mod w = 0\<close> \<open>p + w \<le> length b\<close>] by simp
  ultimately show "b ! i = c ! i"
    using \<open>p + w \<le> length b\<close> assms(1,2) by (simp add: nth_window)
qed

lemma swap_groups_twice:
  assumes "reverses w f" "length b mod w = 0"
  shows "swap_groups f w (swap_groups f w b 0 (length b)) 0 (length b) = b"
proof -
  let ?c = "swap_groups f w b 0 (length b)"
  have c: "length ?c = length b" using swap_all_windows [OF assms] by simp
  show ?thesis
  proof (rule windows_eqI)
    show "length (swap_groups f w ?c 0 (length b)) = length b"
      using swap_all_windows(1) [of w f ?c] assms c by simp
    show "0 < w" using assms(1) by (simp add: reverses_def)
    show "length (swap_groups f w ?c 0 (length b)) mod w = 0"
      using swap_all_windows(1) [of w f ?c] assms c by simp
    fix p assume p: "p mod w = 0" "p + w \<le> length (swap_groups f w ?c 0 (length b))"
    then have "p + w \<le> length b" using swap_all_windows(1) [of w f ?c] assms c by simp
    then show "window (swap_groups f w ?c 0 (length b)) p w = window b p w"
      using swap_all_windows(2) [of w f ?c p] swap_all_windows(2) [OF assms p(1)] assms c p(1) by simp
  qed
qed


subsection \<open>Properties\<close>

text \<open>
  Property C11. \<open>Buffer.compare\<close> is the lexicographic order of the byte strings: it gives 0 exactly
  on equal buffers, -1 exactly below and 1 above, and \<open>equals\<close> is equality.
\<close>

theorem compare_is_lexicographic:
  "buf_compare a b = (if a = b then 0 else if ord_class.lexordp a b then -1 else 1)
    \<and> buf_compare b a = - buf_compare a b \<and> (buf_equals a b \<longleftrightarrow> a = b)"
  by (simp add: buf_compare_lex lex_cmp_order [symmetric] lex_cmp_swap [of b a] lex_cmp_eq_0 buf_equals_def)

text \<open>
  Property C12. \<open>copy\<close> within one buffer: whatever the overlap, the target window ends up with the
  bytes the source window had before the call, every other byte is unchanged, and the target window
  lies inside the buffer. The loops overwrite what they still have to read in neither direction, and
  the fast path for 1000 bytes and more agrees with them.
\<close>

theorem copy_is_memmove:
  assumes "copy_bounds (int (length b)) (int (length b)) t n r = Inr (Some (t', n', r'))"
  shows "buf_copy_self ta b t n r
      = Inr (store_at b (nat t') (window b (nat n') (nat (r' - n'))), r' - n')
    \<and> t' + (r' - n') \<le> int (length b) \<and> 0 \<le> t' \<and> r' \<le> int (length b)"
  using buf_copy_self_store [OF assms] copy_bounds_range [OF assms] by simp

theorem copy_is_memmove_witness:
  "buf_copy_self True [1, 2, 3, 4, 5] 1 0 (Some 4) = Inr ([1, 1, 2, 3, 4], 4)"
  using copy_is_memmove [of "[1, 2, 3, 4, 5]" 1 0 "Some 4" 1 0 4 True]
  by (simp add: copy_bounds_def Let_def store_at_def window_def)

text \<open>
  Property C13. Searching: the forward search returns the first occurrence of the pattern at or after
  the start (its restarts after a partial match skip none), the backward search the last occurrence
  at or before it, and both report the absence of one.
\<close>

theorem index_of_finds_first_and_last:
  assumes "t \<noteq> []"
  shows "first_from e t n (array_index_of e t n True) \<and> last_upto e t n (array_index_of e t n False)"
proof
  show "first_from e t n (array_index_of e t n True)"
    using index_up_first [OF assms, of e None n] by (simp add: array_index_of_def up_inv_def)
  have "last_upto e t n None" if "length e < length t"
    using that by (simp add: last_upto_def occurs_def)
  then show "last_upto e t n (array_index_of e t n False)"
    using index_down_last [OF assms, of e] last_upto_bound [OF _ assms]
    by (simp add: array_index_of_def)
qed

theorem index_of_finds_first_and_last_witness:
  "first_from [1, 1, 2, 1, 1, 2] [1, 2] 0 (array_index_of [1, 1, 2, 1, 1, 2] [1, 2] 0 True)"
  using index_of_finds_first_and_last [of "[1, 2]" "[1, 1, 2, 1, 1, 2]" 0] by simp

text \<open>
  Property C14. Swapping converts between the byte orders: after \<open>swap32\<close> a big-endian read of an
  aligned word gives what the little-endian read gave before, and swapping again restores the buffer;
  a length that is not a multiple is refused.
\<close>

theorem swap32_changes_endianness:
  assumes "swap32 b = Inr c"
  shows "swap32 c = Inr b \<and>
    (\<forall>p. p mod 4 = 0 \<and> in_range b p 4 \<longrightarrow> readUInt32BE (Typed c) (int p) False = readUInt32LE (Typed b) (int p) False)"
proof -
  let ?f = "\<lambda>b t. swap (swap b t (t + 3)) (t + 1) (t + 2)"
  have m: "length b mod 4 = 0" and c: "c = swap_groups ?f 4 b 0 (length b)"
    using assms by (simp_all add: swap32_def split: if_splits)
  note w = swap_all_windows [OF reverses_swaps(2) m, folded c]
  have "swap32 c = Inr b"
    using w(1) m swap_groups_twice [OF reverses_swaps(2) m] by (simp add: swap32_def c)
  moreover have "readUInt32BE (Typed c) (int p) False = readUInt32LE (Typed b) (int p) False"
    if "p mod 4 = 0" "in_range b p 4" for p
  proof -
    have "in_range c p 4" using that(2) w(1) by (simp add: in_range_def)
    moreover have "window c p 4 = rev (window b p 4)" using w(2) [of p] that by (simp add: in_range_def)
    ultimately show ?thesis using that(2) by (simp add: read_fixed4 [of _ _ True, unfolded as_store_typed])
  qed
  ultimately show ?thesis by simp
qed

theorem swap32_changes_endianness_witness:
  "swap32 [1, 2, 3, 4] = Inr [4, 3, 2, 1] \<and> swap32 [4, 3, 2, 1] = Inr [1, 2, 3, 4]"
proof -
  have s: "swap32 [1, 2, 3, 4] = Inr [4, 3, 2, 1]"
    by (simp add: swap32_def swap_groups.simps swap_def Let_def numeral_eq_Suc)
  show ?thesis using swap32_changes_endianness [OF s] s by simp
qed

end
