(* ===== verification/BufEnc.thy ===== *)
theory BufEnc
  imports BufOps
begin

section \<open>Strings and buffers (module 54 of swagger-ui-bundle.js)\<close>

text \<open>
  The encodings of \<open>Buffer.from\<close>, \<open>write\<close>, \<open>toString\<close> and \<open>byteLength\<close>: \<open>hex\<close>, \<open>utf8\<close>, \<open>ascii\<close>,
  \<open>latin1\<close>/\<open>binary\<close>, \<open>base64\<close> and \<open>ucs2\<close>/\<open>utf16le\<close>, and their dispatch on the encoding's name.
\<close>

subsection \<open>Names of encodings\<close>

datatype encoding = Hex | UTF8 | Ascii | Latin1 | Base64E | Ucs2

definition encoding_names :: "(jsstr \<times> encoding) list" where
  "encoding_names =
     [(js ''hex'', Hex), (js ''utf8'', UTF8), (js ''utf-8'', UTF8), (js ''ascii'', Ascii),
      (js ''latin1'', Latin1), (js ''binary'', Latin1), (js ''base64'', Base64E), (js ''ucs2'', Ucs2),
      (js ''ucs-2'', Ucs2), (js ''utf16le'', Ucs2), (js ''utf-16le'', Ucs2)]"

text \<open>\<open>toLowerCase\<close> on the letters that can matter for a comparison with these names.\<close>

definition lower_unit :: "unit16 \<Rightarrow> unit16" where
  "lower_unit c = (if 65 \<le> uint c \<and> uint c \<le> 90 then c + 32 else c)"

definition js_lower :: "jsstr \<Rightarrow> jsstr" where
  "js_lower s = map lower_unit s"

text \<open>The \<open>switch\<close> loops: the name as given, then once more in lower case.\<close>

definition find_encoding :: "jsstr \<Rightarrow> encoding option" where
  "find_encoding r =
     (case map_of encoding_names r of Some e \<Rightarrow> Some e | None \<Rightarrow> map_of encoding_names (js_lower r))"

definition isEncoding :: "jsstr \<Rightarrow> bool" where
  "isEncoding r \<longleftrightarrow> map_of encoding_names (js_lower r) \<noteq> None"

subsection \<open>Strings to bytes\<close>

text \<open>\<open>B(e, t, n, r)\<close>: bytes \<open>e\<close> into \<open>t\<close> at \<open>n\<close>, at most \<open>r\<close> of them; the result and the count.\<close>

function blit :: "buffer \<Rightarrow> buffer \<Rightarrow> int \<Rightarrow> int \<Rightarrow> nat \<Rightarrow> buffer \<times> nat" where
  "blit e t n r k =
     (if int k < r \<and> \<not> (int (length t) \<le> int k + n \<or> length e \<le> k)
      then blit e (put8 t (int k + n) (uint (e ! k))) n r (k + 1)
      else (t, k))"
  by pat_completeness auto
termination by (relation "measure (\<lambda>(e, t, n, r, k). length e - k)") auto

declare blit.simps [simp del]

definition utf8_bytes_for :: "jsstr \<Rightarrow> int \<Rightarrow> buffer" where
  "utf8_bytes_for s budget =
     (case utf8_to_bytes s (Some budget) of Inl e \<Rightarrow> [] | Inr bs \<Rightarrow> map of_int bs)"

definition ascii_bytes :: "jsstr \<Rightarrow> buffer" where
  "ascii_bytes s = map (\<lambda>c. of_int (js_and 255 (uint c))) s"

text \<open>\<open>a < e.length && !((t -= 2) < 0)\<close>: low byte, then high byte.\<close>

fun utf16le_bytes :: "jsstr \<Rightarrow> int \<Rightarrow> buffer" where
  "utf16le_bytes [] t = []"
| "utf16le_bytes (c # s) t =
     (if t - 2 < 0 then []
      else of_int (uint c mod 256) # of_int (js_sar (uint c) 8) # utf16le_bytes s (t - 2))"

text \<open>\<open>z\<close>: base64 text is trimmed, cleaned, and padded before it is decoded.\<close>

definition js_space :: "unit16 \<Rightarrow> bool" where
  "js_space c \<longleftrightarrow> c \<in> {9, 10, 11, 12, 13, 32, 0xA0, 0x1680, 0x2000, 0x2001, 0x2002, 0x2003, 0x2004,
     0x2005, 0x2006, 0x2007, 0x2008, 0x2009, 0x200A, 0x2028, 0x2029, 0x202F, 0x205F, 0x3000, 0xFEFF}"

definition js_trim :: "jsstr \<Rightarrow> jsstr" where
  "js_trim s = rev (dropWhile js_space (rev (dropWhile js_space s)))"

text \<open>
  The complement of the class of \<open>U\<close>, \<open>/[^+\/0-9A-Za-z-_]/g\<close>. The \<open>-\<close> after \<open>z\<close> is a literal.
\<close>

definition b64_class :: "unit16 \<Rightarrow> bool" where
  "b64_class c \<longleftrightarrow> c = 43 \<or> c = 47 \<or> 48 \<le> c \<and> c \<le> 57 \<or> 65 \<le> c \<and> c \<le> 90 \<or> 97 \<le> c \<and> c \<le> 122
     \<or> c = 45 \<or> c = 95"

definition b64_clean :: "jsstr \<Rightarrow> jsstr" where
  "b64_clean s =
     (let e = filter b64_class (js_trim s)
      in if length e < 2 then [] else e @ replicate ((4 - length e mod 4) mod 4) b64_pad)"

definition base64_to_bytes :: "jsstr \<Rightarrow> b64_error + buffer" where
  "base64_to_bytes s = to_byte_array (b64_clean s)"

subsection \<open>Hexadecimal\<close>

definition hex_digit :: "unit16 \<Rightarrow> int option" where
  "hex_digit c =
     (let n = uint c
      in if 48 \<le> n \<and> n \<le> 57 then Some (n - 48)
         else if 65 \<le> n \<and> n \<le> 70 then Some (n - 55)
         else if 97 \<le> n \<and> n \<le> 102 then Some (n - 87) else None)"

fun hex_prefix :: "jsstr \<Rightarrow> int option \<Rightarrow> int option" where
  "hex_prefix [] acc = acc"
| "hex_prefix (c # s) acc =
     (case hex_digit c of None \<Rightarrow> acc
      | Some d \<Rightarrow> hex_prefix s (Some (16 * (case acc of None \<Rightarrow> 0 | Some a \<Rightarrow> a) + d)))"

text \<open>\<open>parseInt(s, 16)\<close>: leading space, a sign, \<open>0x\<close>, then the longest run of digits.\<close>

definition parse_int16 :: "jsstr \<Rightarrow> int option" where
  "parse_int16 s =
     (let s = dropWhile js_space s;
          neg = (s \<noteq> [] \<and> hd s = 45);
          s = (if s \<noteq> [] \<and> (hd s = 45 \<or> hd s = 43) then List.tl s else s);
          s = (if take 2 s = js ''0x'' \<or> take 2 s = js ''0X'' then drop 2 s else s)
      in map_option (\<lambda>n. if neg then - n else n) (hex_prefix s None))"

function hex_write_loop :: "buffer \<Rightarrow> jsstr \<Rightarrow> int \<Rightarrow> int \<Rightarrow> nat \<Rightarrow> buffer \<times> nat" where
  "hex_write_loop e t n r k =
     (if int k < r then
        (case parse_int16 (take 2 (drop (2 * k) t)) of
           None \<Rightarrow> (e, k)
         | Some u \<Rightarrow> hex_write_loop (put8 e (n + int k) u) t n r (k + 1))
      else (e, k))"
  by pat_completeness auto
termination by (relation "measure (\<lambda>(e, t, n, r, k). nat (r - int k))") auto

declare hex_write_loop.simps [simp del]

text \<open>\<open>y(e, t, n, r)\<close>; \<open>r\<close> is 0 or absent (\<open>None\<close>) for the whole rest.\<close>

definition hex_write :: "buffer \<Rightarrow> jsstr \<Rightarrow> int \<Rightarrow> int option \<Rightarrow> js_error + buffer \<times> nat" where
  "hex_write e t n r =
     (let left = int (length e) - n;
          r = (case r of None \<Rightarrow> left | Some r \<Rightarrow> if r = 0 then left else if left < r then left else r)
      in if length t mod 2 \<noteq> 0 then Inl (TypeError ''Invalid hex string'')
         else
           let r = (if int (length t div 2) < r then int (length t div 2) else r)
           in Inr (hex_write_loop e t n r 0))"

definition hex_char :: "int \<Rightarrow> unit16" where
  "hex_char d = of_int (if d < 10 then 48 + d else 87 + d)"

text \<open>\<open>q\<close>: two digits, the first of which is a literal 0 below 16.\<close>

definition to_hex :: "byte \<Rightarrow> jsstr" where
  "to_hex b =
     (if uint b < 16 then [48, hex_char (uint b)] else [hex_char (uint b div 16), hex_char (uint b mod 16)])"

subsection \<open>Bytes to strings\<close>

definition hex_slice :: "buffer \<Rightarrow> nat \<Rightarrow> nat \<Rightarrow> jsstr" where
  "hex_slice e t n =
     (let n = (if n = 0 \<or> length e < n then length e else n)
      in concat (map to_hex (take (n - t) (drop t e))))"

definition ascii_slice :: "buffer \<Rightarrow> nat \<Rightarrow> nat \<Rightarrow> jsstr" where
  "ascii_slice e t n =
     map (\<lambda>b. of_int (js_and 127 (uint b))) (take (min (length e) n - t) (drop t e))"

definition latin1_slice :: "buffer \<Rightarrow> nat \<Rightarrow> nat \<Rightarrow> jsstr" where
  "latin1_slice e t n = map (\<lambda>b. of_int (uint b)) (take (min (length e) n - t) (drop t e))"

definition base64_slice :: "buffer \<Rightarrow> nat \<Rightarrow> nat \<Rightarrow> jsstr" where
  "base64_slice e t n =
     (if t = 0 \<and> n = length e then from_byte_array e
      else from_byte_array (buf_slice e (int t) (Some (int n))))"

text \<open>\<open>fromCharCode(r[i] + 256 * r[i + 1])\<close>; with \<open>undefined\<close> the code is \<open>NaN\<close>, which gives \<open>\\0\<close>.\<close>

fun utf16le_units :: "buffer \<Rightarrow> jsstr" where
  "utf16le_units (a # b # r) = of_int (uint a + 256 * uint b) # utf16le_units r"
| "utf16le_units [a] = [0]"
| "utf16le_units [] = []"

definition utf16le_slice :: "buffer \<Rightarrow> nat \<Rightarrow> nat \<Rightarrow> jsstr" where
  "utf16le_slice e t n = utf16le_units (buf_slice e (int t) (Some (int n)))"

definition slice_by :: "encoding \<Rightarrow> buffer \<Rightarrow> nat \<Rightarrow> nat \<Rightarrow> jsstr" where
  "slice_by c e t n =
     (case c of Hex \<Rightarrow> hex_slice e t n | UTF8 \<Rightarrow> utf8_slice e t n | Ascii \<Rightarrow> ascii_slice e t n
      | Latin1 \<Rightarrow> latin1_slice e t n | Base64E \<Rightarrow> base64_slice e t n | Ucs2 \<Rightarrow> utf16le_slice e t n)"

text \<open>\<open>toString(e, t, n)\<close> with its arguments: the encoding's name and the bounds.\<close>

definition buf_to_string ::
  "buffer \<Rightarrow> jsstr option \<Rightarrow> int option \<Rightarrow> int option \<Rightarrow> js_error + jsstr" where
  "buf_to_string this e t n =
     (let len = int (length this);
          t = (case t of None \<Rightarrow> 0 | Some t \<Rightarrow> if t < 0 then 0 else t)
      in if len = 0 \<or> len < t then Inr []
         else
           let n = (case n of None \<Rightarrow> len | Some n \<Rightarrow> if len < n then len else n)
           in if n \<le> 0 then Inr []
              else if to_uint32 n \<le> to_uint32 t then Inr []
              else
                let e = (case e of None \<Rightarrow> js ''utf8'' | Some e \<Rightarrow> if e = [] then js ''utf8'' else e)
                in (case find_encoding e of
                      None \<Rightarrow> Inl (TypeError ''Unknown encoding'')
                    | Some c \<Rightarrow> Inr (slice_by c this (nat (to_uint32 t)) (nat (to_uint32 n)))))"

subsection \<open>\<open>byteLength\<close>, \<open>write\<close> and \<open>Buffer.from\<close>\<close>

definition utf8_length :: "jsstr \<Rightarrow> int" where
  "utf8_length s = (case utf8_to_bytes s None of Inl e \<Rightarrow> 0 | Inr bs \<Rightarrow> int (length bs))"

datatype enc_error = Js js_error | B64 b64_error

definition byte_length :: "jsstr \<Rightarrow> jsstr \<Rightarrow> enc_error + int" where
  "byte_length s e =
     (if s = [] then Inr 0
      else case find_encoding e of
          Some Ascii \<Rightarrow> Inr (int (length s))
        | Some Latin1 \<Rightarrow> Inr (int (length s))
        | Some UTF8 \<Rightarrow> Inr (utf8_length s)
        | Some Ucs2 \<Rightarrow> Inr (2 * int (length s))
        | Some Hex \<Rightarrow> Inr (js_shr (int (length s)) 1)
        | Some Base64E \<Rightarrow>
            (case base64_to_bytes s of Inl x \<Rightarrow> Inl (B64 x) | Inr b \<Rightarrow> Inr (int (length b)))
        | None \<Rightarrow> Inr (utf8_length s))"

text \<open>
  \<open>this.write(e, t, n, r)\<close> with offset \<open>t\<close>, length \<open>n\<close> (\<open>None\<close> for undefined) and encoding \<open>r\<close>, after
  the shuffling of the optional arguments.
\<close>

definition buf_write ::
  "buffer \<Rightarrow> jsstr \<Rightarrow> int \<Rightarrow> int option \<Rightarrow> jsstr \<Rightarrow> enc_error + buffer \<times> nat" where
  "buf_write this e t n r =
     (let t = js_or t 0; left = int (length this) - t;
          n = (case n of None \<Rightarrow> left | Some n \<Rightarrow> let n = js_or n 0 in if left < n then left else n)
      in if e \<noteq> [] \<and> (n < 0 \<or> t < 0) \<or> int (length this) < t
           then Inl (Js (RangeError ''Attempt to write outside buffer bounds''))
         else
           let r = (if r = [] then js ''utf8'' else r)
           in (case find_encoding r of
                 None \<Rightarrow> Inl (Js (TypeError ''Unknown encoding''))
               | Some Hex \<Rightarrow>
                   (case hex_write this e t (Some n) of Inl x \<Rightarrow> Inl (Js x) | Inr y \<Rightarrow> Inr y)
               | Some UTF8 \<Rightarrow> Inr (blit (utf8_bytes_for e (int (length this) - t)) this t n 0)
               | Some Ascii \<Rightarrow> Inr (blit (ascii_bytes e) this t n 0)
               | Some Latin1 \<Rightarrow> Inr (blit (ascii_bytes e) this t n 0)
               | Some Base64E \<Rightarrow>
                   (case base64_to_bytes e of Inl x \<Rightarrow> Inl (B64 x) | Inr b \<Rightarrow> Inr (blit b this t n 0))
               | Some Ucs2 \<Rightarrow> Inr (blit (utf16le_bytes e (int (length this) - t)) this t n 0)))"

text \<open>\<open>Buffer.from(t, n)\<close> on a string: the length, the allocation, the write, the cut.\<close>

definition buf_from_string :: "bool \<Rightarrow> jsstr \<Rightarrow> jsstr \<Rightarrow> enc_error + buffer" where
  "buf_from_string ta s e =
     (let e = (if e = [] then js ''utf8'' else e)
      in if \<not> isEncoding e then Inl (Js (TypeError ''encoding must be a valid string encoding''))
         else andthen (byte_length s e) (\<lambda>r. let r = js_or 0 r in
           (case buf_alloc ta r of Inl x \<Rightarrow> Inl (Js x)
            | Inr b \<Rightarrow> andthen (buf_write b s 0 None e) (\<lambda>(b', k).
                Inr (if int k \<noteq> r then buf_slice b' 0 (Some (int k)) else b')))))"


subsection \<open>Writing all bytes of a text\<close>

lemma blit_store:
  assumes "k \<le> length e" "n + length e \<le> length t"
  shows "blit e (store_at t n (take k e)) (int n) (int (length e)) k = (store_at t n e, length e)"
  using assms
proof (induction "length e - k" arbitrary: k)
  case 0
  then show ?case by (subst blit.simps) simp
next
  case (Suc d)
  have "put8 (store_at t n (take k e)) (int k + int n) (uint (e ! k)) = store_at t n (take (k + 1) e)"
    using put8_append [of n "take k e" t "int k + int n" "uint (e ! k)"] Suc.hyps(2) Suc.prems
    by (simp add: take_Suc_conv_app_nth)
  then show ?case using Suc.hyps(1) [of "k + 1"] Suc.hyps(2) Suc.prems
    by (subst blit.simps) simp
qed

lemma blit_full: "length t = length e \<Longrightarrow> blit e t 0 (int (length e)) 0 = (e, length e)"
  using blit_store [of 0 e 0 t] by (simp add: store_at_def)

text \<open>A text whose bytes in an encoding are given, and the two conversions.\<close>

definition encodes :: "encoding \<Rightarrow> jsstr \<Rightarrow> buffer \<Rightarrow> bool" where
  "encodes c s b \<longleftrightarrow>
     (case c of
        UTF8 \<Rightarrow> utf8_to_bytes s None = Inr (map uint b)
      | Ascii \<Rightarrow> b = ascii_bytes s
      | Latin1 \<Rightarrow> b = ascii_bytes s
      | Ucs2 \<Rightarrow> b = utf16le_bytes s (2 * int (length s))
      | Hex \<Rightarrow> s = concat (map to_hex b)
      | Base64E \<Rightarrow> s = from_byte_array b)"

definition representable :: "encoding \<Rightarrow> jsstr \<Rightarrow> bool" where
  "representable c s \<longleftrightarrow>
     (case c of
        UTF8 \<Rightarrow> well_formed s
      | Ascii \<Rightarrow> (\<forall>u\<in>set s. uint u < 128)
      | Latin1 \<Rightarrow> (\<forall>u\<in>set s. uint u < 256)
      | Ucs2 \<Rightarrow> True
      | Hex \<Rightarrow> (\<exists>b. s = concat (map to_hex b))
      | Base64E \<Rightarrow> (\<exists>b. s = from_byte_array b))"

lemma map_uint_of_int: "(\<forall>x\<in>set bs. 0 \<le> x \<and> x < 256) \<Longrightarrow> map uint (map of_int bs :: buffer) = bs"
  by (simp add: map_idI uint_byte_of_int)

lemma enc_all_bytes: "\<forall>v\<in>set ns. scalar v \<Longrightarrow> \<forall>x\<in>set (enc_all ns). 0 \<le> x \<and> x < 256"
  using ref_utf8_byte by (auto simp: enc_all_def)

lemma utf16le_bytes_more: "0 \<le> k \<Longrightarrow> utf16le_bytes s (2 * int (length s) + k) = utf16le_bytes s (2 * int (length s))"
proof (induction s)
  case (Cons c s)
  have 1: "2 * int (length (c # s)) + k - 2 = 2 * int (length s) + k" by simp
  have 2: "2 * int (length (c # s)) - 2 = 2 * int (length s)" by simp
  have "\<not> 2 * int (length (c # s)) + k - 2 < 0" "\<not> 2 * int (length (c # s)) - 2 < 0" using Cons.prems by simp_all
  then show ?case using Cons by (simp only: utf16le_bytes.simps(2) 1 2 if_False)
qed simp

lemma utf16le_bytes_Cons:
  "utf16le_bytes (c # s) (2 * int (length (c # s)))
    = of_int (uint c mod 256) # of_int (js_sar (uint c) 8) # utf16le_bytes s (2 * int (length s))"
  by simp

lemma length_utf16le: "length (utf16le_bytes s (2 * int (length s))) = 2 * length s"
  by (induction s) (simp_all only: utf16le_bytes_Cons, simp_all)

lemma utf16le_inverse: "utf16le_units (utf16le_bytes s (2 * int (length s))) = s"
proof (induction s)
  case (Cons c s)
  have "js_sar (uint c) 8 = uint c div 256"
  proof -
    have "- (2 ^ 31) \<le> uint c" by (rule order_trans [OF _ unit_bounds(1)]) simp
    moreover have "uint c < 2 ^ 31" by (rule less_le_trans [OF unit_bounds(2)]) simp
    ultimately show ?thesis using js_sar_div [of "uint c" 8] by simp
  qed
  moreover have "uint c div 256 mod 256 = uint c div 256"
  proof (rule mod_pos_pos_trivial)
    show "0 \<le> uint c div 256" using unit_bounds(1) [of c] by (rule pos_imp_zdiv_nonneg_iff [THEN iffD2, rotated]) simp
    show "uint c div 256 < 256" using unit_bounds(2) [of c] by simp
  qed
  ultimately have "uint (of_int (uint c mod 256) :: byte) + 256 * uint (of_int (js_sar (uint c) 8) :: byte) = uint c"
    unfolding uint_byte_of_int by (simp only: mod_mod_trivial mod_mult_div_eq)
  then show ?case using Cons by (simp only: utf16le_bytes_Cons utf16le_units.simps word_of_int_uint)
qed simp

lemma encodes_exists: "representable c s \<Longrightarrow> \<exists>b. encodes c s b"
proof (cases c)
  case UTF8
  assume "representable c s"
  then have "well_formed s" using UTF8 by (simp add: representable_def)
  then have u: "utf8_to_bytes s None = Inr (enc_all (scalars s))"
    using utf8_to_bytes_scalars well_formed_not_two_leads by blast
  have "map uint (map of_int (enc_all (scalars s)) :: buffer) = enc_all (scalars s)"
    using enc_all_bytes scalars_scalar by (intro map_uint_of_int) blast
  then show ?thesis using u UTF8
    by (intro exI [of _ "map of_int (enc_all (scalars s))"]) (simp only: encodes_def encoding.case)
qed (auto simp: representable_def encodes_def)

subsection \<open>Each encoding reads back what it wrote\<close>

lemma of_int_id:
  assumes "uint (u :: unit16) < 256"
  shows "(of_int (uint (of_int (uint u) :: byte)) :: unit16) = u"
proof -
  have "uint u mod 256 = uint u" using assms unit_bounds(1) [of u] by (rule mod_pos_pos_trivial [rotated])
  then have "uint (of_int (uint u) :: byte) = uint u" unfolding uint_byte_of_int .
  then show ?thesis by (simp only: word_of_int_uint)
qed

lemma hex_digit_char: "0 \<le> d \<Longrightarrow> d < 16 \<Longrightarrow> hex_digit (hex_char d) = Some d"
  by (auto simp: hex_digit_def hex_char_def uint_word_of_int Let_def take_bit_eq_mod)

lemma hex_char_plain:
  assumes "0 \<le> d" "d < 16"
  shows "\<not> js_space (hex_char d)" "hex_char d \<noteq> 45" "hex_char d \<noteq> 43" "hex_char d \<noteq> 120" "hex_char d \<noteq> 88"
proof -
  have "d \<in> {0, 1, 2, 3, 4, 5, 6, 7, 8, 9, 10, 11, 12, 13, 14, 15}" using assms unfolding insert_iff empty_iff by presburger
  then show "\<not> js_space (hex_char d)" "hex_char d \<noteq> 45" "hex_char d \<noteq> 43" "hex_char d \<noteq> 120" "hex_char d \<noteq> 88"
    by (auto simp: hex_char_def js_space_def)
qed

lemma to_hex_chars: "to_hex b = [hex_char (uint b div 16), hex_char (uint b mod 16)]"
  using byte_bounds [of b] by (simp add: to_hex_def hex_char_def)

lemma parse_to_hex: "parse_int16 (to_hex b) = Some (uint b)"
proof -
  have x: "0 \<le> uint b div 16" "uint b div 16 < 16" "0 \<le> uint b mod 16" "uint b mod 16 < 16"
    using byte_bounds [of b] by (simp_all add: pos_imp_zdiv_nonneg_iff)
  note p = hex_char_plain [OF x(1,2)] hex_char_plain [OF x(3,4)]
  have j: "js ''0x'' = [48, 120]" "js ''0X'' = [48, 88]" by (simp_all add: js_def)
  show ?thesis
    using p by (simp add: parse_int16_def to_hex_chars Let_def j hex_digit_char [OF x(1,2)] hex_digit_char [OF x(3,4)])
qed

lemma length_to_hex [simp]: "length (to_hex b) = 2"
  by (simp add: to_hex_chars)

lemma length_hex: "length (concat (map to_hex b)) = 2 * length b"
  by (induction b) simp_all

lemma hex_pair: "k < length b \<Longrightarrow> take 2 (drop (2 * k) (concat (map to_hex b))) = to_hex (b ! k)"
proof (induction b arbitrary: k)
  case (Cons x b)
  then show ?case by (cases k) (simp_all add: to_hex_chars)
qed simp

lemma hex_write_loop_full:
  assumes "k \<le> length b" "length t = length b"
  shows "hex_write_loop (store_at t 0 (take k b)) (concat (map to_hex b)) 0 (int (length b)) k = (b, length b)"
  using assms
proof (induction "length b - k" arbitrary: k)
  case 0
  then show ?case by (subst hex_write_loop.simps) (simp add: store_at_def)
next
  case (Suc d)
  have "put8 (store_at t 0 (take k b)) (0 + int k) (uint (b ! k)) = store_at t 0 (take (k + 1) b)"
    using put8_append [of 0 "take k b" t "0 + int k" "uint (b ! k)"] Suc.hyps(2) Suc.prems
    by (simp add: take_Suc_conv_app_nth)
  then show ?case using Suc.hyps Suc.prems
    by (subst hex_write_loop.simps) (auto simp: hex_pair parse_to_hex)
qed

lemma hex_write_full:
  assumes "length t = length b"
  shows "hex_write t (concat (map to_hex b)) 0 (Some (int (length t))) = Inr (b, length b)"
  using hex_write_loop_full [of 0 b t] assms
  by (cases "b = []") (simp_all add: hex_write_def length_hex store_at_def Let_def del: of_nat_0)

lemma hex_slice_all: "hex_slice b 0 (length b) = concat (map to_hex b)"
  by (simp add: hex_slice_def)


lemma b64_chars_plain: "\<forall>c\<in>set b64_alphabet. b64_class c \<and> \<not> js_space c"
  by (simp add: b64_alphabet_def js_def b64_class_def js_space_def)

lemma b64_char_class:
  assumes "0 \<le> k" "k < 64"
  shows "b64_class (b64_char k)" "\<not> js_space (b64_char k)"
proof -
  have "b64_char k \<in> set b64_alphabet"
    using assms b64_alphabet_facts(1) by (simp add: b64_char_def)
  then show "b64_class (b64_char k)" "\<not> js_space (b64_char k)" using b64_chars_plain by auto
qed

lemma b64_pad_class: "\<not> b64_class b64_pad" "\<not> js_space b64_pad"
  by (simp_all add: b64_pad_def js_def b64_class_def js_space_def)

lemma b64_indices:
  "0 \<le> uint (x :: byte) div 4" "uint (x :: byte) div 4 < 64" "0 \<le> uint x mod 4 * 16" "uint x mod 4 * 16 < 64"
  "0 \<le> (m :: int) \<Longrightarrow> m < 65536 \<Longrightarrow> 0 \<le> m div 1024 \<and> m div 1024 < 64"
  "0 \<le> m div 16 mod 64 \<and> m div 16 mod 64 < 64" "0 \<le> m mod 16 * 4 \<and> m mod 16 * 4 < 64"
  "0 \<le> m \<Longrightarrow> m < 16777216 \<Longrightarrow> 0 \<le> m div 262144 \<and> m div 262144 < 64"
  using byte_bounds [of x] pos_mod_bound [of 4 "uint x"] pos_mod_sign [of 4 "uint x"]
    pos_mod_bound [of 16 m] pos_mod_sign [of 16 m]
  by (auto simp: pos_imp_zdiv_nonneg_iff)

lemma b64_clean_spec:
  "filter b64_class (b64_spec e)
     @ replicate ((4 - length (filter b64_class (b64_spec e)) mod 4) mod 4) b64_pad = b64_spec e
   \<and> (\<forall>c\<in>set (b64_spec e). \<not> js_space c) \<and> (e \<noteq> [] \<longrightarrow> 2 \<le> length (filter b64_class (b64_spec e)))"
proof (induction e rule: b64_spec.induct)
  case (2 x)
  show ?case using b64_char_class [OF b64_indices(1,2) [of x]] b64_char_class [OF b64_indices(3,4) [of x]] b64_pad_class
    by (simp add: replicate_small(2))
next
  case (3 x y)
  define m where "m = uint x * 256 + uint y"
  have m: "0 \<le> m" "m < 65536" unfolding m_def by (rule pair_bounds)+
  note c = b64_char_class [of "m div 1024"] b64_char_class [of "m div 16 mod 64"] b64_char_class [of "m mod 16 * 4"]
  show ?case using c b64_indices(5) [OF m] b64_indices(6,7) [of m] b64_pad_class
    by (simp add: Let_def m_def [symmetric])
next
  case (4 x y z r)
  define m where "m = uint x * 65536 + uint y * 256 + uint z"
  have m: "0 \<le> m" "m < 16777216"
    using byte_bounds [of x] byte_bounds [of y] byte_bounds [of z] unfolding m_def by linarith+
  have d: "0 \<le> m div 4096 mod 64" "m div 4096 mod 64 < 64" "0 \<le> m div 64 mod 64" "m div 64 mod 64 < 64"
    "0 \<le> m mod 64" "m mod 64 < 64" by simp_all
  note c = b64_char_class [OF conjunct1 [OF b64_indices(8) [OF m]] conjunct2 [OF b64_indices(8) [OF m]]]
    b64_char_class [OF d(1,2)] b64_char_class [OF d(3,4)] b64_char_class [OF d(5,6)]
  show ?case using 4 c by (simp add: Let_def m_def [symmetric])
qed simp

lemma trim_plain: "\<forall>c\<in>set s. \<not> js_space c \<Longrightarrow> js_trim s = s"
  by (simp add: js_trim_def dropWhile_eq_self_iff) (metis hd_in_set set_rev rev_rev_ident dropWhile_eq_self_iff Nil_is_rev_conv)

lemma base64_to_bytes_inverse: "base64_to_bytes (from_byte_array e) = Inr e"
proof -
  note c = b64_clean_spec [of e]
  have "b64_clean (b64_spec e) = b64_spec e"
    using c trim_plain [of "b64_spec e"] by (cases "e = []") (auto simp: b64_clean_def Let_def)
  then show ?thesis by (simp add: base64_to_bytes_def from_byte_array_eq_spec to_byte_array_spec)
qed


lemma ascii_slice_bytes: "\<forall>u\<in>set s. uint u < 128 \<Longrightarrow> ascii_slice (ascii_bytes s) 0 (length s) = s"
proof (induction s)
  case (Cons c s)
  have "uint c mod 256 mod 128 = uint c"
    using Cons.prems unit_bounds(1) [of c] by simp
  then have "js_and 127 (uint (of_int (js_and 255 (uint c)) :: byte)) = uint c"
    by (simp only: js_and_masks_left uint_byte_of_int mod_mod_trivial)
  then show ?case using Cons by (simp add: ascii_slice_def ascii_bytes_def)
qed (simp add: ascii_slice_def ascii_bytes_def)

lemma latin1_slice_bytes: "\<forall>u\<in>set s. uint u < 256 \<Longrightarrow> latin1_slice (ascii_bytes s) 0 (length s) = s"
proof (induction s)
  case (Cons c s)
  have "(of_int (uint (of_int (js_and 255 (uint c)) :: byte)) :: unit16) = c"
    using Cons.prems by (simp only: byte_js_and of_int_id list.set_intros)
  then show ?case using Cons by (simp add: latin1_slice_def ascii_bytes_def)
qed (simp add: latin1_slice_def ascii_bytes_def)

lemma length_ascii_bytes [simp]: "length (ascii_bytes s) = length s"
  by (simp add: ascii_bytes_def)

lemma buf_slice_all: "length b < 2 ^ 31 \<Longrightarrow> buf_slice b 0 (Some (int (length b))) = b"
  by (simp add: buf_slice_def slice_bounds_def clamp_index_def to_int32_id Let_def)

lemma slice_by_encodes:
  assumes "encodes c s b" "representable c s" "length b < 2 ^ 31"
  shows "slice_by c b 0 (length b) = s"
proof (cases c)
  case UTF8
  then have wf: "well_formed s" and u: "utf8_to_bytes s None = Inr (map uint b)"
    using assms by (simp_all add: encodes_def representable_def)
  then have e: "map uint b = enc_all (scalars s)"
    using utf8_to_bytes_scalars [OF well_formed_not_two_leads [OF wf]] by simp
  have "map of_int (enc_all (scalars s)) = b" unfolding e [symmetric] by (simp add: map_idI)
  moreover have "length (enc_all (scalars s)) = length b" using arg_cong [OF e, of length] by simp
  moreover have "utf8_slice (map of_int (enc_all (scalars s))) 0 (length (enc_all (scalars s))) = s"
    using slice_enc_all [of "scalars s"] scalars_scalar [of _ s] well_formed_id [OF wf]
    by (simp add: to_well_formed_def)
  ultimately show ?thesis using UTF8 by (simp add: slice_by_def)
next
  case Ucs2
  then have b: "b = utf16le_bytes s (2 * int (length s))" using assms by (simp add: encodes_def)
  show ?thesis using Ucs2 buf_slice_all [OF assms(3)] utf16le_inverse [of s]
    by (simp add: slice_by_def utf16le_slice_def b [symmetric])
qed (use assms in \<open>simp_all add: encodes_def representable_def slice_by_def hex_slice_all base64_slice_def
      ascii_slice_bytes latin1_slice_bytes\<close>)

subsection \<open>\<open>Buffer.from\<close>\<close>

lemma names_lower: "\<forall>p\<in>set encoding_names. js_lower (fst p) = fst p"
  by (simp add: encoding_names_def js_def js_lower_def lower_unit_def)

lemma find_encoding_isEncoding:
  assumes "find_encoding e = Some c"
  shows "isEncoding e"
proof (cases "map_of encoding_names e")
  case None
  then show ?thesis using assms by (simp add: find_encoding_def isEncoding_def)
next
  case (Some c')
  then have "(e, c') \<in> set encoding_names" by (rule map_of_SomeD)
  then have "js_lower e = e" using names_lower by force
  then show ?thesis using Some by (simp add: isEncoding_def)
qed

lemma find_encoding_nonempty: "find_encoding e = Some c \<Longrightarrow> e \<noteq> []"
  by (auto simp: find_encoding_def encoding_names_def js_def js_lower_def)

lemma encodes_length:
  assumes "encodes c s b" "length s < 2 ^ 31"
  shows "find_encoding e = Some c \<Longrightarrow> s \<noteq> [] \<Longrightarrow> byte_length s e = Inr (int (length b))"
proof -
  assume f: "find_encoding e = Some c" and ne: "s \<noteq> []"
  have sh: "js_shr (int (2 * length b)) 1 = int (length b)" if "2 * length b < 2 ^ 31"
  proof -
    have "js_shr (int (2 * length b)) 1 = int (2 * length b) div 2 ^ 1"
      using that by (intro js_shr_div) auto
    then show ?thesis by simp
  qed
  show "byte_length s e = Inr (int (length b))"
  proof (cases c)
    case Hex
    then have "length s = 2 * length b" using assms by (simp add: encodes_def length_hex)
    then show ?thesis using f ne sh assms(2) Hex by (simp add: byte_length_def)
  next
    case Base64E
    then show ?thesis using f ne assms base64_to_bytes_inverse [of b]
      by (simp add: byte_length_def encodes_def)
  qed (use f ne assms in \<open>auto simp: byte_length_def encodes_def utf8_length_def length_utf16le\<close>)
qed

lemma buf_write_encodes:
  assumes "encodes c s b" "find_encoding e = Some c" "length t = length b"
  shows "buf_write t s 0 None e = Inr (b, length b)"
proof -
  note ne = find_encoding_nonempty [OF assms(2)]
  have z: "js_or 0 0 = 0" by (simp add: js_or_def to_int32_def)
  show ?thesis
  proof (cases c)
    case UTF8
    then have u: "utf8_to_bytes s None = Inr (map uint b)" using assms by (simp add: encodes_def)
    from utf8_budget_enough [OF this] have "utf8_bytes_for s (int (length b)) = b"
      by (simp add: utf8_bytes_for_def map_idI)
    then show ?thesis using UTF8 assms ne blit_full [of t b] by (simp add: buf_write_def Let_def z)
  next
    case Ucs2
    then have "utf16le_bytes s (int (length b)) = b"
      using assms length_utf16le [of s] by (simp add: encodes_def)
    then show ?thesis using Ucs2 assms ne blit_full [of t b] by (simp add: buf_write_def Let_def z)
  next
    case Hex
    then show ?thesis using assms ne hex_write_full [of t b]
      by (simp add: buf_write_def Let_def z encodes_def)
  next
    case Base64E
    then show ?thesis using assms ne blit_full [of t b] base64_to_bytes_inverse [of b]
      by (simp add: buf_write_def Let_def z encodes_def)
  next
    case Ascii
    then show ?thesis using assms ne blit_full [of t b]
      by (simp add: buf_write_def Let_def z encodes_def)
  next
    case Latin1
    then show ?thesis using assms ne blit_full [of t b]
      by (simp add: buf_write_def Let_def z encodes_def)
  qed
qed

lemma from_string_encodes:
  assumes "encodes c s b" "find_encoding e = Some c" "s \<noteq> []" "length s < 2 ^ 31" "length b < 2 ^ 30"
  shows "buf_from_string ta s e = Inr b"
proof -
  have "js_or 0 (int (length b)) = int (length b)"
    using assms(5) by (simp add: js_or_def to_int32_id to_int32_def [of 0])
  moreover have "kMaxLength ta \<ge> 2 ^ 30 - 1" by (simp add: kMaxLength_def)
  ultimately show ?thesis
    using encodes_length [OF assms(1,4,2,3)] buf_write_encodes [OF assms(1,2), of "replicate (length b) 0"]
      find_encoding_isEncoding [OF assms(2)] find_encoding_nonempty [OF assms(2)] assms(5)
    by (simp add: buf_from_string_def buf_alloc_def Let_def)
qed

lemma to_string_slice:
  assumes "find_encoding e = Some c" "b \<noteq> []" "length b < 2 ^ 31"
  shows "buf_to_string b (Some e) None None = Inr (slice_by c b 0 (length b))"
proof -
  have "to_uint32 (int (length b)) = int (length b)" "to_uint32 0 = 0"
    using assms(3) by (simp_all add: to_uint32_def)
  then show ?thesis
    using assms find_encoding_nonempty [OF assms(1)] by (simp add: buf_to_string_def Let_def)
qed


lemma slice_by_empty: "slice_by c [] 0 0 = []"
  by (cases c) (simp_all add: slice_by_def hex_slice_def ascii_slice_def latin1_slice_def base64_slice_def
      from_byte_array_eq_spec utf16le_slice_def buf_slice_def slice_bounds_def Let_def utf8_slice_def
      decode_code_points_all from_char_code_def)

subsection \<open>Properties\<close>

text \<open>
  Property C15. \<open>Buffer.from\<close> and \<open>toString\<close> are inverse in every encoding: for an encoding name in any
  letter case and a text the encoding can represent, the buffer holds exactly the encoding's bytes
  (the length computed beforehand is the number of bytes written, so nothing is cut or left over)
  and converting back gives the text.
\<close>

theorem buffer_string_roundtrip:
  assumes "find_encoding e = Some c" "representable c s" "encodes c s b" "s \<noteq> []"
    and "length s < 2 ^ 31" "length b < 2 ^ 30"
  shows "buf_from_string ta s e = Inr b \<and> buf_to_string b (Some e) None None = Inr s"
proof -
  have "length b < 2 ^ 31" using assms(6) by simp
  then have "slice_by c b 0 (length b) = s" using slice_by_encodes assms(2,3) by blast
  moreover from this have "b \<noteq> []" using slice_by_empty [of c] assms(4) by auto
  ultimately show ?thesis
    using from_string_encodes [OF assms(3,1,4-6)] to_string_slice [OF assms(1)] assms(6) by simp
qed

theorem buffer_string_roundtrip_witness:
  "buf_from_string True (js ''0aff'') (js ''HEX'') = Inr [10, 255]
    \<and> buf_to_string [10, 255] (Some (js ''HEX'')) None None = Inr (js ''0aff'')"
proof (rule buffer_string_roundtrip)
  show "find_encoding (js ''HEX'') = Some Hex"
    by (simp add: find_encoding_def encoding_names_def js_def js_lower_def lower_unit_def)
  have h: "js ''0aff'' = concat (map to_hex [10, 255])"
    by (simp add: js_def to_hex_chars hex_char_def)
  then show "representable Hex (js ''0aff'')" unfolding representable_def encoding.case by blast
  show "encodes Hex (js ''0aff'') [10, 255]" using h by (simp add: encodes_def)
qed (simp_all add: js_def)

end
