(* ===== verification/ImmHash.thy ===== *)
theory ImmHash
  imports JsNum
begin

section \<open>Hashing and bit counting of Immutable (module 1 of swagger-ui-bundle.js)\<close>

text \<open>
  The console keeps its state in the persistent maps of Immutable 3.8, a hash array mapped trie.
  This theory has what the trie needs: the keys, their equality \<open>he\<close> and hash \<open>Ce\<close> with the string
  hash cache, and the 32-bit population count \<open>ut\<close> that turns a bitmap and a bit into an index.
  Keys are the primitive values the console uses: \<open>undefined\<close>, \<open>null\<close>, booleans, \<open>NaN\<close>, the
  integers of the signed 32-bit range, and strings.
\<close>

subsection \<open>Keys\<close>

text \<open>
  One string is not a key of the model. The string hash cache \<open>De\<close> is a plain object, so a name
  inherited from \<open>Object.prototype\<close> is found in it although it was never stored, and the only such
  name that is long enough to be looked up, \<open>propertyIsEnumerable\<close>, has a function for a hash
  (theorem \<open>cached_hash_is_hash\<close>). In the trie that hash has the bits of 0 and is not equal to 0,
  and \<open>nt\<close> recurses for ever when it is to be put next to a key whose hash is 0.
\<close>

definition inherited_name :: "jsstr \<Rightarrow> bool" where
  "inherited_name s \<longleftrightarrow> s = js ''propertyIsEnumerable''"

typedef own_name = "{s. \<not> inherited_name s}" morphisms name_text Name
  by (rule exI [of _ "[]"]) (simp add: inherited_name_def js_def)

lemma name_text_own [simp]: "\<not> inherited_name (name_text n)"
  using name_text [of n] by simp

lemma name_text_eq: "name_text a = name_text b \<longleftrightarrow> a = b"
  by (rule name_text_inject)

text \<open>The names are executable: \<open>name_of\<close> makes one from any other string.\<close>

definition name_of :: "jsstr \<Rightarrow> own_name" where
  "name_of s = Name (if inherited_name s then [] else s)"

lemma Name_name_text [code abstype]: "Name (name_text n) = n"
  by (rule name_text_inverse)

lemma name_text_name_of [code abstract]: "name_text (name_of s) = (if inherited_name s then [] else s)"
  unfolding name_of_def by (rule Name_inverse) (simp add: inherited_name_def js_def)

instantiation own_name :: equal
begin

definition equal_own_name :: "own_name \<Rightarrow> own_name \<Rightarrow> bool" where
  "equal_own_name a b \<longleftrightarrow> name_text a = name_text b"

instance
  by standard (simp add: equal_own_name_def name_text_eq)

end

datatype jskey = KUndef | KNull | KBool bool | KNaN | KInt "32 word" | KStr own_name

text \<open>\<open>e === t\<close>, under which \<open>NaN\<close> differs from itself.\<close>

fun strict_eq :: "jskey \<Rightarrow> jskey \<Rightarrow> bool" where
  "strict_eq KUndef KUndef = True"
| "strict_eq KNull KNull = True"
| "strict_eq (KBool a) (KBool b) = (a = b)"
| "strict_eq (KInt a) (KInt b) = (a = b)"
| "strict_eq (KStr a) (KStr b) = (a = b)"
| "strict_eq x y = False"

fun truthy :: "jskey \<Rightarrow> bool" where
  "truthy (KBool b) = b"
| "truthy (KInt n) = (n \<noteq> 0)"
| "truthy (KStr s) = (name_text s \<noteq> [])"
| "truthy k = False"

text \<open>
  \<open>he\<close> (\<open>Immutable.is\<close>): identity or both \<open>NaN\<close>; then falsy values differ; \<open>valueOf\<close> of a primitive
  is the primitive itself; a primitive has no \<open>equals\<close>.
\<close>

definition he :: "jskey \<Rightarrow> jskey \<Rightarrow> bool" where
  "he e t =
     (if strict_eq e t \<or> \<not> strict_eq e e \<and> \<not> strict_eq t t then True
      else if \<not> truthy e \<or> \<not> truthy t then False
      else if strict_eq e t then True else False)"

lemma strict_eq_iff: "strict_eq x y \<longleftrightarrow> x = y \<and> x \<noteq> KNaN"
  by (cases x; cases y) auto

lemma he_iff [simp]: "he x y \<longleftrightarrow> x = y"
  by (auto simp: he_def strict_eq_iff)

subsection \<open>Hashes\<close>

text \<open>\<open>Se\<close>: a 31-bit hash, bit 30 replaced by bit 31.\<close>

definition smi :: "32 word \<Rightarrow> 32 word" where
  "smi e = (drop_bit 1 e AND 1073741824) OR (3221225471 AND e)"

text \<open>\<open>ke\<close>: \<open>t = 31 * t + e.charCodeAt(n) | 0\<close>.\<close>

definition hash_string :: "jsstr \<Rightarrow> 32 word" where
  "hash_string s = smi (foldl (\<lambda>t c. 31 * t + ucast c) 0 s)"

text \<open>The cache of string hashes \<open>De\<close>, with the inherited name it finds.\<close>

record string_cache =
  De :: "(jsstr \<times> 32 word) list"
  Re :: nat

datatype js_hash = HNum "32 word" | HFunction

definition cache_lookup :: "string_cache \<Rightarrow> jsstr \<Rightarrow> js_hash option" where
  "cache_lookup c s =
     (case map_of (De c) s of Some h \<Rightarrow> Some (HNum h)
      | None \<Rightarrow> if inherited_name s then Some HFunction else None)"

definition cached_hash :: "string_cache \<Rightarrow> jsstr \<Rightarrow> string_cache \<times> js_hash" where
  "cached_hash c s =
     (if 16 < length s then
        (case cache_lookup c s of
           Some t \<Rightarrow> (c, t)
         | None \<Rightarrow>
             let t = hash_string s;
                 c = (if Re c = 255 then c\<lparr>Re := 0, De := []\<rparr> else c)
             in (c\<lparr>Re := Re c + 1, De := (s, t) # De c\<rparr>, HNum t))
      else (c, HNum (hash_string s)))"

definition empty_cache :: string_cache where
  "empty_cache = \<lparr>De = [], Re = 0\<rparr>"

text \<open>What the cache keeps: only true hashes, never an inherited name, at most 255 of them.\<close>

definition cache_ok :: "string_cache \<Rightarrow> bool" where
  "cache_ok c \<longleftrightarrow>
     (\<forall>(s, h)\<in>set (De c). h = hash_string s \<and> \<not> inherited_name s) \<and> length (De c) = Re c \<and> Re c \<le> 255"

fun run_cache :: "string_cache \<Rightarrow> jsstr list \<Rightarrow> string_cache" where
  "run_cache c [] = c"
| "run_cache c (s # ss) = run_cache (fst (cached_hash c s)) ss"

lemma cached_hash_ok: "cache_ok c \<Longrightarrow> cache_ok (fst (cached_hash c s))"
  by (auto simp: cached_hash_def cache_ok_def cache_lookup_def Let_def split: option.splits if_splits)

lemma cached_hash_value:
  assumes "cache_ok c"
  shows "snd (cached_hash c s) = (if inherited_name s then HFunction else HNum (hash_string s))"
proof (cases "map_of (De c) s")
  case None
  have "inherited_name s \<Longrightarrow> 16 < length s" by (simp add: inherited_name_def)
  then show ?thesis using None by (auto simp: cached_hash_def cache_lookup_def Let_def)
next
  case (Some h)
  then have "(s, h) \<in> set (De c)" by (rule map_of_SomeD)
  then have "h = hash_string s" "\<not> inherited_name s" using assms by (auto simp: cache_ok_def)
  then show ?thesis using Some by (simp add: cached_hash_def cache_lookup_def)
qed

lemma run_cache_ok: "cache_ok c \<Longrightarrow> cache_ok (run_cache c ss)"
  by (induction ss arbitrary: c) (auto intro: cached_hash_ok)

lemma empty_cache_ok: "cache_ok empty_cache"
  by (simp add: cache_ok_def empty_cache_def)

text \<open>
  \<open>Ce\<close> on the keys. In the 32-bit range \<open>0 | e\<close> is \<open>e\<close>, so neither the exclusive or nor the loop
  on larger numbers runs. A string of more than 16 units goes through the cache; by
  \<open>Ce_any_cache\<close> the contents of the cache do not matter. A function counts as 0 for the operators
  on hashes, but no key has one.
\<close>

definition Ce :: "jskey \<Rightarrow> 32 word" where
  "Ce k =
     (case k of KUndef \<Rightarrow> 0 | KNull \<Rightarrow> 0 | KBool b \<Rightarrow> (if b then 1 else 0) | KNaN \<Rightarrow> 0
      | KInt n \<Rightarrow> smi n
      | KStr s \<Rightarrow> (case snd (cached_hash empty_cache (name_text s)) of HNum h \<Rightarrow> h | HFunction \<Rightarrow> 0))"

lemma Ce_any_cache: "cache_ok c \<Longrightarrow> snd (cached_hash c (name_text s)) = HNum (Ce (KStr s))"
  by (simp add: Ce_def cached_hash_value empty_cache_ok)

lemma Ce_long_name: "Ce (KStr (name_of (js ''specificationVersion''))) = hash_string (js ''specificationVersion'')"
  by code_simp

subsection \<open>The population count\<close>

text \<open>
  \<open>ut\<close>, with the sign of a 32-bit integer: \<open>e -= e >> 1 & 0x55555555\<close>, the pairs, the nibbles, then
  the bytes summed by shifts.
\<close>

definition ut :: "int \<Rightarrow> int" where
  "ut e =
     (let e = e - js_and (js_sar e 1) 1431655765;
          e = js_and 858993459 e + js_and (js_sar e 2) 858993459;
          e = js_and (e + js_sar e 4) 252645135;
          e = e + js_sar e 8;
          e = e + js_sar e 16
      in js_and 127 e)"

text \<open>Numbers in base \<open>b\<close>, least significant digit first.\<close>

fun horner :: "int \<Rightarrow> int list \<Rightarrow> int" where
  "horner b [] = 0"
| "horner b (d # ds) = d + b * horner b ds"

lemma horner_cong: "horner b (map f ds) + horner b (map g ds) = horner b (map (\<lambda>d. f d + g d) ds)"
  by (induction ds) (simp_all add: algebra_simps flip: distrib_left)

text \<open>A mask in base \<open>2 ^ k\<close> whose digits are all \<open>m\<close> acts digit by digit.\<close>

lemma and_base:
  assumes "0 \<le> x" "x < 2 ^ k" "0 \<le> y" "y < 2 ^ k"
  shows "(x + 2 ^ k * a) AND (y + 2 ^ k * b) = (x AND y) + 2 ^ k * (a AND (b :: int))"
proof -
  have split: "z = take_bit k z + push_bit k (drop_bit k z)" for z :: int
    using bits_ident [of k z] by (simp add: add.commute)
  have tx: "take_bit k (x + 2 ^ k * a) = x" "take_bit k (y + 2 ^ k * b) = y"
    using assms by (simp_all add: take_bit_eq_mod)
  have dx: "drop_bit k (x + 2 ^ k * a) = a" "drop_bit k (y + 2 ^ k * b) = b"
    using assms by (simp_all add: drop_bit_eq_div)
  have "take_bit k ((x + 2 ^ k * a) AND (y + 2 ^ k * b)) = x AND y"
    by (simp add: take_bit_and tx)
  moreover have "drop_bit k ((x + 2 ^ k * a) AND (y + 2 ^ k * b)) = a AND b"
    by (simp add: drop_bit_and dx)
  ultimately show ?thesis
    using split [of "(x + 2 ^ k * a) AND (y + 2 ^ k * b)"] by (simp add: push_bit_eq_mult mult.commute)
qed

lemma horner_and:
  assumes "\<forall>d\<in>set ds. 0 \<le> d \<and> d < 2 ^ k" "0 \<le> m" "m < 2 ^ k"
  shows "horner (2 ^ k) ds AND horner (2 ^ k) (replicate (length ds) m)
    = horner (2 ^ k) (map (\<lambda>d. d AND m) ds)"
  using assms by (induction ds) (simp_all add: and_base)


lemma int_div_below: "d < a * b \<Longrightarrow> 0 < a \<Longrightarrow> d div a < (b :: int)"
proof (rule ccontr)
  assume *: "d < a * b" "0 < a" "\<not> d div a < b"
  then have "a * b \<le> a * (d div a)" by simp
  also have "\<dots> \<le> d" using *(2) by (metis minus_mod_eq_mult_div diff_le_eq le_add_same_cancel1 pos_mod_sign)
  finally show False using *(1) by simp
qed

lemma horner_shift_and:
  assumes "\<forall>d\<in>set ds. 0 \<le> d \<and> d < 2 ^ k" "j \<le> k" "0 \<le> m" "m < 2 ^ (k - j)"
  shows "horner (2 ^ k) ds div 2 ^ j AND horner (2 ^ k) (replicate (length ds) m)
    = horner (2 ^ k) (map (\<lambda>d. d div 2 ^ j AND m) ds)"
  using assms(1)
proof (induction ds)
  case (Cons d ds)
  let ?V = "horner (2 ^ k) ds"
  have k: "(2 :: int) ^ k = 2 ^ j * 2 ^ (k - j)" using assms(2) by (simp flip: power_add)
  have d: "0 \<le> d" "d < 2 ^ k" using Cons.prems by simp_all
  define x where "x = d div 2 ^ j"
  define c where "c = ?V mod 2 ^ j"
  have x: "0 \<le> x" "x < 2 ^ (k - j)"
    using d int_div_below [of d "2 ^ j" "2 ^ (k - j)"] unfolding x_def k by (simp_all add: pos_imp_zdiv_nonneg_iff)
  have c: "0 \<le> c" "c < 2 ^ j" by (simp_all add: c_def)
  have "(d + 2 ^ j * (2 ^ (k - j) * ?V)) div 2 ^ j = x + 2 ^ (k - j) * ?V"
    unfolding x_def by (subst div_mult_self2) simp_all
  then have "horner (2 ^ k) (d # ds) div 2 ^ j = x + 2 ^ (k - j) * ?V" by (simp add: k mult.assoc)
  also have "?V = c + 2 ^ j * (?V div 2 ^ j)" unfolding c_def by (simp add: mod_mult_div_eq)
  finally have e: "horner (2 ^ k) (d # ds) div 2 ^ j = (x + 2 ^ (k - j) * c) + 2 ^ k * (?V div 2 ^ j)"
    by (simp add: algebra_simps k)
  have "x + 2 ^ (k - j) * c \<le> (2 ^ (k - j) - 1) + 2 ^ (k - j) * (2 ^ j - 1)"
    using x c by (intro add_mono mult_left_mono) simp_all
  also have "\<dots> < 2 ^ k" by (simp add: k algebra_simps)
  finally have r: "x + 2 ^ (k - j) * c < 2 ^ k" .
  have "(2 :: int) ^ (k - j) \<le> 2 ^ k" by (rule power_increasing) simp_all
  then have m: "m < 2 ^ k" by (rule less_le_trans [OF assms(4)])
  have "(x + 2 ^ (k - j) * c) AND (m + 2 ^ (k - j) * 0) = (x AND m) + 2 ^ (k - j) * (c AND 0)"
    using x assms(3,4) by (intro and_base)
  then have xm: "(x + 2 ^ (k - j) * c) AND m = x AND m" by simp
  have "horner (2 ^ k) (d # ds) div 2 ^ j AND horner (2 ^ k) (replicate (length (d # ds)) m)
      = ((x + 2 ^ (k - j) * c) AND m)
        + 2 ^ k * (?V div 2 ^ j AND horner (2 ^ k) (replicate (length ds) m))"
    unfolding e using x c r assms(3) m by (simp add: and_base)
  then show ?case using Cons by (simp add: xm [unfolded x_def] x_def)
qed simp

lemma horner_range:
  "\<forall>d\<in>set ds. 0 \<le> d \<and> d < 2 ^ k \<Longrightarrow> 0 \<le> horner (2 ^ k) ds \<and> horner (2 ^ k) ds < 2 ^ (k * length ds)"
proof (induction ds)
  case (Cons d ds)
  let ?V = "horner (2 ^ k) ds"
  have V: "0 \<le> ?V" "?V \<le> 2 ^ (k * length ds) - 1" and d: "0 \<le> d" "d \<le> 2 ^ k - 1" using Cons by auto
  have "d + 2 ^ k * ?V \<le> (2 ^ k - 1) + 2 ^ k * (2 ^ (k * length ds) - 1)"
    using V d by (intro add_mono mult_left_mono) simp_all
  also have "\<dots> < 2 ^ (k * length (d # ds))" by (simp add: algebra_simps power_add)
  finally show ?case using V d by simp
qed simp

text \<open>The signed shifts, read without the sign under a mask that does not reach it.\<close>

lemma bit_to_int32: "n < 32 \<Longrightarrow> bit (to_int32 x) n = bit x n"
proof -
  assume n: "n < 32"
  have "take_bit 32 (to_int32 x) = take_bit 32 x" using to_int32_mod [of x] by (simp add: take_bit_eq_mod)
  then have "bit (take_bit 32 (to_int32 x)) n = bit (take_bit 32 x) n" by simp
  then show ?thesis using n by (simp add: bit_take_bit_iff)
qed

lemma js_sar_mask:
  assumes "0 \<le> m" "m < 2 ^ (32 - j)" "j < 32" "m < 2 ^ 31"
  shows "js_and (js_sar x j) m = (x mod 2 ^ 32) div 2 ^ j AND m"
proof -
  have m: "bit m n \<Longrightarrow> n < 32 - j" for n
  proof (rule ccontr)
    assume b: "bit m n" "\<not> n < 32 - j"
    have "take_bit (32 - j) m = m" using assms(1,2) by (simp add: take_bit_int_eq_self)
    then have "bit (take_bit (32 - j) m) n" using b(1) by simp
    then show False using b(2) by (simp add: bit_take_bit_iff)
  qed
  have i: "to_int32 m = m" using assms(1,4) by (intro to_int32_id) auto
  have "to_int32 (to_int32 x div 2 ^ j) AND m = (x mod 2 ^ 32) div 2 ^ j AND m"
  proof (rule bit_eqI)
    fix n
    show "bit (to_int32 (to_int32 x div 2 ^ j) AND m) n = bit ((x mod 2 ^ 32) div 2 ^ j AND m) n"
    proof (cases "bit m n")
      case True
      then have n: "n < 32 - j" by (rule m)
      then have "bit (to_int32 (to_int32 x div 2 ^ j)) n = bit (to_int32 x div 2 ^ j) n"
        by (intro bit_to_int32) simp
      also have "\<dots> = bit (to_int32 x) (j + n)" by (simp add: bit_drop_bit_eq flip: drop_bit_eq_div)
      also have "\<dots> = bit x (j + n)" using n by (intro bit_to_int32) simp
      also have "\<dots> = bit (drop_bit j (take_bit 32 x)) n"
        using n less_diff_conv [of n 32 j] by (simp add: bit_drop_bit_eq bit_take_bit_iff add.commute)
      also have "drop_bit j (take_bit 32 x) = (x mod 2 ^ 32) div 2 ^ j"
        by (simp only: drop_bit_eq_div take_bit_eq_mod)
      finally show ?thesis by (simp add: bit_and_iff)
    qed (simp add: bit_and_iff)
  qed
  then show ?thesis using assms(3) by (simp add: js_and_def js_sar_def i)
qed


text \<open>The three tables of digits, from bits to pairs, nibbles and bytes.\<close>

lemma and_small:
  "0 \<le> x \<Longrightarrow> x < 4 \<Longrightarrow> x - (x div 2 AND 1) = x mod 2 + x div (2 :: int)"
proof -
  assume "0 \<le> x" "x < 4"
  then have "x = 0 \<or> x = 1 \<or> x = 2 \<or> x = 3" by auto
  then show ?thesis by auto
qed

lemma horner_diff: "horner b ds - horner b (map f ds) = horner b (map (\<lambda>d. d - f d) ds)"
  by (induction ds) (simp_all add: algebra_simps flip: right_diff_distrib)

definition pair_digits :: "int \<Rightarrow> int list" where
  "pair_digits E = map (\<lambda>i. E div 4 ^ i mod 4) [0..<16]"

lemma horner_div_digits: "horner 4 (map (\<lambda>i. E div 4 ^ i mod 4) [0..<n]) = E mod 4 ^ n"
proof (induction n arbitrary: E)
  case (Suc n)
  have "map (\<lambda>i. E div 4 ^ i mod 4) [0..<Suc n] = E mod 4 # map (\<lambda>i. E div 4 div 4 ^ i mod 4) [0..<n]"
  proof -
    have "[0..<Suc n] = 0 # map Suc [0..<n]" by (simp add: map_Suc_upt upt_conv_Cons del: upt_Suc)
    then show ?thesis by (simp only: list.map map_map o_def) (simp add: zdiv_zmult2_eq)
  qed
  moreover have "E mod (4 * 4 ^ n) = 4 * (E div 4 mod 4 ^ n) + E mod 4" by (rule zmod_zmult2_eq) simp
  ultimately show ?case using Suc [of "E div 4"] by simp
qed simp

lemma horner_replicate: "horner b (replicate n m) * (b - 1) = m * (b ^ n - 1)"
  by (induction n) (simp_all add: algebra_simps)

lemma ut_step1:
  assumes "0 \<le> E" "E < 2 ^ 32"
  shows "E - (E div 2 AND 1431655765)
    = horner 4 (map (\<lambda>i. E div 4 ^ i mod 4 mod 2 + E div 4 ^ i mod 4 div 2) [0..<16])"
proof -
  have E: "horner 4 (pair_digits E) = E"
    using horner_div_digits [of E 16] assms by (simp add: pair_digits_def)
  have r: "\<forall>d\<in>set (pair_digits E). 0 \<le> d \<and> d < 2 ^ 2" by (simp add: pair_digits_def)
  have m: "horner 4 (replicate (length (pair_digits E)) 1) = 1431655765"
    using horner_replicate [of 4 16 1] by (simp add: pair_digits_def)
  have "E div 2 AND 1431655765 = horner 4 (map (\<lambda>d. d div 2 AND 1) (pair_digits E))"
    using horner_shift_and [OF r, of 1 1] m E by simp
  then have "E - (E div 2 AND 1431655765) = horner 4 (map (\<lambda>d. d - (d div 2 AND 1)) (pair_digits E))"
    using horner_diff [of 4 "pair_digits E" "\<lambda>d. d div 2 AND 1"] E by simp
  also have "map (\<lambda>d. d - (d div 2 AND 1)) (pair_digits E)
      = map (\<lambda>i. E div 4 ^ i mod 4 mod 2 + E div 4 ^ i mod 4 div 2) [0..<16]"
    by (simp add: pair_digits_def and_small)
  finally show ?thesis .
qed

lemma and_pairs:
  assumes "0 \<le> x" "x \<le> 2" "0 \<le> y" "y \<le> 2"
  shows "(x + 4 * y) AND 3 = x" "(x + 4 * y) div 4 AND 3 = (y :: int)"
proof -
  have "x = 0 \<or> x = 1 \<or> x = 2" "y = 0 \<or> y = 1 \<or> y = 2" using assms by auto
  then show "(x + 4 * y) AND 3 = x" "(x + 4 * y) div 4 AND 3 = y" by auto
qed

lemma and_3: "0 \<le> y \<Longrightarrow> y \<le> 2 \<Longrightarrow> y AND 3 = (y :: int)"
proof -
  assume "0 \<le> y" "y \<le> 2"
  then have "y = 0 \<or> y = 1 \<or> y = 2" by auto
  then show ?thesis by auto
qed

definition small :: "int \<Rightarrow> int \<Rightarrow> bool" where
  "small b x \<longleftrightarrow> 0 \<le> x \<and> x \<le> b"

lemma ut_step2:
  assumes "\<forall>c\<in>{c0, c1, c2, c3, c4, c5, c6, c7, c8, c9, ca, cb, cc, cd, ce, cf}. small 2 c"
  defines "e \<equiv> horner 4 [c0, c1, c2, c3, c4, c5, c6, c7, c8, c9, ca, cb, cc, cd, ce, cf]"
  shows "(858993459 AND e) + (e div 4 AND 858993459)
    = horner 16 [c0 + c1, c2 + c3, c4 + c5, c6 + c7, c8 + c9, ca + cb, cc + cd, ce + cf]"
proof -
  let ?ds = "[c0 + 4 * c1, c2 + 4 * c3, c4 + 4 * c5, c6 + 4 * c7, c8 + 4 * c9, ca + 4 * cb, cc + 4 * cd, ce + 4 * cf]"
  have e: "e = horner (2 ^ 4) ?ds" by (simp add: e_def)
  have r: "\<forall>d\<in>set ?ds. 0 \<le> d \<and> d < 2 ^ 4" using assms(1) by (simp add: small_def)
  have m: "horner (2 ^ 4) (replicate (length ?ds) 3) = 858993459" by simp
  note p = assms(1) [unfolded small_def]
  have 1: "e AND 858993459 = horner 16 [c0, c2, c4, c6, c8, ca, cc, ce]"
    using horner_and [OF r, of 3] p unfolding m by (simp add: e [symmetric] and_pairs and_3 del: horner.simps) (simp add: e)
  have 2: "e div 4 AND 858993459 = horner 16 [c1, c3, c5, c7, c9, cb, cd, cf]"
    using horner_shift_and [OF r, of 2 3] p unfolding m by (simp add: e [symmetric] and_pairs and_3 del: horner.simps) (simp add: e)
  show ?thesis using 1 2 by (simp add: and.commute)
qed


lemma and_15: "0 \<le> y \<Longrightarrow> y \<le> 8 \<Longrightarrow> 0 \<le> z \<Longrightarrow> z < 16 \<Longrightarrow> (y + 16 * z) AND 15 = (y :: int)"
proof -
  assume "0 \<le> y" "y \<le> 8" "0 \<le> z" "z < 16"
  moreover have "(15 :: int) = 2 ^ 4 - 1" by simp
  ultimately show ?thesis by (simp only: and_mask_int) simp
qed

lemma ut_step3:
  assumes "\<forall>c\<in>{x0, x1, x2, x3, x4, x5, x6, x7}. small 4 c"
  defines "e \<equiv> horner 16 [x0, x1, x2, x3, x4, x5, x6, x7]"
  shows "(e + e div 16) AND 252645135 = horner 256 [x0 + x1, x2 + x3, x4 + x5, x6 + x7]"
proof -
  note p = assms(1) [unfolded small_def]
  let ?t = "x1 + 16 * (x2 + 16 * (x3 + 16 * (x4 + 16 * (x5 + 16 * (x6 + 16 * x7)))))"
  have "e = x0 + 16 * ?t" by (simp add: e_def)
  moreover have "(x0 + 16 * ?t) div 16 = ?t" using p by (subst div_mult_self2) simp_all
  ultimately have s: "e + e div 16 = horner (2 ^ 8) [(x0 + x1) + 16 * (x1 + x2), (x2 + x3) + 16 * (x3 + x4),
      (x4 + x5) + 16 * (x5 + x6), (x6 + x7) + 16 * x7]" by simp
  let ?ds = "[(x0 + x1) + 16 * (x1 + x2), (x2 + x3) + 16 * (x3 + x4),
      (x4 + x5) + 16 * (x5 + x6), (x6 + x7) + 16 * x7]"
  have m: "horner (2 ^ 8) (replicate (length ?ds) 15) = 252645135" by simp
  have r: "\<forall>d\<in>set ?ds. 0 \<le> d \<and> d < 2 ^ 8" using p by simp
  have "map (\<lambda>d. d AND 15) ?ds = [x0 + x1, x2 + x3, x4 + x5, x6 + x7]"
  proof -
    have "((x0 + x1) + 16 * (x1 + x2)) AND 15 = x0 + x1" "((x2 + x3) + 16 * (x3 + x4)) AND 15 = x2 + x3"
      "((x4 + x5) + 16 * (x5 + x6)) AND 15 = x4 + x5" "((x6 + x7) + 16 * x7) AND 15 = x6 + x7"
      using p by (intro and_15; simp)+
    then show ?thesis by (simp only: list.map)
  qed
  then show ?thesis
    using horner_and [OF r, of 15] unfolding s m by (simp del: horner.simps list.map, simp?)
qed

lemma ut_step4:
  assumes "\<forall>c\<in>{a, b, c, d}. small 8 c"
  defines "e \<equiv> horner 256 [a, b, c, d]"
  shows "(e + e div 256 + (e + e div 256) div 65536) mod 128 = a + b + c + d"
proof -
  note p = assms(1) [unfolded small_def]
  have e: "e = a + 256 * (b + 256 * (c + 256 * d))" by (simp add: e_def)
  have 1: "e div 256 = b + 256 * (c + 256 * d)" unfolding e using p by (subst div_mult_self2) simp_all
  define r where "r = (a + b) + 256 * (b + c)"
  have r: "0 \<le> r" "r < 65536" using p by (auto simp: r_def)
  have 2: "e + e div 256 = r + 65536 * ((c + d) + 256 * d)" unfolding 1 unfolding e r_def by simp
  have 3: "(e + e div 256) div 65536 = (c + d) + 256 * d" 
  proof -
    have "(r + 65536 * q) div 65536 = q" for q using r by simp
    then show ?thesis unfolding 2 .
  qed
  have S: "e + e div 256 + (e + e div 256) div 65536 = (a + b + c + d) + 128 * (2 * (b + c + d) + 512 * (c + d) + 131072 * d)"
    unfolding 3 unfolding 2 r_def by simp
  have "0 \<le> a + b + c + d" "a + b + c + d < 128" using p by auto
  then show ?thesis unfolding S mod_mult_self2 by (rule mod_pos_pos_trivial)
qed


text \<open>The count of the set bits below a position, and the main equation.\<close>

definition bits_below :: "32 word \<Rightarrow> nat \<Rightarrow> nat list" where
  "bits_below w n = filter (bit w) [0..<n]"

lemma bits_below_Suc: "bits_below w (Suc n) = bits_below w n @ (if bit w n then [n] else [])"
  by (simp add: bits_below_def)

lemma uint_bit: "uint w div 2 ^ n mod 2 = of_bool (bit (w :: 32 word) n)"
proof -
  have "bit (uint w) n = bit w n" by (auto simp: bit_uint_iff dest: bit_imp_le_length)
  then have "odd (uint w div 2 ^ n) = bit w n" by (simp add: bit_iff_odd [of "uint w"])
  then show ?thesis by (simp add: mod_2_eq_odd)
qed

lemma pair_bits:
  "uint w div 4 ^ i mod 4 mod 2 + uint w div 4 ^ i mod 4 div 2
    = int (length (bits_below w (2 * Suc i))) - int (length (bits_below (w :: 32 word) (2 * i)))"
proof -
  have "(4 :: int) ^ i = 2 ^ (2 * i)" by (simp add: power_mult)
  then have "uint w div 4 ^ i mod 4 mod 2 = uint w div 2 ^ (2 * i) mod 2" by (simp add: mod_mod_cancel)
  moreover have "uint w div 4 ^ i mod 4 div 2 = uint w div 2 ^ (2 * i + 1) mod 2"
  proof -
    have "uint w div 2 ^ (2 * i + 1) = uint w div 4 ^ i div 2"
      using \<open>(4 :: int) ^ i = 2 ^ (2 * i)\<close> by (simp add: zdiv_zmult2_eq mult.commute [of 2])
    moreover have "x mod 4 div 2 = x div 2 mod 2" for x :: int using zmod_zmult2_eq [of 2 x 2] by simp
    ultimately show ?thesis by simp
  qed
  ultimately show ?thesis by (simp add: uint_bit bits_below_Suc del: power_Suc)
qed

lemma ut_unsigned:
  assumes "\<And>i. i < 16 \<Longrightarrow> f i = E div 4 ^ i mod 4 mod 2 + E div 4 ^ i mod 4 div 2" "0 \<le> E" "E < 2 ^ 32"
    and "s = E \<or> s = E - 2 ^ 32"
  shows "ut s = f 0 + f 1 + f 2 + f 3 + f 4 + f 5 + f 6 + f 7 + f 8 + f 9 + f 10 + f 11 + f 12 + f 13 + f 14 + f 15"
proof -
  have fs: "small 2 (f i)" if "i < 16" for i
  proof -
    have "x mod 4 mod 2 + x mod 4 div 2 \<le> 2 \<and> 0 \<le> x mod 4 mod 2 + x mod 4 div 2" for x :: int
    proof -
      have "x mod 4 = 0 \<or> x mod 4 = 1 \<or> x mod 4 = 2 \<or> x mod 4 = 3"
        using pos_mod_bound [of 4 x] pos_mod_sign [of 4 x] by auto
      then show ?thesis by auto
    qed
    then show ?thesis using assms(1) [OF that] by (simp add: small_def)
  qed
  have upt: "[0..<16] = [0, 1, 2, 3, 4, 5, 6, 7, 8, 9, 10, 11, 12, 13, 14, 15 :: nat]"
    by (simp add: upt_rec)
  have "map (\<lambda>i. E div 4 ^ i mod 4 mod 2 + E div 4 ^ i mod 4 div 2) [0..<16] = map f [0..<16]"
    using assms(1) by simp
  then have e1: "E - (E div 2 AND 1431655765)
      = horner 4 [f 0, f 1, f 2, f 3, f 4, f 5, f 6, f 7, f 8, f 9, f 10, f 11, f 12, f 13, f 14, f 15]"
    using ut_step1 [OF assms(2,3)] by (simp only: upt list.map)
  define k1 where "k1 = (E div 2 AND 1431655765)"
  have k1: "0 \<le> k1" "k1 \<le> E" using assms(2) AND_upper1 [of "E div 2" 1431655765] by (auto simp: k1_def)
  have sE: "s mod 2 ^ 32 = E" using assms(2-4) by auto
  have a1: "js_and (js_sar s 1) 1431655765 = k1"
    using js_sar_mask [of 1431655765 1 s] by (simp add: sE [simplified] k1_def)
  have "s - k1 = (E - k1) + 0 * 2 ^ 32 \<or> s - k1 = (E - k1) + - 1 * 2 ^ 32" using assms(4) by auto
  then have "(s - k1) mod 2 ^ 32 = (E - k1) mod 2 ^ 32" by (elim disjE) (simp_all only: mod_mult_self1)
  also have "\<dots> = E - k1" using k1 assms(2,3) by (intro mod_pos_pos_trivial) auto
  finally have e1': "(s - k1) mod 2 ^ 32 = E - k1" .
  have j0: "js_and m x = js_and (js_sar x 0) m" for m x by (simp add: js_and_def js_sar_def and.commute)
  have a2: "js_and 858993459 (s - k1) = 858993459 AND (E - k1)"
    "js_and (js_sar (s - k1) 2) 858993459 = (E - k1) div 4 AND 858993459"
    unfolding j0 [of 858993459] using js_sar_mask [of 858993459 0 "s - k1"] js_sar_mask [of 858993459 2 "s - k1"] e1'
    by (simp_all add: and.commute)
  define g where "g i = f (2 * i) + f (2 * i + 1)" for i
  have gs: "small 4 (g i)" if "i < 8" for i
    using fs [of "2 * i"] fs [of "2 * i + 1"] that by (auto simp: g_def small_def)
  define H2 where "H2 = horner 16 [g 0, g 1, g 2, g 3, g 4, g 5, g 6, g 7]"
  have s2: "(858993459 AND (E - k1)) + ((E - k1) div 4 AND 858993459) = H2"
    using ut_step2 [of "f 0" "f 1" "f 2" "f 3" "f 4" "f 5" "f 6" "f 7" "f 8" "f 9" "f 10" "f 11" "f 12" "f 13" "f 14" "f 15"]
      fs e1 unfolding k1_def H2_def g_def by (simp del: horner.simps)
  have "\<forall>c\<in>set [g 0, g 1, g 2, g 3, g 4, g 5, g 6, g 7]. 0 \<le> c \<and> c \<le> 4" using gs by (simp add: small_def)
  then have H2: "0 \<le> H2" "H2 \<le> 1145324612" unfolding H2_def by auto
  have a3: "js_sar H2 4 = H2 div 16" using H2 by (simp add: js_sar_div)
  define H3 where "H3 = horner 256 [g 0 + g 1, g 2 + g 3, g 4 + g 5, g 6 + g 7]"
  have b: "0 \<le> H2 + H2 div 16" "H2 + H2 div 16 < 2 ^ 32" using H2 by auto
  have "js_and (H2 + H2 div 16) 252645135 = (H2 + H2 div 16) mod 2 ^ 32 AND 252645135"
    using js_sar_mask [of 252645135 0 "H2 + H2 div 16"] j0 [of 252645135 "H2 + H2 div 16"]
    by (simp add: js_and_commute)
  also have "(H2 + H2 div 16) mod 2 ^ 32 = H2 + H2 div 16" using b by (rule mod_pos_pos_trivial)
  also have "(H2 + H2 div 16) AND 252645135 = H3"
    unfolding H2_def H3_def using gs by (intro ut_step3) auto
  finally have s3: "js_and (H2 + H2 div 16) 252645135 = H3" .
  define d where "d i = g (2 * i) + g (2 * i + 1)" for i
  have ds: "\<forall>c\<in>{d 0, d 1, d 2, d 3}. small 8 c" 
    using gs [of 0] gs [of 1] gs [of 2] gs [of 3] gs [of 4] gs [of 5] gs [of 6] gs [of 7]
    by (simp add: d_def small_def)
  have H3': "H3 = horner 256 [d 0, d 1, d 2, d 3]" by (simp add: H3_def d_def)
  have H3: "0 \<le> H3" "H3 \<le> 134744072" using ds unfolding H3' small_def by auto
  have a4: "js_sar H3 8 = H3 div 256" using H3 by (simp add: js_sar_div)
  have a5: "js_sar (H3 + H3 div 256) 16 = (H3 + H3 div 256) div 65536"
    using H3 by (subst js_sar_div) auto
  have "ut s = (H3 + H3 div 256 + (H3 + H3 div 256) div 65536) mod 128"
    unfolding ut_def Let_def a1 a2 s2 a3 s3 a4 a5 js_and_masks_left ..
  also have "\<dots> = d 0 + d 1 + d 2 + d 3" unfolding H3' using ds by (rule ut_step4)
  finally show ?thesis by (simp add: d_def g_def)
qed

lemma ut_count:
  "ut (sint w) = int (length (bits_below w 32))"
proof -
  define f where "f i = int (length (bits_below w (2 * Suc i))) - int (length (bits_below w (2 * i)))" for i
  have "take_bit 32 (uint w) = uint w" using uint_bounded [of w] by (intro take_bit_int_eq_self) simp_all
  then have "sint w = uint w \<or> sint w = uint w - 2 ^ 32"
    by (simp add: sint_uint signed_take_bit_eq_take_bit_minus)
  then have "ut (sint w) = f 0 + f 1 + f 2 + f 3 + f 4 + f 5 + f 6 + f 7 + f 8 + f 9 + f 10 + f 11 + f 12 + f 13 + f 14 + f 15"
    using uint_bounded [of w] by (intro ut_unsigned [where E = "uint w"]) (simp_all add: f_def pair_bits)
  also have "\<dots> = int (length (bits_below w 32))" by (simp add: f_def bits_below_def)
  finally show ?thesis .
qed


subsection \<open>Properties\<close>

text \<open>
  Property C16. The population count of the trie is exact for all 32-bit values, the negative ones (bit 31
  set) included: \<open>ut\<close> is the number of set bits.
\<close>

theorem popcount_counts: "ut (sint (w :: 32 word)) = int (length (filter (bit w) [0..<32]))"
  using ut_count [of w] by (simp add: bits_below_def)

text \<open>
  Property C17. The string hash cache is transparent: after any sequence of hashed strings, with the resets
  at 255 entries, the cached hash of a string is its hash; except for \<open>propertyIsEnumerable\<close>, whose
  look-up finds the function inherited by the cache object and returns it as the hash.
\<close>

theorem cached_hash_is_hash:
  "snd (cached_hash (run_cache empty_cache ss) s)
    = (if s = js ''propertyIsEnumerable'' then HFunction else HNum (hash_string s))"
  using cached_hash_value [OF run_cache_ok [OF empty_cache_ok]] by (simp add: inherited_name_def)

end
