(* ===== verification/ImmNode.thy ===== *)
theory ImmNode
  imports ImmHash "HOL-Library.Multiset"
begin

section \<open>The persistent map of Immutable (module 1 of swagger-ui-bundle.js)\<close>

text \<open>
  A \<open>Map\<close> is a size and a root. Up to eight entries are an \<open>ArrayMap\<close> (\<open>Ve\<close>); beyond, the root is a
  trie over the 32-bit hash, five bits a level: \<open>Bitmap\<close> (\<open>He\<close>, children packed in bit order),
  \<open>HashArray\<close> (\<open>We\<close>, 32 slots, used from 16 children on and packed again below 8), \<open>Collision\<close> (\<open>Je\<close>)
  and \<open>ValueN\<close> (\<open>Ye\<close>). The operations are the persistent ones: with no owner every step copies, so a
  node is a value. \<open>update\<close> returns the node itself (\<open>Same\<close>), \<open>undefined\<close> (\<open>Gone\<close>) or another node,
  and sets the flags \<open>didAlter\<close> and \<open>didChangeSize\<close>. The value to store is \<open>None\<close> for \<open>NOT_SET\<close>, which
  removes the key.
\<close>

subsection \<open>Nodes\<close>

datatype 'v hnode =
    Bitmap "32 word" "'v hnode list"
  | HashArray nat "'v hnode option list"
  | Collision "32 word" "(jskey \<times> 'v) list"
  | ValueN "32 word" "jskey \<times> 'v"

datatype 'v root = ArrayMap "(jskey \<times> 'v) list" | Trie "'v hnode"

record 'v imap =
  msize :: nat
  mroot :: "'v root option"

text \<open>\<open>(0 === e ? t : t >>> e) & 31\<close>; the shift count is taken modulo 32.\<close>

definition frag :: "nat \<Rightarrow> 32 word \<Rightarrow> nat" where
  "frag e h = unat (drop_bit (e mod 32) h AND 31)"

definition bitpos :: "nat \<Rightarrow> 32 word" where
  "bitpos s = push_bit s 1"

definition bm_index :: "32 word \<Rightarrow> nat \<Rightarrow> nat" where
  "bm_index bm s = nat (ut (sint (bm AND (bitpos s - 1))))"

subsection \<open>Entries\<close>

fun find_entry :: "jskey \<Rightarrow> (jskey \<times> 'v) list \<Rightarrow> 'v option" where
  "find_entry k [] = None"
| "find_entry k (e # es) = (if he k (fst e) then Some (snd e) else find_entry k es)"

fun entry_index :: "jskey \<Rightarrow> (jskey \<times> 'v) list \<Rightarrow> nat" where
  "entry_index k [] = 0"
| "entry_index k (e # es) = (if he k (fst e) then 0 else Suc (entry_index k es))"

text \<open>\<open>f ? u ? l === c - 1 ? d.pop() : d[l] = d.pop() : d[l] = [r, o] : d.push([r, o])\<close>.\<close>

definition upd_entries :: "(jskey \<times> 'v) list \<Rightarrow> nat \<Rightarrow> jskey \<Rightarrow> 'v option \<Rightarrow> (jskey \<times> 'v) list" where
  "upd_entries d l r v =
     (case v of
        None \<Rightarrow> if l < length d then (if l = length d - 1 then butlast d else (butlast d)[l := last d]) else d
      | Some x \<Rightarrow> if l < length d then d[l := (r, x)] else d @ [(r, x)])"

subsection \<open>Lookup\<close>

lemma nth_size_less: "i < length ns \<Longrightarrow> size (ns ! i :: 'v hnode) < Suc (size_list size ns)"
proof -
  assume "i < length ns"
  then have "ns ! i \<in> set ns" by simp
  then have "size (ns ! i) \<le> size_list size ns" using size_list_estimation' [of "ns ! i" ns "size (ns ! i)" size] by blast
  then show ?thesis by simp
qed

lemma nth_size_option: "i < length ns \<Longrightarrow> ns ! i = Some x \<Longrightarrow> size x < Suc (size_list (size_option size) ns)"
proof -
  assume "i < length ns" "ns ! i = Some x"
  then have "Some x \<in> set ns" by (metis nth_mem)
  then have "size_option size (Some x) \<le> size_list (size_option size) ns"
    by (rule size_list_estimation') simp
  then show ?thesis by simp
qed

function hget :: "nat \<Rightarrow> 32 word \<Rightarrow> jskey \<Rightarrow> 'v hnode \<Rightarrow> 'v option" where
  "hget e t n (Bitmap bm ns) =
     (let s = frag e t
      in if bm AND bitpos s = 0 then None
         else let i = bm_index bm s in if i < length ns then hget (e + 5) t n (ns ! i) else None)"
| "hget e t n (HashArray c ns) =
     (let s = frag e t
      in if s < length ns then (case ns ! s of None \<Rightarrow> None | Some x \<Rightarrow> hget (e + 5) t n x) else None)"
| "hget e t n (Collision kh es) = find_entry n es"
| "hget e t n (ValueN kh en) = (if he n (fst en) then Some (snd en) else None)"
  by pat_completeness auto
termination
  by (relation "measure (\<lambda>(e, t, n, x). size x)")
    (auto simp: nth_size_less dest: nth_size_option)

subsection \<open>Two leaves below one node: \<open>nt\<close>\<close>

fun key_hash :: "'v hnode \<Rightarrow> 32 word" where
  "key_hash (Collision kh es) = kh"
| "key_hash (ValueN kh en) = kh"
| "key_hash x = 0"

fun leaf_entries :: "'v hnode \<Rightarrow> (jskey \<times> 'v) list" where
  "leaf_entries (ValueN kh en) = [en]"
| "leaf_entries x = []"

fun is_leaf :: "'v hnode \<Rightarrow> bool" where
  "is_leaf (Collision kh es) = True"
| "is_leaf (ValueN kh en) = True"
| "is_leaf x = False"

lemma bit_frag: "i < 32 \<Longrightarrow> n mod 32 = i \<Longrightarrow> frag n h1 = frag n h2 \<Longrightarrow> bit h1 i = bit (h2 :: 32 word) i"
proof -
  assume i: "i < 32" "n mod 32 = i" and "frag n h1 = frag n h2"
  then have "drop_bit i h1 AND 31 = drop_bit i h2 AND 31" by (simp add: frag_def word_unat_eq_iff)
  then have "bit (drop_bit i h1 AND 31) 0 = bit (drop_bit i h2 AND 31) 0" by simp
  then show ?thesis by (simp add: bit_0 even_and_iff bit_iff_odd_drop_bit)
qed

lemma shift_reaches: "\<exists>k. (n + 5 * k) mod 32 = (i :: nat) mod 32"
proof
  have "n + 5 * (13 * (i + 31 * n)) = i + 32 * (2 * i + 63 * n)"
    by (simp add: algebra_simps)
  then show "(n + 5 * (13 * (i + 31 * n))) mod 32 = i mod 32" by (simp only: mod_mult_self2)
qed

lemma fragments_differ:
  assumes "h1 \<noteq> (h2 :: 32 word)"
  shows "\<exists>k. frag (n + 5 * k) h1 \<noteq> frag (n + 5 * k) h2"
proof -
  obtain i where i: "i < 32" "bit h1 i \<noteq> bit h2 i"
    using assms bit_word_eqI [of h1 h2] by auto
  obtain k where "(n + 5 * k) mod 32 = i" using shift_reaches [of n i] i(1) by auto
  then show ?thesis using bit_frag i by blast
qed

function merge_into :: "'v hnode \<Rightarrow> nat \<Rightarrow> 32 word \<Rightarrow> jskey \<times> 'v \<Rightarrow> 'v hnode" where
  "merge_into x n r en =
     (if key_hash x = r then Collision r (leaf_entries x @ [en])
      else
        let a = frag n (key_hash x); u = frag n r
        in Bitmap (bitpos a OR bitpos u)
             (if a = u then [merge_into x (n + 5) r en]
              else if a < u then [x, ValueN r en] else [ValueN r en, x]))"
  by pat_completeness auto
termination
proof (relation "measure (\<lambda>(x, n, r, en). LEAST k. frag (n + 5 * k) (key_hash x) \<noteq> frag (n + 5 * k) r)", goal_cases)
  case (2 x n r en xa u)
  let ?P = "\<lambda>n k. frag (n + 5 * k) (key_hash x) \<noteq> frag (n + 5 * k) r"
  obtain k where k: "?P n k" using fragments_differ 2(1) by blast
  have "\<not> ?P n 0" using 2 by simp
  then have "(LEAST k. ?P n k) = Suc (LEAST k. ?P n (Suc k))" using k by (intro Least_Suc) auto
  moreover have "?P (n + 5) k = ?P n (Suc k)" for k by (simp add: algebra_simps)
  ultimately show ?case by simp
qed simp

declare merge_into.simps [simp del]


subsection \<open>Update\<close>

datatype 'v upd = Same | Gone | New "'v hnode"

text \<open>The result with \<open>didAlter\<close> and \<open>didChangeSize\<close>.\<close>

type_synonym 'v ures = "'v upd \<times> bool \<times> bool"

text \<open>The array helpers \<open>spliceOut\<close> and \<open>spliceIn\<close>, their copying loops read by index.\<close>

definition splice_out :: "'a list \<Rightarrow> nat \<Rightarrow> 'a list" where
  "splice_out e t = map (\<lambda>a. e ! (if a < t then a else a + 1)) [0..<length e - 1]"

definition splice_in :: "'a list \<Rightarrow> nat \<Rightarrow> 'a \<Rightarrow> 'a list" where
  "splice_in e t n = map (\<lambda>u. if u = t then n else e ! (if u < t then u else u - 1)) [0..<length e + 1]"

lemma unat_half_less: "n \<noteq> 0 \<Longrightarrow> unat (drop_bit (Suc 0) (n :: 32 word)) < unat n"
proof -
  assume "n \<noteq> 0"
  then have "0 < unat n" by (simp add: unat_gt_0)
  moreover have "unat (drop_bit (Suc 0) n) = unat n div 2"
    using unat_div_distrib [of n 2] by (simp add: drop_bit_eq_div [of "Suc 0"])
  ultimately show ?thesis by simp
qed

text \<open>\<open>expandNodes\<close>: the packed children spread over 32 slots; the loop ends with the last set bit.\<close>

function expand_loop :: "32 word \<Rightarrow> 'a list \<Rightarrow> nat \<Rightarrow> 'a option list \<Rightarrow> 'a option list" where
  "expand_loop n ts u a =
     (if n = 0 then a
      else if 1 AND n \<noteq> 0 then expand_loop (drop_bit 1 n) (drop 1 ts) (u + 1) (a[u := Some (hd ts)])
      else expand_loop (drop_bit 1 n) ts (u + 1) a)"
  by pat_completeness auto
termination
  by (relation "measure (\<lambda>(n, ts, u, a). unat n)") (auto intro: unat_half_less simp del: drop_bit_Suc)

declare expand_loop.simps [simp del]

definition expand_nodes :: "'v hnode list \<Rightarrow> 32 word \<Rightarrow> nat \<Rightarrow> 'v hnode \<Rightarrow> 'v hnode" where
  "expand_nodes ts n r x =
     HashArray (length ts + 1) ((expand_loop n ts 0 (replicate 32 None))[r := Some x])"

text \<open>\<open>packNodes\<close>: the occupied slots but \<open>r\<close>, with their bitmap.\<close>

fun pack_loop :: "'a option list \<Rightarrow> nat \<Rightarrow> nat \<Rightarrow> 32 word \<times> 'a list" where
  "pack_loop [] r u = (0, [])"
| "pack_loop (c # t) r u =
     (let (bm, a) = pack_loop t r (u + 1)
      in case c of None \<Rightarrow> (bm, a)
         | Some x \<Rightarrow> if u \<noteq> r then (bitpos u OR bm, x # a) else (bm, a))"

definition pack_nodes :: "'v hnode option list \<Rightarrow> nat \<Rightarrow> 'v hnode" where
  "pack_nodes t r = (let (bm, a) = pack_loop t r 0 in Bitmap bm a)"

text \<open>
  The step of a bitmap node once the child has been updated: \<open>d\<close> is the child that was there,
  \<open>res\<close> what \<open>et\<close> gave for it.
\<close>

definition bitmap_step :: "32 word \<Rightarrow> 'v hnode list \<Rightarrow> nat \<Rightarrow> bool \<Rightarrow> 'v upd \<Rightarrow> 'v upd" where
  "bitmap_step l p s c res =
     (let f = bm_index l s
      in case res of
           Same \<Rightarrow> Same
         | Gone \<Rightarrow>
             if c \<and> length p = 2 \<and> is_leaf (p ! (1 - f)) then New (p ! (1 - f))
             else New (Bitmap (l XOR bitpos s) (splice_out p f))
         | New h \<Rightarrow>
             if \<not> c \<and> 16 \<le> length p then New (expand_nodes p l s h)
             else if c \<and> length p = 1 \<and> is_leaf h then New h
             else if c then New (Bitmap l (p[f := h]))
             else New (Bitmap (l OR bitpos s) (splice_in p f h)))"

definition array_step :: "nat \<Rightarrow> 'v hnode option list \<Rightarrow> nat \<Rightarrow> bool \<Rightarrow> 'v upd \<Rightarrow> 'v upd" where
  "array_step p l u c res =
     (case res of
        Same \<Rightarrow> Same
      | Gone \<Rightarrow> if c \<and> p - 1 < 8 then New (pack_nodes l u) else New (HashArray (p - 1) (l[u := None]))
      | New f \<Rightarrow> New (HashArray (if c then p else p + 1) (l[u := Some f])))"

text \<open>\<open>et\<close> where no node is: a new leaf, unless the operation is a removal.\<close>

definition et_empty :: "jskey \<Rightarrow> 'v option \<Rightarrow> 'v ures" where
  "et_empty r v = (case v of None \<Rightarrow> (Same, False, False) | Some x \<Rightarrow> (New (ValueN (Ce r) (r, x)), True, True))"

definition collision_update :: "nat \<Rightarrow> 32 word \<Rightarrow> (jskey \<times> 'v) list \<Rightarrow> jskey \<Rightarrow> 'v option \<Rightarrow> 'v ures" where
  "collision_update t kh s r v =
     (if Ce r \<noteq> kh then
        (case v of None \<Rightarrow> (Same, False, False)
         | Some x \<Rightarrow> (New (merge_into (Collision kh s) t (Ce r) (r, x)), True, True))
      else
        let l = entry_index r s; f = (l < length s)
        in if (if f then Some (snd (s ! l)) = v else v = None) then (Same, False, False)
           else (if v = None \<and> length s = 2 then New (ValueN kh (s ! (1 - l)))
                 else New (Collision kh (upd_entries s l r v)), True, v = None \<or> \<not> f))"

definition value_update :: "nat \<Rightarrow> 32 word \<Rightarrow> jskey \<times> 'v \<Rightarrow> jskey \<Rightarrow> 'v option \<Rightarrow> 'v ures" where
  "value_update t kh en r v =
     (if (if he r (fst en) then v = Some (snd en) else v = None) then (Same, False, False)
      else (case v of
              None \<Rightarrow> (Gone, True, True)
            | Some x \<Rightarrow>
                if he r (fst en) then (New (ValueN kh (r, x)), True, False)
                else (New (merge_into (ValueN kh en) t (Ce r) (r, x)), True, True)))"

text \<open>
  \<open>update\<close> on the four kinds of node. The child index is the one the code computes; a child the
  list does not have (\<open>undefined\<close> in the code) is treated as an empty slot.
\<close>

function hupdate :: "nat \<Rightarrow> jskey \<Rightarrow> 'v option \<Rightarrow> 'v hnode \<Rightarrow> 'v ures" where
  "hupdate t r v (Bitmap l p) =
     (let s = frag t (Ce r); c = (l AND bitpos s \<noteq> 0); f = bm_index l s
      in if \<not> c \<and> v = None then (Same, False, False)
         else
           let (res, alt, sz) = (if c \<and> f < length p then hupdate (t + 5) r v (p ! f) else et_empty r v)
           in (bitmap_step l p s c res, alt, sz))"
| "hupdate t r v (HashArray n l) =
     (let u = frag t (Ce r)
      in if u < length l then
           (case l ! u of
              None \<Rightarrow>
                if v = None then (Same, False, False)
                else let (res, alt, sz) = et_empty r v in (array_step n l u False res, alt, sz)
            | Some x \<Rightarrow>
                let (res, alt, sz) = hupdate (t + 5) r v x in (array_step n l u True res, alt, sz))
         else (Same, False, False))"
| "hupdate t r v (Collision kh s) = collision_update t kh s r v"
| "hupdate t r v (ValueN kh en) = value_update t kh en r v"
  by pat_completeness auto
termination
  by (relation "measure (\<lambda>(t, r, v, x). size x)")
    (auto simp: nth_size_less dest: nth_size_option)

subsection \<open>The map\<close>

text \<open>\<open>createNodes\<close>: a leaf for the new entry, then every old entry set into it.\<close>

fun set_all :: "'v hnode \<Rightarrow> (jskey \<times> 'v) list \<Rightarrow> 'v hnode" where
  "set_all x [] = x"
| "set_all x (a # t) =
     set_all (case fst (hupdate 0 (fst a) (Some (snd a)) x) of New y \<Rightarrow> y | _ \<Rightarrow> x) t"

definition create_nodes :: "(jskey \<times> 'v) list \<Rightarrow> jskey \<Rightarrow> 'v \<Rightarrow> 'v hnode" where
  "create_nodes t n r = set_all (ValueN (Ce n) (n, r)) t"

text \<open>\<open>update\<close> on the root: \<open>None\<close> for the node itself, \<open>Some None\<close> for \<open>undefined\<close>.\<close>

definition root_update :: "'v root \<Rightarrow> jskey \<Rightarrow> 'v option \<Rightarrow> 'v root option option \<times> bool \<times> bool" where
  "root_update rt r v =
     (case rt of
        ArrayMap s \<Rightarrow>
          let l = entry_index r s; f = (l < length s)
          in if (if f then Some (snd (s ! l)) = v else v = None) then (None, False, False)
             else
               (if v = None \<and> length s = 1 then Some None
                else if \<not> f \<and> v \<noteq> None \<and> 8 \<le> length s then Some (Some (Trie (create_nodes s r (the v))))
                else Some (Some (ArrayMap (upd_entries s l r v))), True, v = None \<or> \<not> f)
      | Trie x \<Rightarrow>
          let (res, alt, sz) = hupdate 0 r v x
          in (case res of Same \<Rightarrow> None | Gone \<Rightarrow> Some None | New y \<Rightarrow> Some (Some (Trie y)), alt, sz))"

definition empty_map :: "'v imap" where
  "empty_map = \<lparr>msize = 0, mroot = None\<rparr>"

text \<open>
  \<open>Qe(e, t, n)\<close>, behind \<open>set\<close> and \<open>remove\<close>: \<open>None\<close> where the code returns the map \<open>e\<close> itself, the same
  object, and \<open>Some\<close> map where it makes one (or returns the one empty map). The values are a type
  on which \<open>===\<close> is equality, as it is for everything but \<open>NaN\<close>.
\<close>

definition map_step :: "'v imap \<Rightarrow> jskey \<Rightarrow> 'v option \<Rightarrow> 'v imap option" where
  "map_step e t n =
     (case mroot e of
        Some rt \<Rightarrow>
          let (r, alt, sz) = root_update rt t n
          in if \<not> alt then None
             else
               let o' = (if sz then (if n = None then msize e - 1 else msize e + 1) else msize e)
               in (case r of
                     None \<Rightarrow> Some \<lparr>msize = o', mroot = Some rt\<rparr>
                   | Some None \<Rightarrow> Some empty_map
                   | Some (Some r) \<Rightarrow> Some \<lparr>msize = o', mroot = Some r\<rparr>)
      | None \<Rightarrow>
          (case n of None \<Rightarrow> None | Some x \<Rightarrow> Some \<lparr>msize = 1, mroot = Some (ArrayMap [(t, x)])\<rparr>))"

text \<open>The map one goes on with.\<close>

definition map_update :: "'v imap \<Rightarrow> jskey \<Rightarrow> 'v option \<Rightarrow> 'v imap" where
  "map_update e t n = (case map_step e t n of None \<Rightarrow> e | Some m \<Rightarrow> m)"

definition map_set :: "'v imap \<Rightarrow> jskey \<Rightarrow> 'v \<Rightarrow> 'v imap" where
  "map_set m k v = map_update m k (Some v)"

definition map_remove :: "'v imap \<Rightarrow> jskey \<Rightarrow> 'v imap" where
  "map_remove m k = map_update m k None"

definition map_get :: "'v imap \<Rightarrow> jskey \<Rightarrow> 'v option" where
  "map_get m k =
     (case mroot m of None \<Rightarrow> None | Some (ArrayMap es) \<Rightarrow> find_entry k es
      | Some (Trie x) \<Rightarrow> hget 0 (Ce k) k x)"

text \<open>The entries in the order of \<open>iterate\<close>.\<close>

fun hentries :: "'v hnode \<Rightarrow> (jskey \<times> 'v) list" where
  "hentries (Bitmap bm ns) = concat (map hentries ns)"
| "hentries (HashArray c ns) = concat (map (\<lambda>x. case x of None \<Rightarrow> [] | Some x \<Rightarrow> hentries x) ns)"
| "hentries (Collision kh es) = es"
| "hentries (ValueN kh en) = [en]"

definition map_entries :: "'v imap \<Rightarrow> (jskey \<times> 'v) list" where
  "map_entries m =
     (case mroot m of None \<Rightarrow> [] | Some (ArrayMap es) \<Rightarrow> es | Some (Trie x) \<Rightarrow> hentries x)"


subsection \<open>Bitmaps\<close>

definition cnt :: "32 word \<Rightarrow> nat \<Rightarrow> nat" where
  "cnt w n = length (bits_below w n)"

lemma cnt_Suc: "cnt w (Suc n) = cnt w n + of_bool (bit w n)"
  by (simp add: cnt_def bits_below_Suc)

lemma cnt_0 [simp]: "cnt w 0 = 0"
  by (simp add: cnt_def bits_below_def)

lemma cnt_mono: "m \<le> n \<Longrightarrow> cnt w m \<le> cnt w n"
  by (induction rule: dec_induct) (simp_all add: cnt_Suc)

lemma cnt_less: "m < n \<Longrightarrow> bit w m \<Longrightarrow> cnt w m < cnt w n"
  using cnt_mono [of "Suc m" n w] by (simp add: cnt_Suc)

lemma cnt_cong: "(\<And>i. i < n \<Longrightarrow> bit v i = bit w i) \<Longrightarrow> cnt v n = cnt w n"
  by (induction n) (simp_all add: cnt_Suc)

lemma frag_less: "frag e h < 32"
proof -
  have "drop_bit (e mod 32) h AND 31 = take_bit 5 (drop_bit (e mod 32) h)"
    by (simp add: take_bit_eq_mask mask_eq_exp_minus_1)
  then show ?thesis using take_bit_nat_less_exp [of 5 "unat (drop_bit (e mod 32) h)"]
    by (simp add: frag_def unsigned_take_bit_eq)
qed

lemma bit_bitpos: "bit (bitpos s) i \<longleftrightarrow> i = s \<and> s < 32"
  unfolding bitpos_def bit_push_bit_iff bit_1_iff by auto

lemma and_bitpos: "s < 32 \<Longrightarrow> (bm AND bitpos s = 0) \<longleftrightarrow> \<not> bit bm s"
proof
  assume "s < 32" "bm AND bitpos s = 0"
  then have "\<not> bit (bm AND bitpos s) s" by simp
  then show "\<not> bit bm s" using \<open>s < 32\<close> by (simp add: bit_and_iff bit_bitpos)
next
  assume "s < 32" "\<not> bit bm s"
  then show "bm AND bitpos s = 0" by (intro bit_word_eqI) (auto simp: bit_and_iff bit_bitpos)
qed

lemma bm_index_cnt: "s < 32 \<Longrightarrow> bm_index bm s = cnt bm s"
proof -
  assume s: "s < 32"
  have "bitpos s - 1 = mask s" by (simp add: bitpos_def mask_eq_exp_minus_1 push_bit_eq_mult)
  then have b: "bit (bm AND (bitpos s - 1)) i \<longleftrightarrow> bit bm i \<and> i < s" if "i < 32" for i
    using that s by (auto simp: bit_and_iff bit_mask_iff)
  have "[0..<32] = [0..<s] @ [s..<32]" using s upt_add_eq_append [of 0 s "32 - s"] by simp
  then have "filter (bit (bm AND (bitpos s - 1))) [0..<32] = filter (bit bm) [0..<s]"
    using b s by (auto simp: filter_empty_conv intro!: filter_cong)
  then show ?thesis by (simp add: bm_index_def ut_count cnt_def bits_below_def)
qed

lemma bit_set: "s < 32 \<Longrightarrow> bit (bm OR bitpos s) i \<longleftrightarrow> bit bm i \<or> i = s"
  by (auto simp: bit_or_iff bit_bitpos)

lemma bit_flip: "s < 32 \<Longrightarrow> bit bm s \<Longrightarrow> bit (bm XOR bitpos s) i \<longleftrightarrow> bit bm i \<and> i \<noteq> s"
  by (auto simp: bit_xor_iff bit_bitpos)

lemma cnt_set: "s < 32 \<Longrightarrow> \<not> bit bm s \<Longrightarrow> cnt (bm OR bitpos s) n = cnt bm n + of_bool (s < n)"
  by (induction n) (auto simp: cnt_Suc bit_set less_Suc_eq)

lemma cnt_flip: "s < 32 \<Longrightarrow> bit bm s \<Longrightarrow> cnt (bm XOR bitpos s) n + of_bool (s < n) = cnt bm n"
  by (induction n) (auto simp: cnt_Suc bit_flip less_Suc_eq)

lemma cnt_shift: "cnt w (Suc m) = of_bool (bit w 0) + cnt (drop_bit 1 w) m"
  by (induction m) (simp_all add: cnt_Suc bit_drop_bit_eq)

subsection \<open>Nodes by their children\<close>

definition look :: "nat \<Rightarrow> jskey \<Rightarrow> 'v hnode \<Rightarrow> 'v option" where
  "look e k x = hget e (Ce k) k x"

definition count_some :: "'a option list \<Rightarrow> nat" where
  "count_some l = length (filter (\<lambda>x. x \<noteq> None) l)"

fun ch :: "'v hnode \<Rightarrow> nat \<Rightarrow> 'v hnode option" where
  "ch (Bitmap bm ns) s = (if bit bm s then Some (ns ! cnt bm s) else None)"
| "ch (HashArray c ns) s = ns ! s"
| "ch x s = None"

fun shape :: "'v hnode \<Rightarrow> bool" where
  "shape (Bitmap bm ns) = (length ns = cnt bm 32)"
| "shape (HashArray c ns) = (length ns = 32 \<and> c = count_some ns)"
| "shape x = False"

text \<open>
  The invariant: a leaf holds entries of its hash, at least two and with distinct keys in a
  collision; an inner node has its shape, and what can be found below the child of slot \<open>s\<close> are keys
  whose hash has the fragment \<open>s\<close> at this level.
\<close>

inductive wf_node :: "nat \<Rightarrow> 'v hnode \<Rightarrow> bool" where
  wf_value: "kh = Ce (fst en) \<Longrightarrow> wf_node e (ValueN kh en)"
| wf_collision: "2 \<le> length es \<Longrightarrow> distinct (map fst es) \<Longrightarrow> \<forall>p\<in>set es. Ce (fst p) = kh \<Longrightarrow>
    wf_node e (Collision kh es)"
| wf_inner: "shape x \<Longrightarrow> (\<And>s y. s < 32 \<Longrightarrow> ch x s = Some y \<Longrightarrow> wf_node (e + 5) y) \<Longrightarrow>
    (\<And>s y k. s < 32 \<Longrightarrow> ch x s = Some y \<Longrightarrow> look (e + 5) k y \<noteq> None \<Longrightarrow> frag e (Ce k) = s) \<Longrightarrow>
    wf_node e x"

inductive_simps wf_node_value [simp]: "wf_node e (ValueN kh en)"
inductive_simps wf_node_collision [simp]: "wf_node e (Collision kh es)"

lemma wf_node_inner:
  assumes "shape x"
  shows "wf_node e x \<longleftrightarrow> (\<forall>s<32. \<forall>y. ch x s = Some y \<longrightarrow>
    wf_node (e + 5) y \<and> (\<forall>k. look (e + 5) k y \<noteq> None \<longrightarrow> frag e (Ce k) = s))"
proof
  assume "wf_node e x"
  then show "\<forall>s<32. \<forall>y. ch x s = Some y \<longrightarrow>
      wf_node (e + 5) y \<and> (\<forall>k. look (e + 5) k y \<noteq> None \<longrightarrow> frag e (Ce k) = s)"
  proof (cases rule: wf_node.cases)
    case wf_inner
    then show ?thesis by blast
  qed (use assms in simp_all)
next
  assume "\<forall>s<32. \<forall>y. ch x s = Some y \<longrightarrow>
      wf_node (e + 5) y \<and> (\<forall>k. look (e + 5) k y \<noteq> None \<longrightarrow> frag e (Ce k) = s)"
  then have "\<And>s y. s < 32 \<Longrightarrow> ch x s = Some y \<Longrightarrow> wf_node (e + 5) y"
    "\<And>s y k. s < 32 \<Longrightarrow> ch x s = Some y \<Longrightarrow> look (e + 5) k y \<noteq> None \<Longrightarrow> frag e (Ce k) = s"
    by blast+
  then show "wf_node e x" by (rule wf_inner [OF assms])
qed

lemma wf_shape: "wf_node e x \<Longrightarrow> \<not> is_leaf x \<Longrightarrow> shape x"
  by (cases rule: wf_node.cases) auto

lemma shape_not_leaf: "shape x \<Longrightarrow> \<not> is_leaf x"
  by (cases x) auto

lemma look_inner:
  assumes "shape x"
  shows "look e k x = (case ch x (frag e (Ce k)) of None \<Rightarrow> None | Some y \<Rightarrow> look (e + 5) k y)"
proof (cases x)
  case (Bitmap bm ns)
  have "cnt bm (frag e (Ce k)) < length ns" if "bit bm (frag e (Ce k))"
    using cnt_less [OF frag_less that] assms Bitmap by simp
  then show ?thesis using Bitmap by (simp add: look_def Let_def and_bitpos frag_less bm_index_cnt)
next
  case (HashArray c ns)
  then show ?thesis using assms by (auto simp: look_def Let_def frag_less split: option.splits)
qed (use assms in auto)

lemma look_leaf: "is_leaf x \<Longrightarrow> look e k x = look e' k x"
  by (cases x) (simp_all add: look_def)

lemma wf_leaf: "is_leaf x \<Longrightarrow> wf_node e x = wf_node e' x"
  by (cases x) simp_all

text \<open>Replacing the child of one slot.\<close>

lemma inner_update:
  assumes x: "wf_node e x" "shape x" and y: "shape y" and s: "s = frag e (Ce r)"
    and ch: "\<And>i. i < 32 \<Longrightarrow> ch y i = (if i = s then c else ch x i)"
    and new: "\<And>h. c = Some h \<Longrightarrow> wf_node (e + 5) h"
    and val: "\<And>k. (case c of None \<Rightarrow> None | Some h \<Rightarrow> look (e + 5) k h)
      = (if k = r then v else case ch x s of None \<Rightarrow> None | Some d \<Rightarrow> look (e + 5) k d)"
  shows "wf_node e y" "\<And>k. look e k y = (if k = r then v else look e k x)"
proof -
  have sl: "s < 32" using s frag_less by simp
  have "wf_node (e + 5) z \<and> (\<forall>k. look (e + 5) k z \<noteq> None \<longrightarrow> frag e (Ce k) = i)"
    if "i < 32" "ch y i = Some z" for i z
  proof (cases "i = s")
    case False
    then have "ch x i = Some z" using ch [OF that(1)] that by simp
    then show ?thesis using x(1) wf_node_inner [OF x(2)] that(1) by blast
  next
    case True
    then have c: "c = Some z" using ch [OF that(1)] that by simp
    have "frag e (Ce k) = s" if "look (e + 5) k z \<noteq> None" for k
    proof (cases "k = r")
      case True
      then show ?thesis using s by simp
    next
      case False
      then obtain d where "ch x s = Some d" "look (e + 5) k d \<noteq> None"
        using val [of k] c \<open>look (e + 5) k z \<noteq> None\<close> by (auto split: option.splits)
      then show ?thesis using x wf_node_inner [OF x(2)] sl by blast
    qed
    then show ?thesis using new c True by blast
  qed
  then show "wf_node e y" using wf_node_inner [OF y] by blast
  fix k
  show "look e k y = (if k = r then v else look e k x)"
  proof (cases "frag e (Ce k) = s")
    case True
    then show ?thesis using val [of k] ch [OF sl] by (auto simp: look_inner [OF y] look_inner [OF x(2)])
  next
    case False
    then have "k \<noteq> r" using s by auto
    then show ?thesis using ch [OF frag_less, of e "Ce k"] False
      by (simp add: look_inner [OF y] look_inner [OF x(2)])
  qed
qed

text \<open>A node whose only child is a leaf means the same as the leaf.\<close>

lemma single_leaf:
  assumes "wf_node e y" "shape y" "ch y s = Some z" "is_leaf z" "s < 32"
    and "\<And>i. i < 32 \<Longrightarrow> i \<noteq> s \<Longrightarrow> ch y i = None"
  shows "wf_node e z" "look e k z = look e k y"
proof -
  have z: "wf_node (e + 5) z" "\<And>k. look (e + 5) k z \<noteq> None \<Longrightarrow> frag e (Ce k) = s"
    using assms(1,3,5) wf_node_inner [OF assms(2)] by blast+
  show "wf_node e z" using z(1) wf_leaf [OF assms(4)] by blast
  show "look e k z = look e k y"
  proof (cases "frag e (Ce k) = s")
    case True
    then show ?thesis using assms(3) look_leaf [OF assms(4), of e k "e + 5"] by (simp add: look_inner [OF assms(2)])
  next
    case False
    then have "look (e + 5) k z = None" using z(2) by blast
    then show ?thesis using assms(6) [OF frag_less False] look_leaf [OF assms(4), of e k "e + 5"]
      by (simp add: look_inner [OF assms(2)])
  qed
qed


subsection \<open>The array helpers\<close>

lemma length_splice_out [simp]: "length (splice_out p f) = length p - 1"
  by (simp add: splice_out_def)

lemma length_splice_in [simp]: "length (splice_in p f h) = length p + 1"
  by (simp add: splice_in_def)

lemma nth_splice_out: "i < length p - 1 \<Longrightarrow> splice_out p f ! i = p ! (if i < f then i else i + 1)"
  by (simp add: splice_out_def)

lemma nth_splice_in:
  "i < length p + 1 \<Longrightarrow> splice_in p f h ! i = (if i = f then h else p ! (if i < f then i else i - 1))"
  unfolding splice_in_def by (subst nth_map) (simp_all add: nth_append del: upt_Suc)

lemma ch_replace:
  assumes "shape (Bitmap l p)" "bit l s" "s < 32" "i < 32"
  shows "shape (Bitmap l (p[cnt l s := h]))"
    and "ch (Bitmap l (p[cnt l s := h])) i = (if i = s then Some h else ch (Bitmap l p) i)"
proof -
  show "shape (Bitmap l (p[cnt l s := h]))" using assms(1) by simp
  have "cnt l s < length p" using cnt_less [OF assms(3,2)] assms(1) by simp
  moreover have "cnt l i \<noteq> cnt l s" if "bit l i" "i \<noteq> s"
    using cnt_less [of i s l] cnt_less [of s i l] that assms(2) by (metis less_irrefl linorder_neqE_nat)
  ultimately show "ch (Bitmap l (p[cnt l s := h])) i = (if i = s then Some h else ch (Bitmap l p) i)"
    using assms(2) by auto
qed

lemma ch_splice_in:
  assumes "shape (Bitmap l p)" "\<not> bit l s" "s < 32"
  shows "shape (Bitmap (l OR bitpos s) (splice_in p (cnt l s) h))"
    and "i < 32 \<Longrightarrow> ch (Bitmap (l OR bitpos s) (splice_in p (cnt l s) h)) i
      = (if i = s then Some h else ch (Bitmap l p) i)"
proof -
  show "shape (Bitmap (l OR bitpos s) (splice_in p (cnt l s) h))"
    using assms by (simp add: cnt_set)
  assume i: "i < 32"
  have c: "cnt l i < length p" if "bit l i" using cnt_less [OF i that] assms(1) by simp
  show "ch (Bitmap (l OR bitpos s) (splice_in p (cnt l s) h)) i
      = (if i = s then Some h else ch (Bitmap l p) i)"
  proof (cases "i = s")
    case True
    have "cnt l s \<le> length p" using cnt_mono [of s 32 l] assms(1,3) by simp
    then show ?thesis using True assms(2,3) by (simp add: bit_set cnt_set nth_splice_in)
  next
    case False
    then show ?thesis
      using assms c cnt_less [of i s l] cnt_mono [of s i l]
      by (cases "i < s") (auto simp: bit_set cnt_set nth_splice_in)
  qed
qed

lemma ch_splice_out:
  assumes "shape (Bitmap l p)" "bit l s" "s < 32"
  shows "shape (Bitmap (l XOR bitpos s) (splice_out p (cnt l s)))"
    and "i < 32 \<Longrightarrow> ch (Bitmap (l XOR bitpos s) (splice_out p (cnt l s))) i
      = (if i = s then None else ch (Bitmap l p) i)"
proof -
  have f: "cnt (l XOR bitpos s) n = cnt l n - of_bool (s < n)" for n
    using cnt_flip [OF assms(3,2), of n] by simp
  show "shape (Bitmap (l XOR bitpos s) (splice_out p (cnt l s)))"
    using assms by (simp add: f)
  assume i: "i < 32"
  show "ch (Bitmap (l XOR bitpos s) (splice_out p (cnt l s))) i
      = (if i = s then None else ch (Bitmap l p) i)"
  proof (cases "i \<noteq> s \<and> bit l i")
    case False
    then show ?thesis using assms by (auto simp: bit_flip)
  next
    case True
    then have b: "bit (l XOR bitpos s) i" using assms by (simp add: bit_flip)
    have len: "cnt (l XOR bitpos s) i < length p - 1"
      using cnt_less [OF i b] assms by (simp add: f)
    show ?thesis
    proof (cases "i < s")
      case True
      then have "cnt l i < cnt l s" using cnt_less \<open>i \<noteq> s \<and> bit l i\<close> by blast
      then show ?thesis using True b len \<open>i \<noteq> s \<and> bit l i\<close> by (simp add: f nth_splice_out)
    next
      case False
      then have "cnt l s < cnt l i" using cnt_less [of s i l] assms(2) True by simp
      then show ?thesis using False b len True by (auto simp: f nth_splice_out)
    qed
  qed
qed

lemma expand_loop_nth:
  assumes "length ts = cnt n 32"
  shows "length (expand_loop n ts u a) = length a"
    and "j < length a \<Longrightarrow> expand_loop n ts u a ! j
      = (if u \<le> j \<and> bit n (j - u) then Some (ts ! cnt n (j - u)) else a ! j)"
proof -
  have *: "length (expand_loop n ts u a) = length a \<and> (\<forall>j<length a. expand_loop n ts u a ! j
      = (if u \<le> j \<and> bit n (j - u) then Some (ts ! cnt n (j - u)) else a ! j))"
    if "length ts = cnt n 32"
    using that
  proof (induction n ts u a rule: expand_loop.induct)
    case (1 n ts u a)
    have sh: "cnt n 32 = of_bool (bit n 0) + cnt (drop_bit 1 n) 31" using cnt_shift [of n 31] by simp
    have "cnt (drop_bit 1 n) 32 = cnt (drop_bit 1 n) 31"
      using cnt_Suc [of "drop_bit 1 n" 31] bit_imp_le_length [of n 32] by (auto simp: bit_drop_bit_eq)
    then have len: "length ts = of_bool (bit n 0) + cnt (drop_bit 1 n) 32" using 1(3) sh by simp
    have b0: "(1 AND n \<noteq> 0) = bit n 0" by (simp add: one_and_eq bit_0 mod_2_eq_odd)
    have cj: "bit n (j - u) = bit (drop_bit 1 n) (j - (u + 1))"
      "cnt n (j - u) = of_bool (bit n 0) + cnt (drop_bit 1 n) (j - (u + 1))" if "u < j" for j
      using that cnt_shift [of n "j - (u + 1)"] by (simp_all add: bit_drop_bit_eq Suc_diff_Suc)
    consider "n = 0" | "n \<noteq> 0" "bit n 0" | "n \<noteq> 0" "\<not> bit n 0" by blast
    then show ?case
    proof cases
      case 1
      then show ?thesis by (subst (1 2) expand_loop.simps) simp
    next
      case 2
      have l: "length (drop 1 ts) = cnt (drop_bit 1 n) 32" using len 2 by simp
      note IH = 1(1) [OF 2(1) _ l]
      have e: "expand_loop n ts u a = expand_loop (drop_bit 1 n) (drop 1 ts) (u + 1) (a[u := Some (hd ts)])"
        using 2 b0 by (subst expand_loop.simps) simp
      have hd: "hd ts = ts ! 0" using len 2 by (cases ts) simp_all
      have "expand_loop (drop_bit 1 n) (drop 1 ts) (u + 1) (a[u := Some (hd ts)]) ! j
          = (if u \<le> j \<and> bit n (j - u) then Some (ts ! cnt n (j - u)) else a ! j)" if "j < length a" for j
      proof -
        note v = mp [OF spec [OF conjunct2 [OF IH]], of j, unfolded length_list_update, OF _ that]
        consider "j < u" | "j = u" | "u < j" by linarith
        then show ?thesis
        proof cases
          case 3
          have t: "drop 1 ts ! c = ts ! Suc c" if "c < length ts - 1" for c using that by simp
          have "cnt (drop_bit 1 n) (j - (u + 1)) < cnt (drop_bit 1 n) 32" if "bit (drop_bit 1 n) (j - (u + 1))"
            using that bit_imp_le_length [OF that] by (intro cnt_less) simp_all
          then show ?thesis using v b0 2 cj [OF 3] 3 t len by (auto simp: Suc_le_eq)
        qed (use v b0 2 hd that in simp_all)
      qed
      then show ?thesis unfolding e using IH b0 2 by simp
    next
      case 3
      have l: "length ts = cnt (drop_bit 1 n) 32" using len 3 by simp
      note IH = 1(2) [OF 3(1) _ l]
      have e: "expand_loop n ts u a = expand_loop (drop_bit 1 n) ts (u + 1) a"
        using 3 b0 by (subst expand_loop.simps) simp
      have "expand_loop (drop_bit 1 n) ts (u + 1) a ! j
          = (if u \<le> j \<and> bit n (j - u) then Some (ts ! cnt n (j - u)) else a ! j)" if "j < length a" for j
      proof -
        note v = mp [OF spec [OF conjunct2 [OF IH]], of j, OF _ that]
        consider "j < u" | "j = u" | "u < j" by linarith
        then show ?thesis
        proof cases
          case c: 3
          then show ?thesis using v b0 3 cj [OF c] by (auto simp: Suc_le_eq)
        qed (use v b0 3 in simp_all)
      qed
      then show ?thesis unfolding e using IH b0 3 by simp
    qed
  qed
  show "length (expand_loop n ts u a) = length a" using * assms by blast
  show "j < length a \<Longrightarrow> expand_loop n ts u a ! j
      = (if u \<le> j \<and> bit n (j - u) then Some (ts ! cnt n (j - u)) else a ! j)" using * assms by blast
qed


lemma pack_loop_bits:
  assumes "u + length t \<le> 32" "pack_loop t r u = (bm, a)"
  shows "bit bm j \<longleftrightarrow> u \<le> j \<and> j < u + length t \<and> t ! (j - u) \<noteq> None \<and> j \<noteq> r"
    and "length a = cnt bm 32"
    and "bit bm j \<Longrightarrow> a ! cnt bm j = the (t ! (j - u))"
proof -
  have "(\<forall>j. bit bm j \<longleftrightarrow> u \<le> j \<and> j < u + length t \<and> t ! (j - u) \<noteq> None \<and> j \<noteq> r)
    \<and> length a = cnt bm 32 \<and> (\<forall>j. bit bm j \<longrightarrow> a ! cnt bm j = the (t ! (j - u)))"
    using assms
  proof (induction t r u arbitrary: bm a rule: pack_loop.induct)
    case (1 r u)
    have "cnt 0 n = 0" for n by (induction n) (simp_all add: cnt_Suc)
    then show ?case using 1 by auto
  next
    case (2 c t r u)
    obtain bm' a' where r: "pack_loop t r (u + 1) = (bm', a')" by fastforce
    have IH: "\<And>j. bit bm' j \<longleftrightarrow> u + 1 \<le> j \<and> j < u + 1 + length t \<and> t ! (j - (u + 1)) \<noteq> None \<and> j \<noteq> r"
      "length a' = cnt bm' 32" "\<And>j. bit bm' j \<Longrightarrow> a' ! cnt bm' j = the (t ! (j - (u + 1)))"
      using 2(1) [OF _ r] 2(2) by auto
    have nth: "(c # t) ! (j - u) = t ! (j - (u + 1))" if "u < j" for j using that by (simp add: nth_Cons')
    show ?case
    proof (cases "c \<noteq> None \<and> u \<noteq> r")
      case False
      then have e: "bm = bm'" "a = a'" using 2(3) r by (auto split: option.splits)
      have "bit bm' j \<longleftrightarrow> u \<le> j \<and> j < u + length (c # t) \<and> (c # t) ! (j - u) \<noteq> None \<and> j \<noteq> r" for j
        using IH(1) [of j] False nth [of j] by (cases "j = u") (auto simp: less_Suc_eq_le Suc_le_eq)
      moreover have "a' ! cnt bm' j = the ((c # t) ! (j - u))" if "bit bm' j" for j
      proof -
        have "u < j" using IH(1) [of j] that by simp
        show ?thesis unfolding nth [OF \<open>u < j\<close>] by (rule IH(3) [OF that])
      qed
      ultimately show ?thesis using IH(2) unfolding e by blast
    next
      case True
      then obtain x where x: "c = Some x" by auto
      have e: "bm = bm' OR bitpos u" "a = x # a'" using 2(3) r True x by (auto simp: or.commute)
      have u: "u < 32" "\<not> bit bm' u" using 2(2) IH(1) by auto
      note b = bit_set [OF u(1), of bm'] and c' = cnt_set [OF u]
      have "cnt bm' u = 0"
      proof -
        have "cnt bm' n = 0" if "n \<le> u" for n using that
        proof (induction n)
          case (Suc n)
          then show ?case using IH(1) [of n] by (simp add: cnt_Suc)
        qed simp
        then show ?thesis by simp
      qed
      have "bit bm j \<longleftrightarrow> u \<le> j \<and> j < u + length (c # t) \<and> (c # t) ! (j - u) \<noteq> None \<and> j \<noteq> r" for j
        using IH(1) [of j] True nth [of j] x unfolding e b by (cases "j = u") (auto simp: less_Suc_eq_le Suc_le_eq)
      moreover have "length a = cnt bm 32" using IH(2) u by (simp add: e c')
      moreover have "a ! cnt bm j = the ((c # t) ! (j - u))" if "bit bm j" for j
      proof (cases "j = u")
        case True
        then show ?thesis using \<open>cnt bm' u = 0\<close> x by (simp add: e c')
      next
        case False
        then have "bit bm' j" "u < j" using that IH(1) [of j] by (auto simp: e b)
        then show ?thesis using IH(3) nth by (simp add: e c')
      qed
      ultimately show ?thesis by blast
    qed
  qed
  then show "bit bm j \<longleftrightarrow> u \<le> j \<and> j < u + length t \<and> t ! (j - u) \<noteq> None \<and> j \<noteq> r"
    "length a = cnt bm 32" "bit bm j \<Longrightarrow> a ! cnt bm j = the (t ! (j - u))" by blast+
qed

lemma ch_pack:
  assumes "length t = 32"
  shows "shape (pack_nodes t r)" and "i < 32 \<Longrightarrow> ch (pack_nodes t r) i = (if i = r then None else t ! i)"
proof -
  obtain bm a where p: "pack_loop t r 0 = (bm, a)" by fastforce
  note b = pack_loop_bits [OF _ p]
  show "shape (pack_nodes t r)" using b(2) assms by (simp add: pack_nodes_def p)
  show "i < 32 \<Longrightarrow> ch (pack_nodes t r) i = (if i = r then None else t ! i)"
    using b(1) [of i] b(3) [of i] assms by (auto simp: pack_nodes_def p)
qed

lemma count_some_update:
  "i < length l \<Longrightarrow> count_some (l[i := y]) + of_bool (l ! i \<noteq> None) = count_some l + of_bool (y \<noteq> None)"
  unfolding count_some_def
proof (induction l arbitrary: i)
  case (Cons x l)
  then show ?case by (cases i) auto
qed simp

lemma count_some_replicate [simp]: "count_some (replicate n None) = 0"
  by (simp add: count_some_def)

lemma count_some_bits:
  assumes "length l = 32" "\<And>i. i < 32 \<Longrightarrow> (l ! i \<noteq> None) = bit n i"
  shows "count_some l = cnt n 32"
proof -
  have "l = map (\<lambda>i. l ! i) [0..<32]" using assms(1) map_nth [of l] by simp
  then have "count_some l = length (filter (\<lambda>i. l ! i \<noteq> None) [0..<32])"
    unfolding count_some_def by (metis (mono_tags, lifting) comp_apply filter_cong filter_map length_map)
  also have "filter (\<lambda>i. l ! i \<noteq> None) [0..<32] = filter (bit n) [0..<32]"
    using assms(2) by (intro filter_cong) auto
  finally show ?thesis by (simp add: cnt_def bits_below_def)
qed

lemma ch_expand:
  assumes "shape (Bitmap l p)" "\<not> bit l s" "s < 32"
  shows "shape (expand_nodes p l s h)"
    and "i < 32 \<Longrightarrow> ch (expand_nodes p l s h) i = (if i = s then Some h else ch (Bitmap l p) i)"
proof -
  let ?a = "expand_loop l p 0 (replicate 32 None)"
  have len: "length p = cnt l 32" using assms(1) by simp
  have a: "length ?a = 32" "\<And>i. i < 32 \<Longrightarrow> ?a ! i = (if bit l i then Some (p ! cnt l i) else None)"
    using expand_loop_nth(1) [OF len, where u = 0 and a = "replicate 32 None"]
      expand_loop_nth(2) [OF len, where u = 0 and a = "replicate 32 None"] by auto
  have "count_some ?a = cnt l 32" using a by (intro count_some_bits) auto
  then show "shape (expand_nodes p l s h)"
    using count_some_update [of s ?a "Some h"] a assms(2,3) len by (simp add: expand_nodes_def)
  show "i < 32 \<Longrightarrow> ch (expand_nodes p l s h) i = (if i = s then Some h else ch (Bitmap l p) i)"
    using a assms(3) by (auto simp: expand_nodes_def nth_list_update)
qed

lemma ch_array:
  assumes "shape (HashArray n l)" "s < 32"
  shows "shape (HashArray (n + of_bool (y \<noteq> None) - of_bool (l ! s \<noteq> None)) (l[s := y]))"
    and "ch (HashArray m (l[s := y])) i = (if i = s then y else ch (HashArray n l) i)"
  using assms count_some_update [of s l y] by (auto simp: nth_list_update)


subsection \<open>Leaves that meet\<close>

lemma find_entry_map_of: "find_entry k es = map_of es k"
  by (induction es) auto

lemma entry_index_found:
  "k \<in> fst ` set es \<Longrightarrow> entry_index k es < length es \<and> fst (es ! entry_index k es) = k"
  "k \<notin> fst ` set es \<Longrightarrow> entry_index k es = length es"
  by (induction es) auto

lemma entry_index_value:
  "entry_index k es < length es \<Longrightarrow> map_of es k = Some (snd (es ! entry_index k es))"
  by (induction es) auto

lemma entry_index_iff: "entry_index k es < length es \<longleftrightarrow> k \<in> fst ` set es"
  by (induction es) auto

lemma upd_entries_mset:
  assumes "distinct (map fst d)" "l = entry_index r d"
  shows "mset (upd_entries d l r v)
    = mset (filter (\<lambda>p. fst p \<noteq> r) d) + (case v of None \<Rightarrow> {#} | Some x \<Rightarrow> {#(r, x)#})"
proof (cases "l < length d")
  case False
  then have "r \<notin> fst ` set d" using assms(2) entry_index_iff by blast
  then have "filter (\<lambda>p. fst p \<noteq> r) d = d" by (intro filter_True) force
  then show ?thesis using False by (simp add: upd_entries_def split: option.splits)
next
  case True
  then have k: "fst (d ! l) = r" using assms(2) entry_index_iff entry_index_found by blast
  obtain a b where d: "d = a @ (r, snd (d ! l)) # b" and la: "length a = l"
    using True k id_take_nth_drop [of l d] by (metis length_take less_or_eq_imp_le min.absorb2 prod.collapse)
  let ?y = "(r, snd (d ! l))"
  have n: "r \<notin> fst ` set a" "r \<notin> fst ` set b" using assms(1) unfolding arg_cong [OF d, of "map fst"] by auto
  then have "filter (\<lambda>p. fst p \<noteq> r) a = a" "filter (\<lambda>p. fst p \<noteq> r) b = b"
    by (auto intro!: filter_True)
  then have f: "filter (\<lambda>p. fst p \<noteq> r) d = a @ b"
    using arg_cong [OF d, of "filter (\<lambda>p. fst p \<noteq> r)"] by simp
  show ?thesis
  proof (cases v)
    case (Some x)
    have "d[l := (r, x)] = a @ (r, x) # b" using arg_cong [OF d, of "\<lambda>d. d[l := (r, x)]"] la by (simp add: append_update_length)
    then show ?thesis using True Some f by (simp add: upd_entries_def)
  next
    case None
    have len: "length d = Suc (l + length b)" using arg_cong [OF d, of length] la by simp
    show ?thesis
    proof (cases b rule: rev_cases)
      case Nil
      then have "butlast d = a" using arg_cong [OF d, of butlast] by simp
      then show ?thesis using None f Nil len by (simp add: upd_entries_def)
    next
      case (snoc b' z)
      have e: "butlast d = a @ ?y # b'" "last d = z"
        using arg_cong [OF d, of butlast] arg_cong [OF d, of last] snoc by (simp_all add: butlast_append)
      have "(butlast d)[l := last d] = a @ z # b'" unfolding e using la by (simp add: append_update_length)
      then show ?thesis using None True f snoc len by (simp add: upd_entries_def)
    qed
  qed
qed

end
