(* ===== verification/ImmMap.thy ===== *)
theory ImmMap
  imports ImmNode
begin

section \<open>The persistent map is a map\<close>

text \<open>
  The operations of the trie keep the invariant of its nodes and change the meaning of a node at
  one key only; so a \<open>Map\<close> built by any sequence of \<open>set\<close> and \<open>remove\<close> is the finite map they
  describe, its size is the number of keys, and its iteration lists every entry once.
\<close>

subsection \<open>Two leaves below one node\<close>

lemma cnt_zero [simp]: "cnt 0 n = 0"
  by (induction n) (simp_all add: cnt_Suc)

lemma cnt_bitpos: "s < 32 \<Longrightarrow> cnt (bitpos s) n = of_bool (s < n)"
  using cnt_set [of s 0 n] by simp

lemma ch_one:
  assumes "s < 32"
  shows "shape (Bitmap (bitpos s) [y])" and "i < 32 \<Longrightarrow> ch (Bitmap (bitpos s) [y]) i = (if i = s then Some y else None)"
  using assms by (auto simp: cnt_bitpos bit_bitpos)

lemma ch_two:
  fixes x z :: "'v hnode"
  assumes "a < 32" "u < 32" "a \<noteq> u"
  defines "y \<equiv> Bitmap (bitpos a OR bitpos u) (if a < u then [x, z] else [z, x])"
  shows "shape y" and "i < 32 \<Longrightarrow> ch y i = (if i = a then Some x else if i = u then Some z else None)"
proof -
  have b: "\<not> bit (bitpos a) u" using assms by (simp add: bit_bitpos)
  have "splice_in [x] (cnt (bitpos a) u) z = (if a < u then [x, z] else [z, x])"
    using assms by (simp add: cnt_bitpos splice_in_def numeral_2_eq_2)
  then have y: "y = Bitmap (bitpos a OR bitpos u) (splice_in [x] (cnt (bitpos a) u) z)"
    by (simp add: y_def)
  note s = ch_splice_in [OF ch_one(1) [OF assms(1), where y = x] b assms(2), where h = z]
  show "shape y" unfolding y by (rule s)
  show "i < 32 \<Longrightarrow> ch y i = (if i = a then Some x else if i = u then Some z else None)"
    using s(2) [where i = i] ch_one(2) [OF assms(1), where i = i and y = x] assms(3) unfolding y by auto
qed

lemma leaf_hash: "is_leaf x \<Longrightarrow> wf_node e x \<Longrightarrow> look e k x \<noteq> None \<Longrightarrow> Ce k = key_hash x"
  by (cases x) (auto simp: look_def find_entry_map_of dest!: map_of_SomeD split: if_splits)

text \<open>A node whose children are those of slot \<open>a\<close> and \<open>u\<close> only.\<close>

lemma merge_into_correct:
  assumes "is_leaf x" "wf_node n x" "r = Ce (fst en)" "look n (fst en) x = None"
    and "key_hash x = r \<Longrightarrow> \<exists>kh en'. x = ValueN kh en'"
  shows "wf_node n (merge_into x n r en)
    \<and> (\<forall>k. look n k (merge_into x n r en) = (if k = fst en then Some (snd en) else look n k x))"
  using assms
proof (induction x n r en rule: merge_into.induct)
  case (1 x n r en)
  note leaf = look_leaf [OF 1(2)] wf_leaf [OF 1(2)]
  show ?case
  proof (cases "key_hash x = r")
    case True
    then obtain kh en' where x: "x = ValueN kh en'" using 1(6) by blast
    then have "Ce (fst en') = r" "fst en' \<noteq> fst en" using 1(3,5) True by (auto simp: look_def)
    moreover have "merge_into x n r en = Collision r [en', en]"
      using True x by (subst merge_into.simps) simp
    ultimately show ?thesis using x 1(4) True by (auto simp: look_def)
  next
    case False
    define a u where "a = frag n (key_hash x)" and "u = frag n r"
    have au: "a < 32" "u < 32" by (simp_all add: a_def u_def frag_less)
    have fx: "frag n (Ce k) = a" if "look (n + 5) k x \<noteq> None" for k
      using that leaf_hash [OF 1(2), of "n + 5" k] 1(3) leaf(2) [of n "n + 5"] by (simp add: a_def)
    show ?thesis
    proof (cases "a = u")
      case True
      let ?m = "merge_into x (n + 5) r en"
      have m: "merge_into x n r en = Bitmap (bitpos a) [?m]"
        using False True by (subst merge_into.simps) (simp add: a_def u_def Let_def)
      have IH: "wf_node (n + 5) ?m" "\<And>k. look (n + 5) k ?m = (if k = fst en then Some (snd en) else look (n + 5) k x)"
        using 1(1) [OF False a_def u_def True 1(2) _ 1(4) _ 1(6)] 1(3,5) leaf(2) [of n "n + 5"] leaf(1) [of n "fst en" "n + 5"]
        by auto
      have fm: "frag n (Ce k) = a" if "look (n + 5) k ?m \<noteq> None" for k
        using that IH(2) fx 1(4) True u_def by (cases "k = fst en") auto
      note c = ch_one [OF au(1), where y = ?m]
      have "wf_node n (merge_into x n r en)" unfolding m wf_node_inner [OF c(1)] using c(2) IH(1) fm by auto
      moreover have "look n k (merge_into x n r en) = (if k = fst en then Some (snd en) else look n k x)" for k
      proof -
        have "look n k (merge_into x n r en) = (if frag n (Ce k) = a then look (n + 5) k ?m else None)"
          unfolding m look_inner [OF c(1)] using c(2) [OF frag_less] by simp
        also have "\<dots> = look (n + 5) k ?m" using fm [of k] by (cases "look (n + 5) k ?m") auto
        finally show ?thesis using IH(2) leaf(1) [of n k "n + 5"] by simp
      qed
      ultimately show ?thesis by blast
    next
      case d: False
      let ?v = "ValueN r en"
      have m: "merge_into x n r en = Bitmap (bitpos a OR bitpos u) (if a < u then [x, ?v] else [?v, x])"
        using False d by (subst merge_into.simps) (simp add: a_def u_def Let_def)
      note c = ch_two [OF au d, where x = x and z = ?v, folded m]
      have fv: "look (n + 5) k ?v = (if k = fst en then Some (snd en) else None)" for k
        by (simp add: look_def)
      have "wf_node n (merge_into x n r en)" unfolding wf_node_inner [OF c(1)]
        using c(2) fx fv 1(3,4) u_def leaf(2) [of n "n + 5"] by (auto split: if_splits)
      moreover have "look n k (merge_into x n r en) = (if k = fst en then Some (snd en) else look n k x)" for k
      proof -
        have "look n k (merge_into x n r en) = (if frag n (Ce k) = a then look (n + 5) k x
            else if frag n (Ce k) = u then look (n + 5) k ?v else None)"
          unfolding look_inner [OF c(1)] using c(2) [OF frag_less] by simp
        then show ?thesis using fv fx [of k] leaf(1) [of n k "n + 5"] 1(4,5) d u_def
          by (cases "k = fst en"; cases "look (n + 5) k x") auto
      qed
      ultimately show ?thesis by blast
    qed
  qed
qed

subsection \<open>Update of a node\<close>

lemma upd_entries_facts:
  assumes "distinct (map fst d)" "l = entry_index r d"
  shows "distinct (map fst (upd_entries d l r v))"
    and "map_of (upd_entries d l r v) k = (if k = r then v else map_of d k)"
    and "fst ` set (upd_entries d l r v) \<subseteq> insert r (fst ` set d)"
    and "length (upd_entries d l r v) + of_bool (map_of d r \<noteq> None) = length d + of_bool (v \<noteq> None)"
proof -
  let ?f = "filter (\<lambda>p. fst p \<noteq> r) d" and ?g = "case v of None \<Rightarrow> [] | Some x \<Rightarrow> [(r, x)]"
  have m: "mset (upd_entries d l r v) = mset (?f @ ?g)"
    using upd_entries_mset [OF assms, of v] by (simp split: option.splits)
  have d: "distinct (map fst (?f @ ?g))"
    using assms(1) by (auto simp: distinct_map_filter split: option.splits)
  show d': "distinct (map fst (upd_entries d l r v))"
    using d m by (metis mset_eq_imp_distinct_iff mset_map)
  have "map_of (upd_entries d l r v) = map_of (?f @ ?g)"
    by (rule map_of_inject_set [OF d' d, THEN iffD2]) (rule mset_eq_setD [OF m])
  moreover have "map_of ?f k = (if k = r then None else map_of d k)" for k
    by (induction d) auto
  ultimately show "map_of (upd_entries d l r v) k = (if k = r then v else map_of d k)"
    by (auto simp: map_add_def split: option.splits)
  show "fst ` set (upd_entries d l r v) \<subseteq> insert r (fst ` set d)"
    using mset_eq_setD [OF m] by (auto split: option.splits)
  have "length ?f + of_bool (r \<in> fst ` set d) = length d"
    using assms(1) by (induction d) auto
  then have "length ?f + of_bool (map_of d r \<noteq> None) = length d" by (simp only: map_of_eq_None_iff not_not)
  then show "length (upd_entries d l r v) + of_bool (map_of d r \<noteq> None) = length d + of_bool (v \<noteq> None)"
    using mset_eq_length [OF m] by (auto split: option.splits)
qed

text \<open>What an update at key \<open>r\<close> with value \<open>v\<close> promises about a node.\<close>

definition upd_ok :: "nat \<Rightarrow> 'v hnode \<Rightarrow> jskey \<Rightarrow> 'v option \<Rightarrow> 'v ures \<Rightarrow> bool" where
  "upd_ok e x r v u \<longleftrightarrow>
     (case u of (res, alt, sz) \<Rightarrow>
       sz = ((look e r x = None) \<noteq> (v = None)) \<and>
       (case res of
          Same \<Rightarrow> \<not> alt \<and> look e r x = v
        | Gone \<Rightarrow> alt \<and> v = None \<and> look e r x \<noteq> None \<and> (\<forall>k. k \<noteq> r \<longrightarrow> look e k x = None)
        | New y \<Rightarrow> alt \<and> look e r x \<noteq> v \<and> wf_node e y \<and> (\<forall>k. look e k y = (if k = r then v else look e k x))))"

lemma collision_update_ok:
  assumes "wf_node e (Collision kh s)"
  shows "upd_ok e (Collision kh s) r v (collision_update e kh s r v)"
proof -
  have w: "2 \<le> length s" "distinct (map fst s)" "\<And>p. p \<in> set s \<Longrightarrow> Ce (fst p) = kh" using assms by auto
  have look: "look e k (Collision kh s) = map_of s k" for k by (simp add: look_def find_entry_map_of)
  show ?thesis
  proof (cases "Ce r = kh")
    case False
    then have n: "map_of s r = None" using w(3) by (force simp: map_of_eq_None_iff)
    show ?thesis
    proof (cases v)
      case (Some x)
      have "wf_node e (merge_into (Collision kh s) e (Ce r) (r, x))
          \<and> (\<forall>k. look e k (merge_into (Collision kh s) e (Ce r) (r, x))
              = (if k = fst (r, x) then Some (snd (r, x)) else look e k (Collision kh s)))"
        by (rule merge_into_correct) (use assms n look False in auto)
      then show ?thesis using Some False n by (simp add: collision_update_def upd_ok_def look)
    qed (use False n in \<open>simp add: collision_update_def upd_ok_def look\<close>)
  next
    case True
    define l where "l = entry_index r s"
    have f: "l < length s \<longleftrightarrow> map_of s r \<noteq> None"
      by (simp add: l_def entry_index_iff map_of_eq_None_iff)
    have val: "map_of s r = Some (snd (s ! l))" if "l < length s"
      using that unfolding l_def by (rule entry_index_value)
    note u = upd_entries_facts [OF w(2) l_def, where v = v]
    show ?thesis
    proof (cases "map_of s r = v")
      case True
      then have "collision_update e kh s r v = (Same, False, False)"
        using \<open>Ce r = kh\<close> f val by (cases "l < length s") (auto simp: collision_update_def l_def [symmetric] Let_def)
      then show ?thesis using True by (simp add: upd_ok_def look)
    next
      case neq: False
      then have c: "\<not> (if l < length s then Some (snd (s ! l)) = v else v = None)"
        using f val by (cases "l < length s") auto
      show ?thesis
      proof (cases "v = None \<and> length s = 2")
        case True
        have "map_of s r \<noteq> None" using neq True by simp
        then have "l < length s" using f by blast
        then have r: "l < 2" using True by simp
        obtain p q where s: "s = [p, q]" using True by (auto simp: length_Suc_conv numeral_2_eq_2)
        have e: "collision_update e kh s r v = (New (ValueN kh (s ! (1 - l))), True, True)"
          using True c r \<open>Ce r = kh\<close> by (simp add: collision_update_def l_def [symmetric] Let_def)
        show ?thesis unfolding e using True r \<open>map_of s r \<noteq> None\<close> w(2,3) s l_def
          by (auto simp: upd_ok_def look look_def split: if_splits)
      next
        case False
        have e: "collision_update e kh s r v = (New (Collision kh (upd_entries s l r v)), True, v = None \<or> \<not> l < length s)"
          using False c \<open>Ce r = kh\<close> by (simp add: collision_update_def l_def [symmetric] Let_def)
        have "2 \<le> length (upd_entries s l r v)" using u(4) w(1) False neq by (cases v; cases "map_of s r") auto
        moreover have "\<forall>p\<in>set (upd_entries s l r v). Ce (fst p) = kh" using u(3) w(3) True by fastforce
        ultimately have "wf_node e (Collision kh (upd_entries s l r v))" using u(1) by simp
        then show ?thesis unfolding e using u(2) f neq
          by (auto simp: upd_ok_def look look_def find_entry_map_of)
      qed
    qed
  qed
qed

lemma value_update_ok:
  assumes "wf_node e (ValueN kh en)"
  shows "upd_ok e (ValueN kh en) r v (value_update e kh en r v)"
proof -
  have look: "look e k (ValueN kh en) = (if k = fst en then Some (snd en) else None)" for k
    by (simp add: look_def)
  show ?thesis
  proof (cases "r \<noteq> fst en \<and> v \<noteq> None")
    case True
    then obtain x where x: "v = Some x" by auto
    have "wf_node e (merge_into (ValueN kh en) e (Ce r) (r, x))
        \<and> (\<forall>k. look e k (merge_into (ValueN kh en) e (Ce r) (r, x))
            = (if k = fst (r, x) then Some (snd (r, x)) else look e k (ValueN kh en)))"
      by (rule merge_into_correct) (use assms True look in auto)
    then show ?thesis using True x by (simp add: value_update_def upd_ok_def look)
  next
    case False
    then show ?thesis using assms
      by (cases v) (auto simp: value_update_def upd_ok_def look look_def split: if_splits)
  qed
qed

text \<open>One slot of an inner node after the update of its child.\<close>

definition slot_ok :: "nat \<Rightarrow> 'v hnode option \<Rightarrow> jskey \<Rightarrow> 'v option \<Rightarrow> 'v ures \<Rightarrow> bool" where
  "slot_ok e d r v u \<longleftrightarrow>
     (case d of Some x \<Rightarrow> upd_ok e x r v u
      | None \<Rightarrow> (case v of None \<Rightarrow> False | Some x \<Rightarrow> u = (New (ValueN (Ce r) (r, x)), True, True)))"

definition slot_look :: "nat \<Rightarrow> jskey \<Rightarrow> 'v hnode option \<Rightarrow> 'v option" where
  "slot_look e k d = (case d of None \<Rightarrow> None | Some x \<Rightarrow> look e k x)"

lemma slot_ok_facts:
  assumes "slot_ok e d r v (res, alt, sz)"
  shows "sz = ((slot_look e r d = None) \<noteq> (v = None))"
    and "res = Same \<Longrightarrow> \<not> alt \<and> slot_look e r d = v"
    and "res = Gone \<Longrightarrow> alt \<and> d \<noteq> None \<and> v = None \<and> (\<forall>k. k \<noteq> r \<longrightarrow> slot_look e k d = None)"
    and "res = New h \<Longrightarrow> alt \<and> slot_look e r d \<noteq> v \<and> wf_node e h \<and> (\<forall>k. look e k h = (if k = r then v else slot_look e k d))"
  using assms by (auto simp: slot_ok_def upd_ok_def slot_look_def look_def split: option.splits)

lemma look_slot: "shape x \<Longrightarrow> look e k x = slot_look (e + 5) k (ch x (frag e (Ce k)))"
  by (simp add: look_inner slot_look_def)

text \<open>The node with one slot changed, as \<open>inner_update\<close> gives it for the result of a child.\<close>

lemma slot_update:
  assumes x: "wf_node e x" "shape x" and y: "shape y"
    and ok: "slot_ok (e + 5) (ch x (frag e (Ce r))) r v (res, alt, sz)"
    and ch: "\<And>i. i < 32 \<Longrightarrow> ch y i = (if i = frag e (Ce r) then c else ch x i)"
    and res: "res = Gone \<and> c = None \<or> (\<exists>h. res = New h \<and> c = Some h)"
  shows "wf_node e y" "\<And>k. look e k y = (if k = r then v else look e k x)"
    "sz = ((look e r x = None) \<noteq> (v = None))" "alt" "look e r x \<noteq> v"
proof -
  note f = slot_ok_facts [OF ok, unfolded slot_look_def]
  have new: "wf_node (e + 5) h" if "c = Some h" for h using that res f(4) by auto
  have val: "(case c of None \<Rightarrow> None | Some h \<Rightarrow> look (e + 5) k h)
      = (if k = r then v else case ch x (frag e (Ce r)) of None \<Rightarrow> None | Some d \<Rightarrow> look (e + 5) k d)" for k
    using res
  proof
    assume "res = Gone \<and> c = None"
    then show ?thesis using f(3) by auto
  next
    assume "\<exists>h. res = New h \<and> c = Some h"
    then obtain h where "res = New h" "c = Some h" by blast
    then show ?thesis using f(4) [of h] by simp
  qed
  note u = inner_update [OF x y refl ch new val]
  show "wf_node e y" by (rule u(1))
  show "\<And>k. look e k y = (if k = r then v else look e k x)" by (rule u(2))
  show "sz = ((look e r x = None) \<noteq> (v = None))" using f(1) look_inner [OF x(2), of e r] by simp
  show "alt" using res f(3,4) by auto
  show "look e r x \<noteq> v" using res f(3,4) slot_ok_facts(3,4) [OF ok] ok
    by (auto simp: look_slot [OF x(2)] slot_ok_def upd_ok_def slot_look_def split: option.splits)
qed

lemma slot_same:
  assumes "shape x" "slot_ok (e + 5) (ch x (frag e (Ce r))) r v (Same, alt, sz)"
  shows "upd_ok e x r v (Same, alt, sz)"
  using slot_ok_facts [OF assms(2)] look_slot [OF assms(1), of e r] by (simp add: upd_ok_def)

text \<open>A bitmap with one child has one slot.\<close>

lemma only_slot:
  assumes "shape (Bitmap l [z])"
  shows "\<exists>s<32. ch (Bitmap l [z]) s = Some z \<and> (\<forall>i<32. i \<noteq> s \<longrightarrow> ch (Bitmap l [z]) i = None)"
proof -
  have "length (bits_below l 32) = 1" using assms by (simp add: cnt_def)
  then obtain s where s: "filter (bit l) [0..<32] = [s]"
    unfolding bits_below_def by (auto simp: length_Suc_conv)
  have iff: "i < 32 \<and> bit l i \<longleftrightarrow> i = s" for i
    using arg_cong [OF s, of "\<lambda>xs. i \<in> set xs"] by auto
  then have "s < 32" "bit l s" by blast+
  moreover have "cnt l s = 0" using cnt_less [OF \<open>s < 32\<close> \<open>bit l s\<close>] assms by simp
  ultimately show ?thesis using iff by (intro exI [of _ s]) auto
qed

lemma collapse:
  assumes "wf_node e (Bitmap l [z])" "is_leaf z"
  shows "wf_node e z" "look e k z = look e k (Bitmap l [z])"
proof -
  have sh: "shape (Bitmap l [z])" using wf_shape [OF assms(1)] by simp
  obtain s where s: "s < 32" "ch (Bitmap l [z]) s = Some z" "\<And>i. i < 32 \<Longrightarrow> i \<noteq> s \<Longrightarrow> ch (Bitmap l [z]) i = None"
    using only_slot [OF sh] by blast
  show "wf_node e z" by (rule single_leaf(1) [OF assms(1) sh s(2) assms(2) s(1) s(3)])
  show "look e k z = look e k (Bitmap l [z])" by (rule single_leaf(2) [OF assms(1) sh s(2) assms(2) s(1) s(3)])
qed

lemma splice_out_pair: "length p = 2 \<Longrightarrow> f < 2 \<Longrightarrow> splice_out p f = [p ! (1 - f)]"
  by (cases f) (auto simp: splice_out_def)

lemma bitmap_step_ok:
  assumes wf: "wf_node e (Bitmap l p)" and s: "s = frag e (Ce r)"
    and ok: "slot_ok (e + 5) (ch (Bitmap l p) s) r v (res, alt, sz)"
  shows "upd_ok e (Bitmap l p) r v (bitmap_step l p s (bit l s) res, alt, sz)"
proof -
  have sh: "shape (Bitmap l p)" using wf_shape [OF wf] by simp
  have sl: "s < 32" using frag_less s by simp
  have f: "bm_index l s = cnt l s" by (rule bm_index_cnt [OF sl])
  note su = slot_update [OF wf sh _ ok [unfolded s]]
  note upd = su [folded s]
  have new: "upd_ok e (Bitmap l p) r v (New y, alt, sz)"
    if "shape y" "\<And>i. i < 32 \<Longrightarrow> ch y i = (if i = s then c else ch (Bitmap l p) i)"
      "res = Gone \<and> c = None \<or> (\<exists>h. res = New h \<and> c = Some h)" for y c
    using upd [OF that] by (simp add: upd_ok_def)
  show ?thesis
  proof (cases res)
    case Same
    then show ?thesis using slot_same [OF sh] ok s by (simp add: bitmap_step_def)
  next
    case Gone
    then have b: "bit l s" using slot_ok_facts(3) [OF ok Gone] by (simp split: if_splits)
    note c = ch_splice_out [OF sh b sl]
    let ?y = "Bitmap (l XOR bitpos s) (splice_out p (cnt l s))"
    have y: "upd_ok e (Bitmap l p) r v (New ?y, alt, sz)" by (rule new [OF c(1) c(2)]) (simp_all add: Gone)
    show ?thesis
    proof (cases "length p = 2 \<and> is_leaf (p ! (1 - cnt l s))")
      case True
      have "cnt l s < 2" using cnt_less [OF sl b] sh True by simp
      then have "splice_out p (cnt l s) = [p ! (1 - cnt l s)]" using splice_out_pair True by blast
      then have "upd_ok e (Bitmap l p) r v (New (p ! (1 - cnt l s)), alt, sz)"
        using y collapse [of e "l XOR bitpos s" "p ! (1 - cnt l s)"] True by (simp add: upd_ok_def)
      then show ?thesis using True b Gone f by (simp add: bitmap_step_def)
    qed (use y Gone f b in \<open>auto simp: bitmap_step_def\<close>)
  next
    case (New h)
    show ?thesis
    proof (cases "bit l s")
      case True
      note c = ch_replace [OF sh True sl, where h = h]
      have y: "upd_ok e (Bitmap l p) r v (New (Bitmap l (p[cnt l s := h])), alt, sz)"
        by (rule new [OF c(1) c(2)]) (use sl New in simp_all)
      show ?thesis
      proof (cases "length p = 1 \<and> is_leaf h")
        case one: True
        then have "cnt l s = 0" "length p = 1" using cnt_less [OF sl True] sh by simp_all
        then have "p[cnt l s := h] = [h]" by (cases p) auto
        then have "upd_ok e (Bitmap l p) r v (New h, alt, sz)"
          using y collapse [of e l h] one by (simp add: upd_ok_def)
        then show ?thesis using True one New by (simp add: bitmap_step_def)
      qed (use y New f True in \<open>auto simp: bitmap_step_def\<close>)
    next
      case False
      show ?thesis
      proof (cases "16 \<le> length p")
        case True
        note c = ch_expand [OF sh False sl, where h = h]
        have "upd_ok e (Bitmap l p) r v (New (expand_nodes p l s h), alt, sz)"
          by (rule new [OF c(1) c(2)]) (use New in simp_all)
        then show ?thesis using True False New by (simp add: bitmap_step_def)
      next
        case le: False
        note c = ch_splice_in [OF sh False sl, where h = h]
        have "upd_ok e (Bitmap l p) r v (New (Bitmap (l OR bitpos s) (splice_in p (cnt l s) h)), alt, sz)"
          by (rule new [OF c(1) c(2)]) (use New in simp_all)
        then show ?thesis using le False New f by (simp add: bitmap_step_def)
      qed
    qed
  qed
qed

lemma array_step_ok:
  assumes wf: "wf_node e (HashArray n l)" and u: "u = frag e (Ce r)"
    and ok: "slot_ok (e + 5) (l ! u) r v (res, alt, sz)"
  shows "upd_ok e (HashArray n l) r v (array_step n l u (l ! u \<noteq> None) res, alt, sz)"
proof -
  have sh: "shape (HashArray n l)" using wf_shape [OF wf] by simp
  have ul: "u < 32" using frag_less u by simp
  have ok': "slot_ok (e + 5) (ch (HashArray n l) (frag e (Ce r))) r v (res, alt, sz)" using ok u by simp
  have new: "upd_ok e (HashArray n l) r v (New y, alt, sz)"
    if "shape y" "\<And>i. i < 32 \<Longrightarrow> ch y i = (if i = u then c else ch (HashArray n l) i)"
      "res = Gone \<and> c = None \<or> (\<exists>h. res = New h \<and> c = Some h)" for y c
    using slot_update [OF wf sh that(1) ok' that(2) [unfolded u] that(3)] by (simp add: upd_ok_def)
  note c = ch_array [OF sh ul]
  show ?thesis
  proof (cases res)
    case Same
    then show ?thesis using slot_same [OF sh, of e r v alt sz] ok' by (simp add: array_step_def)
  next
    case Gone
    then have b: "l ! u \<noteq> None" using slot_ok_facts(3) [OF ok Gone] by simp
    have "upd_ok e (HashArray n l) r v (New (pack_nodes l u), alt, sz)"
      by (rule new [where c = None]) (use ch_pack [where t = l and r = u] sh Gone in auto)
    moreover have "upd_ok e (HashArray n l) r v (New (HashArray (n - 1) (l[u := None])), alt, sz)"
      by (rule new [where c = None]) (use c [where y = None] b Gone in auto)
    ultimately show ?thesis using b Gone by (simp add: array_step_def)
  next
    case (New f)
    have "upd_ok e (HashArray n l) r v (New (HashArray (n + 1 - of_bool (l ! u \<noteq> None)) (l[u := Some f])), alt, sz)"
      by (rule new [where c = "Some f"]) (use c [where y = "Some f"] New in auto)
    then show ?thesis using New by (auto simp: array_step_def)
  qed
qed

lemma hupdate_ok: "wf_node e x \<Longrightarrow> upd_ok e x r v (hupdate e r v x)"
proof (induction e r v x rule: hupdate.induct)
  case (1 t r v l p)
  have sh: "shape (Bitmap l p)" using wf_shape [OF 1(2)] by simp
  define s where "s = frag t (Ce r)"
  have sl: "s < 32" using frag_less s_def by simp
  have b: "(l AND bitpos s \<noteq> 0) = bit l s" using and_bitpos [OF sl] by blast
  note f = bm_index_cnt [OF sl, of l]
  show ?case
  proof (cases "\<not> bit l s \<and> v = None")
    case True
    then show ?thesis using look_inner [OF sh, of t r] b s_def by (simp add: upd_ok_def Let_def)
  next
    case False
    obtain res alt sz where u: "(if bit l s \<and> cnt l s < length p then hupdate (t + 5) r v (p ! cnt l s) else et_empty r v)
        = (res, alt, sz)" using prod_cases3 by blast
    have "slot_ok (t + 5) (ch (Bitmap l p) s) r v (res, alt, sz)"
    proof (cases "bit l s")
      case True
      then have "cnt l s < length p" using cnt_less [OF sl True] sh by simp
      moreover have "wf_node (t + 5) (p ! cnt l s)" using 1(2) sl True wf_node_inner [OF sh] by auto
      ultimately show ?thesis using 1(1) [OF s_def refl refl] u True b f by (simp add: slot_ok_def)
    next
      case nb: False
      then show ?thesis using u False by (auto simp: slot_ok_def et_empty_def)
    qed
    then have "upd_ok t (Bitmap l p) r v (bitmap_step l p s (bit l s) res, alt, sz)"
      by (rule bitmap_step_ok [OF 1(2) s_def])
    moreover have "hupdate t r v (Bitmap l p) = (bitmap_step l p s (bit l s) res, alt, sz)"
      unfolding hupdate.simps Let_def s_def [symmetric] b f u using False by auto
    ultimately show ?thesis by simp
  qed
next
  case (2 t r v n l)
  have sh: "shape (HashArray n l)" using wf_shape [OF 2(2)] by simp
  define u where "u = frag t (Ce r)"
  have ul: "u < length l" "u < 32" using frag_less u_def sh by simp_all
  show ?case
  proof (cases "l ! u")
    case None
    show ?thesis
    proof (cases v)
      case None
      then show ?thesis using \<open>l ! u = None\<close> look_inner [OF sh, of t r] ul u_def by (simp add: upd_ok_def Let_def)
    next
      case (Some x)
      then have "slot_ok (t + 5) (l ! u) r v (New (ValueN (Ce r) (r, x)), True, True)"
        using \<open>l ! u = None\<close> by (simp add: slot_ok_def)
      from array_step_ok [OF 2(2) u_def this] show ?thesis
        using \<open>l ! u = None\<close> ul Some by (simp add: u_def [symmetric] Let_def et_empty_def)
    qed
  next
    case (Some x)
    obtain res alt sz where h: "hupdate (t + 5) r v x = (res, alt, sz)" using prod_cases3 by blast
    have "wf_node (t + 5) x" using 2(2) ul Some wf_node_inner [OF sh] by auto
    then have "slot_ok (t + 5) (l ! u) r v (res, alt, sz)"
      using 2(1) [OF u_def ul(1) Some] h Some by (simp add: slot_ok_def)
    from array_step_ok [OF 2(2) u_def this] show ?thesis
      using Some h ul by (simp add: u_def [symmetric] Let_def)
  qed
qed (simp_all add: collision_update_ok value_update_ok del: wf_node_value wf_node_collision)

subsection \<open>Iteration\<close>

definition slot_entries :: "'v hnode option \<Rightarrow> (jskey \<times> 'v) list" where
  "slot_entries d = (case d of None \<Rightarrow> [] | Some x \<Rightarrow> hentries x)"

lemma hentries_slots:
  assumes "shape x"
  shows "hentries x = concat (map (\<lambda>s. slot_entries (ch x s)) [0..<32])"
proof (cases x)
  case (Bitmap bm ns)
  have "concat (map (\<lambda>s. slot_entries (ch x s)) [0..<m]) = concat (map hentries (take (cnt bm m) ns))" if "m \<le> 32" for m
    using that
  proof (induction m)
    case (Suc m)
    have "cnt bm m < length ns" if "bit bm m" using cnt_less [of m 32 bm] that Suc(2) assms Bitmap by simp
    then show ?case using Suc Bitmap by (auto simp: cnt_Suc take_Suc_conv_app_nth slot_entries_def)
  qed (simp add: slot_entries_def)
  from this [of 32] show ?thesis using assms Bitmap by simp
next
  case (HashArray c ns)
  then have "map (\<lambda>s. slot_entries (ch x s)) [0..<32] = map slot_entries ns"
    using assms by (intro nth_equalityI) auto
  then show ?thesis using HashArray by (simp only: hentries.simps slot_entries_def [abs_def])
qed (use assms in auto)

lemma distinct_concat_slots:
  assumes "\<And>s. s \<in> set ss \<Longrightarrow> distinct (map fst (f s))" "distinct ss"
    and "\<And>s k. s \<in> set ss \<Longrightarrow> k \<in> fst ` set (f s) \<Longrightarrow> g k = s"
  shows "distinct (map fst (concat (map f ss)))"
  using assms
proof (induction ss)
  case (Cons s ss)
  have "fst ` set (f s) \<inter> fst ` set (concat (map f ss)) = {}"
  proof (rule ccontr)
    assume "fst ` set (f s) \<inter> fst ` set (concat (map f ss)) \<noteq> {}"
    then obtain k where k: "k \<in> fst ` set (f s)" "k \<in> fst ` set (concat (map f ss))" by blast
    then obtain s' where s': "s' \<in> set ss" "k \<in> fst ` set (f s')" by auto
    have "g k = s" "g k = s'" using Cons(4) [of s k] Cons(4) [of s' k] k(1) s' by auto
    then show False using Cons(3) s'(1) by simp
  qed
  moreover have "distinct (map fst (concat (map f ss)))" using Cons by (intro Cons(1)) auto
  moreover have "distinct (map fst (f s))" using Cons(2) by simp
  ultimately show ?case by (simp only: list.map concat.simps map_append distinct_append set_map) 
qed simp

lemma hentries_graph:
  "wf_node e x \<Longrightarrow> distinct (map fst (hentries x)) \<and> (\<forall>k v. (k, v) \<in> set (hentries x) \<longleftrightarrow> look e k x = Some v)"
proof (induction rule: wf_node.induct)
  case (wf_value kh en e)
  then show ?case by (cases en) (auto simp: look_def)
next
  case (wf_collision es kh e)
  then show ?case by (auto simp: look_def find_entry_map_of)
next
  case (wf_inner x e)
  have IH: "distinct (map fst (hentries y))" "\<And>k v. (k, v) \<in> set (hentries y) \<longleftrightarrow> look (e + 5) k y = Some v"
    if "s < 32" "ch x s = Some y" for s y using wf_inner that by blast+
  have key: "frag e (Ce k) = s" if "s < 32" "k \<in> fst ` set (slot_entries (ch x s))" for s k
  proof -
    from that obtain y v where y: "ch x s = Some y" "(k, v) \<in> set (hentries y)"
      by (cases "ch x s") (auto simp: slot_entries_def)
    then have "look (e + 5) k y \<noteq> None" using IH(2) that(1) by auto
    then show ?thesis using wf_inner that(1) y(1) by blast
  qed
  have "distinct (map fst (hentries x))" unfolding hentries_slots [OF \<open>shape x\<close>]
  proof (rule distinct_concat_slots [where g = "\<lambda>k. frag e (Ce k)"])
    show "distinct (map fst (slot_entries (ch x s)))" if "s \<in> set [0..<32]" for s
      using IH(1) that by (auto simp: slot_entries_def split: option.splits)
  qed (use key in auto)
  moreover have "(k, v) \<in> set (hentries x) \<longleftrightarrow> look e k x = Some v" for k v
  proof -
    have "(k, v) \<in> set (hentries x) \<longleftrightarrow> (\<exists>s<32. (k, v) \<in> set (slot_entries (ch x s)))"
      unfolding hentries_slots [OF \<open>shape x\<close>] by auto
    also have "\<dots> \<longleftrightarrow> (k, v) \<in> set (slot_entries (ch x (frag e (Ce k))))"
      using key frag_less by (metis fst_conv image_eqI)
    also have "\<dots> \<longleftrightarrow> look e k x = Some v"
      using IH(2) [OF frag_less] by (auto simp: look_inner [OF \<open>shape x\<close>] slot_entries_def split: option.splits)
    finally show ?thesis .
  qed
  ultimately show ?case by blast
qed

lemma hentries_map: "wf_node e x \<Longrightarrow> map_of (hentries x) k = look e k x"
  using hentries_graph [of e x] by (cases "look e k x") (auto simp: map_of_eq_None_iff)

subsection \<open>The map\<close>

text \<open>Invariant of a map: distinct keys, at most eight in the array, and the right size.\<close>

definition wf_map :: "'v imap \<Rightarrow> bool" where
  "wf_map m =
     (msize m = length (map_entries m) \<and>
      (case mroot m of
         None \<Rightarrow> True
       | Some (ArrayMap es) \<Rightarrow> distinct (map fst es) \<and> es \<noteq> [] \<and> length es \<le> 8
       | Some (Trie x) \<Rightarrow> wf_node 0 x))"

lemma map_entries_graph:
  "wf_map m \<Longrightarrow> distinct (map fst (map_entries m)) \<and> map_of (map_entries m) = map_get m"
  by (auto simp: wf_map_def map_entries_def map_get_def find_entry_map_of hentries_graph
      hentries_map look_def fun_eq_iff split: option.splits root.splits)

lemma dom_card: "distinct (map fst es) \<Longrightarrow> length es = card (dom (map_of es))"
  using distinct_card [of "map fst es"] by (simp add: dom_map_of_conv_image_fst)

lemma set_all_ok:
  "wf_node 0 x \<Longrightarrow> distinct (map fst es) \<Longrightarrow>
   wf_node 0 (set_all x es) \<and>
   (\<forall>k. look 0 k (set_all x es) = (case map_of es k of None \<Rightarrow> look 0 k x | Some v \<Rightarrow> Some v))"
proof (induction es arbitrary: x)
  case (Cons a es)
  obtain res alt sz where h: "hupdate 0 (fst a) (Some (snd a)) x = (res, alt, sz)" using prod_cases3 by blast
  define y where "y = (case res of New y \<Rightarrow> y | _ \<Rightarrow> x)"
  have y: "wf_node 0 y \<and> (\<forall>k. look 0 k y = (if k = fst a then Some (snd a) else look 0 k x))"
    using hupdate_ok [OF Cons(2), of "fst a" "Some (snd a)"] Cons(2) unfolding h y_def
    by (auto simp: upd_ok_def split: upd.splits)
  have "set_all x (a # es) = set_all y es" by (simp add: h y_def)
  moreover have "map_of es (fst a) = None" using Cons(3) by (simp add: map_of_eq_None_iff)
  ultimately show ?case using Cons(1) [of y] Cons(3) y by (auto split: option.splits)
qed simp

lemma create_nodes_ok:
  assumes "distinct (map fst es)" "n \<notin> fst ` set es"
  shows "wf_node 0 (create_nodes es n r)"
    and "look 0 k (create_nodes es n r) = (if k = n then Some r else map_of es k)"
proof -
  have n: "map_of es n = None" using assms(2) by (simp add: map_of_eq_None_iff)
  note s = set_all_ok [of "ValueN (Ce n) (n, r)", OF _ assms(1)]
  show "wf_node 0 (create_nodes es n r)" using s by (simp add: create_nodes_def)
  show "look 0 k (create_nodes es n r) = (if k = n then Some r else map_of es k)"
    using s n by (cases "map_of es k") (auto simp: create_nodes_def look_def)
qed

text \<open>The size after an update, from the flag \<open>didChangeSize\<close>.\<close>

lemma updated_size:
  assumes "finite (dom f)"
  shows "card (dom (f(k := v))) =
    (if (f k = None) \<noteq> (v = None) then if v = None then card (dom f) - 1 else card (dom f) + 1 else card (dom f))"
proof (cases v)
  case None
  then show ?thesis using assms by (simp add: card_Diff_singleton_if domIff)
next
  case (Some x)
  then show ?thesis using assms by (simp add: card_insert_if domIff)
qed

definition root_get :: "'v root option \<Rightarrow> jskey \<Rightarrow> 'v option" where
  "root_get rt k = map_get \<lparr>msize = 0, mroot = rt\<rparr> k"

lemma root_get_simps [simp]:
  "root_get None k = None"
  "root_get (Some (ArrayMap es)) k = map_of es k"
  "root_get (Some (Trie x)) k = look 0 k x"
  by (simp_all add: root_get_def map_get_def look_def find_entry_map_of)

lemma map_get_root: "map_get m = root_get (mroot m)"
  by (auto simp: root_get_def map_get_def)

definition wf_root :: "'v root option \<Rightarrow> bool" where
  "wf_root rt = (case rt of None \<Rightarrow> True
     | Some (ArrayMap es) \<Rightarrow> distinct (map fst es) \<and> es \<noteq> [] \<and> length es \<le> 8
     | Some (Trie x) \<Rightarrow> wf_node 0 x)"

lemma map_get_msize [simp]: "map_get (m\<lparr>msize := n\<rparr>) = map_get m"
  by (simp add: map_get_def fun_eq_iff)

lemma wf_map_iff: "wf_map m \<longleftrightarrow> wf_root (mroot m) \<and> msize m = card (dom (map_get m))"
proof -
  have "length (map_entries m) = card (dom (map_get m))" if "wf_root (mroot m)"
  proof -
    have "wf_map (m\<lparr>msize := length (map_entries m)\<rparr>)"
      using that by (simp add: wf_map_def wf_root_def map_entries_def)
    from map_entries_graph [OF this]
    have "distinct (map fst (map_entries m))" "map_of (map_entries m) = map_get m"
      by (simp_all add: map_entries_def)
    then show ?thesis using dom_card [of "map_entries m"] by simp
  qed
  then show ?thesis by (auto simp: wf_map_def wf_root_def)
qed

lemma finite_dom_map: "wf_map m \<Longrightarrow> finite (dom (map_get m))"
  using map_entries_graph [of m] finite_dom_map_of [of "map_entries m"] by simp

lemma root_update_ok:
  assumes "wf_root (Some rt)" "root_update rt r v = (res, alt, sz)"
  shows "sz = ((root_get (Some rt) r = None) \<noteq> (v = None)) \<and>
    (case res of
       None \<Rightarrow> \<not> alt \<and> root_get (Some rt) r = v
     | Some None \<Rightarrow> alt \<and> v = None \<and> root_get (Some rt) r \<noteq> None \<and> (\<forall>k. k \<noteq> r \<longrightarrow> root_get (Some rt) k = None)
     | Some (Some y) \<Rightarrow> alt \<and> root_get (Some rt) r \<noteq> v \<and> wf_root (Some y) \<and>
         (\<forall>k. root_get (Some y) k = (if k = r then v else root_get (Some rt) k)))"
proof (cases rt)
  case (Trie x)
  obtain u a z where h: "hupdate 0 r v x = (u, a, z)" using prod_cases3 by blast
  have "upd_ok 0 x r v (u, a, z)" using hupdate_ok [of 0 x r v] assms(1) Trie h by (simp add: wf_root_def)
  then show ?thesis using assms(2) Trie h
    by (cases u) (auto simp: root_update_def upd_ok_def wf_root_def)
next
  case (ArrayMap s)
  have d: "distinct (map fst s)" "s \<noteq> []" "length s \<le> 8" using assms(1) ArrayMap by (simp_all add: wf_root_def)
  define l where "l = entry_index r s"
  have f: "l < length s \<longleftrightarrow> map_of s r \<noteq> None" by (simp add: l_def entry_index_iff map_of_eq_None_iff)
  have val: "map_of s r = Some (snd (s ! l))" if "l < length s" using that unfolding l_def by (rule entry_index_value)
  note u = upd_entries_facts [OF d(1) l_def, where v = v]
  show ?thesis
  proof (cases "map_of s r = v")
    case True
    then have "root_update rt r v = (None, False, False)"
      using f val ArrayMap by (cases "l < length s") (auto simp: root_update_def l_def [symmetric] Let_def)
    then show ?thesis using assms(2) True ArrayMap by simp
  next
    case neq: False
    then have c: "\<not> (if l < length s then Some (snd (s ! l)) = v else v = None)"
      using f val by (cases "l < length s") auto
    have e: "root_update rt r v =
        (if v = None \<and> length s = 1 then Some None
         else if \<not> l < length s \<and> v \<noteq> None \<and> 8 \<le> length s then Some (Some (Trie (create_nodes s r (the v))))
         else Some (Some (ArrayMap (upd_entries s l r v))), True, v = None \<or> \<not> l < length s)"
      using c ArrayMap by (simp add: root_update_def l_def [symmetric] Let_def)
    have sz: "(v = None \<or> \<not> l < length s) = ((map_of s r = None) \<noteq> (v = None))"
      using f neq by (cases v) auto
    consider "v = None" "length s = 1"
      | x where "v = Some x" "\<not> l < length s" "8 \<le> length s"
      | "\<not> (v = None \<and> length s = 1)" "\<not> (\<not> l < length s \<and> v \<noteq> None \<and> 8 \<le> length s)"
      by (cases v) auto
    then show ?thesis
    proof cases
      case 1
      then obtain p where s: "s = [p]" by (auto simp: length_Suc_conv)
      show ?thesis using assms(2) e sz 1 neq ArrayMap s by (auto split: if_splits)
    next
      case 2
      then have n: "r \<notin> fst ` set s" using f by (simp add: map_of_eq_None_iff)
      show ?thesis using assms(2) e sz 2 neq ArrayMap create_nodes_ok [OF d(1) n, where r = x]
        by (auto simp: wf_root_def)
    next
      case 3
      have "upd_entries s l r v \<noteq> []" "length (upd_entries s l r v) \<le> 8"
        using u(4) d 3 neq f by (cases v; cases "map_of s r"; auto)+
      then show ?thesis using assms(2) e sz 3 neq ArrayMap u(1,2) by (auto simp: wf_root_def)
    qed
  qed
qed

lemma map_update_ok:
  assumes "wf_map m"
  shows "wf_map (map_update m k v)"
    and "map_get (map_update m k v) = (map_get m)(k := v)"
    and "map_get m k = v \<Longrightarrow> map_update m k v = m"
proof -
  have w: "wf_root (mroot m)" "msize m = card (dom (map_get m))" using assms by (simp_all add: wf_map_iff)
  note size = updated_size [OF finite_dom_map [OF assms], of k v, folded w(2)]
  have "wf_map (map_update m k v) \<and> map_get (map_update m k v) = (map_get m)(k := v)
    \<and> (map_get m k = v \<longrightarrow> map_update m k v = m)"
  proof (cases "mroot m")
    case None
    then show ?thesis using w
      by (cases v) (auto simp: map_update_def map_step_def wf_map_iff map_get_root wf_root_def fun_eq_iff dom_def)
  next
    case (Some rt)
    obtain res alt sz where r: "root_update rt k v = (res, alt, sz)" using prod_cases3 by blast
    have ok: "sz = ((map_get m k = None) \<noteq> (v = None)) \<and>
      (case res of
         None \<Rightarrow> \<not> alt \<and> map_get m k = v
       | Some None \<Rightarrow> alt \<and> v = None \<and> map_get m k \<noteq> None \<and> (\<forall>k'. k' \<noteq> k \<longrightarrow> map_get m k' = None)
       | Some (Some y) \<Rightarrow> alt \<and> map_get m k \<noteq> v \<and> wf_root (Some y) \<and>
           (\<forall>k'. root_get (Some y) k' = (if k' = k then v else map_get m k')))"
      using root_update_ok [OF w(1) [unfolded Some] r] unfolding map_get_root Some .
    consider "res = None" | "res = Some None" | y where "res = Some (Some y)" by (cases res) auto
    then show ?thesis
    proof cases
      case 1
      then have "map_update m k v = m" "map_get m k = v" using ok Some r by (auto simp: map_update_def map_step_def)
      then show ?thesis using assms by (auto simp: fun_eq_iff)
    next
      case 2
      then have "map_update m k v = empty_map" using ok Some r by (simp add: map_update_def map_step_def)
      moreover have "map_get empty_map = (map_get m)(k := v)" "map_get m k \<noteq> v"
        using 2 ok by (auto simp: empty_map_def map_get_root fun_eq_iff)
      moreover have "wf_map (empty_map :: 'a imap)" by (simp add: wf_map_def empty_map_def map_entries_def)
      ultimately show ?thesis by metis
    next
      case 3
      let ?n = "if sz then if v = None then msize m - 1 else msize m + 1 else msize m"
      have e: "map_update m k v = \<lparr>msize = ?n, mroot = Some y\<rparr>" using ok Some r 3 by (simp add: map_update_def map_step_def)
      have g: "root_get (Some y) = (map_get m)(k := v)" using 3 ok by (auto simp: fun_eq_iff)
      have "?n = card (dom ((map_get m)(k := v)))" using size 3 ok by (simp split: if_splits)
      then show ?thesis using 3 ok g by (simp add: e wf_map_iff map_get_root)
    qed
  qed
  then show "wf_map (map_update m k v)" "map_get (map_update m k v) = (map_get m)(k := v)"
    "map_get m k = v \<Longrightarrow> map_update m k v = m" by blast+
qed

text \<open>The same object is returned exactly for an update that changes nothing.\<close>

lemma map_step_none:
  assumes "wf_map m"
  shows "map_step m k v = None \<longleftrightarrow> map_get m k = v"
proof (cases "mroot m")
  case None
  then show ?thesis by (cases v) (auto simp: map_step_def map_get_root)
next
  case (Some rt)
  obtain res alt sz where r: "root_update rt k v = (res, alt, sz)" using prod_cases3 by blast
  have "wf_root (Some rt)" using assms Some by (simp add: wf_map_iff)
  from root_update_ok [OF this r] show ?thesis
    using Some r by (auto simp: map_step_def map_get_root split: option.splits if_splits)
qed

lemma empty_map_ok: "wf_map empty_map" "map_get empty_map = Map.empty"
  by (simp_all add: wf_map_def empty_map_def map_entries_def map_get_def fun_eq_iff)

subsection \<open>The interface of a persistent map\<close>

text \<open>
  What \<open>Set\<close>, \<open>OrderedMap\<close> and the state of the console rely on: a map that answers lookups as the
  function of its updates, keeps its size, lists each entry once, and is returned itself when an
  update changes nothing.
\<close>

locale persistent_map =
  fixes emp :: "'m" and get :: "'m \<Rightarrow> 'k \<Rightarrow> 'v option" and upd :: "'m \<Rightarrow> 'k \<Rightarrow> 'v option \<Rightarrow> 'm"
    and count :: "'m \<Rightarrow> nat" and elist :: "'m \<Rightarrow> ('k \<times> 'v) list" and inv :: "'m \<Rightarrow> bool"
  assumes inv_emp: "inv emp" and get_emp: "get emp = Map.empty"
    and inv_upd: "inv m \<Longrightarrow> inv (upd m k v)"
    and get_upd: "inv m \<Longrightarrow> get (upd m k v) = (get m)(k := v)"
    and upd_noop: "inv m \<Longrightarrow> get m k = v \<Longrightarrow> upd m k v = m"
    and entries: "inv m \<Longrightarrow> distinct (map fst (elist m)) \<and> map_of (elist m) = get m"
    and count: "inv m \<Longrightarrow> count m = length (elist m)"
begin

lemma run_inv: "inv m \<Longrightarrow> inv (fold (\<lambda>(k, v) m. upd m k v) us m)"
  by (induction us arbitrary: m) (auto simp: inv_upd)

lemma run_get: "inv m \<Longrightarrow> get (fold (\<lambda>(k, v) m. upd m k v) us m) = fold (\<lambda>(k, v) f. f(k := v)) us (get m)"
  by (induction us arbitrary: m) (auto simp: inv_upd get_upd)

lemma noop_iff: "inv m \<Longrightarrow> upd m k v = m \<longleftrightarrow> get m k = v"
  using get_upd [of m k v] upd_noop [of m k v] by (metis fun_upd_same)

lemma keys: "inv m \<Longrightarrow> fst ` set (elist m) = dom (get m)"
  using entries [of m] dom_map_of_conv_image_fst [of "elist m"] by simp

lemma count_card: "inv m \<Longrightarrow> count m = card (dom (get m))"
  using entries [of m] count [of m] keys [of m] distinct_card [of "map fst (elist m)"] by simp

lemma count_0: "inv m \<Longrightarrow> count m = 0 \<longleftrightarrow> get m = Map.empty"
  using count [of m] entries [of m] by (cases "elist m") auto

text \<open>Updates of every key of a list in turn, as the operations that iterate over another collection do.\<close>

lemma fold_upd:
  "inv m \<Longrightarrow> inv (fold (\<lambda>k m. if P k then upd m k v else m) ks m)
    \<and> get (fold (\<lambda>k m. if P k then upd m k v else m) ks m)
      = (\<lambda>k. if k \<in> set ks \<and> P k then v else get m k)"
proof (induction ks arbitrary: m)
  case (Cons k ks)
  have "inv (if P k then upd m k v else m)" using Cons(2) inv_upd by simp
  from Cons(1) [OF this] show ?case using get_upd [OF Cons(2)] by (auto simp: fun_eq_iff)
qed simp

end

interpretation imap: persistent_map empty_map map_get map_update msize map_entries wf_map
proof unfold_locales
  show "wf_map m \<Longrightarrow> msize m = length (map_entries m)" for m :: "'a imap" by (simp add: wf_map_def)
qed (simp_all add: empty_map_ok map_update_ok map_entries_graph)

text \<open>A sequence of \<open>set\<close> (a value) and \<open>remove\<close> (none) on the empty map.\<close>

fun map_op :: "jskey \<times> 'v option \<Rightarrow> 'v imap \<Rightarrow> 'v imap" where
  "map_op (k, Some v) m = map_set m k v"
| "map_op (k, None) m = map_remove m k"

definition run_map :: "(jskey \<times> 'v option) list \<Rightarrow> 'v imap" where
  "run_map us = fold map_op us empty_map"

lemma run_map_update: "run_map us = fold (\<lambda>(k, v) m. map_update m k v) us empty_map"
proof -
  have "map_op u m = (case u of (k, v) \<Rightarrow> map_update m k v)" for u and m :: "'a imap"
    by (cases "(u, m)" rule: map_op.cases) (simp_all add: map_set_def map_remove_def)
  then show ?thesis unfolding run_map_def by (intro fold_cong) auto
qed

lemma run_map_wf: "wf_map (run_map us)"
  unfolding run_map_update by (rule imap.run_inv [OF empty_map_ok(1)])

text \<open>
  Property C18. A map refines the finite function its operations describe: after any sequence of
  \<open>set\<close> and \<open>remove\<close>, through the array, the bitmap, the 32-slot and the collision nodes and their
  conversions, \<open>get\<close> gives the value last set for the key and nothing for a removed one. The keys are
  those of \<open>jskey\<close>, so every string but \<open>propertyIsEnumerable\<close>, with which the code can recurse for ever.
\<close>

theorem map_refines_function:
  "map_get (run_map us) = fold (\<lambda>(k, v) f. f(k := v)) us Map.empty"
  unfolding run_map_update using imap.run_get [OF empty_map_ok(1), where us = us] by (simp add: empty_map_ok)

text \<open>
  Property C19. Invariant of every map that \<open>set\<close> and \<open>remove\<close> can build: the iteration lists each key
  once, with the value \<open>get\<close> gives for it, and \<open>size\<close> is the number of entries.
\<close>

theorem map_iterates_its_entries:
  "distinct (map fst (map_entries (run_map us))) \<and>
   map_of (map_entries (run_map us)) = map_get (run_map us) \<and>
   msize (run_map us) = length (map_entries (run_map us))"
  using imap.entries [OF run_map_wf] imap.count [OF run_map_wf] by blast

text \<open>
  Property C20. An update returns the very map it was applied to, the same object (\<open>None\<close>), exactly
  when it changes nothing: when the key has the value already, or when a key that is not there is
  removed. The values are those on which \<open>===\<close> is equality, so no \<open>NaN\<close>.
\<close>

theorem noop_update_returns_map:
  "map_step (run_map us) k v = None \<longleftrightarrow> map_get (run_map us) k = v"
  by (rule map_step_none [OF run_map_wf])

end
