(* ===== verification/ImmSet.thy ===== *)
theory ImmSet
  imports ImmMap
begin

section \<open>Immutable sets and stacks (swagger-ui-bundle.js)\<close>

text \<open>
  A \<open>Set\<close> is a \<open>Map\<close> from its elements to \<open>true\<close>, with the map's size copied. Its lemmas are those of
  the interface \<open>persistent_map\<close>. A \<open>Stack\<close> is a linked list with its length.
\<close>

subsection \<open>Sets\<close>

record iset =
  ssize :: nat
  smap :: "bool imap"

text \<open>\<open>hn\<close>, \<open>vn\<close> and \<open>dn\<close>: the set of a map, the empty set, and a set given another map.\<close>

definition make_set :: "bool imap \<Rightarrow> iset" where
  "make_set e = \<lparr>ssize = msize e, smap = e\<rparr>"

definition empty_set :: iset where
  "empty_set = make_set empty_map"

definition update_set :: "iset \<Rightarrow> bool imap \<Rightarrow> iset" where
  "update_set e t = (if t = smap e then e else if msize t = 0 then empty_set else make_set t)"

definition set_has :: "iset \<Rightarrow> jskey \<Rightarrow> bool" where
  "set_has s e = (map_get (smap s) e \<noteq> None)"

definition set_add :: "iset \<Rightarrow> jskey \<Rightarrow> iset" where
  "set_add s e = update_set s (map_set (smap s) e True)"

definition set_remove :: "iset \<Rightarrow> jskey \<Rightarrow> iset" where
  "set_remove s e = update_set s (map_remove (smap s) e)"

definition set_elems :: "iset \<Rightarrow> jskey list" where
  "set_elems s = map fst (map_entries (smap s))"

text \<open>\<open>Set(values)\<close>: every value added to the empty set.\<close>

definition set_of :: "jskey list \<Rightarrow> iset" where
  "set_of xs = fold (\<lambda>x s. set_add s x) xs empty_set"

definition set_union :: "iset \<Rightarrow> iset list \<Rightarrow> iset" where
  "set_union s ts =
     (case filter (\<lambda>t. ssize t \<noteq> 0) ts of
        [] \<Rightarrow> s
      | t # us \<Rightarrow>
          if ssize s = 0 \<and> us = [] then t
          else fold (\<lambda>t s. fold (\<lambda>x s. set_add s x) (set_elems t) s) (t # us) s)"

definition set_intersect :: "iset \<Rightarrow> iset list \<Rightarrow> iset" where
  "set_intersect s ts =
     (if ts = [] then s
      else fold (\<lambda>n e. if list_all (\<lambda>t. set_has t n) ts then e else set_remove e n) (set_elems s) s)"

definition set_subtract :: "iset \<Rightarrow> iset list \<Rightarrow> iset" where
  "set_subtract s ts =
     (if ts = [] then s
      else fold (\<lambda>n e. if list_ex (\<lambda>t. set_has t n) ts then set_remove e n else e) (set_elems s) s)"

definition wf_set :: "iset \<Rightarrow> bool" where
  "wf_set s = (wf_map (smap s) \<and> ssize s = msize (smap s))"

text \<open>The members of a set.\<close>

definition members :: "iset \<Rightarrow> jskey set" where
  "members s = dom (map_get (smap s))"

lemma set_has_members [simp]: "set_has s x \<longleftrightarrow> x \<in> members s"
  by (auto simp: set_has_def members_def)

lemma set_elems_members: "wf_set s \<Longrightarrow> distinct (set_elems s) \<and> set (set_elems s) = members s"
  using imap.entries [of "smap s"] imap.keys [of "smap s"] by (simp add: wf_set_def set_elems_def members_def)

lemma ssize_card: "wf_set s \<Longrightarrow> ssize s = card (members s)"
  using imap.count_card [of "smap s"] by (simp add: wf_set_def members_def)

lemma update_set_ok:
  assumes "wf_set s" "wf_map t"
  shows "wf_set (update_set s t)" and "members (update_set s t) = dom (map_get t)"
  using assms imap.count_0 [OF assms(2)] imap.count_0 [OF empty_map_ok(1), where 'a = bool]
  by (auto simp: update_set_def wf_set_def members_def make_set_def empty_set_def empty_map_ok)

lemma empty_set_ok [simp]: "wf_set empty_set" "members empty_set = {}"
  using imap.count_0 [OF empty_map_ok(1), where 'a = bool]
  by (simp_all add: empty_set_def make_set_def wf_set_def members_def empty_map_ok)

lemma set_add_ok:
  assumes "wf_set s"
  shows "wf_set (set_add s x)" and "members (set_add s x) = insert x (members s)"
proof -
  have w: "wf_map (smap s)" using assms by (simp add: wf_set_def)
  note u = update_set_ok [OF assms imap.inv_upd [OF w]] imap.get_upd [OF w]
  show "wf_set (set_add s x)" using u(1) by (simp add: set_add_def map_set_def)
  show "members (set_add s x) = insert x (members s)"
    using u(2,3) [of x "Some True"] by (simp add: set_add_def map_set_def members_def)
qed

lemma set_remove_ok:
  assumes "wf_set s"
  shows "wf_set (set_remove s x)" and "members (set_remove s x) = members s - {x}"
proof -
  have w: "wf_map (smap s)" using assms by (simp add: wf_set_def)
  note u = update_set_ok [OF assms imap.inv_upd [OF w]] imap.get_upd [OF w]
  show "wf_set (set_remove s x)" using u(1) by (simp add: set_remove_def map_remove_def)
  show "members (set_remove s x) = members s - {x}"
    using u(2,3) [of x None] by (simp add: set_remove_def map_remove_def members_def)
qed

lemma add_all_ok:
  "wf_set s \<Longrightarrow> wf_set (fold (\<lambda>x s. set_add s x) xs s) \<and>
   members (fold (\<lambda>x s. set_add s x) xs s) = members s \<union> set xs"
  by (induction xs arbitrary: s) (auto simp: set_add_ok)

lemma set_of_ok [simp]: "wf_set (set_of xs)" "members (set_of xs) = set xs"
  using add_all_ok [of empty_set xs] by (simp_all add: set_of_def)

lemma union_all_ok:
  "wf_set s \<Longrightarrow> \<forall>t\<in>set ts. wf_set t \<Longrightarrow>
   wf_set (fold (\<lambda>t s. fold (\<lambda>x s. set_add s x) (set_elems t) s) ts s) \<and>
   members (fold (\<lambda>t s. fold (\<lambda>x s. set_add s x) (set_elems t) s) ts s) = members s \<union> \<Union> (members ` set ts)"
proof (induction ts arbitrary: s)
  case (Cons t ts)
  have "wf_set (fold (\<lambda>x s. set_add s x) (set_elems t) s) \<and>
    members (fold (\<lambda>x s. set_add s x) (set_elems t) s) = members s \<union> members t"
    using add_all_ok [OF Cons(2), of "set_elems t"] set_elems_members Cons(3) by simp
  then show ?case using Cons(1) [of "fold (\<lambda>x s. set_add s x) (set_elems t) s"] Cons(3) by auto
qed simp

lemma finite_members: "wf_set s \<Longrightarrow> finite (members s)"
  using set_elems_members [of s] by (metis List.finite_set)

lemma ssize_0: "wf_set s \<Longrightarrow> ssize s = 0 \<longleftrightarrow> members s = {}"
  using ssize_card [of s] finite_members [of s] by simp

lemma set_union_ok:
  assumes "wf_set s" "\<forall>t\<in>set ts. wf_set t"
  shows "wf_set (set_union s ts)" and "members (set_union s ts) = members s \<union> \<Union> (members ` set ts)"
proof -
  define us where "us = filter (\<lambda>t. ssize t \<noteq> 0) ts"
  have us: "\<forall>t\<in>set us. wf_set t" using assms(2) by (simp add: us_def)
  have "members t = {}" if "t \<in> set ts" "t \<notin> set us" for t
    using that assms(2) ssize_0 by (simp add: us_def)
  then have m: "\<Union> (members ` set us) = \<Union> (members ` set ts)" by (auto simp: us_def)
  have "wf_set (set_union s ts) \<and> members (set_union s ts) = members s \<union> \<Union> (members ` set us)"
  proof (cases us)
    case Nil
    then show ?thesis using assms(1) unfolding set_union_def us_def [symmetric] by simp
  next
    case (Cons t vs)
    then show ?thesis using union_all_ok [OF assms(1) us] ssize_0 [OF assms(1)] us
      unfolding set_union_def us_def [symmetric] by auto
  qed
  then show "wf_set (set_union s ts)" "members (set_union s ts) = members s \<union> \<Union> (members ` set ts)"
    using m by auto
qed

lemma remove_some_ok:
  "wf_set s \<Longrightarrow> wf_set (fold (\<lambda>n e. if P n then set_remove e n else e) xs s) \<and>
   members (fold (\<lambda>n e. if P n then set_remove e n else e) xs s) = members s - {x \<in> set xs. P x}"
  by (induction xs arbitrary: s) (auto simp: set_remove_ok)

lemma set_intersect_ok:
  assumes "wf_set s"
  shows "wf_set (set_intersect s ts)" and "members (set_intersect s ts) = members s \<inter> \<Inter> (members ` set ts)"
proof -
  have e: "(if list_all (\<lambda>t. set_has t n) ts then e else set_remove e n)
      = (if \<not> list_all (\<lambda>t. set_has t n) ts then set_remove e n else e)" for n e by simp
  note r = remove_some_ok [OF assms, where P = "\<lambda>n. \<not> list_all (\<lambda>t. set_has t n) ts" and xs = "set_elems s"]
  show "wf_set (set_intersect s ts)" using assms r unfolding set_intersect_def e by simp
  show "members (set_intersect s ts) = members s \<inter> \<Inter> (members ` set ts)"
    using r set_elems_members [OF assms] unfolding set_intersect_def e by (auto simp: list_all_iff)
qed

lemma set_subtract_ok:
  assumes "wf_set s"
  shows "wf_set (set_subtract s ts)" and "members (set_subtract s ts) = members s - \<Union> (members ` set ts)"
  using assms set_elems_members [OF assms]
    remove_some_ok [OF assms, where P = "\<lambda>n. list_ex (\<lambda>t. set_has t n) ts" and xs = "set_elems s"]
  by (auto simp: set_subtract_def list_ex_iff)

text \<open>
  Property C23. The operations on sets compute the algebra of sets, for any number of arguments, the
  shortcuts for empty arguments and for an empty receiver included, and \<open>size\<close> counts the members.
\<close>

theorem set_algebra:
  "let s = set_of xs; ts = map set_of yss in
    members (set_union s ts) = set xs \<union> \<Union> (set ` set yss) \<and>
    members (set_intersect s ts) = set xs \<inter> \<Inter> (set ` set yss) \<and>
    members (set_subtract s ts) = set xs - \<Union> (set ` set yss) \<and>
    list_all (\<lambda>u. ssize u = card (members u) \<and> distinct (set_elems u) \<and> set (set_elems u) = members u)
      [set_union s ts, set_intersect s ts, set_subtract s ts]"
proof -
  define s ts where "s = set_of xs" and "ts = map set_of yss"
  have s: "wf_set s" "\<forall>t\<in>set ts. wf_set t" by (simp_all add: s_def ts_def)
  note ok = set_union_ok [OF s] set_intersect_ok [OF s(1), of ts] set_subtract_ok [OF s(1), of ts]
  have m: "members s = set xs" "members ` set ts = set ` set yss"
    by (simp_all add: s_def ts_def image_image)
  have "ssize u = card (members u) \<and> distinct (set_elems u) \<and> set (set_elems u) = members u" if "wf_set u" for u
    using that ssize_card set_elems_members by blast
  then show ?thesis using ok(1,3,5) unfolding Let_def s_def [symmetric] ts_def [symmetric] ok(2,4,6) m
    by simp
qed

end
