(* ===== verification/ImmPath.thy ===== *)
theory ImmPath
  imports ImmMap "HOL-Library.Sublist"
begin

section \<open>Nested maps: paths and deep merge (swagger-ui-bundle.js)\<close>

text \<open>
  The state of the console is a \<open>Map\<close> whose values are maps again or plain values. \<open>updateIn\<close> walks a
  key path down, applies a function at its end and puts the results back on the way up; \<open>setIn\<close> and
  \<open>deleteIn\<close> are instances, \<open>getIn\<close> and \<open>hasIn\<close> read along a path, \<open>mergeDeep\<close> merges two nested maps.
  A result identical to the old value keeps the old map; identity is modelled by equality of the
  values, which agree wherever the code could only tell them apart by comparing references.
\<close>

subsection \<open>Values\<close>

datatype 'a ival = Leaf 'a | Nest nat "'a ival root option"

definition nest :: "'a ival imap \<Rightarrow> 'a ival" where
  "nest m = Nest (msize m) (mroot m)"

definition imap_of :: "nat \<Rightarrow> 'a ival root option \<Rightarrow> 'a ival imap" where
  "imap_of n r = \<lparr>msize = n, mroot = r\<rparr>"

lemma imap_of_nest [simp]: "imap_of (msize m) (mroot m) = m"
  by (simp add: imap_of_def)

lemma nest_imap_of [simp]: "nest (imap_of n r) = Nest n r"
  by (simp add: nest_def imap_of_def)

subsection \<open>Paths\<close>

text \<open>The recursive function of \<open>updateIn\<close>; \<open>None\<close> is \<open>NOT_SET\<close>.\<close>

fun update_in_go ::
  "'a ival option \<Rightarrow> jskey list \<Rightarrow> 'a ival option \<Rightarrow> ('a ival option \<Rightarrow> 'a ival option) \<Rightarrow> js_error + 'a ival option"
where
  "update_in_go t [] r f =
     (let u = (if t = None then r else t); s = f u in Inr (if s = u then t else s))"
| "update_in_go t (l # ls) r f =
     (case t of
        Some (Leaf a) \<Rightarrow> Inl (PlainError ''invalid keyPath'')
      | None \<Rightarrow>
          andthen (update_in_go None ls r f) (\<lambda>g.
            Inr (case g of None \<Rightarrow> t | Some x \<Rightarrow> Some (nest (map_set empty_map l x))))
      | Some (Nest n rt) \<Rightarrow>
          let m = imap_of n rt; c = map_get m l
          in andthen (update_in_go c ls r f) (\<lambda>g.
               Inr (if g = c then t
                    else case g of None \<Rightarrow> Some (nest (map_remove m l)) | Some x \<Rightarrow> Some (nest (map_set m l x)))))"

definition update_in ::
  "'a ival imap \<Rightarrow> jskey list \<Rightarrow> 'a ival option \<Rightarrow> ('a ival option \<Rightarrow> 'a ival option) \<Rightarrow> js_error + 'a ival option"
where
  "update_in m p r f = update_in_go (Some (nest m)) p r f"

definition set_in :: "'a ival imap \<Rightarrow> jskey list \<Rightarrow> 'a ival \<Rightarrow> js_error + 'a ival option" where
  "set_in m p x = update_in m p None (\<lambda>_. Some x)"

text \<open>\<open>deleteIn\<close> passes no default: the default is the value \<open>undefined\<close>, here \<open>u\<close>.\<close>

definition delete_in :: "'a \<Rightarrow> 'a ival imap \<Rightarrow> jskey list \<Rightarrow> js_error + 'a ival option" where
  "delete_in u m p = update_in m p (Some (Leaf u)) (\<lambda>_. None)"

fun get_in :: "'a ival \<Rightarrow> jskey list \<Rightarrow> 'a ival option" where
  "get_in v [] = Some v"
| "get_in (Leaf a) (k # p) = None"
| "get_in (Nest n r) (k # p) =
     (case map_get (imap_of n r) k of None \<Rightarrow> None | Some v \<Rightarrow> get_in v p)"

definition has_in :: "'a ival imap \<Rightarrow> jskey list \<Rightarrow> bool" where
  "has_in m p = (get_in (nest m) p \<noteq> None)"

subsection \<open>Deep merge\<close>

lemma hentries_size: "(k, v) \<in> set (hentries x) \<Longrightarrow> size v < size_hnode size x"
proof (induction x rule: hentries.induct)
  case (1 bm ns)
  then obtain y where y: "y \<in> set ns" "(k, v) \<in> set (hentries y)" by auto
  have "size_hnode size y \<le> size_list (size_hnode size) ns" using y(1) by (rule size_list_estimation') simp
  then show ?case using 1(1) [OF y(1)] y(2) by simp
next
  case (2 c ns)
  then obtain y where y: "Some y \<in> set ns" "(k, v) \<in> set (hentries y)" by (auto split: option.splits)
  have "size_hnode size y \<le> size_list (size_option (size_hnode size)) ns"
    using y(1) by (rule size_list_estimation') simp
  then show ?case using 2(1) [OF y(1) refl] y(2) by simp
next
  case (3 kh es)
  then have "size_prod (\<lambda>_. 0) size (k, v) \<le> size_list (size_prod (\<lambda>_. 0) size) es"
    by (intro size_list_estimation' [of "(k, v)"]) simp_all
  then show ?case by simp
next
  case (4 kh en)
  then show ?case by (cases en) simp
qed

lemma map_entries_size:
  assumes "(k, v) \<in> set (map_entries (imap_of n r))"
  shows "size v < size (Nest n r)"
proof -
  from assms consider (array) es where "r = Some (ArrayMap es)" "(k, v) \<in> set es"
    | (trie) x where "r = Some (Trie x)" "(k, v) \<in> set (hentries x)"
    by (cases r; cases "the r") (auto simp: map_entries_def imap_of_def)
  then show ?thesis
  proof cases
    case array
    have "size_prod (\<lambda>_. 0) size (k, v) \<le> size_list (size_prod (\<lambda>_. 0) size) es"
      using array(2) by (rule size_list_estimation') simp
    then show ?thesis using array(1) by simp
  next
    case trie
    then show ?thesis using hentries_size [OF trie(2)] by simp
  qed
qed

lemma map_entries_less: "(k, v) \<in> set (map_entries m) \<Longrightarrow> size v < size (nest m)"
  using map_entries_size [of k v "msize m" "mroot m"] by (simp add: nest_def)

text \<open>\<open>update(key, NOT_SET, f)\<close> on a map: \<open>updateIn\<close> along a path of one key.\<close>

definition update_key :: "'a ival imap \<Rightarrow> jskey \<Rightarrow> ('a ival option \<Rightarrow> 'a ival option) \<Rightarrow> 'a ival imap" where
  "update_key m k f = (case update_in m [k] None f of Inr (Some (Nest n r)) \<Rightarrow> imap_of n r | _ \<Rightarrow> m)"

text \<open>
  \<open>mergeDeep\<close> (\<open>rt\<close>, \<open>at\<close>) with one argument, and \<open>ot\<close>, which merges two values: two maps are merged,
  otherwise the new value wins, unless the two are equal.
\<close>

function merge_deep :: "'a ival imap \<Rightarrow> 'a ival imap \<Rightarrow> 'a ival imap"
and deep_value :: "'a ival \<Rightarrow> 'a ival \<Rightarrow> 'a ival" where
  "merge_deep e t =
     (if msize t = 0 then e
      else if msize e = 0 then t
      else fold (\<lambda>(k, v) m. update_key m k (\<lambda>u. case u of None \<Rightarrow> Some v | Some w \<Rightarrow> Some (deep_value w v)))
             (map_entries t) e)"
| "deep_value (Nest n r) (Nest n' r') = nest (merge_deep (imap_of n r) (imap_of n' r'))"
| "deep_value (Leaf a) v = (if Leaf a = v then Leaf a else v)"
| "deep_value (Nest n r) (Leaf a) = (if Nest n r = Leaf a then Nest n r else Leaf a)"
  by pat_completeness auto
termination
  by (relation "measure (\<lambda>x. case x of Inl (e, t) \<Rightarrow> 2 * size (nest t) | Inr (w, v) \<Rightarrow> 2 * size v + 1)")
    (auto dest!: map_entries_less)

declare merge_deep.simps [simp del]

subsection \<open>Well-formed values\<close>

inductive wf_ival :: "'a ival \<Rightarrow> bool" where
  wf_leaf_val: "wf_ival (Leaf a)"
| wf_nest: "wf_map (imap_of n r) \<Longrightarrow> (\<And>k v. map_get (imap_of n r) k = Some v \<Longrightarrow> wf_ival v) \<Longrightarrow> wf_ival (Nest n r)"

inductive_simps wf_ival_leaf [simp]: "wf_ival (Leaf a)"
inductive_simps wf_ival_Nest: "wf_ival (Nest n r)"

lemma wf_ival_nest: "wf_ival (nest m) \<longleftrightarrow> wf_map m \<and> (\<forall>k v. map_get m k = Some v \<longrightarrow> wf_ival v)"
  by (simp add: nest_def wf_ival_Nest)

lemma wf_ival_empty: "wf_ival (nest empty_map)"
  by (simp add: wf_ival_nest empty_map_ok)

lemma wf_ival_update:
  assumes "wf_ival (nest m)" "\<And>x. v = Some x \<Longrightarrow> wf_ival x"
  shows "wf_ival (nest (map_update m k v))"
  using assms imap.inv_upd [of m k v] imap.get_upd [of m k v] by (auto simp: wf_ival_nest)

text \<open>What can be read below an optional value.\<close>

definition read :: "'a ival option \<Rightarrow> jskey list \<Rightarrow> 'a ival option" where
  "read t p = (case t of None \<Rightarrow> None | Some v \<Rightarrow> get_in v p)"

lemma read_simps [simp]:
  "read None p = None" "read (Some v) p = get_in v p" "read t [] = t"
  by (simp_all add: read_def split: option.splits)

lemma read_Cons: "get_in (nest m) (k # p) = read (map_get m k) p"
  by (simp add: nest_def read_def)

text \<open>The step of \<open>updateIn\<close> in terms of \<open>map_update\<close>.\<close>

lemma update_in_go_nest:
  assumes "wf_map m"
  shows "update_in_go (Some (nest m)) (l # ls) r f =
    andthen (update_in_go (map_get m l) ls r f) (\<lambda>g. Inr (Some (nest (map_update m l g))))"
proof -
  have "(if g = map_get m l then Some (nest m)
      else case g of None \<Rightarrow> Some (nest (map_remove m l)) | Some x \<Rightarrow> Some (nest (map_set m l x)))
      = Some (nest (map_update m l g))" for g
    using imap.upd_noop [OF assms, of l g] by (auto simp: map_set_def map_remove_def split: option.splits)
  moreover have "update_in_go (Some (nest m)) (l # ls) r f =
    andthen (update_in_go (map_get m l) ls r f) (\<lambda>g. Inr (if g = map_get m l then Some (nest m)
      else case g of None \<Rightarrow> Some (nest (map_remove m l)) | Some x \<Rightarrow> Some (nest (map_set m l x))))"
    by (simp add: nest_def Let_def cong: if_cong option.case_cong)
  ultimately show ?thesis by simp
qed

lemma update_in_go_none:
  "update_in_go None (l # ls) r f =
    andthen (update_in_go None ls r f) (\<lambda>g. Inr (map_option (\<lambda>x. nest (map_set empty_map l x)) g))"
proof -
  have "(case g of None \<Rightarrow> None | Some x \<Rightarrow> Some (nest (map_set empty_map l x)))
      = map_option (\<lambda>x. nest (map_set empty_map l x)) g" for g :: "'a ival option"
    by (simp split: option.splits)
  then show ?thesis by simp
qed

lemma ival_cases:
  obtains a where "v = Leaf a" | m where "v = nest m"
  by (cases v) (auto simp flip: nest_imap_of)

text \<open>
  The general law of \<open>updateIn\<close> on well-formed values: below the path is what the function gives,
  paths that leave it are read as before; it throws when the path runs into a plain value.
\<close>

definition update_ok :: "'a ival option \<Rightarrow> jskey list \<Rightarrow> 'a ival option \<Rightarrow> ('a ival option \<Rightarrow> 'a ival option) \<Rightarrow> 'a ival option \<Rightarrow> bool" where
  "update_ok t p r f g \<longleftrightarrow>
     (\<forall>x. g = Some x \<longrightarrow> wf_ival x) \<and>
     read g p = (if read t p = None then if f r = r then None else f r else f (read t p)) \<and>
     (\<forall>q. \<not> prefix p q \<and> \<not> prefix q p \<longrightarrow> read g q = read t q)"

definition blocked :: "'a ival option \<Rightarrow> jskey list \<Rightarrow> bool" where
  "blocked t p \<longleftrightarrow> (\<exists>q a. strict_prefix q p \<and> read t q = Some (Leaf a))"

lemma blocked_simps [simp]: "\<not> blocked t []" "\<not> blocked None p" "blocked (Some (Leaf a)) (k # p)"
proof -
  show "blocked (Some (Leaf a)) (k # p)" unfolding blocked_def by (intro exI [of _ "[]"] exI [of _ a]) simp
qed (auto simp: blocked_def)

lemma blocked_nest: "blocked (Some (nest m)) (k # p) \<longleftrightarrow> blocked (map_get m k) p"
proof
  assume "blocked (Some (nest m)) (k # p)"
  then obtain q a where q: "strict_prefix q (k # p)" "read (Some (nest m)) q = Some (Leaf a)"
    by (auto simp: blocked_def)
  then obtain q' where "q = k # q'" "strict_prefix q' p"
    by (cases q) (auto simp: nest_def strict_prefix_def)
  then show "blocked (map_get m k) p" using q(2) by (auto simp: blocked_def read_Cons)
next
  assume "blocked (map_get m k) p"
  then obtain q a where "strict_prefix q p" "read (map_get m k) q = Some (Leaf a)"
    by (auto simp: blocked_def)
  then show "blocked (Some (nest m)) (k # p)" unfolding blocked_def
    by (intro exI [of _ "k # q"] exI [of _ a]) (simp add: read_Cons)
qed

lemma update_in_go_ok:
  assumes f: "\<And>u x. (\<forall>y. u = Some y \<longrightarrow> wf_ival y) \<Longrightarrow> f u = Some x \<Longrightarrow> wf_ival x"
    and r: "\<And>x. r = Some x \<Longrightarrow> wf_ival x"
  shows "(\<And>x. t = Some x \<Longrightarrow> wf_ival x) \<Longrightarrow>
    (if blocked t p then update_in_go t p r f = Inl (PlainError ''invalid keyPath'')
     else \<exists>g. update_in_go t p r f = Inr g \<and> update_ok t p r f g)"
proof (induction p arbitrary: t)
  case Nil
  show ?case
  proof (cases t)
    case None
    then show ?thesis using f [of r] r by (auto simp: update_ok_def Let_def)
  next
    case (Some x)
    then show ?thesis using f [of t] Nil by (auto simp: update_ok_def Let_def)
  qed
next
  case (Cons k p)
  show ?case
  proof (cases t)
    case None
    obtain g where g: "update_in_go None p r f = Inr g" "update_ok None p r f g"
      using Cons(1) [of None] by auto
    have "update_in_go None (k # p) r f = Inr (map_option (\<lambda>x. nest (map_set empty_map k x)) g)"
      unfolding update_in_go_none by (simp add: g(1))
    moreover have "update_ok None (k # p) r f (map_option (\<lambda>x. nest (map_set empty_map k x)) g)"
    proof (cases g)
      case None
      then show ?thesis using g(2) by (simp add: update_ok_def)
    next
      case (Some x)
      have get: "map_get (map_set empty_map k x) = [k \<mapsto> x]"
        by (simp add: map_set_def map_update_ok empty_map_ok)
      have "wf_ival (nest (map_set empty_map k x))" unfolding map_set_def
        by (rule wf_ival_update [OF wf_ival_empty]) (use g(2) Some in \<open>auto simp: update_ok_def\<close>)
      moreover have "read (Some (nest (map_set empty_map k x))) q = None" if "\<not> prefix (k # p) q" "\<not> prefix q (k # p)" for q
      proof (cases q)
        case (Cons l q')
        then show ?thesis using that g(2) Some by (cases "l = k") (auto simp: read_Cons get update_ok_def)
      qed (use that in simp)
      ultimately show ?thesis using g(2) Some by (auto simp: update_ok_def read_Cons get)
    qed
    ultimately show ?thesis using None by simp
  next
    case (Some v)
    show ?thesis
    proof (cases v rule: ival_cases)
      case (1 a)
      then show ?thesis using Some by simp
    next
      case (2 m)
      have wf: "wf_ival (nest m)" using Cons(2) Some 2 by simp
      then have m: "wf_map m" "\<And>x. map_get m k = Some x \<Longrightarrow> wf_ival x" by (auto simp: wf_ival_nest)
      have IH: "if blocked (map_get m k) p then update_in_go (map_get m k) p r f = Inl (PlainError ''invalid keyPath'')
          else \<exists>g. update_in_go (map_get m k) p r f = Inr g \<and> update_ok (map_get m k) p r f g"
        by (rule Cons(1)) (rule m(2))
      note step = update_in_go_nest [OF m(1), of k p r f]
      have b: "blocked t (k # p) = blocked (map_get m k) p" using Some 2 by (simp add: blocked_nest)
      show ?thesis
      proof (cases "blocked (map_get m k) p")
        case True
        then show ?thesis using IH b step Some 2 by simp
      next
        case False
        then obtain g where g: "update_in_go (map_get m k) p r f = Inr g" "update_ok (map_get m k) p r f g"
          using IH by auto
        let ?n = "nest (map_update m k g)"
        have get: "map_get (map_update m k g) = (map_get m)(k := g)" by (rule map_update_ok(2) [OF m(1)])
        have "wf_ival ?n" by (rule wf_ival_update [OF wf]) (use g(2) in \<open>auto simp: update_ok_def\<close>)
        moreover have "read (Some ?n) q = read t q" if "\<not> prefix (k # p) q" "\<not> prefix q (k # p)" for q
        proof (cases q)
          case (Cons l q')
          then show ?thesis using that g(2) Some 2 by (cases "l = k") (auto simp: read_Cons get update_ok_def)
        qed (use that in simp)
        ultimately have "update_ok t (k # p) r f (Some ?n)"
          using g(2) Some 2 by (auto simp: update_ok_def read_Cons get)
        then show ?thesis using False b step Some 2 g(1) by simp
      qed
    qed
  qed
qed

lemma blocked_iff_error:
  assumes "wf_ival (nest m)" "\<And>u x. (\<forall>y. u = Some y \<longrightarrow> wf_ival y) \<Longrightarrow> f u = Some x \<Longrightarrow> wf_ival x"
    "\<And>x. r = Some x \<Longrightarrow> wf_ival x"
  shows "if blocked (Some (nest m)) p then update_in m p r f = Inl (PlainError ''invalid keyPath'')
     else \<exists>g. update_in m p r f = Inr g \<and> update_ok (Some (nest m)) p r f g"
  unfolding update_in_def by (rule update_in_go_ok [OF assms(2,3)]) (use assms(1) in auto)

text \<open>
  Property C24. \<open>setIn\<close> on a well-formed state throws \<open>invalid keyPath\<close> exactly when the path runs
  through a plain value; otherwise the value is read back at the path, missing maps on the way being
  created, and every path that leaves it (neither a prefix nor an extension of it) reads as before.
\<close>

theorem set_in_get_in:
  assumes "wf_ival (nest m)" and "wf_ival x"
  shows "if blocked (Some (nest m)) p then set_in m p x = Inl (PlainError ''invalid keyPath'')
    else \<exists>g. set_in m p x = Inr (Some g) \<and> wf_ival g \<and> get_in g p = Some x \<and>
      (\<forall>q. \<not> prefix p q \<and> \<not> prefix q p \<longrightarrow> get_in g q = get_in (nest m) q)"
proof -
  have "if blocked (Some (nest m)) p then update_in m p None (\<lambda>_. Some x) = Inl (PlainError ''invalid keyPath'')
     else \<exists>g. update_in m p None (\<lambda>_. Some x) = Inr g \<and> update_ok (Some (nest m)) p None (\<lambda>_. Some x) g"
    by (rule blocked_iff_error [OF assms(1)]) (use assms(2) in auto)
  moreover have "\<exists>h. g = Some h \<and> wf_ival h \<and> get_in h p = Some x \<and>
      (\<forall>q. \<not> prefix p q \<and> \<not> prefix q p \<longrightarrow> get_in h q = get_in (nest m) q)"
    if "update_ok (Some (nest m)) p None (\<lambda>_. Some x) g" for g
    using that by (cases g) (auto simp: update_ok_def split: if_splits)
  ultimately show ?thesis unfolding set_in_def by (auto split: if_splits)
qed

theorem set_in_get_in_witness:
  "\<exists>g. set_in (empty_map :: nat ival imap) [KNull, KUndef] (Leaf 5) = Inr (Some g) \<and> get_in g [KNull, KUndef] = Some (Leaf 5)"
  using set_in_get_in [of empty_map "Leaf (5 :: nat)" "[KNull, KUndef]", OF wf_ival_empty]
  by (auto simp: blocked_nest empty_map_ok)

text \<open>
  Property C25. \<open>deleteIn\<close> throws where \<open>setIn\<close> does, when the path runs through a plain value; otherwise
  it leaves nothing at the path, and every path that leaves it (neither a prefix nor an extension of
  it) as it was.
\<close>

theorem delete_in_get_in:
  assumes "wf_ival (nest m)"
  shows "if blocked (Some (nest m)) p then delete_in u m p = Inl (PlainError ''invalid keyPath'')
    else \<exists>g. delete_in u m p = Inr g \<and> read g p = None \<and>
      (\<forall>q. \<not> prefix p q \<and> \<not> prefix q p \<longrightarrow> read g q = get_in (nest m) q)"
proof -
  have "if blocked (Some (nest m)) p then update_in m p (Some (Leaf u)) (\<lambda>_. None) = Inl (PlainError ''invalid keyPath'')
     else \<exists>g. update_in m p (Some (Leaf u)) (\<lambda>_. None) = Inr g \<and> update_ok (Some (nest m)) p (Some (Leaf u)) (\<lambda>_. None) g"
    by (rule blocked_iff_error [OF assms]) auto
  then show ?thesis unfolding delete_in_def by (auto simp: update_ok_def split: if_splits)
qed

theorem delete_in_get_in_witness:
  "\<exists>g. delete_in 0 (empty_map :: nat ival imap) [KNull, KUndef] = Inr g \<and> read g [KNull, KUndef] = None"
  using delete_in_get_in [of empty_map "[KNull, KUndef]" "0 :: nat", OF wf_ival_empty]
  by (auto simp: blocked_nest empty_map_ok)

subsection \<open>Deep merge by paths\<close>

lemma update_key_update: "wf_map m \<Longrightarrow> update_key m k f = map_update m k (f (map_get m k))"
proof -
  assume m: "wf_map m"
  have "update_in_go (map_get m k) [] None f = Inr (f (map_get m k))"
    by (cases "map_get m k") (simp_all add: Let_def)
  then have "update_in m [k] None f = Inr (Some (nest (map_update m k (f (map_get m k)))))"
    by (simp only: update_in_def update_in_go_nest [OF m] andthen_simps)
  then show ?thesis by (simp add: update_key_def nest_def)
qed

lemma fold_update_key:
  "wf_map m \<Longrightarrow> distinct (map fst es) \<Longrightarrow>
   wf_map (fold (\<lambda>(k, v) m. update_key m k (h v)) es m) \<and>
   map_get (fold (\<lambda>(k, v) m. update_key m k (h v)) es m)
     = (\<lambda>k. case map_of es k of None \<Rightarrow> map_get m k | Some v \<Rightarrow> h v (map_get m k))"
proof (induction es arbitrary: m)
  case (Cons e es)
  obtain k v where e: "e = (k, v)" by (cases e)
  let ?m = "map_update m k (h v (map_get m k))"
  have k: "map_of es k = None" using Cons(3) e by (simp add: map_of_eq_None_iff)
  have "wf_map ?m" "map_get ?m = (map_get m)(k := h v (map_get m k))"
    using imap.inv_upd [OF Cons(2)] imap.get_upd [OF Cons(2)] by blast+
  then show ?case using Cons(1) [of ?m] Cons(2,3) e k
    by (auto simp: update_key_update fun_eq_iff split: option.splits)
qed simp

lemma merge_deep_get:
  assumes "wf_map a" "wf_map b"
  shows "wf_map (merge_deep a b)"
    and "map_get (merge_deep a b) k = (case map_get b k of None \<Rightarrow> map_get a k
      | Some v \<Rightarrow> (case map_get a k of None \<Rightarrow> Some v | Some w \<Rightarrow> Some (deep_value w v)))"
proof -
  note e = imap.entries [OF assms(2)]
  have "wf_map (merge_deep a b) \<and> map_get (merge_deep a b) k = (case map_get b k of None \<Rightarrow> map_get a k
      | Some v \<Rightarrow> (case map_get a k of None \<Rightarrow> Some v | Some w \<Rightarrow> Some (deep_value w v)))"
  proof (cases "msize a = 0 \<or> msize b = 0")
    case True
    then show ?thesis using imap.count_0 [OF assms(1)] imap.count_0 [OF assms(2)] assms
      by (auto simp: merge_deep.simps split: option.splits)
  next
    case False
    note f = fold_update_key [OF assms(1), of "map_entries b"
        "\<lambda>v u. case u of None \<Rightarrow> Some v | Some w \<Rightarrow> Some (deep_value w v)"]
    show ?thesis using False f e by (simp add: merge_deep.simps split: option.splits)
  qed
  then show "wf_map (merge_deep a b)"
    "map_get (merge_deep a b) k = (case map_get b k of None \<Rightarrow> map_get a k
      | Some v \<Rightarrow> (case map_get a k of None \<Rightarrow> Some v | Some w \<Rightarrow> Some (deep_value w v)))" by blast+
qed

lemma deep_value_nest [simp]: "deep_value (nest a) (nest b) = nest (merge_deep a b)"
  by (simp add: nest_def)

lemma deep_value_leaf [simp]: "deep_value (Leaf a) v = v" "deep_value w (Leaf a) = Leaf a"
  by (simp, cases w) simp_all

lemma wf_child: "wf_ival (nest m) \<Longrightarrow> map_get m k = Some v \<Longrightarrow> wf_ival v"
  by (simp add: wf_ival_nest)

lemma merge_deep_leaf:
  "wf_ival (nest a) \<Longrightarrow> wf_ival (nest b) \<Longrightarrow> get_in (nest b) p = Some (Leaf x) \<Longrightarrow>
   get_in (nest (merge_deep a b)) p = Some (Leaf x)"
proof (induction p arbitrary: a b)
  case (Cons k p)
  have wf: "wf_map a" "wf_map b" using Cons(2,3) by (simp_all add: wf_ival_nest)
  obtain v where v: "map_get b k = Some v" "get_in v p = Some (Leaf x)"
    using Cons(4) by (auto simp: read_Cons read_def split: option.splits)
  show ?case
  proof (cases "map_get a k")
    case None
    then show ?thesis using v by (simp add: read_Cons merge_deep_get [OF wf])
  next
    case (Some w)
    have "get_in (deep_value w v) p = Some (Leaf x)"
    proof (cases w rule: ival_cases)
      case (2 m)
      show ?thesis
      proof (cases v rule: ival_cases)
        case v': (2 m')
        have "wf_ival (nest m)" "wf_ival (nest m')" using wf_child [OF Cons(2) Some] wf_child [OF Cons(3) v(1)] 2 v' by simp_all
        then show ?thesis using Cons(1) v(2) 2 v' by simp
      qed (use v(2) in simp)
    qed (use v(2) in simp)
    then show ?thesis using v Some by (simp add: read_Cons merge_deep_get [OF wf])
  qed
qed (simp add: nest_def)

lemma merge_deep_keeps:
  "wf_ival (nest a) \<Longrightarrow> wf_ival (nest b) \<Longrightarrow> get_in (nest b) p = None \<Longrightarrow> \<not> blocked (Some (nest b)) p \<Longrightarrow>
   get_in (nest (merge_deep a b)) p = get_in (nest a) p"
proof (induction p arbitrary: a b)
  case (Cons k p)
  have wf: "wf_map a" "wf_map b" using Cons(2,3) by (simp_all add: wf_ival_nest)
  have get: "get_in (nest (merge_deep a b)) (k # p) = read (case map_get b k of None \<Rightarrow> map_get a k
      | Some v \<Rightarrow> (case map_get a k of None \<Rightarrow> Some v | Some w \<Rightarrow> Some (deep_value w v))) p"
    by (simp only: read_Cons merge_deep_get(2) [OF wf])
  show ?case
  proof (cases "map_get b k")
    case None
    then show ?thesis unfolding get by (simp add: read_Cons)
  next
    case (Some v)
    have v: "get_in v p = None" "\<not> blocked (Some v) p"
      using Cons(4,5) Some by (simp_all add: read_Cons blocked_nest)
    then have p: "p \<noteq> []" by (cases p) simp_all
    then obtain m' where m': "v = nest m'" using v(2) by (cases v rule: ival_cases; cases p) auto
    show ?thesis
    proof (cases "map_get a k")
      case None
      then show ?thesis using v Some unfolding get by (simp add: read_Cons)
    next
      case w: (Some w)
      show ?thesis
      proof (cases w rule: ival_cases)
        case (1 c)
        then show ?thesis using v Some w p unfolding get by (cases p) (simp_all add: read_Cons)
      next
        case (2 m)
        have "wf_ival (nest m)" "wf_ival (nest m')" using wf_child [OF Cons(2) w] wf_child [OF Cons(3) Some] 2 m' by simp_all
        then have "get_in (nest (merge_deep m m')) p = get_in (nest m) p" using Cons(1) v m' by simp
        then show ?thesis using Some w 2 m' unfolding get by (simp add: read_Cons)
      qed
    qed
  qed
qed simp

text \<open>
  Property C26. \<open>mergeDeep\<close> of two well-formed states: every plain value of the second is found in the
  result at its path, and a path the second says nothing about reads as in the first.
\<close>

theorem merge_deep_paths:
  assumes "wf_ival (nest a)" and "wf_ival (nest b)"
  shows "(get_in (nest b) p = Some (Leaf x) \<longrightarrow> get_in (nest (merge_deep a b)) p = Some (Leaf x)) \<and>
    (get_in (nest b) p = None \<and> \<not> blocked (Some (nest b)) p \<longrightarrow>
      get_in (nest (merge_deep a b)) p = get_in (nest a) p)"
  using merge_deep_leaf [OF assms] merge_deep_keeps [OF assms] by blast

theorem merge_deep_paths_witness:
  "get_in (nest (merge_deep (map_set empty_map KNull (Leaf 1)) (map_set empty_map KUndef (Leaf (2 :: nat))))) [KNull] = Some (Leaf 1)"
proof -
  have "wf_ival (nest (map_set empty_map KNull (Leaf (1 :: nat))))" "wf_ival (nest (map_set empty_map KUndef (Leaf (2 :: nat))))"
    unfolding map_set_def by (rule wf_ival_update [OF wf_ival_empty]; simp)+
  from merge_deep_paths [OF this, of "[KNull]" 0] show ?thesis
    by (simp add: read_Cons blocked_nest map_set_def map_update_ok empty_map_ok)
qed

end
