(* ===== verification/Entities.thy ===== *)
theory Entities
  imports EntityTable
begin

section \<open>Entities and escapes of the Markdown renderer (swagger-ui-bundle.js, module 27)\<close>

text \<open>
  The text functions every rule of the Markdown parser and renderer uses: \<open>escapeHtml\<close>,
  \<open>unescapeMd\<close>, \<open>replaceEntities\<close> with its pattern \<open>&([a-z#][a-z0-9]{1,31});\<close>, the test for valid
  code points and \<open>fromCodePoint\<close>. Text is a list of UTF-16 code units; a global \<open>replace\<close> is a scan
  from left to right that does not look at what it has replaced.
\<close>

subsection \<open>Character classes of the patterns\<close>

definition is_digit :: "unit16 \<Rightarrow> bool" where
  "is_digit c = (48 \<le> unat c \<and> unat c \<le> 57)"

definition is_letter :: "unit16 \<Rightarrow> bool" where
  "is_letter c = code_letter (unat c)"

definition is_alnum :: "unit16 \<Rightarrow> bool" where
  "is_alnum c = code_alnum (unat c)"

definition is_hex :: "unit16 \<Rightarrow> bool" where
  "is_hex c = (is_digit c \<or> 65 \<le> unat c \<and> unat c \<le> 70 \<or> 97 \<le> unat c \<and> unat c \<le> 102)"

definition hex_val :: "unit16 \<Rightarrow> nat" where
  "hex_val c = (if is_digit c then unat c - 48 else if unat c \<le> 70 then unat c - 55 else unat c - 87)"

subsection \<open>Code points\<close>

text \<open>
  \<open>isValidEntityCode\<close>; the masked comparisons look at the low sixteen bits. Every comparison with
  \<open>NaN\<close> is false and its masked bits are 0, so \<open>NaN\<close> passes.
\<close>

definition valid_entity_code :: "nat option \<Rightarrow> bool" where
  "valid_entity_code n =
     (case n of
        None \<Rightarrow> True
      | Some e \<Rightarrow>
          \<not> (55296 \<le> e \<and> e \<le> 57343) \<and> \<not> (64976 \<le> e \<and> e \<le> 65007) \<and>
          e mod 65536 \<noteq> 65535 \<and> e mod 65536 \<noteq> 65534 \<and> \<not> e \<le> 8 \<and> e \<noteq> 11 \<and>
          \<not> (14 \<le> e \<and> e \<le> 31) \<and> \<not> (127 \<le> e \<and> e \<le> 159) \<and> \<not> 1114111 < e)"

text \<open>\<open>fromCodePoint\<close>; \<open>String.fromCharCode(NaN)\<close> is the unit 0.\<close>

definition from_code_point :: "nat option \<Rightarrow> jsstr" where
  "from_code_point n =
     (case n of
        None \<Rightarrow> [0]
      | Some e \<Rightarrow>
          if 65535 < e then [of_nat (55296 + (e - 65536) div 1024), of_nat (56320 + (e - 65536) mod 1024)]
          else [of_nat e])"

subsection \<open>The decoder\<close>

text \<open>
  \<open>parseInt\<close> on the digits at the front of a text, with no digit the value is \<open>NaN\<close> (\<open>None\<close>); in
  radix 16 a prefix \<open>0x\<close> is removed first.
\<close>

definition digits_val :: "nat \<Rightarrow> (unit16 \<Rightarrow> nat) \<Rightarrow> jsstr \<Rightarrow> nat option" where
  "digits_val b f ds = (if ds = [] then None else Some (fold (\<lambda>d n. n * b + f d) ds 0))"

definition parse_int_10 :: "jsstr \<Rightarrow> nat option" where
  "parse_int_10 s = digits_val 10 (\<lambda>c. unat c - 48) (takeWhile is_digit s)"

fun skip_0x :: "jsstr \<Rightarrow> jsstr" where
  "skip_0x (a # b # r) = (if a = 48 \<and> (b = 120 \<or> b = 88) then r else a # b # r)"
| "skip_0x s = s"

definition parse_int_16 :: "jsstr \<Rightarrow> nat option" where
  "parse_int_16 s = digits_val 16 hex_val (takeWhile is_hex (skip_0x s))"

text \<open>\<open>/^#((?:x[a-f0-9]{1,8}|[0-9]{1,8}))/i\<close>, which looks at the start of the text only.\<close>

definition numeric_prefix :: "jsstr \<Rightarrow> bool" where
  "numeric_prefix t =
     (case t of
        h # a # r \<Rightarrow>
          h = 35 \<and> (((a = 120 \<or> a = 88) \<and> r \<noteq> [] \<and> is_hex (hd r)) \<or> is_digit a)
      | _ \<Rightarrow> False)"

definition numeric_code :: "jsstr \<Rightarrow> nat option" where
  "numeric_code t = (if t ! 1 = 120 \<or> t ! 1 = 88 then parse_int_16 (drop 2 t) else parse_int_10 (drop 1 t))"

definition named_entity :: "jsstr \<Rightarrow> jsstr option" where
  "named_entity t = map_of (map (\<lambda>(n, v). (js n, map of_nat v)) all_entities) t"

text \<open>\<open>f(e, t)\<close>: the text of the entity named \<open>t\<close>, or the matched text \<open>e\<close> itself.\<close>

definition entity_text :: "jsstr \<Rightarrow> jsstr \<Rightarrow> jsstr" where
  "entity_text e t =
     (case named_entity t of
        Some v \<Rightarrow> v
      | None \<Rightarrow>
          if numeric_prefix t \<and> valid_entity_code (numeric_code t) then from_code_point (numeric_code t) else e)"

text \<open>What the entity pattern matches after an \<open>&\<close>: the name and the text behind the semicolon.\<close>

definition entity_match :: "jsstr \<Rightarrow> (jsstr \<times> jsstr) option" where
  "entity_match s =
     (case s of
        [] \<Rightarrow> None
      | d # r \<Rightarrow>
          let w = takeWhile is_alnum r; k = length w
          in if (is_letter d \<or> d = 35) \<and> 1 \<le> k \<and> k \<le> 31 \<and> k < length r \<and> r ! k = 59
             then Some (d # w, drop (k + 1) r) else None)"

lemma entity_match_less [termination_simp]: "entity_match s = Some (t, r) \<Longrightarrow> length r < length s"
  by (auto simp: entity_match_def Let_def split: list.splits if_splits)

fun replace_go :: "jsstr \<Rightarrow> jsstr" where
  "replace_go [] = []"
| "replace_go (c # s) =
     (if c = 38 then
        (case entity_match s of
           Some (t, r) \<Rightarrow> entity_text (38 # t @ [59]) t @ replace_go r
         | None \<Rightarrow> c # replace_go s)
      else c # replace_go s)"

definition replace_entities :: "jsstr \<Rightarrow> jsstr" where
  "replace_entities e = (if 38 \<notin> set e then e else replace_go e)"

subsection \<open>Escapes\<close>

definition html_escape :: "unit16 \<Rightarrow> jsstr" where
  "html_escape c =
     (if c = 38 then js ''&amp;'' else if c = 60 then js ''&lt;'' else if c = 62 then js ''&gt;''
      else if c = 34 then js ''&quot;'' else [c])"

definition escape_html :: "jsstr \<Rightarrow> jsstr" where
  "escape_html e = (if list_ex (\<lambda>c. c \<in> {38, 60, 62, 34}) e then concat (map html_escape e) else e)"

text \<open>The punctuation a backslash protects, and \<open>unescapeMd\<close>.\<close>

definition md_punct :: jsstr where
  "md_punct = js ([CHR 0x5C] @ ''!'' @ [CHR 0x22] @ ''#$%&'' @ [CHR 0x27] @ ''()*+,./:;<=>?@[]^_`{|}~-'')"

fun unescape_go :: "jsstr \<Rightarrow> jsstr" where
  "unescape_go (a # b # s) =
     (if a = 92 \<and> b \<in> set md_punct then b # unescape_go s else a # unescape_go (b # s))"
| "unescape_go s = s"

definition unescape_md :: "jsstr \<Rightarrow> jsstr" where
  "unescape_md e = (if 92 \<notin> set e then e else unescape_go e)"

subsection \<open>Escaping and decoding\<close>

lemma js_simps [simp]: "js [] = []" "js (c # cs) = of_nat (of_char c) # js cs"
  by (simp_all add: js_def)

lemma html_escape_cases:
  obtains "c = 38" "html_escape c = js ''&amp;''" | "c = 60" "html_escape c = js ''&lt;''"
    | "c = 62" "html_escape c = js ''&gt;''" | "c = 34" "html_escape c = js ''&quot;''"
    | "c \<notin> {38, 60, 62, 34}" "html_escape c = [c]"
  by (auto simp: html_escape_def split: if_splits)

lemma escape_html_concat: "escape_html e = concat (map html_escape e)"
proof -
  have "concat (map html_escape e) = e" if "\<forall>c\<in>set e. c \<notin> {38, 60, 62, 34}"
    using that by (induction e) (auto simp: html_escape_def)
  then show ?thesis by (auto simp: escape_html_def list_ex_iff)
qed

lemma replace_entities_go: "replace_entities e = replace_go e"
proof -
  have "replace_go e = e" if "38 \<notin> set e" using that by (induction e rule: replace_go.induct) auto
  then show ?thesis by (simp add: replace_entities_def)
qed

lemma unat_unit: "n < 65536 \<Longrightarrow> unat (of_nat n :: unit16) = n"
  by (simp add: unsigned_of_nat take_bit_nat_eq_self)

lemma unat_char [simp]: "unat (of_nat (of_char c) :: unit16) = of_char c"
  using nat_of_char_less_256 [of c] by (intro unat_unit) linarith

lemma js_inject: "js a = js b \<longleftrightarrow> a = b"
proof -
  have "of_nat (of_char c) = (of_nat (of_char d) :: unit16) \<longleftrightarrow> c = d" for c d :: char
  proof
    assume "of_nat (of_char c) = (of_nat (of_char d) :: unit16)"
    then have "unat (of_nat (of_char c) :: unit16) = unat (of_nat (of_char d) :: unit16)" by simp
    then have "(of_char c :: nat) = of_char d" by (simp only: unat_char)
    then show "c = d" by simp
  qed simp
  then show ?thesis
  proof (induction a arbitrary: b)
    case Nil
    then show ?case by (cases b) auto
  next
    case (Cons x a)
    then show ?case by (cases b) auto
  qed
qed

lemma named_entity_member:
  assumes "(n, v) \<in> set all_entities"
  shows "named_entity (js n) = Some (map of_nat v)"
proof -
  have e: "map fst (map (\<lambda>(n, v). (js n, map of_nat v :: jsstr)) es) = map js (map fst es)" for es
    by (induction es) auto
  have "distinct (map js (map fst all_entities))"
    using entities_distinct unfolding distinct_map [of js] by (simp add: inj_on_def js_inject)
  then have "distinct (map fst (map (\<lambda>(n, v). (js n, map of_nat v :: jsstr)) all_entities))" unfolding e .
  then show ?thesis unfolding named_entity_def by (rule map_of_is_SomeI) (use assms in force)
qed

lemma named_entity_hash: "named_entity (35 # t) = None"
proof -
  have "js n \<noteq> 35 # t" if "(n, v) \<in> set all_entities" for n v
  proof
    assume "js n = 35 # t"
    then obtain c cs where n: "n = c # cs" "of_nat (of_char c) = (35 :: unit16)" by (cases n) auto
    then have "of_char c = (35 :: nat)" using unat_char [of c] by simp
    moreover have "name_ok n" using entities_ok that by (auto simp: list_all_iff)
    ultimately show False using n by (simp add: code_letter_def)
  qed
  then show ?thesis unfolding named_entity_def map_of_eq_None_iff by force
qed

lemma code_letter_alnum: "code_letter n \<Longrightarrow> code_alnum n"
  by (auto simp: code_letter_def code_alnum_def)

lemma takeWhile_js:
  "list_all (\<lambda>d. code_alnum (of_char d)) cs \<Longrightarrow> takeWhile is_alnum (js cs @ 59 # r) = js cs"
  by (induction cs) (simp_all add: is_alnum_def code_alnum_def)

lemma entity_match_name:
  assumes "name_ok n"
  shows "entity_match (js n @ 59 # r) = Some (js n, r)"
proof -
  obtain c cs where n: "n = c # cs" using assms by (cases n) auto
  have w: "takeWhile is_alnum (js cs @ 59 # r) = js cs" using assms n by (intro takeWhile_js) simp
  show ?thesis using assms n by (simp add: entity_match_def w Let_def is_letter_def nth_append)
qed

lemma replace_go_name:
  assumes "(n, v) \<in> set all_entities"
  shows "replace_go (38 # js n @ 59 # r) = map of_nat v @ replace_go r"
proof -
  have "name_ok n" using entities_ok assms by (auto simp: list_all_iff)
  then show ?thesis using named_entity_member [OF assms] by (simp add: entity_match_name entity_text_def)
qed

lemma escapes_listed:
  "(''amp'', [38]) \<in> set all_entities" "(''lt'', [60]) \<in> set all_entities"
  "(''gt'', [62]) \<in> set all_entities" "(''quot'', [34]) \<in> set all_entities"
proof -
  have "(''amp'', [38]) \<in> set entities_1" "(''lt'', [60]) \<in> set entities_8"
    "(''gt'', [62]) \<in> set entities_5" "(''quot'', [34]) \<in> set entities_11"
    by (simp_all add: entity_parts)
  then show "(''amp'', [38]) \<in> set all_entities" "(''lt'', [60]) \<in> set all_entities"
    "(''gt'', [62]) \<in> set all_entities" "(''quot'', [34]) \<in> set all_entities"
    unfolding all_entities_def entity_blocks_def set_concat by auto
qed

lemma replace_go_escape: "replace_go (html_escape c @ r) = c # replace_go r"
proof (cases c rule: html_escape_cases)
  case 1
  then show ?thesis using replace_go_name [OF escapes_listed(1), of r] by simp
next
  case 2
  then show ?thesis using replace_go_name [OF escapes_listed(2), of r] by simp
next
  case 3
  then show ?thesis using replace_go_name [OF escapes_listed(3), of r] by simp
next
  case 4
  then show ?thesis using replace_go_name [OF escapes_listed(4), of r] by simp
next
  case 5
  then show ?thesis by simp
qed

text \<open>
  Property C27. Escaping a text for HTML and decoding its entities gives the text back, whatever it
  contains, and the escaped text holds none of the characters that open a tag or end an attribute.
\<close>

theorem escape_html_roundtrip:
  "replace_entities (escape_html s) = s \<and> set (escape_html s) \<inter> {34, 60, 62} = {}"
proof -
  have "replace_go (concat (map html_escape s)) = s" by (induction s) (simp_all add: replace_go_escape)
  moreover have "set (html_escape c) \<inter> {34, 60, 62} = {}" for c
    by (cases c rule: html_escape_cases) auto
  ultimately show ?thesis by (auto simp: replace_entities_go escape_html_concat)
qed

text \<open>
  Every name of the table is decoded: for each of the 2125 entries, the reference \<open>&name;\<close>
  becomes the value of the entry.
\<close>

lemma every_entity_decodes:
  "list_all (\<lambda>(n, v). replace_entities (js (''&'' @ n @ '';'')) = map of_nat v) all_entities"
proof -
  have "js (n @ '';'') = js n @ [59]" for n by (simp add: js_def)
  then have "replace_go (js (''&'' @ n @ '';'')) = map of_nat v" if "(n, v) \<in> set all_entities" for n v
    using replace_go_name [OF that, of "[]"] by simp
  then show ?thesis by (auto simp: list_all_iff replace_entities_go)
qed

subsection \<open>Numeric references\<close>

text \<open>The decimal numeral of a number.\<close>

fun decimal :: "nat \<Rightarrow> jsstr" where
  "decimal n = (if n < 10 then [of_nat (48 + n)] else decimal (n div 10) @ [of_nat (48 + n mod 10)])"

declare decimal.simps [simp del]

lemma decimal_digits: "list_all is_digit (decimal n) \<and> decimal n \<noteq> []"
proof (induction n rule: decimal.induct)
  case (1 n)
  have "unat (of_nat (48 + n mod 10) :: unit16) = 48 + n mod 10" by (rule unat_unit) simp
  then have "is_digit (of_nat (48 + n mod 10))" unfolding is_digit_def by simp
  then show ?case using 1 by (subst (1 2) decimal.simps) (cases "n < 10"; simp)
qed

lemma decimal_value: "fold (\<lambda>d n. n * 10 + (unat d - 48)) (decimal n) 0 = n"
proof (induction n rule: decimal.induct)
  case (1 n)
  have "unat (of_nat (48 + n mod 10) :: unit16) = 48 + n mod 10" by (rule unat_unit) simp
  then show ?case using 1 by (subst decimal.simps) auto
qed

lemma digit_alnum: "is_digit c \<Longrightarrow> is_alnum c"
  by (simp add: is_digit_def is_alnum_def code_alnum_def)

lemma digit_not_x: "is_digit c \<Longrightarrow> c \<noteq> 120 \<and> c \<noteq> 88"
  by (auto simp: is_digit_def)

lemma takeWhile_all_stop: "list_all P xs \<Longrightarrow> (ys \<noteq> [] \<Longrightarrow> \<not> P (hd ys)) \<Longrightarrow> takeWhile P (xs @ ys) = xs"
  by (induction xs) (cases ys; simp)+

text \<open>A reference \<open>&#\<close>, decimal digits, letters or nothing, and a semicolon.\<close>

lemma numeric_reference:
  assumes "list_all is_letter g" "e \<le> 1114111 \<longrightarrow> length (decimal e) + length g \<le> 31"
  shows "replace_entities (38 # 35 # decimal e @ g @ [59])
    = (if valid_entity_code (Some e) then from_code_point (Some e) else 38 # 35 # decimal e @ g @ [59])"
proof -
  let ?t = "decimal e @ g"
  have d: "list_all is_digit (decimal e)" "decimal e \<noteq> []" using decimal_digits by blast+
  have "list_all is_alnum (decimal e)" "list_all is_alnum g"
    using d(1) assms(1) digit_alnum code_letter_alnum
    by (auto simp: list_all_iff is_letter_def is_alnum_def [of "_ :: unit16"] intro: code_letter_alnum)
  then have al: "list_all is_alnum ?t" by simp
  have tw: "takeWhile is_alnum (?t @ [59]) = ?t" using al
    by (intro takeWhile_all_stop) (auto simp: is_alnum_def code_alnum_def)
  have "\<not> is_alnum 38" by (simp add: is_alnum_def code_alnum_def)
  then have "38 \<notin> set ?t" using al by (auto simp only: list_all_iff)
  then have rest: "replace_go (35 # ?t @ [59]) = 35 # ?t @ [59]"
    using replace_entities_go [of "35 # ?t @ [59]"] by (simp add: replace_entities_def)
  have "takeWhile is_digit ?t = decimal e" using d(1) assms(1)
    by (intro takeWhile_all_stop) (auto simp: is_digit_def is_letter_def code_letter_def neq_Nil_conv)
  then have p: "parse_int_10 ?t = Some e" using d(2) by (simp add: parse_int_10_def digits_val_def decimal_value)
  obtain a r where t: "?t = a # r" "is_digit a" using d by (cases "decimal e") auto
  have num: "numeric_prefix (35 # ?t)" "numeric_code (35 # ?t) = Some e"
    using t digit_not_x [OF t(2)] p by (auto simp: numeric_prefix_def numeric_code_def)
  show ?thesis
  proof (cases "length ?t \<le> 31")
    case True
    have "entity_match (35 # ?t @ [59]) = Some (35 # ?t, [])"
      using True t(1) tw by (simp add: entity_match_def Let_def nth_append)
    then show ?thesis using rest num by (simp add: replace_entities_go entity_text_def named_entity_hash)
  next
    case False
    have "entity_match (35 # ?t @ [59]) = None" using False tw by (simp add: entity_match_def Let_def)
    moreover have "\<not> valid_entity_code (Some e)" using False assms(2) by (simp add: valid_entity_code_def)
    ultimately show ?thesis using rest by (simp add: replace_entities_go)
  qed
qed

lemma decimal_length: "e < 10 ^ k \<Longrightarrow> 0 < k \<Longrightarrow> length (decimal e) \<le> k"
proof (induction e arbitrary: k rule: decimal.induct)
  case (1 n)
  show ?case
  proof (cases "n < 10")
    case True
    then show ?thesis using 1(3) by (subst decimal.simps) simp
  next
    case False
    then obtain j where k: "k = Suc j" "0 < j" using 1(2,3) by (cases k; cases "k - 1") auto
    then have "n div 10 < 10 ^ j" using 1(2) by (simp add: less_mult_imp_div_less mult.commute)
    then show ?thesis using 1(1) [OF False] k False by (subst decimal.simps) simp
  qed
qed

lemma decimal_length_valid: "e \<le> 1114111 \<Longrightarrow> length (decimal e) \<le> 7"
  by (rule decimal_length) simp_all

text \<open>
  Property C28. A decimal reference \<open>&#n;\<close> decodes to the code point \<open>n\<close>, written as a surrogate pair
  beyond the basic plane, when \<open>n\<close> is a valid code, and stays as it is for every other number, of
  any length.
\<close>

theorem decimal_reference_decodes:
  "replace_entities (38 # 35 # decimal e @ [59])
    = (if valid_entity_code (Some e) then from_code_point (Some e) else 38 # 35 # decimal e @ [59])"
proof -
  have "e \<le> 1114111 \<longrightarrow> length (decimal e) + length ([] :: jsstr) \<le> 31"
    using decimal_length_valid [of e] by auto
  from numeric_reference [OF _ this] show ?thesis by simp
qed

text \<open>
  Property C29. The pattern of a numeric reference is not anchored at its end: letters after the digits
  are ignored, so \<open>&#65zz;\<close> is decoded as \<open>A\<close>, and \<open>&#x0x;\<close>, whose value is \<open>NaN\<close>, becomes the
  character 0 that a reference must not produce.
\<close>

theorem reference_with_garbage_decodes:
  assumes "valid_entity_code (Some e)" and "list_all is_letter g" and "length g \<le> 24"
  shows "replace_entities (38 # 35 # decimal e @ g @ [59]) = from_code_point (Some e) \<and>
    replace_entities (js ''&#x0x;'') = [0] \<and> \<not> valid_entity_code (Some 0)"
proof -
  have "entity_match (js ''#x0x;'') = Some (js ''#x0x'', [])"
    by (simp add: entity_match_def is_alnum_def code_alnum_def Let_def)
  moreover have "entity_text t (js ''#x0x'') = [0]" for t
    by (simp add: entity_text_def named_entity_hash numeric_prefix_def is_hex_def is_digit_def numeric_code_def
        parse_int_16_def digits_val_def valid_entity_code_def from_code_point_def)
  ultimately have "replace_entities (js ''&#x0x;'') = [0]" by (simp add: replace_entities_go)
  then show ?thesis using numeric_reference [OF assms(2), of e] decimal_length_valid [of e] assms
    by (simp add: valid_entity_code_def)
qed

theorem reference_with_garbage_decodes_witness:
  "replace_entities (38 # 35 # decimal 65 @ [122, 122] @ [59]) = [65]"
  using reference_with_garbage_decodes [of 65 "[122, 122]"]
  by (simp add: valid_entity_code_def is_letter_def code_letter_def from_code_point_def)

end
