(* ===== verification/MdRender.thy ===== *)
theory MdRender
  imports Entities
begin

section \<open>The HTML renderer of Markdown tokens (swagger-ui-bundle.js, modules 1002 and 1003)\<close>

text \<open>
  The renderer concatenates, token by token, what the rule of the token's type writes. A token is an
  object with a \<open>type\<close> and the fields its rule reads; here a constructor per type. Tags are literals,
  all text taken from the document goes through \<open>escapeHtml\<close> except raw HTML blocks and tags. An
  \<open>inline\<close> token holds the tokens of its content; there is no rule of that name, so one inside an
  inline content would call \<open>undefined\<close>.
\<close>

subsection \<open>Tokens and options\<close>

datatype token =
    BlockquoteOpen | BlockquoteClose
  | Code jsstr bool
  | Fence jsstr jsstr
  | HeadingOpen nat | HeadingClose nat
  | Hr
  | BulletListOpen | BulletListClose
  | ListItemOpen | ListItemClose
  | OrderedListOpen nat | OrderedListClose
  | ParagraphOpen bool | ParagraphClose bool
  | LinkOpen jsstr jsstr | LinkClose
  | Image jsstr jsstr jsstr
  | TableOpen | TableClose | TheadOpen | TheadClose | TbodyOpen | TbodyClose
  | TrOpen | TrClose | ThOpen jsstr | ThClose | TdOpen jsstr | TdClose
  | StrongOpen | StrongClose | EmOpen | EmClose | DelOpen | DelClose
  | InsOpen | InsClose | MarkOpen | MarkClose
  | Sub jsstr | Sup jsstr
  | Hardbreak | Softbreak
  | TextTok jsstr
  | Htmlblock jsstr | Htmltag jsstr
  | AbbrOpen jsstr | AbbrClose
  | FootnoteRef nat nat
  | FootnoteBlockOpen | FootnoteBlockClose
  | FootnoteOpen nat | FootnoteClose | FootnoteAnchor nat nat
  | DlOpen | DtOpen | DdOpen | DlClose | DtClose | DdClose
  | Inline jsstr "token list"

record md_options =
  xhtmlOut :: bool
  breaks :: bool
  langPrefix :: jsstr
  linkTarget :: jsstr
  highlight :: "(jsstr \<Rightarrow> jsstr list option \<Rightarrow> jsstr) option"

subsection \<open>Small pieces\<close>

definition nl :: jsstr where "nl = [10]"

text \<open>A literal in which every backquote stands for a double quote.\<close>

definition tag :: "string \<Rightarrow> jsstr" where
  "tag s = map (\<lambda>c. if c = 96 then 34 else c) (js s)"

text \<open>White space of \<open>\s\<close>, and \<open>split(/\s+/g)\<close> followed by \<open>join(" ")\<close>.\<close>

definition is_space :: "unit16 \<Rightarrow> bool" where
  "is_space c =
     (let n = unat c in 9 \<le> n \<and> n \<le> 13 \<or> n = 32 \<or> n = 160 \<or> n = 5760 \<or> 8192 \<le> n \<and> n \<le> 8202 \<or>
        n = 8232 \<or> n = 8233 \<or> n = 8239 \<or> n = 8287 \<or> n = 12288 \<or> n = 65279)"

function split_ws :: "jsstr \<Rightarrow> jsstr list" where
  "split_ws s =
     (let w = takeWhile (\<lambda>c. \<not> is_space c) s; r = dropWhile (\<lambda>c. \<not> is_space c) s
      in if r = [] then [w] else w # split_ws (dropWhile is_space r))"
  by pat_completeness auto
termination
proof (relation "measure length", goal_cases)
  case (2 s w r)
  have "hd r \<in> {c. is_space c}" using 2 hd_dropWhile [of "\<lambda>c. \<not> is_space c" s] by simp
  then have "length (dropWhile is_space r) < length r" using 2(3) by (cases r) (auto simp: length_dropWhile_le le_imp_less_Suc)
  moreover have "length r \<le> length s" using 2(2) by (simp add: length_dropWhile_le)
  ultimately show ?case by simp
qed simp

declare split_ws.simps [simp del]

fun join_space :: "jsstr list \<Rightarrow> jsstr" where
  "join_space [] = []"
| "join_space [w] = w"
| "join_space (w # ws) = w @ 32 # join_space ws"

subsection \<open>\<open>getBreak\<close>\<close>

text \<open>The next token that is not part of an empty tight paragraph.\<close>

definition skip_paragraph :: "token list \<Rightarrow> nat \<Rightarrow> bool" where
  "skip_paragraph t n =
     (case (t ! n, t ! (n + 1), t ! (n + 2)) of
        (ParagraphOpen True, Inline c _, ParagraphClose True) \<Rightarrow> c = []
      | _ \<Rightarrow> False)"

function next_token :: "token list \<Rightarrow> nat \<Rightarrow> nat" where
  "next_token t n =
     (if length t \<le> n + 1 + 2 then n + 1
      else if skip_paragraph t (n + 1) then next_token t (n + 1 + 2) else n + 1)"
  by pat_completeness auto
termination by (relation "measure (\<lambda>(t, n). length t - n)") auto

declare next_token.simps [simp del]

definition get_break :: "token list \<Rightarrow> nat \<Rightarrow> jsstr" where
  "get_break e t =
     (let n = next_token e t in if n < length e \<and> e ! n = ListItemClose then [] else nl)"

definition footnote_name :: "nat \<Rightarrow> nat \<Rightarrow> jsstr" where
  "footnote_name i s = js ''fnref'' @ decimal (i + 1) @ (if 0 < s then js '':'' @ decimal s else [])"

definition cell_style :: "jsstr \<Rightarrow> jsstr" where
  "cell_style al = (if al \<noteq> [] then tag '' style=`text-align:'' @ al @ tag ''`'' else [])"

definition title_attr :: "jsstr \<Rightarrow> jsstr" where
  "title_attr t = (if t \<noteq> [] then tag '' title=`'' @ escape_html (replace_entities t) @ tag ''`'' else [])"

definition paragraph_break :: "token list \<Rightarrow> nat \<Rightarrow> bool \<Rightarrow> bool" where
  "paragraph_break e t tight =
     (\<not> (tight \<and> t \<noteq> 0 \<and> (case e ! (t - 1) of Inline c _ \<Rightarrow> c = [] | _ \<Rightarrow> False)))"

definition fence_class :: "md_options \<Rightarrow> jsstr \<Rightarrow> jsstr" where
  "fence_class n params =
     (if params \<noteq> [] then tag '' class=`'' @ langPrefix n
        @ escape_html (replace_entities (unescape_md (join_space (split_ws params)))) @ tag ''`'' 
      else [])"

definition fence_body :: "md_options \<Rightarrow> jsstr \<Rightarrow> jsstr \<Rightarrow> jsstr" where
  "fence_body n params content =
     (case highlight n of
        None \<Rightarrow> escape_html content
      | Some h \<Rightarrow>
          let r = h content (if params \<noteq> [] then Some (split_ws params) else None)
          in if r \<noteq> [] then r else escape_html content)"

subsection \<open>The rules\<close>

definition rule :: "md_options \<Rightarrow> token list \<Rightarrow> nat \<Rightarrow> js_error + jsstr" where
  "rule n e t =
     (case e ! t of
        BlockquoteOpen \<Rightarrow> Inr (tag ''<blockquote>'' @ nl)
      | BlockquoteClose \<Rightarrow> Inr (tag ''</blockquote>'' @ get_break e t)
      | Code content block \<Rightarrow>
          Inr (if block then tag ''<pre><code>'' @ escape_html content @ tag ''</code></pre>'' @ get_break e t
               else tag ''<code>'' @ escape_html content @ tag ''</code>'')
      | Fence params content \<Rightarrow>
          Inr (tag ''<pre><code'' @ fence_class n params @ tag ''>'' @ fence_body n params content
            @ tag ''</code></pre>'' @ get_break e t)
      | HeadingOpen h \<Rightarrow> Inr (tag ''<h'' @ decimal h @ tag ''>'')
      | HeadingClose h \<Rightarrow> Inr (tag ''</h'' @ decimal h @ tag ''>'' @ nl)
      | Hr \<Rightarrow> Inr ((if xhtmlOut n then tag ''<hr />'' else tag ''<hr>'') @ get_break e t)
      | BulletListOpen \<Rightarrow> Inr (tag ''<ul>'' @ nl)
      | BulletListClose \<Rightarrow> Inr (tag ''</ul>'' @ get_break e t)
      | ListItemOpen \<Rightarrow> Inr (tag ''<li>'')
      | ListItemClose \<Rightarrow> Inr (tag ''</li>'' @ nl)
      | OrderedListOpen order \<Rightarrow>
          Inr (tag ''<ol'' @ (if 1 < order then tag '' start=`'' @ decimal order @ tag ''`'' else []) @ tag ''>'' @ nl)
      | OrderedListClose \<Rightarrow> Inr (tag ''</ol>'' @ get_break e t)
      | ParagraphOpen tight \<Rightarrow> Inr (if tight then [] else tag ''<p>'')
      | ParagraphClose tight \<Rightarrow>
          Inr ((if tight then [] else tag ''</p>'') @ (if paragraph_break e t tight then get_break e t else []))
      | LinkOpen href title \<Rightarrow>
          Inr (tag ''<a href=`'' @ escape_html href @ tag ''`'' @ title_attr title
            @ (if linkTarget n \<noteq> [] then tag '' target=`'' @ linkTarget n @ tag ''`'' else []) @ tag ''>'')
      | LinkClose \<Rightarrow> Inr (tag ''</a>'')
      | Image src title alt \<Rightarrow>
          Inr (tag ''<img'' @ tag '' src=`'' @ escape_html src @ tag ''`'' @ tag '' alt=`''
            @ (if alt \<noteq> [] then escape_html (replace_entities (unescape_md alt)) else []) @ tag ''`''
            @ title_attr title @ (if xhtmlOut n then tag '' /'' else []) @ tag ''>'')
      | TableOpen \<Rightarrow> Inr (tag ''<table>'' @ nl)
      | TableClose \<Rightarrow> Inr (tag ''</table>'' @ nl)
      | TheadOpen \<Rightarrow> Inr (tag ''<thead>'' @ nl)
      | TheadClose \<Rightarrow> Inr (tag ''</thead>'' @ nl)
      | TbodyOpen \<Rightarrow> Inr (tag ''<tbody>'' @ nl)
      | TbodyClose \<Rightarrow> Inr (tag ''</tbody>'' @ nl)
      | TrOpen \<Rightarrow> Inr (tag ''<tr>'')
      | TrClose \<Rightarrow> Inr (tag ''</tr>'' @ nl)
      | ThOpen al \<Rightarrow> Inr (tag ''<th'' @ cell_style al @ tag ''>'')
      | ThClose \<Rightarrow> Inr (tag ''</th>'')
      | TdOpen al \<Rightarrow> Inr (tag ''<td'' @ cell_style al @ tag ''>'')
      | TdClose \<Rightarrow> Inr (tag ''</td>'')
      | StrongOpen \<Rightarrow> Inr (tag ''<strong>'')
      | StrongClose \<Rightarrow> Inr (tag ''</strong>'')
      | EmOpen \<Rightarrow> Inr (tag ''<em>'')
      | EmClose \<Rightarrow> Inr (tag ''</em>'')
      | DelOpen \<Rightarrow> Inr (tag ''<del>'')
      | DelClose \<Rightarrow> Inr (tag ''</del>'')
      | InsOpen \<Rightarrow> Inr (tag ''<ins>'')
      | InsClose \<Rightarrow> Inr (tag ''</ins>'')
      | MarkOpen \<Rightarrow> Inr (tag ''<mark>'')
      | MarkClose \<Rightarrow> Inr (tag ''</mark>'')
      | Sub content \<Rightarrow> Inr (tag ''<sub>'' @ escape_html content @ tag ''</sub>'')
      | Sup content \<Rightarrow> Inr (tag ''<sup>'' @ escape_html content @ tag ''</sup>'')
      | Hardbreak \<Rightarrow> Inr ((if xhtmlOut n then tag ''<br />'' else tag ''<br>'') @ nl)
      | Softbreak \<Rightarrow>
          Inr (if breaks n then (if xhtmlOut n then tag ''<br />'' else tag ''<br>'') @ nl else nl)
      | TextTok content \<Rightarrow> Inr (escape_html content)
      | Htmlblock content \<Rightarrow> Inr content
      | Htmltag content \<Rightarrow> Inr content
      | AbbrOpen title \<Rightarrow> Inr (tag ''<abbr title=`'' @ escape_html (replace_entities title) @ tag ''`>'')
      | AbbrClose \<Rightarrow> Inr (tag ''</abbr>'')
      | FootnoteRef i s \<Rightarrow>
          Inr (tag ''<sup class=`footnote-ref`><a href=`#fn'' @ decimal (i + 1) @ tag ''` id=`'' @ footnote_name i s
            @ tag ''`>['' @ decimal (i + 1) @ tag '']</a></sup>'')
      | FootnoteBlockOpen \<Rightarrow>
          Inr ((if xhtmlOut n then tag ''<hr class=`footnotes-sep` />'' else tag ''<hr class=`footnotes-sep`>'') @ nl
            @ tag ''<section class=`footnotes`>'' @ nl @ tag ''<ol class=`footnotes-list`>'' @ nl)
      | FootnoteBlockClose \<Rightarrow> Inr (tag ''</ol>'' @ nl @ tag ''</section>'' @ nl)
      | FootnoteOpen i \<Rightarrow> Inr (tag ''<li id=`fn'' @ decimal (i + 1) @ tag ''`  class=`footnote-item`>'')
      | FootnoteClose \<Rightarrow> Inr (tag ''</li>'' @ nl)
      | FootnoteAnchor i s \<Rightarrow>
          Inr (tag '' <a href=`#'' @ footnote_name i s @ tag ''` class=`footnote-backref`>'' @ [8617] @ tag ''</a>'')
      | DlOpen \<Rightarrow> Inr (tag ''<dl>'' @ nl)
      | DtOpen \<Rightarrow> Inr (tag ''<dt>'')
      | DdOpen \<Rightarrow> Inr (tag ''<dd>'')
      | DlClose \<Rightarrow> Inr (tag ''</dl>'' @ nl)
      | DtClose \<Rightarrow> Inr (tag ''</dt>'' @ nl)
      | DdClose \<Rightarrow> Inr (tag ''</dd>'' @ nl)
      | Inline content children \<Rightarrow> Inl (TypeError ''r[e[i].type] is not a function''))"

text \<open>\<open>renderInline\<close>: the rules of the tokens in order, and \<open>render\<close>, which opens \<open>inline\<close> tokens.\<close>

fun render_list :: "(nat \<Rightarrow> js_error + jsstr) \<Rightarrow> nat list \<Rightarrow> js_error + jsstr" where
  "render_list f [] = Inr []"
| "render_list f (i # is) = andthen (f i) (\<lambda>a. andthen (render_list f is) (\<lambda>b. Inr (a @ b)))"

definition render_inline :: "md_options \<Rightarrow> token list \<Rightarrow> js_error + jsstr" where
  "render_inline n e = render_list (rule n e) [0..<length e]"

definition render_html :: "md_options \<Rightarrow> token list \<Rightarrow> js_error + jsstr" where
  "render_html n e =
     render_list (\<lambda>i. case e ! i of Inline c children \<Rightarrow> render_inline n children | _ \<Rightarrow> rule n e i) [0..<length e]"

subsection \<open>The markup of a text\<close>

text \<open>
  An HTML reader in three states: text, inside a tag, inside a quoted attribute value. It keeps the
  markup of a text and drops the character data and the attribute values.
\<close>

datatype hstate = InText | InTag | InQuote

fun markup_of :: "hstate \<Rightarrow> jsstr \<Rightarrow> jsstr" where
  "markup_of p [] = []"
| "markup_of InText (c # s) = (if c = 60 then c # markup_of InTag s else markup_of InText s)"
| "markup_of InTag (c # s) =
     c # (if c = 34 then markup_of InQuote s else if c = 62 then markup_of InText s else markup_of InTag s)"
| "markup_of InQuote (c # s) = (if c = 34 then c # markup_of InTag s else markup_of InQuote s)"

fun reader_state :: "hstate \<Rightarrow> jsstr \<Rightarrow> hstate" where
  "reader_state p [] = p"
| "reader_state InText (c # s) = reader_state (if c = 60 then InTag else InText) s"
| "reader_state InTag (c # s) = reader_state (if c = 34 then InQuote else if c = 62 then InText else InTag) s"
| "reader_state InQuote (c # s) = reader_state (if c = 34 then InTag else InQuote) s"

lemma markup_append [simp]:
  "markup_of p (a @ b) = markup_of p a @ markup_of (reader_state p a) b"
  "reader_state p (a @ b) = reader_state (reader_state p a) b"
  by (induction p a rule: markup_of.induct) auto

lemma markup_inert:
  "set s \<inter> {34, 60} = {} \<Longrightarrow> p \<noteq> InTag \<Longrightarrow> markup_of p s = [] \<and> reader_state p s = p"
  by (induction p s rule: markup_of.induct) auto

lemma markup_quoted: "34 \<notin> set s \<Longrightarrow> markup_of InQuote s = [] \<and> reader_state InQuote s = InQuote"
  by (induction s) auto

lemma markup_digits:
  "list_all is_digit s \<Longrightarrow> markup_of InTag s = s \<and> reader_state InTag s = InTag"
  by (induction s) (auto simp: is_digit_def)

lemma escape_inert [simp]:
  "markup_of InText (escape_html s) = []" "reader_state InText (escape_html s) = InText"
  "markup_of InQuote (escape_html s) = []" "reader_state InQuote (escape_html s) = InQuote"
proof -
  have "set (html_escape c) \<inter> {34, 60} = {}" for c by (cases c rule: html_escape_cases) auto
  then have "set (escape_html s) \<inter> {34, 60} = {}" by (auto simp: escape_html_concat)
  from markup_inert [OF this] show "markup_of InText (escape_html s) = []"
    "reader_state InText (escape_html s) = InText" "markup_of InQuote (escape_html s) = []"
    "reader_state InQuote (escape_html s) = InQuote" by simp_all
qed

lemma decimal_inert [simp]:
  "markup_of InTag (decimal n) = decimal n" "reader_state InTag (decimal n) = InTag"
  "markup_of InText (decimal n) = []" "reader_state InText (decimal n) = InText"
  "markup_of InQuote (decimal n) = []" "reader_state InQuote (decimal n) = InQuote"
proof -
  have d: "list_all is_digit (decimal n)" using decimal_digits by blast
  have "\<not> is_digit 34" "\<not> is_digit 60" by (simp_all add: is_digit_def)
  then have "set (decimal n) \<inter> {34, 60} = {}" using d by (auto simp only: list_all_iff)
  then show "markup_of InText (decimal n) = []" "reader_state InText (decimal n) = InText"
    "markup_of InQuote (decimal n) = []" "reader_state InQuote (decimal n) = InQuote"
    using markup_inert by blast+
  show "markup_of InTag (decimal n) = decimal n" "reader_state InTag (decimal n) = InTag"
    using markup_digits [OF d] by blast+
qed

lemma break_inert [simp]:
  "markup_of InText (get_break e t) = []" "reader_state InText (get_break e t) = InText"
  "markup_of InText nl = []" "reader_state InText nl = InText"
  by (simp_all add: get_break_def nl_def Let_def)

text \<open>What each token is to write: its tags with the attribute values left out.\<close>

definition title_markup :: "jsstr \<Rightarrow> jsstr" where
  "title_markup t = (if t \<noteq> [] then tag '' title=``'' else [])"

definition token_markup :: "md_options \<Rightarrow> token \<Rightarrow> jsstr" where
  "token_markup n tok =
     (case tok of
        BlockquoteOpen \<Rightarrow> tag ''<blockquote>'' | BlockquoteClose \<Rightarrow> tag ''</blockquote>''
      | Code c block \<Rightarrow> if block then tag ''<pre><code></code></pre>'' else tag ''<code></code>''
      | Fence p c \<Rightarrow> if p \<noteq> [] then tag ''<pre><code class=``></code></pre>'' else tag ''<pre><code></code></pre>''
      | HeadingOpen h \<Rightarrow> tag ''<h'' @ decimal h @ tag ''>'' | HeadingClose h \<Rightarrow> tag ''</h'' @ decimal h @ tag ''>''
      | Hr \<Rightarrow> if xhtmlOut n then tag ''<hr />'' else tag ''<hr>''
      | BulletListOpen \<Rightarrow> tag ''<ul>'' | BulletListClose \<Rightarrow> tag ''</ul>''
      | ListItemOpen \<Rightarrow> tag ''<li>'' | ListItemClose \<Rightarrow> tag ''</li>''
      | OrderedListOpen k \<Rightarrow> if 1 < k then tag ''<ol start=``>'' else tag ''<ol>''
      | OrderedListClose \<Rightarrow> tag ''</ol>''
      | ParagraphOpen tight \<Rightarrow> if tight then [] else tag ''<p>''
      | ParagraphClose tight \<Rightarrow> if tight then [] else tag ''</p>''
      | LinkOpen h t \<Rightarrow>
          tag ''<a href=``'' @ title_markup t @ (if linkTarget n \<noteq> [] then tag '' target=``'' else []) @ tag ''>''
      | LinkClose \<Rightarrow> tag ''</a>''
      | Image s t a \<Rightarrow> tag ''<img src=`` alt=``'' @ title_markup t @ (if xhtmlOut n then tag '' /'' else []) @ tag ''>''
      | TableOpen \<Rightarrow> tag ''<table>'' | TableClose \<Rightarrow> tag ''</table>''
      | TheadOpen \<Rightarrow> tag ''<thead>'' | TheadClose \<Rightarrow> tag ''</thead>''
      | TbodyOpen \<Rightarrow> tag ''<tbody>'' | TbodyClose \<Rightarrow> tag ''</tbody>''
      | TrOpen \<Rightarrow> tag ''<tr>'' | TrClose \<Rightarrow> tag ''</tr>''
      | ThOpen al \<Rightarrow> if al \<noteq> [] then tag ''<th style=``>'' else tag ''<th>'' | ThClose \<Rightarrow> tag ''</th>''
      | TdOpen al \<Rightarrow> if al \<noteq> [] then tag ''<td style=``>'' else tag ''<td>'' | TdClose \<Rightarrow> tag ''</td>''
      | StrongOpen \<Rightarrow> tag ''<strong>'' | StrongClose \<Rightarrow> tag ''</strong>''
      | EmOpen \<Rightarrow> tag ''<em>'' | EmClose \<Rightarrow> tag ''</em>''
      | DelOpen \<Rightarrow> tag ''<del>'' | DelClose \<Rightarrow> tag ''</del>''
      | InsOpen \<Rightarrow> tag ''<ins>'' | InsClose \<Rightarrow> tag ''</ins>''
      | MarkOpen \<Rightarrow> tag ''<mark>'' | MarkClose \<Rightarrow> tag ''</mark>''
      | Sub c \<Rightarrow> tag ''<sub></sub>'' | Sup c \<Rightarrow> tag ''<sup></sup>''
      | Hardbreak \<Rightarrow> if xhtmlOut n then tag ''<br />'' else tag ''<br>''
      | Softbreak \<Rightarrow> if breaks n then if xhtmlOut n then tag ''<br />'' else tag ''<br>'' else []
      | AbbrOpen t \<Rightarrow> tag ''<abbr title=``>'' | AbbrClose \<Rightarrow> tag ''</abbr>''
      | FootnoteRef i s \<Rightarrow> tag ''<sup class=``><a href=`` id=``></a></sup>''
      | FootnoteBlockOpen \<Rightarrow>
          (if xhtmlOut n then tag ''<hr class=`` />'' else tag ''<hr class=``>'') @ tag ''<section class=``><ol class=``>''
      | FootnoteBlockClose \<Rightarrow> tag ''</ol></section>''
      | FootnoteOpen i \<Rightarrow> tag ''<li id=``  class=``>'' | FootnoteClose \<Rightarrow> tag ''</li>''
      | FootnoteAnchor i s \<Rightarrow> tag ''<a href=`` class=``></a>''
      | DlOpen \<Rightarrow> tag ''<dl>'' | DtOpen \<Rightarrow> tag ''<dt>'' | DdOpen \<Rightarrow> tag ''<dd>''
      | DlClose \<Rightarrow> tag ''</dl>'' | DtClose \<Rightarrow> tag ''</dt>'' | DdClose \<Rightarrow> tag ''</dd>''
      | _ \<Rightarrow> [])"

text \<open>Tokens without raw HTML; the alignment of a cell is a word of the table parser.\<close>

fun plain_token :: "token \<Rightarrow> bool" where
  "plain_token (Htmlblock c) = False"
| "plain_token (Htmltag c) = False"
| "plain_token (ThOpen al) = (34 \<notin> set al)"
| "plain_token (TdOpen al) = (34 \<notin> set al)"
| "plain_token (Inline c ts) = (\<forall>t\<in>set ts. plain_token t)"
| "plain_token t = True"

definition plain_options :: "md_options \<Rightarrow> bool" where
  "plain_options n \<longleftrightarrow> 34 \<notin> set (langPrefix n) \<and> 34 \<notin> set (linkTarget n) \<and> highlight n = None"

lemma tag_simps [simp]:
  "tag [] = []" "tag (c # cs) = (if c = CHR 0x60 then 34 else of_nat (of_char c)) # tag cs"
proof -
  have "(of_nat (of_char c) = (96 :: unit16)) = (c = CHR 0x60)"
    using js_inject [of "[c]" "[CHR 0x60]"] by simp
  then show "tag [] = []" "tag (c # cs) = (if c = CHR 0x60 then 34 else of_nat (of_char c)) # tag cs"
    by (simp_all add: tag_def)
qed

lemma title_inert [simp]:
  "markup_of InTag (title_attr t) = title_markup t" "reader_state InTag (title_attr t) = InTag"
  by (simp_all add: title_attr_def title_markup_def)

lemma footnote_inert [simp]:
  "markup_of InQuote (footnote_name i s) = []" "reader_state InQuote (footnote_name i s) = InQuote"
  by (simp_all add: footnote_name_def)

lemma rule_markup:
  assumes "plain_options n" "plain_token (e ! t)" "rule n e t = Inr s"
  shows "markup_of InText s = token_markup n (e ! t) \<and> reader_state InText s = InText"
proof -
  note quoted = markup_quoted [of "langPrefix n"] markup_quoted [of "linkTarget n"]
  show ?thesis
    using assms quoted
    by (cases "e ! t") (auto simp: rule_def token_markup_def plain_options_def fence_class_def fence_body_def
        cell_style_def markup_quoted)
qed

lemma render_list_markup:
  assumes "\<And>i s. i \<in> set is \<Longrightarrow> f i = Inr s \<Longrightarrow> markup_of InText s = g i \<and> reader_state InText s = InText"
    and "render_list f is = Inr out"
  shows "markup_of InText out = concat (map g is) \<and> reader_state InText out = InText"
  using assms
proof (induction "is" arbitrary: out)
  case (Cons i "is")
  obtain a b where a: "f i = Inr a" "render_list f is = Inr b" "out = a @ b"
    using Cons(3) by (auto simp: andthen_Inr_iff)
  have "markup_of InText a = g i \<and> reader_state InText a = InText" using Cons(2) [of i a] a(1) by simp
  moreover have "markup_of InText b = concat (map g is) \<and> reader_state InText b = InText"
    by (rule Cons(1) [OF _ a(2)]) (rule Cons(2), simp_all)
  ultimately show ?case using a(3) by simp
qed simp

lemma map_by_index: "map (\<lambda>i. g (xs ! i)) [0..<length xs] = map g xs"
  by (rule nth_equalityI) simp_all

lemma render_inline_markup:
  assumes "plain_options n" "\<forall>t\<in>set ts. plain_token t" "render_inline n ts = Inr out"
  shows "markup_of InText out = concat (map (token_markup n) ts) \<and> reader_state InText out = InText"
proof -
  have "markup_of InText out = concat (map (\<lambda>i. token_markup n (ts ! i)) [0..<length ts]) \<and> reader_state InText out = InText"
  proof (rule render_list_markup [OF _ assms(3) [unfolded render_inline_def]])
    fix i s assume "i \<in> set [0..<length ts]" "rule n ts i = Inr s"
    moreover from this have "plain_token (ts ! i)" using assms(2) by simp
    ultimately show "markup_of InText s = token_markup n (ts ! i) \<and> reader_state InText s = InText"
      by (intro rule_markup [OF assms(1)])
  qed
  then show ?thesis by (simp only: map_by_index)
qed

text \<open>The markup of a whole document.\<close>

fun block_markup :: "md_options \<Rightarrow> token \<Rightarrow> jsstr" where
  "block_markup n (Inline c ts) = concat (map (token_markup n) ts)"
| "block_markup n t = token_markup n t"

lemma block_markup_other: "(\<And>c ts. t \<noteq> Inline c ts) \<Longrightarrow> block_markup n t = token_markup n t"
  by (cases "(n, t)" rule: block_markup.cases) auto

lemma render_html_markup:
  assumes "plain_options n" "\<forall>t\<in>set ts. plain_token t" "render_html n ts = Inr out"
  shows "markup_of InText out = concat (map (block_markup n) ts) \<and> reader_state InText out = InText"
proof -
  have step: "markup_of InText s = block_markup n (ts ! i) \<and> reader_state InText s = InText"
    if i: "i \<in> set [0..<length ts]"
      and s: "(case ts ! i of Inline c children \<Rightarrow> render_inline n children | _ \<Rightarrow> rule n ts i) = Inr s" for i s
  proof (cases "\<exists>c cs. ts ! i = Inline c cs")
    case True
    then obtain c cs where e: "ts ! i = Inline c cs" by blast
    have "plain_token (ts ! i)" using assms(2) i by simp
    then show ?thesis using render_inline_markup [OF assms(1), of cs s] s e by simp
  next
    case False
    then have "rule n ts i = Inr s" using s by (cases "ts ! i") simp_all
    moreover have "block_markup n (ts ! i) = token_markup n (ts ! i)" using False by (intro block_markup_other) blast
    moreover have "plain_token (ts ! i)" using assms(2) i by simp
    ultimately show ?thesis using rule_markup [OF assms(1), of ts i s] by simp
  qed
  have "markup_of InText out = concat (map (\<lambda>i. block_markup n (ts ! i)) [0..<length ts]) \<and> reader_state InText out = InText"
    by (rule render_list_markup [OF _ assms(3) [unfolded render_html_def]]) (rule step)
  then show ?thesis by (simp only: map_by_index)
qed



lemma render_list_total: "(\<exists>out. render_list f is = Inr out) \<longleftrightarrow> (\<forall>i\<in>set is. \<exists>s. f i = Inr s)"
  by (induction "is") (auto simp: andthen_Inr_iff)

fun inline_token :: "token \<Rightarrow> bool" where
  "inline_token (Inline c ts) = True"
| "inline_token t = False"

lemma rule_total: "(\<exists>s. rule n e t = Inr s) \<longleftrightarrow> \<not> inline_token (e ! t)"
  by (cases "e ! t") (simp_all add: rule_def)

lemma all_by_index: "(\<forall>i\<in>set [0..<length xs]. P (xs ! i)) \<longleftrightarrow> list_all P xs"
  by (auto simp: list_all_length)

fun well_nested :: "token \<Rightarrow> bool" where
  "well_nested (Inline c ts) = list_all (\<lambda>t. \<not> inline_token t) ts"
| "well_nested t = True"

lemma render_html_total: "(\<exists>out. render_html n ts = Inr out) \<longleftrightarrow> list_all well_nested ts"
proof -
  have "(\<exists>s. render_inline n cs = Inr s) \<longleftrightarrow> list_all (\<lambda>t. \<not> inline_token t) cs" for cs
    unfolding render_inline_def render_list_total rule_total by (rule all_by_index)
  then have "(\<exists>s. (case ts ! i of Inline c children \<Rightarrow> render_inline n children | _ \<Rightarrow> rule n ts i) = Inr s)
      \<longleftrightarrow> well_nested (ts ! i)" for i
    using rule_total [of n ts i] by (cases "ts ! i") simp_all
  then show ?thesis unfolding render_html_def render_list_total by (simp only: all_by_index)
qed

end
