(* ===== verification/MdText.thy ===== *)
theory MdText
  imports MdRender "HOL-Library.Sublist"
begin

section \<open>Text functions of the Markdown parser (swagger-ui-bundle.js, Remarkable)\<close>

text \<open>
  What the inline rules need of the language and of their helper modules: regular expressions,
  \<open>trim\<close>, \<open>encodeURI\<close> and \<open>decodeURI\<close>, link normalisation and the check of link schemes.
\<close>

subsection \<open>Regular expressions\<close>

text \<open>
  Patterns and their backtracking matcher. A match is given by the rest of the text behind it; the list
  has all matches in the order the engine tries them, so its head is the match the engine returns. A
  repetition is greedy, a further round that consumes nothing fails; \<open>Rep r m n\<close> is \<open>r{m,n}\<close>, without
  \<open>n\<close> it is unbounded, and \<open>Lazy r\<close> is \<open>r*?\<close>.
\<close>

datatype re =
    Chars "unit16 \<Rightarrow> bool"
  | Eps
  | Cat re re
  | Alt re re
  | Rep re nat "nat option"
  | Lazy re

fun rounds :: "(jsstr \<Rightarrow> jsstr list) \<Rightarrow> bool \<Rightarrow> nat \<Rightarrow> nat \<Rightarrow> nat option \<Rightarrow> jsstr \<Rightarrow> jsstr list" where
  "rounds f lazy 0 m n s = (if m = 0 then [s] else [])"
| "rounds f lazy (Suc k) m n s =
     (if n = Some 0 then [s]
      else
        let more = concat (map (\<lambda>s'. if m = 0 \<and> s' = s then []
                                      else rounds f lazy k (m - 1) (map_option (\<lambda>x. x - 1) n) s') (f s))
        in if m \<noteq> 0 then more else if lazy then s # more else more @ [s])"

primrec re_match :: "re \<Rightarrow> jsstr \<Rightarrow> jsstr list" where
  "re_match (Chars p) s = (case s of [] \<Rightarrow> [] | c # r \<Rightarrow> if p c then [r] else [])"
| "re_match Eps s = [s]"
| "re_match (Cat a b) s = concat (map (re_match b) (re_match a s))"
| "re_match (Alt a b) s = re_match a s @ re_match b s"
| "re_match (Rep r m n) s = rounds (re_match r) False (m + length s) m n s"
| "re_match (Lazy r) s = rounds (re_match r) True (length s) 0 None s"

definition re_first :: "re \<Rightarrow> jsstr \<Rightarrow> jsstr option" where
  "re_first r s = (case re_match r s of [] \<Rightarrow> None | s' # _ \<Rightarrow> Some s')"

definition star :: "re \<Rightarrow> re" where "star r = Rep r 0 None"
definition plus :: "re \<Rightarrow> re" where "plus r = Rep r 1 None"
definition opt :: "re \<Rightarrow> re" where "opt r = Rep r 0 (Some 1)"
definition ch :: "unit16 \<Rightarrow> re" where "ch c = Chars (\<lambda>d. d = c)"
definition seq :: "re list \<Rightarrow> re" where "seq rs = foldr Cat rs Eps"
definition lit :: "string \<Rightarrow> re" where "lit s = seq (map ch (js s))"

subsection \<open>White space and punctuation\<close>

definition js_trim :: "jsstr \<Rightarrow> jsstr" where
  "js_trim s = rev (dropWhile is_space (rev (dropWhile is_space s)))"

text \<open>\<open>replace(/[ \n]+/g, " ")\<close> and \<open>replace(/\s+/g, " ")\<close>: runs become one space.\<close>

fun squeeze :: "(unit16 \<Rightarrow> bool) \<Rightarrow> bool \<Rightarrow> jsstr \<Rightarrow> jsstr" where
  "squeeze p inside [] = []"
| "squeeze p inside (c # s) =
     (if p c then (if inside then squeeze p True s else 32 # squeeze p True s) else c # squeeze p False s)"

text \<open>
  \<open>match(/(^|[^\\])(\\\\)*\s/)\<close>: white space behind an even number of backslashes (\<open>even\<close> is the parity of
  the run of backslashes just read).
\<close>

fun unescaped_space :: "bool \<Rightarrow> jsstr \<Rightarrow> bool" where
  "unescaped_space ev [] = False"
| "unescaped_space ev (c # s) \<longleftrightarrow> is_space c \<and> ev \<or> unescaped_space (if c = 92 then \<not> ev else True) s"

text \<open>The replacement in \<open>sub\<close> and \<open>sup\<close>: as \<open>unescapeMd\<close>, and for an escaped space.\<close>

fun unescape_sub :: "jsstr \<Rightarrow> jsstr" where
  "unescape_sub (a # b # s) =
     (if a = 92 \<and> (b = 32 \<or> b \<in> set md_punct) then b # unescape_sub s else a # unescape_sub (b # s))"
| "unescape_sub s = s"

definition normalize_reference :: "(jsstr \<Rightarrow> jsstr) \<Rightarrow> jsstr \<Rightarrow> jsstr" where
  "normalize_reference upper e = upper (squeeze is_space False (js_trim e))"

subsection \<open>URIs\<close>

definition uri_error :: js_error where "uri_error = PlainError ''URIError: URI malformed''"

text \<open>UTF-8 of a code point, and the escape of a byte.\<close>

definition utf8_of :: "nat \<Rightarrow> nat list" where
  "utf8_of e =
     (if e < 128 then [e]
      else if e < 2048 then [192 + e div 64, 128 + e mod 64]
      else if e < 65536 then [224 + e div 4096, 128 + e div 64 mod 64, 128 + e mod 64]
      else [240 + e div 262144, 128 + e div 4096 mod 64, 128 + e div 64 mod 64, 128 + e mod 64])"

definition hex_digit :: "nat \<Rightarrow> unit16" where
  "hex_digit d = of_nat (if d < 10 then 48 + d else 55 + d)"

definition percent :: "nat \<Rightarrow> jsstr" where
  "percent b = [37, hex_digit (b div 16), hex_digit (b mod 16)]"

definition uri_reserved :: jsstr where "uri_reserved = js '';/?:@&=+$,#''"

definition uri_unescaped :: "unit16 \<Rightarrow> bool" where
  "uri_unescaped c \<longleftrightarrow> is_alnum c \<or> c \<in> set uri_reserved \<or> c \<in> set (js (''-_.!~*()'' @ [CHR 0x27]))"

definition lead :: "unit16 \<Rightarrow> bool" where "lead c \<longleftrightarrow> 55296 \<le> unat c \<and> unat c \<le> 56319"
definition trail :: "unit16 \<Rightarrow> bool" where "trail c \<longleftrightarrow> 56320 \<le> unat c \<and> unat c \<le> 57343"

fun encode_uri :: "jsstr \<Rightarrow> jsstr option" where
  "encode_uri [] = Some []"
| "encode_uri (c # s) =
     (if uri_unescaped c then map_option (\<lambda>r. c # r) (encode_uri s)
      else if trail c then None
      else if lead c then
        (case s of
           [] \<Rightarrow> None
         | d # s' \<Rightarrow>
             if trail d
             then map_option (\<lambda>r. concat (map percent (utf8_of (65536 + (unat c - 55296) * 1024 + (unat d - 56320)))) @ r)
                    (encode_uri s')
             else None)
      else map_option (\<lambda>r. concat (map percent (utf8_of (unat c))) @ r) (encode_uri s))"

text \<open>A \<open>%XX\<close> at the front, and \<open>n\<close> continuation bytes.\<close>

definition read_percent :: "jsstr \<Rightarrow> (nat \<times> jsstr) option" where
  "read_percent s =
     (case s of
        p # a # b # r \<Rightarrow> if p = 37 \<and> is_hex a \<and> is_hex b then Some (16 * hex_val a + hex_val b, r) else None
      | _ \<Rightarrow> None)"

fun read_more :: "nat \<Rightarrow> nat \<Rightarrow> jsstr \<Rightarrow> (nat \<times> jsstr) option" where
  "read_more 0 v s = Some (v, s)"
| "read_more (Suc n) v s =
     (case read_percent s of
        Some (b, r) \<Rightarrow> if b div 64 = 2 then read_more n (v * 64 + b mod 64) r else None
      | None \<Rightarrow> None)"

lemma read_percent_less: "read_percent s = Some (b, r) \<Longrightarrow> length r < length s"
  by (auto simp: read_percent_def split: list.splits if_splits)

lemma read_more_le: "read_more n v s = Some (w, r) \<Longrightarrow> length r \<le> length s"
proof (induction n v s rule: read_more.induct)
  case (2 n v s)
  then obtain b u where u: "read_percent s = Some (b, u)" "read_more n (v * 64 + b mod 64) u = Some (w, r)" "b div 64 = 2"
    by (auto split: option.splits if_splits)
  have "length r \<le> length u" by (rule 2(1) [OF u(1) refl u(3,2)])
  then show ?case using read_percent_less [OF u(1)] by simp
qed simp

text \<open>The code point that starts with the byte \<open>b\<close>; overlong forms, surrogates and codes beyond the last are malformed.\<close>

definition read_point :: "nat \<Rightarrow> jsstr \<Rightarrow> (nat \<times> jsstr) option" where
  "read_point b s =
     (let (n, v, low) = (if b div 32 = 6 then (1, b mod 32, 128) else if b div 16 = 14 then (2, b mod 16, 2048)
        else (3, b mod 8, 65536))
      in if b div 64 = 2 \<or> 248 \<le> b then None
         else case read_more n v s of
             Some (e, r) \<Rightarrow>
               if e < low \<or> 1114111 < e \<or> 55296 \<le> e \<and> e \<le> 57343 then None else Some (e, r)
           | None \<Rightarrow> None)"

lemma read_point_le: "read_point b s = Some (w, r) \<Longrightarrow> length r \<le> length s"
  by (auto simp: read_point_def Let_def simp del: read_more.simps split: option.splits if_splits dest!: read_more_le)

function decode_uri :: "jsstr \<Rightarrow> jsstr option" where
  "decode_uri s =
     (case s of
        [] \<Rightarrow> Some []
      | c # s' \<Rightarrow>
          if c \<noteq> 37 then map_option (\<lambda>r. c # r) (decode_uri s')
          else case read_percent s of
              None \<Rightarrow> None
            | Some (b, r) \<Rightarrow>
                if b < 128 then
                  map_option (\<lambda>r. (if of_nat b \<in> set uri_reserved then take 3 s else [of_nat b]) @ r) (decode_uri r)
                else case read_point b r of
                    None \<Rightarrow> None
                  | Some (e, r') \<Rightarrow> map_option (\<lambda>r. from_code_point (Some e) @ r) (decode_uri r'))"
  by pat_completeness auto
termination
  by (relation "measure length") (auto dest!: read_percent_less read_point_le)

declare decode_uri.simps [simp del]

text \<open>\<open>normalizeLink\<close>: only the decoding is inside the \<open>try\<close>.\<close>

definition normalize_link :: "jsstr \<Rightarrow> js_error + jsstr" where
  "normalize_link e =
     (let t = replace_entities e; t = (case decode_uri t of Some d \<Rightarrow> d | None \<Rightarrow> t)
      in case encode_uri t of Some r \<Rightarrow> Inr r | None \<Rightarrow> Inl uri_error)"

text \<open>\<open>validateLink\<close>.\<close>

definition bad_schemes :: "jsstr list" where
  "bad_schemes = map js [''vbscript'', ''javascript'', ''file'', ''data'']"

definition validate_link :: "jsstr \<Rightarrow> bool" where
  "validate_link e =
     (let t = replace_entities (to_lower (js_trim e))
      in 58 \<notin> set t \<or> hd (js_split 58 t) \<notin> set bad_schemes)"

subsection \<open>The patterns of the rules\<close>

definition dot :: "unit16 \<Rightarrow> bool" where "dot c \<longleftrightarrow> c \<noteq> 10 \<and> c \<noteq> 13 \<and> c \<noteq> 8232 \<and> c \<noteq> 8233"
definition in_chars :: "string \<Rightarrow> unit16 \<Rightarrow> bool" where "in_chars s c \<longleftrightarrow> c \<in> set (js s)"
definition not_in :: "string \<Rightarrow> unit16 \<Rightarrow> bool" where "not_in s c \<longleftrightarrow> c \<notin> set (js s)"

text \<open>The two forms of an autolink.\<close>

definition autolink_re :: re where
  "autolink_re = seq [ch 60, Rep (Chars (\<lambda>c. is_letter c \<or> c = 46 \<or> c = 45)) 1 (Some 25), ch 58,
     star (Chars (\<lambda>c. c \<noteq> 60 \<and> c \<noteq> 62 \<and> 32 < unat c)), ch 62]"

definition email_label :: re where
  "email_label = seq [Chars is_alnum, opt (seq [Rep (Chars (\<lambda>c. is_alnum c \<or> c = 45)) 0 (Some 61), Chars is_alnum])]"

definition email_re :: re where
  "email_re = seq [ch 60,
     plus (Chars (\<lambda>c. is_alnum c \<or> in_chars (''.!#$%&*+/=?^_`{|}~-'' @ [CHR 0x27]) c)), ch 64, email_label,
     star (seq [ch 46, email_label]), ch 62]"

definition schemes :: "jsstr list" where
  "schemes = map js [
    ''coap'', ''doi'', ''javascript'', ''aaa'', ''aaas'', ''about'', ''acap'', ''cap'', ''cid'',
    ''crid'', ''data'', ''dav'', ''dict'', ''dns'', ''file'', ''ftp'', ''geo'', ''go'',
    ''gopher'', ''h323'', ''http'', ''https'', ''iax'', ''icap'', ''im'', ''imap'', ''info'',
    ''ipp'', ''iris'', ''iris.beep'', ''iris.xpc'', ''iris.xpcs'', ''iris.lwz'', ''ldap'',
    ''mailto'', ''mid'', ''msrp'', ''msrps'', ''mtqp'', ''mupdate'', ''news'', ''nfs'', ''ni'',
    ''nih'', ''nntp'', ''opaquelocktoken'', ''pop'', ''pres'', ''rtsp'', ''service'', ''session'',
    ''shttp'', ''sieve'', ''sip'', ''sips'', ''sms'', ''snmp'', ''soap.beep'', ''soap.beeps'',
    ''tag'', ''tel'', ''telnet'', ''tftp'', ''thismessage'', ''tn3270'', ''tip'', ''tv'', ''urn'',
    ''vemmi'', ''ws'', ''wss'', ''xcon'', ''xcon-userid'', ''xmlrpc.beep'', ''xmlrpc.beeps'',
    ''xmpp'', ''z39.50r'', ''z39.50s'', ''adiumxtra'', ''afp'', ''afs'', ''aim'', ''apt'',
    ''attachment'', ''aw'', ''beshare'', ''bitcoin'', ''bolo'', ''callto'', ''chrome'',
    ''chrome-extension'', ''com-eventbrite-attendee'', ''content'', ''cvs'', ''dlna-playsingle'',
    ''dlna-playcontainer'', ''dtn'', ''dvb'', ''ed2k'', ''facetime'', ''feed'', ''finger'',
    ''fish'', ''gg'', ''git'', ''gizmoproject'', ''gtalk'', ''hcp'', ''icon'', ''ipn'', ''irc'',
    ''irc6'', ''ircs'', ''itms'', ''jar'', ''jms'', ''keyparc'', ''lastfm'', ''ldaps'',
    ''magnet'', ''maps'', ''market'', ''message'', ''mms'', ''ms-help'', ''msnim'', ''mumble'',
    ''mvn'', ''notes'', ''oid'', ''palm'', ''paparazzi'', ''platform'', ''proxy'', ''psyc'',
    ''query'', ''res'', ''resource'', ''rmi'', ''rsync'', ''rtmp'', ''secondlife'', ''sftp'',
    ''sgn'', ''skype'', ''smb'', ''soldat'', ''spotify'', ''ssh'', ''steam'', ''svn'',
    ''teamspeak'', ''things'', ''udp'', ''unreal'', ''ut2004'', ''ventrilo'', ''view-source'',
    ''webcal'', ''wtai'', ''wyciwyg'', ''xfire'', ''xri'', ''ymsgr'']"

text \<open>The tags of \<open>HTML_TAG_RE\<close>, with the names of the pieces it is put together from.\<close>

definition spaces :: re where "spaces = star (Chars is_space)"

definition attr_value :: re where
  "attr_value = Alt (plus (Chars (\<lambda>c. not_in ([CHR 0x22, CHR 0x27] @ ''=<>`'') c \<and> 32 < unat c)))
     (Alt (seq [ch 39, star (Chars (\<lambda>c. c \<noteq> 39)), ch 39]) (seq [ch 34, star (Chars (\<lambda>c. c \<noteq> 34)), ch 34]))"

definition html_attribute :: re where
  "html_attribute = seq [plus (Chars is_space), Chars (\<lambda>c. is_letter c \<or> in_chars ''_:'' c),
     star (Chars (\<lambda>c. is_alnum c \<or> in_chars '':._-'' c)), opt (seq [spaces, ch 61, spaces, attr_value])]"

definition open_tag :: re where
  "open_tag = seq [ch 60, Chars is_letter, star (Chars is_alnum), star html_attribute, spaces, opt (ch 47), ch 62]"

definition close_tag :: re where
  "close_tag = seq [lit ''</'', Chars is_letter, star (Chars is_alnum), spaces, ch 62]"

definition html_comment :: re where
  "html_comment = seq [lit ''<!--'',
     star (Alt (plus (Chars (\<lambda>c. c \<noteq> 45))) (seq [ch 45, plus (Chars (\<lambda>c. c \<noteq> 45))])), lit ''-->'']"

definition processing :: re where
  "processing = seq [lit ''<?'', Lazy (Chars dot), lit ''?>'']"

definition html_declaration :: re where
  "html_declaration = seq [lit ''<!'', plus (Chars (\<lambda>c. 65 \<le> unat c \<and> unat c \<le> 90)), plus (Chars is_space),
     star (Chars (\<lambda>c. c \<noteq> 62)), ch 62]"

definition cdata :: re where
  "cdata = seq [lit ''<![CDATA['',
     star (Alt (plus (Chars (\<lambda>c. c \<noteq> 93))) (Alt (seq [ch 93, Chars (\<lambda>c. c \<noteq> 93)]) (seq [ch 93, ch 93, Chars (\<lambda>c. c \<noteq> 62)]))),
     lit '']]>'']"

definition html_tag_re :: re where
  "html_tag_re = Alt open_tag (Alt close_tag (Alt html_comment (Alt processing (Alt html_declaration cdata))))"

text \<open>The numeric and the named reference of the rule \<open>entity\<close>.\<close>

definition numeric_entity_re :: re where
  "numeric_entity_re = seq [lit ''&#'',
     Alt (seq [Chars (\<lambda>c. c = 120 \<or> c = 88), Rep (Chars is_hex) 1 (Some 8)]) (Rep (Chars is_digit) 1 (Some 8)), ch 59]"

definition named_entity_re :: re where
  "named_entity_re = seq [ch 38, Chars is_letter, Rep (Chars is_alnum) 1 (Some 31), ch 59]"

subsection \<open>Matches are rests of the text\<close>

lemma rounds_suffix:
  assumes "\<And>s s'. s' \<in> set (f s) \<Longrightarrow> suffix s' s"
  shows "s' \<in> set (rounds f lazy k m n s) \<Longrightarrow> suffix s' s"
proof (induction k arbitrary: m n s)
  case (Suc k)
  have "suffix s' s" if "u \<in> set (f s)" "s' \<in> set (rounds f lazy k m' n' u)" for u m' n'
    using Suc.IH [OF that(2)] assms [OF that(1)] by (rule suffix_order.trans)
  then show ?case using Suc.prems by (auto simp: Let_def split: if_splits)
qed (auto split: if_splits)

lemma re_match_suffix: "s' \<in> set (re_match r s) \<Longrightarrow> suffix s' s"
proof (induction r arbitrary: s s')
  case (Chars p)
  then show ?case by (auto split: list.splits if_splits simp: suffix_ConsI)
next
  case (Cat a b)
  then obtain u where "u \<in> set (re_match a s)" "s' \<in> set (re_match b u)" by auto
  then show ?case using Cat.IH suffix_order.trans by blast
next
  case (Rep r m n)
  then show ?case using rounds_suffix [of "re_match r"] by auto
next
  case (Lazy r)
  then show ?case using rounds_suffix [of "re_match r"] by auto
qed auto

text \<open>Patterns that never match the empty text.\<close>

definition consumes :: "re \<Rightarrow> bool" where
  "consumes r \<longleftrightarrow> (\<forall>s s'. s' \<in> set (re_match r s) \<longrightarrow> length s' < length s)"

lemma consumes_Chars: "consumes (Chars p)"
  by (auto simp: consumes_def split: list.splits if_splits)

lemma consumes_Cat: "consumes a \<Longrightarrow> consumes (Cat a b)"
  unfolding consumes_def
proof (intro allI impI)
  fix s s' assume a: "\<forall>s s'. s' \<in> set (re_match a s) \<longrightarrow> length s' < length s" and m: "s' \<in> set (re_match (Cat a b) s)"
  from m obtain u where "u \<in> set (re_match a s)" "s' \<in> set (re_match b u)" by auto
  then have "length u < length s" "length s' \<le> length u" using a suffix_length_le [OF re_match_suffix] by blast+
  then show "length s' < length s" by simp
qed

lemma consumes_Alt: "consumes a \<Longrightarrow> consumes b \<Longrightarrow> consumes (Alt a b)"
  by (auto simp: consumes_def)

lemma consumes_seq: "consumes r \<Longrightarrow> consumes (seq (r # rs))"
  by (simp add: seq_def consumes_Cat)

lemma consumes_lit: "consumes (lit (c # cs))"
  by (simp add: lit_def seq_def ch_def consumes_Cat consumes_Chars)

lemma re_first_shorter: "consumes r \<Longrightarrow> re_first r s = Some s' \<Longrightarrow> length s' < length s"
  by (cases "re_match r s") (auto simp: re_first_def consumes_def)

lemma rule_patterns_consume:
  "consumes autolink_re" "consumes email_re" "consumes numeric_entity_re" "consumes named_entity_re" "consumes html_tag_re"
  unfolding autolink_re_def email_re_def numeric_entity_re_def named_entity_re_def html_tag_re_def open_tag_def close_tag_def
    html_comment_def processing_def html_declaration_def cdata_def ch_def
  by (intro consumes_Alt consumes_seq consumes_Chars consumes_lit)+

end
