(* ===== verification/MdInline.thy ===== *)
theory MdInline
  imports MdText
begin

section \<open>The inline parser of Markdown (swagger-ui-bundle.js, Remarkable)\<close>

text \<open>
  The parser walks over the text of a block with a list of rules. A rule looks at the current position:
  it either consumes something and adds tokens, or leaves the position alone. In silent mode a rule
  only moves the position; \<open>skipToken\<close> uses it to find the end of a delimited piece, with a cache. The
  rules for paired delimiters call the tokenizer on the text between them.
\<close>

subsection \<open>The state: \<open>StateInline\<close>\<close>

datatype footnote = FnInline "(token \<times> nat) list" | FnLabel jsstr nat

record md_state =
  st_src :: jsstr
  st_pos :: nat
  st_max :: nat
  st_level :: nat
  st_pending :: jsstr
  st_plevel :: nat
  st_tokens :: "(token \<times> nat) list"
  st_cache :: "nat list"
  st_in_label :: bool
  st_link_level :: nat
  st_link_content :: jsstr
  st_unmatched :: nat
  st_refs :: "(jsstr \<times> jsstr \<times> jsstr) list"
  st_foot_list :: "footnote list"
  st_foot_refs :: "(jsstr \<times> int) list option"

definition md_init :: "jsstr \<Rightarrow> (jsstr \<times> jsstr \<times> jsstr) list \<Rightarrow> footnote list \<Rightarrow> (jsstr \<times> int) list option \<Rightarrow> md_state" where
  "md_init src refs fl fr =
     \<lparr>st_src = src, st_pos = 0, st_max = length src, st_level = 0, st_pending = [], st_plevel = 0, st_tokens = [],
      st_cache = [], st_in_label = False, st_link_level = 0, st_link_content = [], st_unmatched = 0,
      st_refs = refs, st_foot_list = fl, st_foot_refs = fr\<rparr>"

datatype inline_rule =
    RText | RNewline | REscape | RBackticks | RDel | RIns | RMark | REmphasis | RSub | RSup | RLinks
  | RFootnoteInline | RFootnoteRef | RAutolink | RHtmltag | REntity

text \<open>
  The rules that are enabled, in their order, the options, and the case mapping of the
  language, of which nothing is assumed.
\<close>

record md_config =
  cf_rules :: "inline_rule list"
  cf_nesting :: nat
  cf_html :: bool
  cf_upper :: "jsstr \<Rightarrow> jsstr"

definition char_at :: "md_state \<Rightarrow> nat \<Rightarrow> unit16 option" where
  "char_at st i = (if i < length (st_src st) then Some (st_src st ! i) else None)"

definition slice_at :: "md_state \<Rightarrow> nat \<Rightarrow> nat \<Rightarrow> jsstr" where
  "slice_at st a b = take (b - a) (drop a (st_src st))"

definition push_pending :: "md_state \<Rightarrow> md_state" where
  "push_pending st = st\<lparr>st_tokens := st_tokens st @ [(TextTok (st_pending st), st_plevel st)], st_pending := []\<rparr>"

definition push_tok :: "token \<Rightarrow> nat \<Rightarrow> md_state \<Rightarrow> md_state" where
  "push_tok t l st =
     (let st = (if st_pending st \<noteq> [] then push_pending st else st)
      in st\<lparr>st_tokens := st_tokens st @ [(t, l)], st_plevel := st_level st\<rparr>)"

definition add_pending :: "jsstr \<Rightarrow> md_state \<Rightarrow> md_state" where
  "add_pending s st = st\<lparr>st_pending := st_pending st @ s\<rparr>"

definition cache_get :: "md_state \<Rightarrow> nat \<Rightarrow> nat" where
  "cache_get st e = (if e < length (st_cache st) then st_cache st ! e else 0)"

definition cache_set :: "nat \<Rightarrow> nat \<Rightarrow> md_state \<Rightarrow> md_state" where
  "cache_set e t st =
     st\<lparr>st_cache := (st_cache st @ replicate (e + 1 - length (st_cache st)) 0)[e := t]\<rparr>"

text \<open>The first index from \<open>i\<close> on, below \<open>n\<close>, whose unit does not satisfy \<open>p\<close>.\<close>

function skip_while :: "(unit16 option \<Rightarrow> bool) \<Rightarrow> md_state \<Rightarrow> nat \<Rightarrow> nat \<Rightarrow> nat" where
  "skip_while p st n i = (if i < n \<and> p (char_at st i) then skip_while p st n (i + 1) else i)"
  by pat_completeness auto
termination by (relation "measure (\<lambda>(p, st, n, i). n - i)") auto

declare skip_while.simps [simp del]

definition blank :: "unit16 option \<Rightarrow> bool" where
  "blank c \<longleftrightarrow> c = Some 32 \<or> c = Some 10"

definition fuel :: js_error where "fuel = PlainError ''fuel''"

type_synonym md_step = "md_state \<Rightarrow> js_error + md_state"
type_synonym md_label = "md_state \<Rightarrow> nat \<Rightarrow> js_error + nat option \<times> md_state"

subsection \<open>Rules without delimiters\<close>

definition text_stop :: "unit16 option \<Rightarrow> bool" where
  "text_stop c \<longleftrightarrow> c \<in> Some ` {10, 92, 96, 42, 95, 94, 91, 93, 33, 38, 60, 62, 123, 125, 36, 37, 64, 126, 43, 61, 58}"

definition rule_text :: "bool \<Rightarrow> md_state \<Rightarrow> bool \<times> md_state" where
  "rule_text t st =
     (let n = skip_while (\<lambda>c. \<not> text_stop c) st (st_max st) (st_pos st)
      in if n = st_pos st then (False, st)
         else (True, (if t then st else add_pending (slice_at st (st_pos st) n) st)\<lparr>st_pos := n\<rparr>))"

text \<open>Trailing spaces of the pending text; a text of spaces only is kept (the loop finds no end).\<close>

definition strip_pending :: "jsstr \<Rightarrow> jsstr" where
  "strip_pending p = (let q = rev (dropWhile (\<lambda>c. c = 32) (rev p)) in if q = [] then p else q)"

definition rule_newline :: "bool \<Rightarrow> md_state \<Rightarrow> bool \<times> md_state" where
  "rule_newline t st =
     (if char_at st (st_pos st) \<noteq> Some 10 then (False, st)
      else
        let p = st_pending st; n = length p;
            st' = (if t then st
                   else if 1 \<le> n \<and> p ! (n - 1) = 32 then
                     if 2 \<le> n \<and> p ! (n - 2) = 32
                     then push_tok Hardbreak (st_level st) (st\<lparr>st_pending := strip_pending p\<rparr>)
                     else push_tok Softbreak (st_level st) (st\<lparr>st_pending := butlast p\<rparr>)
                   else push_tok Softbreak (st_level st) st)
        in (True, st'\<lparr>st_pos := skip_while (\<lambda>c. c = Some 32) st (st_max st) (st_pos st + 1)\<rparr>))"

definition rule_escape :: "bool \<Rightarrow> md_state \<Rightarrow> bool \<times> md_state" where
  "rule_escape t st =
     (let o' = st_pos st; i = st_max st; n = char_at st (o' + 1);
          plain = (True, (if t then st else add_pending [92] st)\<lparr>st_pos := o' + 1\<rparr>)
      in if char_at st o' \<noteq> Some 92 then (False, st)
         else if o' + 1 < i then
           case n of
             Some c \<Rightarrow>
               if c \<in> set md_punct then (True, (if t then st else add_pending [c] st)\<lparr>st_pos := o' + 2\<rparr>)
               else if c = 10 then
                 (True, (if t then st else push_tok Hardbreak (st_level st) st)
                          \<lparr>st_pos := skip_while (\<lambda>c. c = Some 32) st i (o' + 2)\<rparr>)
               else plain
           | None \<Rightarrow> plain
         else plain)"

text \<open>\<open>indexOf("`", a)\<close>, and the search for a run of as many backquotes as opened the code.\<close>

definition index_from :: "md_state \<Rightarrow> unit16 \<Rightarrow> nat \<Rightarrow> nat option" where
  "index_from st c a =
     (let i = skip_while (\<lambda>d. d \<noteq> Some c) st (length (st_src st)) a
      in if i < length (st_src st) then Some i else None)"

lemma skip_while_ge: "i \<le> skip_while p st n i"
  by (induction p st n i rule: skip_while.induct) (subst skip_while.simps, auto)

lemma index_from_ge: "index_from st c a = Some i \<Longrightarrow> a \<le> i \<and> i < length (st_src st)"
  using skip_while_ge [of a] by (auto simp: index_from_def Let_def split: if_splits)

function code_end :: "md_state \<Rightarrow> nat \<Rightarrow> nat \<Rightarrow> (nat \<times> nat) option" where
  "code_end st k a =
     (case index_from st 96 a of
        None \<Rightarrow> None
      | Some i \<Rightarrow>
          let b = skip_while (\<lambda>c. c = Some 96) st (st_max st) (i + 1)
          in if b - i = k then Some (i, b) else code_end st k b)"
  by pat_completeness auto
termination
proof (relation "measure (\<lambda>(st, k, a). length (st_src st) - a)", goal_cases)
  case (2 st k a i b)
  have "a < b" "a < length (st_src st)"
    using 2 index_from_ge [of st 96 a i] skip_while_ge [of "i + 1" "\<lambda>c. c = Some 96" st "st_max st"] by simp_all
  then show ?case by (simp add: diff_less_mono2)
qed simp

declare code_end.simps [simp del]

definition rule_backticks :: "bool \<Rightarrow> md_state \<Rightarrow> bool \<times> md_state" where
  "rule_backticks t st =
     (let n = st_pos st
      in if char_at st n \<noteq> Some 96 then (False, st)
         else
           let u = skip_while (\<lambda>c. c = Some 96) st (st_max st) (n + 1)
           in case code_end st (u - n) u of
                Some (i, a) \<Rightarrow>
                  (True, (if t then st
                          else push_tok (Code (js_trim (squeeze (\<lambda>c. c = 32 \<or> c = 10) False (slice_at st u i))) False) (st_level st) st)
                         \<lparr>st_pos := a\<rparr>)
              | None \<Rightarrow> (True, (if t then st else add_pending (slice_at st n u) st)\<lparr>st_pos := u\<rparr>))"

definition matched :: "md_state \<Rightarrow> jsstr \<Rightarrow> jsstr" where
  "matched st r = take (length (st_src st) - st_pos st - length r) (drop (st_pos st) (st_src st))"

definition rule_entity :: "bool \<Rightarrow> md_state \<Rightarrow> bool \<times> md_state" where
  "rule_entity t st =
     (let c = st_pos st; s = drop c (st_src st);
          plain = (True, (if t then st else add_pending [38] st)\<lparr>st_pos := c + 1\<rparr>)
      in if char_at st c \<noteq> Some 38 then (False, st)
         else if c + 1 < st_max st then
           if char_at st (c + 1) = Some 35 then
             case re_first numeric_entity_re s of
               Some r \<Rightarrow>
                 let m = matched st r; d = butlast (drop 2 m);
                     n = (if hd d = 120 \<or> hd d = 88 then parse_int_16 (tl d) else parse_int_10 d)
                 in (True, (if t then st
                            else add_pending (if valid_entity_code n then from_code_point n else from_code_point (Some 65533)) st)
                           \<lparr>st_pos := c + length m\<rparr>)
             | None \<Rightarrow> plain
           else
             case re_first named_entity_re s of
               Some r \<Rightarrow>
                 let m = matched st r
                 in (case named_entity (butlast (drop 1 m)) of
                       Some v \<Rightarrow> (True, (if t then st else add_pending v st)\<lparr>st_pos := c + length m\<rparr>)
                     | None \<Rightarrow> plain)
             | None \<Rightarrow> plain
         else plain)"

text \<open>The three tokens of an autolink.\<close>

definition push_autolink :: "jsstr \<Rightarrow> jsstr \<Rightarrow> md_state \<Rightarrow> md_state" where
  "push_autolink c l st =
     push_tok LinkClose (st_level st) (push_tok (TextTok l) (st_level st + 1) (push_tok (LinkOpen c []) (st_level st) st))"

definition rule_autolink :: "bool \<Rightarrow> md_state \<Rightarrow> js_error + bool \<times> md_state" where
  "rule_autolink t st =
     (let f = st_pos st; n = drop f (st_src st)
      in if char_at st f \<noteq> Some 60 \<or> 62 \<notin> set n then Inr (False, st)
         else case re_first autolink_re n of
             Some r \<Rightarrow>
               let m = matched st r; l = butlast (tl m)
               in if to_lower (takeWhile (\<lambda>c. c \<noteq> 58) l) \<notin> set schemes then Inr (False, st)
                  else andthen (normalize_link l) (\<lambda>c.
                    if \<not> validate_link l then Inr (False, st)
                    else Inr (True, (if t then st else push_autolink c l st)\<lparr>st_pos := f + length m\<rparr>))
           | None \<Rightarrow>
               (case re_first email_re n of
                  Some r \<Rightarrow>
                    let m = matched st r; l = butlast (tl m)
                    in andthen (normalize_link (js ''mailto:'' @ l)) (\<lambda>c.
                         if \<not> validate_link c then Inr (False, st)
                         else Inr (True, (if t then st else push_autolink c l st)\<lparr>st_pos := f + length m\<rparr>))
                | None \<Rightarrow> Inr (False, st)))"

definition rule_htmltag :: "bool \<Rightarrow> bool \<Rightarrow> md_state \<Rightarrow> bool \<times> md_state" where
  "rule_htmltag html t st =
     (let a = st_pos st
      in if \<not> html \<or> char_at st a \<noteq> Some 60 \<or> st_max st \<le> a + 2 then (False, st)
         else if \<not> (case char_at st (a + 1) of Some n \<Rightarrow> n = 33 \<or> n = 63 \<or> n = 47 \<or> is_letter n | None \<Rightarrow> False) then (False, st)
         else case re_first html_tag_re (drop a (st_src st)) of
             None \<Rightarrow> (False, st)
           | Some r \<Rightarrow>
               let m = matched st r
               in (True, (if t then st else push_tok (Htmltag m) (st_level st) st)\<lparr>st_pos := a + length m\<rparr>))"

text \<open>
  A reference whose footnote has been overwritten by an inline one has no count: its \<open>subId\<close> is then
  undefined, which the renderer treats as 0, and 0 stands for it here.
\<close>

definition rule_footnote_ref :: "md_config \<Rightarrow> bool \<Rightarrow> md_state \<Rightarrow> bool \<times> md_state" where
  "rule_footnote_ref cf t st =
     (let u = st_pos st; a = st_max st
      in case st_foot_refs st of
           None \<Rightarrow> (False, st)
         | Some refs \<Rightarrow>
             if a < u + 3 \<or> char_at st u \<noteq> Some 91 \<or> char_at st (u + 1) \<noteq> Some 94 \<or> cf_nesting cf \<le> st_level st
             then (False, st)
             else
               let r = skip_while (\<lambda>c. c \<noteq> Some 32 \<and> c \<noteq> Some 10 \<and> c \<noteq> Some 93) st a (u + 2)
               in if r < a \<and> char_at st r \<noteq> Some 93 \<or> r = u + 2 \<or> a \<le> r then (False, st)
                  else
                    let n = slice_at st (u + 2) r
                    in case map_of refs n of
                         None \<Rightarrow> (False, st)
                       | Some k \<Rightarrow>
                           let (o', st1) = (if k < 0
                                 then (length (st_foot_list st),
                                       st\<lparr>st_foot_list := st_foot_list st @ [FnLabel n 0],
                                          st_foot_refs := Some ((n, int (length (st_foot_list st))) # refs)\<rparr>)
                                 else (nat k, st));
                               i = (case st_foot_list st1 ! o' of FnLabel _ c \<Rightarrow> c | FnInline _ \<Rightarrow> 0);
                               st2 = (case st_foot_list st1 ! o' of
                                        FnLabel l c \<Rightarrow> st1\<lparr>st_foot_list := (st_foot_list st1)[o' := FnLabel l (c + 1)]\<rparr>
                                      | FnInline _ \<Rightarrow> st1)
                           in (True, (if t then st else push_tok (FootnoteRef o' i) (st_level st2) st2)\<lparr>st_pos := r + 1\<rparr>))"

subsection \<open>Rules with delimiters\<close>

text \<open>
  The callbacks of these rules are \<open>parser.skipToken\<close>, \<open>parseLinkLabel\<close> and \<open>parser.tokenize\<close>. Every loop
  gets as fuel the length of the text it walks over, and one: each round moves the position.
\<close>

text \<open>
  \<open>del\<close>, \<open>ins\<close>, \<open>mark\<close>: what happens at one position of the search for the closing pair; the result says
  whether it closes, and the number of open pairs.
\<close>

definition pair_here :: "md_state \<Rightarrow> unit16 \<Rightarrow> nat \<Rightarrow> nat \<Rightarrow> bool \<times> nat" where
  "pair_here st c u k =
     (let p = st_pos st
      in if char_at st p = Some c \<and> char_at st (p + 1) = Some c then
           let i = char_at st (p - 1); a = (if p + 2 < u then char_at st (p + 2) else None)
           in if a \<noteq> Some c \<and> i \<noteq> Some c then
                let k = (if \<not> blank i then k - 1 else if \<not> blank a then k + 1 else k) in (k = 0, k)
              else (False, k)
         else (False, k))"

fun find_pair :: "md_step \<Rightarrow> unit16 \<Rightarrow> nat \<Rightarrow> nat \<Rightarrow> nat \<Rightarrow> md_state \<Rightarrow> js_error + bool \<times> md_state" where
  "find_pair skip c u 0 k st = Inl fuel"
| "find_pair skip c u (Suc n) k st =
     (if \<not> st_pos st + 1 < u then Inr (False, st)
      else
        let (found, k) = pair_here st c u k
        in if found then Inr (True, st) else andthen (skip st) (find_pair skip c u n k))"

text \<open>\<open>e.posMax = e.pos, e.pos = s\<close>, then an opening token, the text in between, a closing token.\<close>

definition enclose :: "md_step \<Rightarrow> token \<Rightarrow> token \<Rightarrow> nat \<Rightarrow> md_state \<Rightarrow> js_error + md_state" where
  "enclose tok op cl s st =
     (let st = st\<lparr>st_max := st_pos st, st_pos := s\<rparr>; l = st_level st;
          st = push_tok op l (st\<lparr>st_level := l + 1\<rparr>)
      in andthen (tok st) (\<lambda>st.
           let l = st_level st - 1 in Inr (push_tok cl l (st\<lparr>st_level := l\<rparr>))))"

definition rule_pair :: "md_config \<Rightarrow> md_step \<Rightarrow> md_step \<Rightarrow> unit16 \<Rightarrow> nat \<Rightarrow> token \<Rightarrow> token \<Rightarrow> bool \<Rightarrow> md_state \<Rightarrow> js_error + bool \<times> md_state" where
  "rule_pair cf skip tok c k op cl t st =
     (let u = st_max st; s = st_pos st; i = (if 0 < s then char_at st (s - 1) else None); a = char_at st (s + 2)
      in if char_at st s \<noteq> Some c \<or> t \<or> u \<le> s + 4 \<or> char_at st (s + 1) \<noteq> Some c \<or> cf_nesting cf \<le> st_level st
            \<or> i = Some c \<or> a = Some c \<or> blank a
         then Inr (False, st)
         else
           let r = skip_while (\<lambda>d. d = Some c) st u (s + 2)
           in if s + k < r then Inr (True, (if t then st else add_pending (slice_at st s r) st)\<lparr>st_pos := r\<rparr>)
              else andthen (find_pair skip c u (u + 1 - s) 1 (st\<lparr>st_pos := s + 2\<rparr>)) (\<lambda>(found, st).
                if \<not> found then Inr (False, st\<lparr>st_pos := s\<rparr>)
                else andthen (enclose tok op cl (s + 2) st) (\<lambda>st. Inr (True, st\<lparr>st_pos := st_max st + 2, st_max := u\<rparr>))))"

text \<open>The run of delimiters at \<open>t\<close>: whether it can open, can close, and its length.\<close>

definition scan_delims :: "md_state \<Rightarrow> nat \<Rightarrow> bool \<times> bool \<times> nat" where
  "scan_delims st t =
     (let l = st_max st; c = char_at st t;
          n = (if 0 < t then char_at st (t - 1) else None);
          a = skip_while (\<lambda>d. d = c) st l t; i = a - t;
          o' = (if a < l then char_at st a else None);
          alnum = (\<lambda>d. case d of Some x \<Rightarrow> is_alnum x | None \<Rightarrow> False);
          u = a < l \<and> \<not> 4 \<le> i \<and> \<not> blank o' \<and> \<not> (c = Some 95 \<and> alnum n);
          s = \<not> 4 \<le> i \<and> \<not> blank n \<and> \<not> (c = Some 95 \<and> alnum o')
      in (u, s, i))"

text \<open>Matching a closing run of length \<open>u\<close> against the stack of open runs, the topmost of length \<open>a\<close>.\<close>

fun emph_match :: "nat \<Rightarrow> nat \<Rightarrow> nat list \<Rightarrow> nat \<Rightarrow> nat \<times> nat list \<times> nat" where
  "emph_match a u s p =
     (if a = u then (a, s, p)
      else if u < a then (a, (a - u) # s, p)
      else case s of
          [] \<Rightarrow> (a, [], p)
        | b # s' \<Rightarrow> emph_match b (u - a) s' (p + a))"

fun find_emph :: "md_step \<Rightarrow> unit16 \<Rightarrow> nat \<Rightarrow> nat list \<Rightarrow> md_state \<Rightarrow> js_error + nat option \<times> md_state" where
  "find_emph skip p 0 s st = Inl fuel"
| "find_emph skip p (Suc n) s st =
     (if \<not> st_pos st < st_max st then Inr (None, st)
      else if char_at st (st_pos st) \<noteq> Some p then andthen (skip st) (find_emph skip p n s)
      else
        let (can_open, can_close, r) = scan_delims st (st_pos st)
        in if can_close then
             let (a, s', q) = emph_match (hd s) r (tl s) (st_pos st)
             in if s' = [] then Inr (Some a, st\<lparr>st_pos := q\<rparr>)
                else find_emph skip p n s' (st\<lparr>st_pos := q + r\<rparr>)
           else find_emph skip p n (if can_open then r # s else s) (st\<lparr>st_pos := st_pos st + r\<rparr>))"

text \<open>An opening token that raises the level, and a closing token that lowers it, where \<open>b\<close> says so.\<close>

definition open_if :: "bool \<Rightarrow> token \<Rightarrow> md_state \<Rightarrow> md_state" where
  "open_if b t st = (if b then push_tok t (st_level st) (st\<lparr>st_level := st_level st + 1\<rparr>) else st)"

definition close_if :: "bool \<Rightarrow> token \<Rightarrow> md_state \<Rightarrow> md_state" where
  "close_if b t st = (if b then push_tok t (st_level st - 1) (st\<lparr>st_level := st_level st - 1\<rparr>) else st)"

definition rule_emphasis :: "md_config \<Rightarrow> md_step \<Rightarrow> md_step \<Rightarrow> bool \<Rightarrow> md_state \<Rightarrow> js_error + bool \<times> md_state" where
  "rule_emphasis cf skip tok t st =
     (let c = st_max st; f = st_pos st
      in case char_at st f of
           None \<Rightarrow> Inr (False, st)
         | Some p \<Rightarrow>
             if p \<noteq> 95 \<and> p \<noteq> 42 \<or> t then Inr (False, st)
             else
               let (can_open, can_close, n) = scan_delims st f
               in if \<not> can_open then Inr (True, (if t then st else add_pending (slice_at st f (f + n)) st)\<lparr>st_pos := f + n\<rparr>)
                  else if cf_nesting cf \<le> st_level st then Inr (False, st)
                  else andthen (find_emph skip p (c + 1 - f) [n] (st\<lparr>st_pos := f + n\<rparr>)) (\<lambda>(found, st).
                    case found of
                      None \<Rightarrow> Inr (False, st\<lparr>st_pos := f\<rparr>)
                    | Some n \<Rightarrow>
                        let st = st\<lparr>st_max := st_pos st, st_pos := f + n\<rparr>;
                            st = open_if (n = 1 \<or> n = 3) EmOpen (open_if (n = 2 \<or> n = 3) StrongOpen st)
                        in andthen (tok st) (\<lambda>st.
                             let st = close_if (n = 2 \<or> n = 3) StrongClose (close_if (n = 1 \<or> n = 3) EmClose st)
                             in Inr (True, st\<lparr>st_pos := st_max st + n, st_max := c\<rparr>))))"

fun find_char :: "md_step \<Rightarrow> unit16 \<Rightarrow> nat \<Rightarrow> md_state \<Rightarrow> js_error + bool \<times> md_state" where
  "find_char skip c 0 st = Inl fuel"
| "find_char skip c (Suc n) st =
     (if \<not> st_pos st < st_max st then Inr (False, st)
      else if char_at st (st_pos st) = Some c then Inr (True, st)
      else andthen (skip st) (find_char skip c n))"

definition rule_script :: "md_config \<Rightarrow> md_step \<Rightarrow> unit16 \<Rightarrow> (jsstr \<Rightarrow> token) \<Rightarrow> bool \<Rightarrow> md_state \<Rightarrow> js_error + bool \<times> md_state" where
  "rule_script cf skip c mk t st =
     (let i = st_max st; a = st_pos st
      in if char_at st a \<noteq> Some c \<or> t \<or> i \<le> a + 2 \<or> cf_nesting cf \<le> st_level st then Inr (False, st)
         else andthen (find_char skip c (i + 1 - a) (st\<lparr>st_pos := a + 1\<rparr>)) (\<lambda>(found, st).
           if \<not> (found \<and> a + 1 \<noteq> st_pos st) then Inr (False, st\<lparr>st_pos := a\<rparr>)
           else
             let o' = slice_at st (a + 1) (st_pos st)
             in if unescaped_space True o' then Inr (False, st\<lparr>st_pos := a\<rparr>)
                else
                  let e = st_pos st;
                      st = (if t then st else push_tok (mk (unescape_sub o')) (st_level st) (st\<lparr>st_max := e, st_pos := a + 1\<rparr>))
                  in Inr (True, st\<lparr>st_pos := e + 1, st_max := i\<rparr>)))"

subsection \<open>Links\<close>

text \<open>The loop of \<open>parseLinkLabel\<close>; the number of open brackets is returned with the state.\<close>

fun find_label :: "md_step \<Rightarrow> nat \<Rightarrow> nat \<Rightarrow> md_state \<Rightarrow> js_error + bool \<times> nat \<times> md_state" where
  "find_label skip 0 k st = Inl fuel"
| "find_label skip (Suc n) k st =
     (if \<not> st_pos st < st_max st then Inr (False, k, st)
      else
        let c = char_at st (st_pos st);
            k = (if c = Some 91 then k + 1 else if c = Some 93 then k - 1 else k)
        in if c = Some 93 \<and> k = 0 then Inr (True, k, st)
           else andthen (skip st) (find_label skip n k))"

definition parse_label :: "md_step \<Rightarrow> md_label" where
  "parse_label skip st t =
     (let u = st_pos st
      in if st_in_label st then Inr (None, st)
         else if 0 < st_unmatched st then Inr (None, st\<lparr>st_unmatched := st_unmatched st - 1\<rparr>)
         else andthen (find_label skip (st_max st + 1 - t) 1 (st\<lparr>st_pos := t + 1, st_in_label := True\<rparr>)) (\<lambda>(r, n, st).
           Inr (if r then Some (st_pos st) else None,
                st\<lparr>st_unmatched := (if r then 0 else n - 1), st_pos := u, st_in_label := False\<rparr>)))"

function angle_end :: "md_state \<Rightarrow> nat \<Rightarrow> nat \<Rightarrow> nat option" where
  "angle_end st s t =
     (if \<not> t < s then None
      else
        let n = char_at st t
        in if n = Some 10 then None
           else if n = Some 62 then Some t
           else angle_end st s (if n = Some 92 \<and> t + 1 < s then t + 2 else t + 1))"
  by pat_completeness auto
termination by (relation "measure (\<lambda>(st, s, t). s - t)") auto

declare angle_end.simps [simp del]

definition stops_dest :: "unit16 option \<Rightarrow> bool" where
  "stops_dest c \<longleftrightarrow> (case c of Some n \<Rightarrow> n = 32 \<or> 8 < unat n \<and> unat n < 14 | None \<Rightarrow> False)"

function plain_end :: "md_state \<Rightarrow> nat \<Rightarrow> nat \<Rightarrow> nat \<Rightarrow> nat" where
  "plain_end st s i t =
     (let n = char_at st t
      in if \<not> t < s \<or> stops_dest n then t
         else if n = Some 92 \<and> t + 1 < s then plain_end st s i (t + 2)
         else if n = Some 40 then if 1 \<le> i then t else plain_end st s (i + 1) (t + 1)
         else if n = Some 41 then if i = 0 then t else plain_end st s (i - 1) (t + 1)
         else plain_end st s i (t + 1))"
  by pat_completeness auto
termination by (relation "measure (\<lambda>(st, s, i, t). s - t)") (auto simp: Let_def)

declare plain_end.simps [simp del]

definition parse_dest :: "md_state \<Rightarrow> nat \<Rightarrow> js_error + bool \<times> md_state" where
  "parse_dest st t =
     (if char_at st t = Some 60 then
        (case angle_end st (st_max st) (t + 1) of
           None \<Rightarrow> Inr (False, st)
         | Some e \<Rightarrow>
             andthen (normalize_link (unescape_md (slice_at st (t + 1) e))) (\<lambda>a.
               if validate_link a then Inr (True, st\<lparr>st_pos := e + 1, st_link_content := a\<rparr>) else Inr (False, st)))
      else
        let e = plain_end st (st_max st) 0 t; a = unescape_md (slice_at st t e)
        in if e \<noteq> t \<and> validate_link a then Inr (True, st\<lparr>st_link_content := a, st_pos := e\<rparr>) else Inr (False, st))"

function quote_end :: "md_state \<Rightarrow> unit16 \<Rightarrow> nat \<Rightarrow> nat \<Rightarrow> nat option" where
  "quote_end st a i t =
     (if \<not> t < i then None
      else
        let n = char_at st t
        in if n = Some a then Some t else quote_end st a i (if n = Some 92 \<and> t + 1 < i then t + 2 else t + 1))"
  by pat_completeness auto
termination by (relation "measure (\<lambda>(st, a, i, t). i - t)") auto

declare quote_end.simps [simp del]

definition parse_title :: "md_state \<Rightarrow> nat \<Rightarrow> bool \<times> md_state" where
  "parse_title st t =
     (case char_at st t of
        None \<Rightarrow> (False, st)
      | Some a \<Rightarrow>
          if a \<noteq> 34 \<and> a \<noteq> 39 \<and> a \<noteq> 40 then (False, st)
          else case quote_end st (if a = 40 then 41 else a) (st_max st) (t + 1) of
              None \<Rightarrow> (False, st)
            | Some e \<Rightarrow> (True, st\<lparr>st_pos := e + 1, st_link_content := unescape_md (slice_at st (t + 1) e)\<rparr>))"

text \<open>The part in parentheses: destination, title and the position behind it; \<open>None\<close> where there is none.\<close>

definition inline_target :: "md_state \<Rightarrow> nat \<Rightarrow> js_error + (jsstr \<times> jsstr \<times> nat) option \<times> md_state" where
  "inline_target st f =
     (let v = st_pos st; m = st_max st; f = skip_while blank st m f
      in if m \<le> f then Inr (None, st)
         else andthen (parse_dest st f) (\<lambda>(ok, st).
           let l = (if ok then st_link_content st else []);
               g = (if ok then st_pos st else f);
               f' = skip_while blank st m g;
               (titled, st') = (if f' < m \<and> g \<noteq> f' then parse_title st f' else (False, st));
               c = (if titled then st_link_content st' else []);
               f' = (if titled then skip_while blank st m (st_pos st') else f')
           in if m \<le> f' \<or> char_at st f' \<noteq> Some 41 then Inr (None, st'\<lparr>st_pos := v\<rparr>)
              else Inr (Some (l, c, f' + 1), st')))"

text \<open>The reference behind a label that ends at \<open>u\<close>: a second label, or the first one itself.\<close>

definition reference_target :: "md_config \<Rightarrow> md_label \<Rightarrow> md_state \<Rightarrow> nat \<Rightarrow> nat \<Rightarrow> js_error + (jsstr \<times> jsstr \<times> nat) option \<times> md_state" where
  "reference_target cf label st n u =
     (let v = st_pos st; m = st_max st
      in if 0 < st_link_level st then Inr (None, st)
         else
           let f = skip_while blank st m (u + 1)
           in andthen (if f < m \<and> char_at st f = Some 91
                       then andthen (label st f) (\<lambda>(r, st).
                         Inr (case r of Some e \<Rightarrow> (Some (slice_at st (f + 1) e), e + 1) | None \<Rightarrow> (None, f), st))
                       else Inr ((None, f), st)) (\<lambda>((s, f), st).
                let (s, f) = (case s of
                                Some x \<Rightarrow> if x \<noteq> [] then (x, f) else (slice_at st n u, f)
                              | None \<Rightarrow> (slice_at st n u, u + 1))
                in case map_of (st_refs st) (normalize_reference (cf_upper cf) s) of
                     None \<Rightarrow> Inr (None, st\<lparr>st_pos := v\<rparr>)
                   | Some (l, c) \<Rightarrow> Inr (Some (l, c, f), st)))"

definition rule_links :: "md_config \<Rightarrow> md_label \<Rightarrow> md_step \<Rightarrow> bool \<Rightarrow> md_state \<Rightarrow> js_error + bool \<times> md_state" where
  "rule_links cf label tok t st =
     (let v = st_pos st; m = st_max st; h = (char_at st v = Some 33); g = (if h then v + 1 else v)
      in if char_at st g \<noteq> Some 91 \<or> cf_nesting cf \<le> st_level st then Inr (False, st)
         else andthen (label st g) (\<lambda>(u, st).
           case u of
             None \<Rightarrow> Inr (False, st)
           | Some u \<Rightarrow>
               let n = g + 1
               in andthen (if u + 1 < m \<and> char_at st (u + 1) = Some 40 then inline_target st (u + 2)
                           else reference_target cf label st n u) (\<lambda>(target, st).
                    case target of
                      None \<Rightarrow> Inr (False, st)
                    | Some (l, c, f) \<Rightarrow>
                        andthen
                          (if t then Inr st
                           else
                             let st = st\<lparr>st_pos := n, st_max := u\<rparr>
                             in if h then Inr (push_tok (Image l c (slice_at st n u)) (st_level st) st)
                                else
                                  let lv = st_level st; st = push_tok (LinkOpen l c) lv (st\<lparr>st_level := lv + 1\<rparr>)
                                  in andthen (tok (st\<lparr>st_link_level := st_link_level st + 1\<rparr>)) (\<lambda>st.
                                       Inr (push_tok LinkClose (st_level st - 1)
                                         (st\<lparr>st_link_level := st_link_level st - 1, st_level := st_level st - 1\<rparr>))))
                          (\<lambda>st. Inr (True, st\<lparr>st_pos := f, st_max := m\<rparr>)))))"

text \<open>
  An inline footnote takes its number before its own text is parsed; a footnote inside it takes the
  same number, and the outer one then overwrites it.
\<close>

definition rule_footnote_inline :: "md_config \<Rightarrow> md_label \<Rightarrow> md_step \<Rightarrow> bool \<Rightarrow> md_state \<Rightarrow> js_error + bool \<times> md_state" where
  "rule_footnote_inline cf label tok t st =
     (let u = st_max st; s = st_pos st
      in if u \<le> s + 2 \<or> char_at st s \<noteq> Some 94 \<or> char_at st (s + 1) \<noteq> Some 91 \<or> cf_nesting cf \<le> st_level st then Inr (False, st)
         else andthen (label st (s + 1)) (\<lambda>(r, st).
           case r of
             None \<Rightarrow> Inr (False, st)
           | Some e \<Rightarrow>
               andthen
                 (if t then Inr st
                  else
                    let i = length (st_foot_list st);
                        st = push_tok (FootnoteRef i 0) (st_level st) (st\<lparr>st_pos := s + 2, st_max := e\<rparr>);
                        a = length (st_tokens st)
                    in andthen (tok (st\<lparr>st_link_level := st_link_level st + 1\<rparr>)) (\<lambda>st.
                         let fl = st_foot_list st; x = FnInline (drop a (st_tokens st))
                         in Inr (st\<lparr>st_foot_list := (if i < length fl then fl[i := x] else fl @ [x]),
                                    st_tokens := take a (st_tokens st), st_link_level := st_link_level st - 1\<rparr>)))
                 (\<lambda>st. Inr (True, st\<lparr>st_pos := e + 1, st_max := u\<rparr>))))"

subsection \<open>\<open>skipToken\<close>, \<open>tokenize\<close> and \<open>parse\<close>\<close>

definition run_rule :: "md_config \<Rightarrow> md_label \<Rightarrow> md_step \<Rightarrow> md_step \<Rightarrow> bool \<Rightarrow> inline_rule \<Rightarrow> md_state \<Rightarrow> js_error + bool \<times> md_state" where
  "run_rule cf label skip tok t r st =
     (case r of
        RText \<Rightarrow> Inr (rule_text t st)
      | RNewline \<Rightarrow> Inr (rule_newline t st)
      | REscape \<Rightarrow> Inr (rule_escape t st)
      | RBackticks \<Rightarrow> Inr (rule_backticks t st)
      | RDel \<Rightarrow> rule_pair cf skip tok 126 3 DelOpen DelClose t st
      | RIns \<Rightarrow> rule_pair cf skip tok 43 2 InsOpen InsClose t st
      | RMark \<Rightarrow> rule_pair cf skip tok 61 2 MarkOpen MarkClose t st
      | REmphasis \<Rightarrow> rule_emphasis cf skip tok t st
      | RSub \<Rightarrow> rule_script cf skip 126 Sub t st
      | RSup \<Rightarrow> rule_script cf skip 94 Sup t st
      | RLinks \<Rightarrow> rule_links cf label tok t st
      | RFootnoteInline \<Rightarrow> rule_footnote_inline cf label tok t st
      | RFootnoteRef \<Rightarrow> Inr (rule_footnote_ref cf t st)
      | RAutolink \<Rightarrow> rule_autolink t st
      | RHtmltag \<Rightarrow> Inr (rule_htmltag (cf_html cf) t st)
      | REntity \<Rightarrow> Inr (rule_entity t st))"

text \<open>The first rule that does something.\<close>

fun run_rules :: "md_config \<Rightarrow> md_label \<Rightarrow> md_step \<Rightarrow> md_step \<Rightarrow> bool \<Rightarrow> inline_rule list \<Rightarrow> md_state \<Rightarrow> js_error + bool \<times> md_state" where
  "run_rules cf label skip tok t [] st = Inr (False, st)"
| "run_rules cf label skip tok t (r # rs) st =
     andthen (run_rule cf label skip tok t r st)
       (\<lambda>(b, st). if b then Inr (True, st) else run_rules cf label skip tok t rs st)"

text \<open>
  \<open>skipToken\<close>. In silent mode no rule calls the tokenizer or skips tokens itself, so these two
  callbacks are never used.
\<close>

definition skip_with :: "md_config \<Rightarrow> md_label \<Rightarrow> md_step" where
  "skip_with cf label st =
     (let i = st_pos st; n = cache_get st i
      in if 0 < n then Inr (st\<lparr>st_pos := n\<rparr>)
         else andthen (run_rules cf label (\<lambda>_. Inl fuel) (\<lambda>_. Inl fuel) True (cf_rules cf) st) (\<lambda>(b, st).
           let st = (if b then st else st\<lparr>st_pos := st_pos st + 1\<rparr>) in Inr (cache_set i (st_pos st) st)))"

text \<open>
  The recursion of \<open>skipToken\<close> and \<open>parseLinkLabel\<close> is two deep: inside a label the flag \<open>isInLabel\<close> makes
  \<open>parseLinkLabel\<close> return -1 at once.
\<close>

definition skip_in_label :: "md_config \<Rightarrow> md_step" where
  "skip_in_label cf = skip_with cf (\<lambda>st t. Inr (None, st))"

definition link_label :: "md_config \<Rightarrow> md_label" where
  "link_label cf = parse_label (skip_in_label cf)"

definition skip_token :: "md_config \<Rightarrow> md_step" where
  "skip_token cf = skip_with cf (link_label cf)"

fun tok_loop :: "(md_state \<Rightarrow> js_error + bool \<times> md_state) \<Rightarrow> nat \<Rightarrow> nat \<Rightarrow> md_state \<Rightarrow> js_error + md_state" where
  "tok_loop run 0 i st = Inl fuel"
| "tok_loop run (Suc n) i st =
     (if \<not> st_pos st < i then Inr st
      else andthen (run st) (\<lambda>(b, st).
        if b then if i \<le> st_pos st then Inr st else tok_loop run n i st
        else tok_loop run n i ((add_pending (slice_at st (st_pos st) (st_pos st + 1)) st)\<lparr>st_pos := st_pos st + 1\<rparr>)))"

text \<open>The fuel of \<open>tokenize\<close> bounds the nesting: an inner call works on a shorter range.\<close>

fun tokenize :: "md_config \<Rightarrow> nat \<Rightarrow> md_step" where
  "tokenize cf 0 st = Inl fuel"
| "tokenize cf (Suc d) st =
     andthen (tok_loop (run_rules cf (link_label cf) (skip_token cf) (tokenize cf d) False (cf_rules cf))
                (Suc (st_max st - st_pos st)) (st_max st) st)
       (\<lambda>st. Inr (if st_pending st \<noteq> [] then push_pending st else st))"

definition parse_inline :: "md_config \<Rightarrow> jsstr \<Rightarrow> (jsstr \<times> jsstr \<times> jsstr) list \<Rightarrow> footnote list \<Rightarrow> (jsstr \<times> int) list option \<Rightarrow> js_error + md_state" where
  "parse_inline cf src refs fl fr = tokenize cf (length src + 1) (md_init src refs fl fr)"

end
