(* ===== verification/MdParse.thy ===== *)
theory MdParse
  imports MdInline
begin

section \<open>What the inline parser guarantees (swagger-ui-bundle.js, Remarkable)\<close>

text \<open>
  The parser comes to the end of its text whatever the text is, the tokens it makes are well nested,
  and every address among them has been validated or comes from a reference definition. Each rule
  keeps a contract towards the three callbacks it gets; the contracts compose along the recursion.
\<close>

subsection \<open>Brackets and links among the tokens\<close>

fun bracket :: "token \<Rightarrow> (bool \<times> nat) option" where
  "bracket (LinkOpen h t) = Some (True, 0)"
| "bracket LinkClose = Some (False, 0)"
| "bracket StrongOpen = Some (True, 1)"
| "bracket StrongClose = Some (False, 1)"
| "bracket EmOpen = Some (True, 2)"
| "bracket EmClose = Some (False, 2)"
| "bracket DelOpen = Some (True, 3)"
| "bracket DelClose = Some (False, 3)"
| "bracket InsOpen = Some (True, 4)"
| "bracket InsClose = Some (False, 4)"
| "bracket MarkOpen = Some (True, 5)"
| "bracket MarkClose = Some (False, 5)"
| "bracket _ = None"

text \<open>
  Reading tokens with the stack of open elements, where \<open>br\<close> says which tokens open or close what;
  \<open>None\<close> where a closing token does not fit.
\<close>

fun nesting :: "('a \<Rightarrow> (bool \<times> nat) option) \<Rightarrow> nat list \<Rightarrow> 'a list \<Rightarrow> nat list option" where
  "nesting br s [] = Some s"
| "nesting br s (t # ts) =
     (case br t of
        None \<Rightarrow> nesting br s ts
      | Some (True, k) \<Rightarrow> nesting br (k # s) ts
      | Some (False, k) \<Rightarrow> (case s of [] \<Rightarrow> None | k' # s' \<Rightarrow> if k = k' then nesting br s' ts else None))"

definition balanced :: "('a \<Rightarrow> (bool \<times> nat) option) \<Rightarrow> 'a list \<Rightarrow> bool" where
  "balanced br ts \<longleftrightarrow> (\<forall>s. nesting br s ts = Some s)"

text \<open>
  A token the inline parser may make: its address has passed \<open>validateLink\<close> or comes from a reference
  definition; raw HTML only where the options allow it; nothing of the block level.
\<close>

type_synonym md_refs = "(jsstr \<times> jsstr \<times> jsstr) list"

definition addresses :: "md_refs \<Rightarrow> jsstr set" where
  "addresses refs = (\<lambda>(k, h, t). h) ` set refs"

fun token_ok :: "bool \<Rightarrow> md_refs \<Rightarrow> token \<Rightarrow> bool" where
  "token_ok html refs (LinkOpen h t) \<longleftrightarrow> validate_link h \<or> h \<in> addresses refs"
| "token_ok html refs (Image h t a) \<longleftrightarrow> validate_link h \<or> h \<in> addresses refs"
| "token_ok html refs (Htmltag x) \<longleftrightarrow> html"
| "token_ok html refs (Code x block) \<longleftrightarrow> \<not> block"
| "token_ok html refs (TextTok x) \<longleftrightarrow> True"
| "token_ok html refs (Sub x) \<longleftrightarrow> True"
| "token_ok html refs (Sup x) \<longleftrightarrow> True"
| "token_ok html refs (FootnoteRef i s) \<longleftrightarrow> True"
| "token_ok html refs Hardbreak \<longleftrightarrow> True"
| "token_ok html refs Softbreak \<longleftrightarrow> True"
| "token_ok html refs LinkClose \<longleftrightarrow> True"
| "token_ok html refs StrongOpen \<longleftrightarrow> True"
| "token_ok html refs StrongClose \<longleftrightarrow> True"
| "token_ok html refs EmOpen \<longleftrightarrow> True"
| "token_ok html refs EmClose \<longleftrightarrow> True"
| "token_ok html refs DelOpen \<longleftrightarrow> True"
| "token_ok html refs DelClose \<longleftrightarrow> True"
| "token_ok html refs InsOpen \<longleftrightarrow> True"
| "token_ok html refs InsClose \<longleftrightarrow> True"
| "token_ok html refs MarkOpen \<longleftrightarrow> True"
| "token_ok html refs MarkClose \<longleftrightarrow> True"
| "token_ok html refs _ \<longleftrightarrow> False"

lemma nesting_append: "nesting br s (xs @ ys) = (case nesting br s xs of None \<Rightarrow> None | Some s' \<Rightarrow> nesting br s' ys)"
  by (induction br s xs rule: nesting.induct) (auto split: option.splits bool.splits list.splits)

lemma nesting_cong: "map br xs = map br ys \<Longrightarrow> nesting br s xs = nesting br s ys"
proof (induction br s xs arbitrary: ys rule: nesting.induct)
  case (2 br s t ts)
  then obtain t' ts' where "ys = t' # ts'" "br t' = br t" "map br ts = map br ts'" by (cases ys) auto
  then show ?case using 2 by (auto split: option.splits bool.splits list.splits)
qed simp

lemma balanced_Nil [simp]: "balanced br []"
  by (simp add: balanced_def)

lemma balanced_append: "balanced br xs \<Longrightarrow> balanced br ys \<Longrightarrow> balanced br (xs @ ys)"
  by (simp add: balanced_def nesting_append)

lemma balanced_single: "br t = None \<Longrightarrow> balanced br [t]"
  by (simp add: balanced_def)

lemma balanced_wrap:
  assumes "br a = Some (True, k)" "br b = Some (False, k)" "balanced br ts"
  shows "balanced br (a # ts @ [b])"
  using assms by (simp add: balanced_def nesting_append)

subsection \<open>What a step keeps\<close>

definition good :: "md_state \<Rightarrow> bool" where
  "good st \<longleftrightarrow> st_max st \<le> length (st_src st) \<and> (\<forall>i < length (st_cache st). st_cache st ! i = 0 \<or> i < st_cache st ! i)"

text \<open>A step that only moves the position (and the scratch fields).\<close>

definition frame :: "md_state \<Rightarrow> md_state \<Rightarrow> bool" where
  "frame st st' \<longleftrightarrow> st_src st' = st_src st \<and> st_max st' = st_max st \<and> st_level st' = st_level st
     \<and> st_pending st' = st_pending st \<and> st_plevel st' = st_plevel st \<and> st_tokens st' = st_tokens st
     \<and> st_in_label st' = st_in_label st \<and> st_link_level st' = st_link_level st \<and> st_refs st' = st_refs st
     \<and> st_foot_list st' = st_foot_list st \<and> st_foot_refs st' = st_foot_refs st"

definition clean :: "md_config \<Rightarrow> md_refs \<Rightarrow> token list \<Rightarrow> bool" where
  "clean cf refs ts \<longleftrightarrow> balanced bracket ts \<and> list_all (token_ok (cf_html cf) refs) ts"

definition foot_ok :: "md_config \<Rightarrow> md_refs \<Rightarrow> footnote \<Rightarrow> bool" where
  "foot_ok cf refs f \<longleftrightarrow> (case f of FnInline ts \<Rightarrow> clean cf refs (map fst ts) | FnLabel l c \<Rightarrow> True)"

text \<open>A step that adds well-nested tokens, and footnotes of such tokens.\<close>

definition grows :: "md_config \<Rightarrow> md_state \<Rightarrow> md_state \<Rightarrow> bool" where
  "grows cf st st' \<longleftrightarrow> st_src st' = st_src st \<and> st_max st' = st_max st \<and> st_level st' = st_level st
     \<and> st_in_label st' = st_in_label st \<and> st_link_level st' = st_link_level st \<and> st_refs st' = st_refs st
     \<and> (\<forall>x \<in> set (st_foot_list st'). x \<in> set (st_foot_list st) \<or> foot_ok cf (st_refs st) x)
     \<and> (\<exists>ts. st_tokens st' = st_tokens st @ ts \<and> clean cf (st_refs st) (map fst ts))"

definition moved :: "md_config \<Rightarrow> bool \<Rightarrow> md_state \<Rightarrow> bool \<Rightarrow> md_state \<Rightarrow> bool" where
  "moved cf t st b st' \<longleftrightarrow> good st' \<and> (if b then st_pos st < st_pos st' else st_pos st' = st_pos st)
     \<and> (if t \<or> \<not> b then frame st st' else grows cf st st')"

text \<open>Computations whose only error is the one of \<open>encodeURI\<close>.\<close>

definition returns :: "js_error + 'a \<Rightarrow> ('a \<Rightarrow> bool) \<Rightarrow> bool" where
  "returns r P \<longleftrightarrow> (case r of Inl e \<Rightarrow> e = uri_error | Inr x \<Rightarrow> P x)"

lemma returns_simps [simp]: "returns (Inr x) P \<longleftrightarrow> P x" "returns (Inl e) P \<longleftrightarrow> e = uri_error"
  by (simp_all add: returns_def)

lemma returns_andthen: "returns r P \<Longrightarrow> (\<And>x. P x \<Longrightarrow> returns (f x) Q) \<Longrightarrow> returns (andthen r f) Q"
  by (cases r) auto

lemma returns_mono: "returns r P \<Longrightarrow> (\<And>x. P x \<Longrightarrow> Q x) \<Longrightarrow> returns r Q"
  by (cases r) auto

lemma normalize_link_returns: "returns (normalize_link e) (\<lambda>_. True)"
  by (simp add: normalize_link_def Let_def split: option.splits)

lemma frame_refl: "frame st st"
  by (simp add: frame_def)

lemma frame_trans: "frame a b \<Longrightarrow> frame b c \<Longrightarrow> frame a c"
  by (simp add: frame_def)

lemma frame_simps [simp]:
  "frame st (st'\<lparr>st_pos := p\<rparr>) \<longleftrightarrow> frame st st'" "frame (st\<lparr>st_pos := p\<rparr>) st' \<longleftrightarrow> frame st st'"
  "frame st (st'\<lparr>st_cache := c\<rparr>) \<longleftrightarrow> frame st st'" "frame st (st'\<lparr>st_link_content := l\<rparr>) \<longleftrightarrow> frame st st'"
  "frame st (st'\<lparr>st_unmatched := u\<rparr>) \<longleftrightarrow> frame st st'"
  by (simp_all add: frame_def)

lemma frame_fields:
  assumes "frame st st'"
  shows "st_src st' = st_src st" "st_max st' = st_max st" "st_level st' = st_level st" "st_pending st' = st_pending st"
    "st_plevel st' = st_plevel st" "st_tokens st' = st_tokens st" "st_in_label st' = st_in_label st"
    "st_link_level st' = st_link_level st" "st_refs st' = st_refs st" "st_foot_list st' = st_foot_list st"
    "st_foot_refs st' = st_foot_refs st"
  using assms by (auto simp: frame_def)

lemma frame_char_at:
  assumes "frame st st'" shows "char_at st' i = char_at st i" "slice_at st' a b = slice_at st a b"
  using assms by (simp_all add: char_at_def slice_at_def frame_fields)

lemma clean_Nil [simp]: "clean cf refs []"
  by (simp add: clean_def)

lemma clean_append: "clean cf refs xs \<Longrightarrow> clean cf refs ys \<Longrightarrow> clean cf refs (xs @ ys)"
  by (simp add: clean_def balanced_append)

lemma clean_single: "bracket t = None \<Longrightarrow> token_ok (cf_html cf) refs t \<Longrightarrow> clean cf refs [t]"
  by (simp add: clean_def balanced_single)

lemma clean_text [simp]: "clean cf refs [TextTok s]"
  by (simp add: clean_single)

lemma grows_refl: "grows cf st st"
  by (simp add: grows_def)

lemma grows_frame: "frame st st' \<Longrightarrow> grows cf st st'"
  by (simp add: grows_def frame_fields)

lemma grows_trans:
  assumes ab: "grows cf a b" and bc: "grows cf b c" shows "grows cf a c"
proof -
  obtain xs where xs: "st_tokens b = st_tokens a @ xs" "clean cf (st_refs a) (map fst xs)" using ab by (auto simp: grows_def)
  obtain ys where ys: "st_tokens c = st_tokens b @ ys" "clean cf (st_refs b) (map fst ys)" using bc by (auto simp: grows_def)
  have r: "st_refs b = st_refs a" using ab by (simp add: grows_def)
  have "st_tokens c = st_tokens a @ (xs @ ys)" "clean cf (st_refs a) (map fst (xs @ ys))"
    using xs ys r by (simp_all add: clean_append)
  moreover have "\<forall>x \<in> set (st_foot_list c). x \<in> set (st_foot_list a) \<or> foot_ok cf (st_refs a) x"
    using ab bc unfolding grows_def r by blast
  ultimately show ?thesis using ab bc unfolding grows_def by metis
qed

lemma grows_simps [simp]:
  "grows cf st (st'\<lparr>st_pos := p\<rparr>) \<longleftrightarrow> grows cf st st'" "grows cf (st\<lparr>st_pos := p\<rparr>) st' \<longleftrightarrow> grows cf st st'"
  "grows cf st (add_pending s st') \<longleftrightarrow> grows cf st st'" "grows cf st (st'\<lparr>st_pending := s\<rparr>) \<longleftrightarrow> grows cf st st'"
  by (simp_all add: grows_def add_pending_def)

text \<open>What pushing a token adds: the pending text, if any, and the token.\<close>

definition pushed :: "token \<Rightarrow> nat \<Rightarrow> md_state \<Rightarrow> (token \<times> nat) list" where
  "pushed t l st = (if st_pending st = [] then [] else [(TextTok (st_pending st), st_plevel st)]) @ [(t, l)]"

lemma push_tok_fields [simp]:
  "st_tokens (push_tok t l st) = st_tokens st @ pushed t l st" "st_pending (push_tok t l st) = []"
  "st_src (push_tok t l st) = st_src st" "st_pos (push_tok t l st) = st_pos st" "st_max (push_tok t l st) = st_max st"
  "st_level (push_tok t l st) = st_level st" "st_cache (push_tok t l st) = st_cache st"
  "st_in_label (push_tok t l st) = st_in_label st" "st_link_level (push_tok t l st) = st_link_level st"
  "st_refs (push_tok t l st) = st_refs st" "st_foot_list (push_tok t l st) = st_foot_list st"
  "st_foot_refs (push_tok t l st) = st_foot_refs st"
  by (simp_all add: push_tok_def push_pending_def pushed_def Let_def)

lemma pushed_clean: "bracket t = None \<Longrightarrow> token_ok (cf_html cf) refs t \<Longrightarrow> clean cf refs (map fst (pushed t l st'))"
  using clean_append [OF clean_text clean_single] by (auto simp: pushed_def clean_single)

lemma grows_push:
  assumes "bracket t = None" "token_ok (cf_html cf) (st_refs st) t" shows "grows cf st (push_tok t l st)"
  using pushed_clean [OF assms] by (simp add: grows_def)

lemma grows_push_to:
  assumes "grows cf st st'" "bracket t = None" "token_ok (cf_html cf) (st_refs st) t" shows "grows cf st (push_tok t l st')"
  using assms by (intro grows_trans [OF assms(1)] grows_push) (simp_all add: grows_def)

lemma good_simps [simp]: "good (st\<lparr>st_pos := p\<rparr>) \<longleftrightarrow> good st" "good (add_pending s st) \<longleftrightarrow> good st" "good (push_tok t l st) \<longleftrightarrow> good st"
  by (simp_all add: good_def add_pending_def push_tok_def push_pending_def Let_def)

lemma movedI_false: "good st \<Longrightarrow> moved cf t st False st"
  by (simp add: moved_def frame_refl)

lemma moved_silent: "good st \<Longrightarrow> st_pos st < n \<Longrightarrow> moved cf True st True (st\<lparr>st_pos := n\<rparr>)"
  by (simp add: moved_def frame_refl)

lemma moved_speaking:
  "good st' \<Longrightarrow> st_pos st < n \<Longrightarrow> grows cf st st' \<Longrightarrow> moved cf False st True (st'\<lparr>st_pos := n\<rparr>)"
  by (simp add: moved_def)

lemmas moved_intros = movedI_false moved_silent moved_speaking grows_push grows_refl

text \<open>The ends of the loops that skip units.\<close>

lemma skip_while_gt: "a < i \<Longrightarrow> a < skip_while p st n i"
  using skip_while_ge [of i p st n] by simp

lemma skip_while_moves: "skip_while p st n i \<noteq> i \<Longrightarrow> i < skip_while p st n i"
  using skip_while_ge [of i p st n] by simp

subsection \<open>Rules without delimiters\<close>

lemma rule_text_moved:
  assumes "good st" "rule_text t st = (b, st')" shows "moved cf t st b st'"
  using assms by (auto simp: rule_text_def Let_def intro!: moved_intros skip_while_moves split: if_splits)

lemma rule_newline_moved:
  assumes "good st" "rule_newline t st = (b, st')" shows "moved cf t st b st'"
proof -
  have p: "grows cf st (st\<lparr>st_pending := x\<rparr>)" "good (st\<lparr>st_pending := x\<rparr>)" for x
    using assms(1) by (simp_all add: grows_refl good_def)
  show ?thesis using assms
    by (auto simp: rule_newline_def Let_def p split: if_splits intro!: moved_intros grows_push_to skip_while_gt)
qed

lemma rule_escape_moved:
  assumes "good st" "rule_escape t st = (b, st')" shows "moved cf t st b st'"
  using assms
  by (auto simp: rule_escape_def Let_def split: if_splits option.splits intro!: moved_intros skip_while_gt)

lemma code_end_range: "code_end st k a = Some (i, b) \<Longrightarrow> a \<le> i \<and> i < b"
proof (induction st k a rule: code_end.induct)
  case (1 st k a)
  obtain j where j: "index_from st 96 a = Some j" using 1(2) by (subst (asm) code_end.simps) (auto split: option.splits)
  let ?b = "skip_while (\<lambda>c. c = Some 96) st (st_max st) (j + 1)"
  have le: "a \<le> j" "j < ?b" using index_from_ge [OF j] skip_while_gt [of j "j + 1"] by simp_all
  show ?case
  proof (cases "?b - j = k")
    case True
    then have "j = i \<and> ?b = b" using 1(2) j by (subst (asm) code_end.simps) (auto simp: Let_def)
    then show ?thesis using le by blast
  next
    case False
    then have "code_end st k ?b = Some (i, b)" using 1(2) j by (subst (asm) code_end.simps) (simp add: Let_def)
    then show ?thesis using 1(1) [OF j refl False] le by simp
  qed
qed

lemma rule_backticks_moved:
  assumes "good st" "rule_backticks t st = (b, st')" shows "moved cf t st b st'"
proof -
  let ?u = "skip_while (\<lambda>c. c = Some 96) st (st_max st) (st_pos st + 1)"
  have u: "st_pos st < ?u" by (rule skip_while_gt) simp
  have e: "st_pos st < a" if "code_end st k ?u = Some (i, a)" for k i a
    using code_end_range [OF that] u by simp
  show ?thesis using assms u e
    by (auto simp: rule_backticks_def Let_def split: if_splits option.splits intro!: moved_intros)
qed

text \<open>The text that a pattern has matched is not empty.\<close>

lemma matched_nonempty:
  assumes "consumes p" "re_first p (drop (st_pos st) (st_src st)) = Some r" shows "0 < length (matched st r)"
  using re_first_shorter [OF assms] by (simp add: matched_def)

lemma rule_entity_moved:
  assumes "good st" "rule_entity t st = (b, st')" shows "moved cf t st b st'"
  using assms matched_nonempty [OF rule_patterns_consume(3)] matched_nonempty [OF rule_patterns_consume(4)]
  by (auto simp: rule_entity_def Let_def split: if_splits option.splits intro!: moved_intros)

lemma rule_htmltag_moved:
  assumes "good st" "rule_htmltag (cf_html cf) t st = (b, st')" shows "moved cf t st b st'"
  using assms matched_nonempty [OF rule_patterns_consume(5)]
  by (auto simp: rule_htmltag_def Let_def split: if_splits option.splits intro!: moved_intros)

lemma good_foot [simp]:
  "good (st\<lparr>st_foot_list := x\<rparr>) \<longleftrightarrow> good st" "good (st\<lparr>st_foot_refs := y\<rparr>) \<longleftrightarrow> good st"
  by (simp_all add: good_def)

lemma foot_ok_label [simp]: "foot_ok cf refs (FnLabel l c)"
  by (simp add: foot_ok_def)

lemma rule_footnote_ref_moved:
  assumes "good st" "rule_footnote_ref cf t st = (b, st')" shows "moved cf t st b st'"
proof -
  define r where "r = skip_while (\<lambda>c. c \<noteq> Some 32 \<and> c \<noteq> Some 10 \<and> c \<noteq> Some 93) st (st_max st) (st_pos st + 2)"
  have r: "st_pos st < Suc r" using skip_while_gt [of "st_pos st" "st_pos st + 2"] by (simp add: r_def less_SucI)
  have g: "grows cf st (st\<lparr>st_foot_refs := y, st_foot_list := x\<rparr>)" "grows cf st (st\<lparr>st_foot_list := x\<rparr>)"
    if "\<forall>a \<in> set x. a \<in> set (st_foot_list st) \<or> (\<exists>l c. a = FnLabel l c)" for x y
    using that by (auto simp: grows_def)
  have up: "a \<in> set fl \<or> (\<exists>l c. a = FnLabel l c)" if "a \<in> set (fl[i := FnLabel l' c'])" for a fl i l' c'
    using that set_update_subset_insert [of fl i] by auto
  have push: "moved cf False st True (push_tok (FootnoteRef o' i) l st'\<lparr>st_pos := Suc r\<rparr>)"
    if "grows cf st st'" "good st'" for o' i l st'
    using that r by (intro moved_speaking grows_push_to) simp_all
  show ?thesis using assms unfolding rule_footnote_ref_def Let_def r_def [symmetric]
    by (auto simp: push g up grows_refl movedI_false moved_silent r split: if_splits option.splits prod.splits footnote.splits)
qed

subsection \<open>Autolinks\<close>

text \<open>What a repetition of one unit matches.\<close>

lemma rounds_Chars:
  assumes "s' \<in> set (rounds (re_match (Chars p)) lz k m n s)" "case n of Some x \<Rightarrow> m \<le> x | None \<Rightarrow> True"
  shows "\<exists>u. s = u @ s' \<and> list_all p u \<and> m \<le> length u"
  using assms
proof (induction k arbitrary: m n s)
  case 0
  then show ?case by (auto split: if_splits)
next
  case (Suc k)
  have step: "\<exists>u. s = u @ s' \<and> list_all p u \<and> m \<le> length u"
    if x: "x \<in> set (re_match (Chars p) s)" and r: "s' \<in> set (rounds (re_match (Chars p)) lz k (m - 1) (map_option (\<lambda>x. x - 1) n) x)" for x
  proof -
    obtain c where c: "s = c # x" "p c" using x by (auto split: list.splits if_splits)
    have "case map_option (\<lambda>x. x - 1) n of Some x \<Rightarrow> m - 1 \<le> x | None \<Rightarrow> True" using Suc.prems(2) by (auto split: option.splits)
    then obtain u where "x = u @ s'" "list_all p u" "m - 1 \<le> length u" using Suc.IH [OF r] by blast
    then show ?thesis using c by (intro exI [of _ "c # u"]) auto
  qed
  have nil: "\<exists>u. s = u @ s' \<and> list_all p u \<and> m \<le> length u" if "m = 0" "s' = s"
    using that by (intro exI [of _ "[]"]) simp
  show ?case
  proof (cases "n = Some 0")
    case True
    then show ?thesis using Suc.prems nil by simp
  next
    case False
    then show ?thesis using Suc.prems(1) nil step unfolding rounds.simps Let_def
      by (auto simp del: re_match.simps split: if_splits)
  qed
qed

lemma autolink_text:
  assumes "re_first autolink_re s = Some r"
  obtains u v where "s = 60 # u @ 58 # v @ 62 # r" "list_all (\<lambda>c. is_letter c \<or> c = 46 \<or> c = 45) u" "u \<noteq> []"
proof -
  have "r \<in> set (re_match autolink_re s)" using assms by (auto simp: re_first_def split: list.splits)
  then obtain x w y z where xs: "s = 60 # x" "w \<in> set (rounds (re_match (Chars (\<lambda>c. is_letter c \<or> c = 46 \<or> c = 45))) False (1 + length x) 1 (Some 25) x)"
    "w = 58 # y" "z \<in> set (rounds (re_match (Chars (\<lambda>c. c \<noteq> 60 \<and> c \<noteq> 62 \<and> 32 < unat c))) False (0 + length y) 0 None y)" "z = 62 # r"
    by (auto simp: autolink_re_def seq_def star_def ch_def simp del: rounds.simps split: list.splits if_splits)
  obtain u where u: "x = u @ w" "list_all (\<lambda>c. is_letter c \<or> c = 46 \<or> c = 45) u" "1 \<le> length u"
    using rounds_Chars [OF xs(2)] by auto
  obtain v where v: "y = v @ z" using rounds_Chars [OF xs(4)] by auto
  show thesis by (rule that [of u v]) (use u v xs in auto)
qed

text \<open>An address that begins with a scheme is safe when its scheme is.\<close>

lemma to_lower_append: "to_lower (x @ y) = to_lower x @ to_lower y"
  by (simp add: to_lower_def)

lemma replace_entities_append: "38 \<notin> set x \<Longrightarrow> replace_entities (x @ y) = x @ replace_entities y"
  unfolding replace_entities_go by (induction x) auto

definition scheme_unit :: "unit16 \<Rightarrow> bool" where "scheme_unit c \<longleftrightarrow> is_letter c \<or> c = 46 \<or> c = 45"

lemma scheme_unit_facts:
  assumes "scheme_unit c"
  shows "c \<noteq> 38" "c \<noteq> 58" "c \<noteq> 37" "\<not> is_space c" "uri_unescaped c"
proof -
  have l: "code_letter (unat c) \<or> c = 46 \<or> c = 45" using assms by (simp add: scheme_unit_def is_letter_def)
  then have n: "65 \<le> unat c \<or> c = 46 \<or> c = 45" "unat c \<le> 122" by (auto simp: code_letter_def)
  then show "c \<noteq> 38" "c \<noteq> 58" "c \<noteq> 37" by auto
  show "\<not> is_space c" using n by (auto simp: is_space_def Let_def)
  show "uri_unescaped c" using l code_letter_alnum
    by (auto simp: uri_unescaped_def is_alnum_def js_def)
qed

lemma to_lower_unit: "scheme_unit c \<Longrightarrow> scheme_unit (if 65 \<le> c \<and> c \<le> 90 then c + 32 else c)"
  by (auto simp: scheme_unit_def is_letter_def code_letter_def word_le_nat_alt unat_word_ariths)

lemma scheme_lower:
  assumes "list_all scheme_unit u" shows "list_all scheme_unit (to_lower u)"
  using assms
proof (induction u)
  case (Cons c u)
  have "c \<noteq> 304" "c \<noteq> 8490" using Cons.prems by (auto simp: scheme_unit_def is_letter_def code_letter_def)
  then have "to_lower (c # u) = (if 65 \<le> c \<and> c \<le> 90 then c + 32 else c) # to_lower u" by (simp add: to_lower_def)
  then show ?case using Cons to_lower_unit [of c] by simp
qed (simp add: to_lower_def)

lemma scheme_no:
  assumes "list_all scheme_unit u" shows "38 \<notin> set u" "58 \<notin> set u"
  using assms scheme_unit_facts(1,2) by (auto simp: list_all_iff)

lemma decode_uri_append: "list_all (\<lambda>c. c \<noteq> 37) x \<Longrightarrow> decode_uri (x @ y) = map_option (\<lambda>r. x @ r) (decode_uri y)"
proof (induction x)
  case (Cons c x)
  then show ?case by (subst decode_uri.simps) (cases "decode_uri y"; simp)
qed (cases "decode_uri y"; simp)

lemma encode_uri_append: "list_all uri_unescaped x \<Longrightarrow> encode_uri (x @ y) = map_option (\<lambda>r. x @ r) (encode_uri y)"
  by (induction x; cases "encode_uri y"; simp)

lemma validate_link_scheme:
  assumes "list_all scheme_unit u" "u \<noteq> []"
  shows "validate_link (u @ 58 # v) \<longleftrightarrow> to_lower u \<notin> set bad_schemes"
proof -
  obtain c u' where c: "u = c # u'" "\<not> is_space c" using assms scheme_unit_facts(4) by (cases u) auto
  have "\<not> is_space 58" by (simp add: is_space_def Let_def)
  then have "js_trim (u @ 58 # v) = u @ 58 # rev (dropWhile is_space (rev v))"
    using c by (simp add: js_trim_def dropWhile_append3)
  moreover have "to_lower (58 # x) = 58 # to_lower x" for x by (simp add: to_lower_def)
  moreover have "replace_entities ((to_lower u @ [58]) @ x) = (to_lower u @ [58]) @ replace_entities x" for x
    using scheme_no(1) [OF scheme_lower [OF assms(1)]] by (intro replace_entities_append) simp
  ultimately show ?thesis using js_split_append [OF scheme_no(2) [OF scheme_lower [OF assms(1)]]]
    by (simp add: validate_link_def to_lower_append)
qed

lemma autolink_href:
  assumes "list_all scheme_unit u" "u \<noteq> []" "validate_link (u @ 58 # v)" "normalize_link (u @ 58 # v) = Inr c"
  shows "validate_link c"
proof -
  have u: "list_all (\<lambda>c. c \<noteq> 37) (u @ [58])" "list_all uri_unescaped (u @ [58])" "38 \<notin> set (u @ [58])"
    using assms(1) scheme_unit_facts by (auto simp: list_all_iff uri_unescaped_def uri_reserved_def js_def)
  let ?t = "replace_entities (u @ 58 # v)"
  have "?t = (u @ [58]) @ replace_entities v" using replace_entities_append [OF u(3), of v] by simp
  then obtain w where w: "(case decode_uri ?t of Some d \<Rightarrow> d | None \<Rightarrow> ?t) = (u @ [58]) @ w"
    using decode_uri_append [OF u(1), of "replace_entities v"] by (cases "decode_uri (replace_entities v)") auto
  then have "encode_uri ((u @ [58]) @ w) = Some c"
    using assms(4) by (simp add: normalize_link_def Let_def split: option.splits)
  then obtain w' where "c = u @ 58 # w'" using encode_uri_append [OF u(2), of w] by (cases "encode_uri w") auto
  then show ?thesis using assms(1-3) validate_link_scheme by blast
qed


lemma matched_rest:
  assumes "drop (st_pos st) (st_src st) = x @ r" shows "matched st r = x"
proof -
  have "length (drop (st_pos st) (st_src st)) = length x + length r" using assms by simp
  then have "length (st_src st) - st_pos st - length r = length x" by simp
  then show ?thesis using assms by (simp add: matched_def)
qed

lemma token_ok_close: "token_ok html refs LinkClose"
  by simp

lemma push_autolink_grows:
  assumes "validate_link c" shows "grows cf st (push_autolink c l st)" "good (push_autolink c l st) = good st"
proof -
  define ts where "ts = pushed (LinkOpen c []) (st_level st) st @ [(TextTok l, st_level st + 1), (LinkClose, st_level st)]"
  have "st_tokens (push_autolink c l st) = st_tokens st @ ts"
    by (simp add: push_autolink_def ts_def) (simp add: pushed_def)
  moreover have "clean cf (st_refs st) [LinkOpen c [], TextTok l, LinkClose]"
    using assms by (simp add: clean_def balanced_def)
  then have "clean cf (st_refs st) (map fst ts)"
    using clean_append [OF clean_text] by (auto simp: ts_def pushed_def)
  ultimately show "grows cf st (push_autolink c l st)" by (auto simp: grows_def push_autolink_def)
  show "good (push_autolink c l st) = good st" by (simp add: push_autolink_def)
qed

lemma rule_autolink_moved:
  assumes "good st" shows "returns (rule_autolink t st) (\<lambda>(b, st'). moved cf t st b st')"
proof (cases "char_at st (st_pos st) \<noteq> Some 60 \<or> 62 \<notin> set (drop (st_pos st) (st_src st))")
  case True
  then show ?thesis using assms by (simp add: rule_autolink_def Let_def movedI_false)
next
  case False
  let ?n = "drop (st_pos st) (st_src st)"
  have go: "moved cf t st True ((if t then st else push_autolink c l st)\<lparr>st_pos := st_pos st + k\<rparr>)"
    if "validate_link c" "0 < k" for c l k
    using that assms push_autolink_grows by (auto intro!: moved_silent moved_speaking)
  show ?thesis
  proof (cases "re_first autolink_re ?n")
    case (Some r)
    then obtain u v where n: "?n = 60 # u @ 58 # v @ 62 # r" and u: "list_all scheme_unit u" "u \<noteq> []"
      unfolding scheme_unit_def [abs_def] by (rule autolink_text)
    have m: "matched st r = 60 # u @ 58 # v @ [62]" using n by (intro matched_rest) simp
    have l: "butlast (tl (matched st r)) = u @ 58 # v" "0 < length (matched st r)" by (simp_all add: m butlast_append)
    then show ?thesis using False Some assms go autolink_href [OF u] normalize_link_returns [of "u @ 58 # v"]
      by (cases "normalize_link (u @ 58 # v)")
        (auto simp: rule_autolink_def Let_def movedI_false)
  next
    case None
    show ?thesis
    proof (cases "re_first email_re ?n")
      case (Some r)
      let ?l = "js ''mailto:'' @ butlast (tl (matched st r))"
      show ?thesis using False None Some assms go matched_nonempty [OF rule_patterns_consume(2) Some] normalize_link_returns [of ?l]
        by (cases "normalize_link ?l") (auto simp: rule_autolink_def Let_def movedI_false)
    next
      case None
      then show ?thesis using \<open>re_first autolink_re ?n = None\<close> assms by (simp add: rule_autolink_def Let_def movedI_false)
    qed
  qed
qed

subsection \<open>The contracts of the callbacks\<close>

definition skip_ok :: "md_step \<Rightarrow> bool" where
  "skip_ok skip \<longleftrightarrow> (\<forall>st. good st \<longrightarrow> st_pos st < st_max st \<longrightarrow>
     returns (skip st) (\<lambda>st'. good st' \<and> frame st st' \<and> st_pos st < st_pos st'))"

definition label_ok :: "md_label \<Rightarrow> bool" where
  "label_ok label \<longleftrightarrow> (\<forall>st t. good st \<longrightarrow> t \<le> st_max st \<longrightarrow>
     returns (label st t) (\<lambda>(r, st'). good st' \<and> frame st st' \<and> st_pos st' = st_pos st
       \<and> (case r of Some u \<Rightarrow> t < u \<and> u < st_max st | None \<Rightarrow> True)))"

text \<open>The tokenizer with \<open>d\<close> as its fuel.\<close>

definition tok_ok :: "md_config \<Rightarrow> nat \<Rightarrow> md_step \<Rightarrow> bool" where
  "tok_ok cf d tok \<longleftrightarrow> (\<forall>st. good st \<longrightarrow> st_max st - st_pos st < d \<longrightarrow>
     returns (tok st) (\<lambda>st'. good st' \<and> grows cf st st' \<and> st_pending st' = [] \<and> st_max st \<le> st_pos st'))"

lemma skip_okD: "skip_ok skip \<Longrightarrow> good st \<Longrightarrow> st_pos st < st_max st \<Longrightarrow>
    returns (skip st) (\<lambda>st'. good st' \<and> frame st st' \<and> st_pos st < st_pos st')"
  by (simp add: skip_ok_def)

lemma label_okD: "label_ok label \<Longrightarrow> good st \<Longrightarrow> t \<le> st_max st \<Longrightarrow>
    returns (label st t) (\<lambda>(r, st'). good st' \<and> frame st st' \<and> st_pos st' = st_pos st
       \<and> (case r of Some u \<Rightarrow> t < u \<and> u < st_max st | None \<Rightarrow> True))"
  by (simp add: label_ok_def)

lemma tok_okD: "tok_ok cf d tok \<Longrightarrow> good st \<Longrightarrow> st_max st - st_pos st < d \<Longrightarrow>
    returns (tok st) (\<lambda>st'. good st' \<and> grows cf st st' \<and> st_pending st' = [] \<and> st_max st \<le> st_pos st')"
  by (simp add: tok_ok_def)

subsection \<open>The searches for a closing delimiter\<close>

lemma find_pair_ok:
  assumes "skip_ok skip"
  shows "good st \<Longrightarrow> st_max st = u \<Longrightarrow> u - st_pos st < n \<Longrightarrow>
    returns (find_pair skip c u n k st) (\<lambda>(found, st'). good st' \<and> frame st st' \<and> st_pos st \<le> st_pos st' \<and> (found \<longrightarrow> st_pos st' < u))"
proof (induction n arbitrary: k st)
  case (Suc n)
  show ?case
  proof (cases "st_pos st + 1 < u \<and> \<not> fst (pair_here st c u k)")
    case True
    then have "returns (skip st) (\<lambda>st'. good st' \<and> frame st st' \<and> st_pos st < st_pos st')"
      using Suc.prems by (intro skip_okD [OF assms]) simp_all
    then have "returns (andthen (skip st) (find_pair skip c u n (snd (pair_here st c u k))))
      (\<lambda>(found, st'). good st' \<and> frame st st' \<and> st_pos st \<le> st_pos st' \<and> (found \<longrightarrow> st_pos st' < u))"
    proof (rule returns_andthen, goal_cases)
      case (1 x)
      then show ?case using Suc.prems True
        by (intro returns_mono [OF Suc.IH]) (auto simp: frame_fields intro: frame_trans)
    qed
    then show ?thesis using True by (cases "pair_here st c u k") simp
  next
    case False
    then show ?thesis using Suc.prems by (auto simp: case_prod_beta frame_refl)
  qed
qed simp

lemma find_char_ok:
  assumes "skip_ok skip"
  shows "good st \<Longrightarrow> st_max st - st_pos st < n \<Longrightarrow>
    returns (find_char skip c n st) (\<lambda>(found, st'). good st' \<and> frame st st' \<and> st_pos st \<le> st_pos st' \<and> (found \<longrightarrow> st_pos st' < st_max st))"
proof (induction n arbitrary: st)
  case (Suc n)
  show ?case
  proof (cases "st_pos st < st_max st \<and> char_at st (st_pos st) \<noteq> Some c")
    case True
    then have "returns (andthen (skip st) (find_char skip c n))
      (\<lambda>(found, st'). good st' \<and> frame st st' \<and> st_pos st \<le> st_pos st' \<and> (found \<longrightarrow> st_pos st' < st_max st))"
    proof (intro returns_andthen [OF skip_okD [OF assms]], goal_cases)
      case (3 x)
      then show ?case using Suc.prems
        by (intro returns_mono [OF Suc.IH]) (auto simp: frame_fields intro: frame_trans)
    qed (use Suc.prems in auto)
    then show ?thesis using True by simp
  next
    case False
    then show ?thesis using Suc.prems by (auto simp: frame_refl)
  qed
qed simp

lemma find_label_ok:
  assumes "skip_ok skip"
  shows "good st \<Longrightarrow> st_max st - st_pos st < n \<Longrightarrow>
    returns (find_label skip n k st)
      (\<lambda>(found, k', st'). good st' \<and> frame st st' \<and> st_pos st \<le> st_pos st' \<and> (found \<longrightarrow> st_pos st' < st_max st))"
proof (induction n arbitrary: k st)
  case (Suc n)
  let ?c = "char_at st (st_pos st)"
  let ?k = "if ?c = Some 91 then k + 1 else if ?c = Some 93 then k - 1 else k"
  show ?case
  proof (cases "st_pos st < st_max st \<and> \<not> (?c = Some 93 \<and> ?k = 0)")
    case True
    then have "returns (andthen (skip st) (find_label skip n ?k))
      (\<lambda>(found, k', st'). good st' \<and> frame st st' \<and> st_pos st \<le> st_pos st' \<and> (found \<longrightarrow> st_pos st' < st_max st))"
    proof (intro returns_andthen [OF skip_okD [OF assms]], goal_cases)
      case (3 x)
      then show ?case using Suc.prems
        by (intro returns_mono [OF Suc.IH]) (auto simp: frame_fields intro: frame_trans)
    qed (use Suc.prems in auto)
    then show ?thesis using True by (auto simp: Let_def)
  next
    case False
    then show ?thesis using Suc.prems by (auto simp: frame_refl Let_def)
  qed
qed simp

text \<open>The search of \<open>emphasis\<close>: the open runs are not empty, and matching stays inside the closing run.\<close>

declare emph_match.simps [simp del]

lemma emph_match_range:
  assumes "emph_match a u s p = (a', s', q)" "0 < a" "0 < u" "list_all ((<) 0) s"
  shows "0 < a' \<and> list_all ((<) 0) s' \<and> p \<le> q \<and> q \<le> p + u"
  using assms
proof (induction a u s p rule: emph_match.induct)
  case (1 a u s p)
  show ?case
  proof (cases "a < u \<and> s \<noteq> []")
    case True
    then obtain b s'' where s: "s = b # s''" by (cases s) auto
    then have "emph_match b (u - a) s'' (p + a) = (a', s', q)"
      using 1(2) True by (subst (asm) emph_match.simps) simp
    then have "0 < a' \<and> list_all ((<) 0) s' \<and> p + a \<le> q \<and> q \<le> p + a + (u - a)"
      using 1(1) [of b s''] 1(3-) s True by simp
    then show ?thesis using True by auto
  next
    case False
    then show ?thesis using 1(2-) by (subst (asm) emph_match.simps) (auto split: list.splits if_splits)
  qed
qed

lemma skip_while_le: "i \<le> n \<Longrightarrow> skip_while p st n i \<le> n"
  by (induction p st n i rule: skip_while.induct) (subst skip_while.simps, auto)

lemma scan_delims_length:
  assumes "scan_delims st p = (can_open, can_close, r)" "p < st_max st" shows "0 < r \<and> p + r \<le> st_max st"
proof -
  let ?e = "skip_while (\<lambda>d. d = char_at st p) st (st_max st) p"
  have "?e = skip_while (\<lambda>d. d = char_at st p) st (st_max st) (p + 1)"
    using assms(2) by (subst skip_while.simps) simp
  then have "p < ?e" using skip_while_gt [of p "p + 1"] by simp
  moreover have "?e \<le> st_max st" using assms(2) by (intro skip_while_le) simp
  ultimately show ?thesis using assms(1) by (auto simp: scan_delims_def Let_def)
qed

lemma find_emph_ok:
  assumes "skip_ok skip"
  shows "good st \<Longrightarrow> st_max st - st_pos st < n \<Longrightarrow> s \<noteq> [] \<Longrightarrow> list_all ((<) 0) s \<Longrightarrow>
    returns (find_emph skip p n s st)
      (\<lambda>(found, st'). good st' \<and> frame st st' \<and> st_pos st \<le> st_pos st' \<and>
         (case found of Some a \<Rightarrow> 0 < a \<and> st_pos st' \<le> st_max st | None \<Rightarrow> True))"
    (is "_ \<Longrightarrow> _ \<Longrightarrow> _ \<Longrightarrow> _ \<Longrightarrow> returns _ (?P st)")
proof (induction n arbitrary: s st)
  case (Suc n)
  have again: "returns (find_emph skip p n s' st') (?P st)"
    if "good st'" "frame st st'" "st_pos st < st_pos st'" "st_pos st < st_max st" "s' \<noteq> []" "list_all ((<) 0) s'" for s' st'
    using that Suc.prems
    by (intro returns_mono [OF Suc.IH]) (auto simp: frame_fields intro: frame_trans split: option.splits)
  obtain o' c' r where sd: "scan_delims st (st_pos st) = (o', c', r)" by (cases "scan_delims st (st_pos st)")
  consider "\<not> st_pos st < st_max st" | "st_pos st < st_max st" "char_at st (st_pos st) \<noteq> Some p"
    | "st_pos st < st_max st" "char_at st (st_pos st) = Some p" by blast
  then show ?case
  proof cases
    case 1
    then show ?thesis using Suc.prems by (simp add: frame_refl)
  next
    case 2
    then have "returns (andthen (skip st) (find_emph skip p n s)) (?P st)"
      using Suc.prems by (intro returns_andthen [OF skip_okD [OF assms]] again) auto
    then show ?thesis using 2 by simp
  next
    case 3
    have r: "0 < r" "st_pos st + r \<le> st_max st" using scan_delims_length [OF sd 3(1)] by simp_all
    obtain a s' q where m: "emph_match (hd s) r (tl s) (st_pos st) = (a, s', q)"
      by (cases "emph_match (hd s) r (tl s) (st_pos st)")
    have em: "0 < a" "list_all ((<) 0) s'" "st_pos st \<le> q" "q \<le> st_pos st + r"
      using emph_match_range [OF m] r Suc.prems(3,4) by (cases s; simp)+
    have close: "returns (if s' = [] then Inr (Some a, st\<lparr>st_pos := q\<rparr>) else find_emph skip p n s' (st\<lparr>st_pos := q + r\<rparr>)) (?P st)"
      using em r 3 Suc.prems by (cases "s' = []") (auto simp: frame_refl intro!: again)
    have op: "returns (find_emph skip p n (if o' then r # s else s) (st\<lparr>st_pos := st_pos st + r\<rparr>)) (?P st)"
      using r 3 Suc.prems by (intro again) (auto simp: frame_refl)
    show ?thesis using close op 3 by (simp add: sd m)
  qed
qed simp

subsection \<open>Rules with delimiters\<close>

lemma parse_label_ok:
  assumes "skip_ok skip" shows "label_ok (parse_label skip)"
  unfolding label_ok_def
proof (intro allI impI)
  fix st t assume g: "good st" and t: "t \<le> st_max st"
  let ?P = "\<lambda>(r, st'). good st' \<and> frame st st' \<and> st_pos st' = st_pos st
       \<and> (case r of Some u \<Rightarrow> t < u \<and> u < st_max st | None \<Rightarrow> True)"
  let ?s = "st\<lparr>st_pos := t + 1, st_in_label := True\<rparr>"
  have gs: "good ?s" using g by (simp add: good_def)
  have restore: "frame st (st'\<lparr>st_unmatched := m, st_pos := v, st_in_label := False\<rparr>)"
    if "frame ?s st'" "\<not> st_in_label st" for st' m v
    using that by (simp add: frame_def)
  have "returns (andthen (find_label skip (st_max st + 1 - t) 1 ?s) (\<lambda>(r, n, st').
      Inr (if r then Some (st_pos st') else None,
           st'\<lparr>st_unmatched := (if r then 0 else n - 1), st_pos := st_pos st, st_in_label := False\<rparr>))) ?P"
    if "\<not> st_in_label st"
    using g gs t that by (intro returns_andthen [OF find_label_ok [OF assms]]) (auto simp: restore good_def split: option.splits)
  then show "returns (parse_label skip st t) ?P"
    using g by (auto simp: parse_label_def Let_def frame_refl good_def)
qed

lemma frame_good_max: "frame st st' \<Longrightarrow> good st' \<Longrightarrow> m \<le> st_max st \<Longrightarrow> good (st'\<lparr>st_max := m\<rparr>)"
  by (simp add: good_def frame_fields)

lemma frame_max_same:
  assumes "frame st st'" "good st'"
  shows "frame st (st'\<lparr>st_pos := p, st_max := st_max st\<rparr>)" "good (st'\<lparr>st_pos := p, st_max := st_max st\<rparr>)"
  using assms by (simp_all add: frame_def good_def)

lemma good_level [simp]: "good (st\<lparr>st_level := l\<rparr>) = good st" "good (st\<lparr>st_link_level := l\<rparr>) = good st"
  by (simp_all add: good_def)

lemma grows_max: "grows cf (st\<lparr>st_max := m\<rparr>) st' \<Longrightarrow> grows cf st (st'\<lparr>st_max := st_max st\<rparr>)"
  by (simp add: grows_def)

lemma grows_good_max: "grows cf (st\<lparr>st_max := m\<rparr>) st' \<Longrightarrow> good st \<Longrightarrow> good st' \<Longrightarrow> good (st'\<lparr>st_max := st_max st\<rparr>)"
  by (simp add: good_def grows_def)

lemma grows_link:
  "grows cf (st\<lparr>st_link_level := k + 1\<rparr>) st' \<Longrightarrow> k = st_link_level st \<Longrightarrow> grows cf st (st'\<lparr>st_link_level := st_link_level st' - 1\<rparr>)"
  by (simp add: grows_def)

lemma clean_wrap:
  assumes "clean cf refs ts" "bracket op = Some (True, k)" "bracket cl = Some (False, k)"
    "token_ok (cf_html cf) refs op" "token_ok (cf_html cf) refs cl"
  shows "clean cf refs (op # ts @ [cl])"
  using assms by (simp add: clean_def balanced_wrap)

lemma grows_wrap:
  assumes "grows cf (open_if b op st) st'" "st_pending st' = []"
    and "bracket op = Some (True, k)" "bracket cl = Some (False, k)"
    and "token_ok (cf_html cf) (st_refs st) op" "token_ok (cf_html cf) (st_refs st) cl"
  shows "grows cf st (close_if b cl st')" "st_pending (close_if b cl st') = []"
proof -
  show "st_pending (close_if b cl st') = []" using assms(2) by (simp add: close_if_def)
  show "grows cf st (close_if b cl st')"
  proof (cases b)
    case True
    obtain ts where ts: "st_tokens st' = st_tokens (open_if True op st) @ ts" "clean cf (st_refs st) (map fst ts)"
      using assms(1) True by (auto simp: grows_def open_if_def)
    let ?l = "st_level st"
    define us where "us = pushed op ?l st @ ts @ [(cl, ?l)]"
    have "map fst us = map fst (butlast (pushed op ?l st)) @ op # map fst ts @ [cl]"
      by (simp add: us_def pushed_def)
    moreover have "clean cf (st_refs st) (map fst (butlast (pushed op ?l st)))" by (simp add: pushed_def)
    ultimately have "clean cf (st_refs st) (map fst us)"
      using clean_append clean_wrap [OF ts(2) assms(3-6)] by simp
    moreover have "st_tokens (close_if True cl st') = st_tokens st @ us"
      using ts(1) assms(1,2) True by (simp add: close_if_def open_if_def us_def pushed_def grows_def)
    ultimately show ?thesis using assms(1) True by (auto simp: grows_def open_if_def close_if_def)
  qed (use assms(1) in \<open>simp add: open_if_def close_if_def\<close>)
qed

lemma good_wrap [simp]: "good (open_if b t st) = good st" "good (close_if b t st) = good st"
  by (simp_all add: open_if_def close_if_def)

lemma wrap_fields [simp]:
  "st_pos (open_if b t st) = st_pos st" "st_max (open_if b t st) = st_max st" "st_refs (open_if b t st) = st_refs st"
  "st_pos (close_if b t st) = st_pos st" "st_max (close_if b t st) = st_max st"
  "st_link_level (open_if b t st) = st_link_level st"
  by (simp_all add: open_if_def close_if_def)


text \<open>What the two kinds of rule have in common: a search that may fail, then tokens for a shorter range.\<close>

definition kept :: "md_config \<Rightarrow> bool \<Rightarrow> md_state \<Rightarrow> bool \<times> md_state \<Rightarrow> bool" where
  "kept cf t st = (\<lambda>(b, st'). moved cf t st b st')"

lemma kept_simp [simp]: "kept cf t st (b, st') = moved cf t st b st'"
  by (simp add: kept_def)

lemma kept_false: "frame st st' \<Longrightarrow> good st' \<Longrightarrow> kept cf t st (False, st'\<lparr>st_pos := st_pos st\<rparr>)"
  by (simp add: moved_def)

lemma enclose_ok:
  assumes tok: "tok_ok cf d tok" and st: "frame st0 st" "good st" "st_pos st \<le> st_max st0" "st_pos st - s < d"
    and b: "bracket op = Some (True, k)" "bracket cl = Some (False, k)"
    "token_ok (cf_html cf) (st_refs st0) op" "token_ok (cf_html cf) (st_refs st0) cl"
  shows "returns (enclose tok op cl s st)
    (\<lambda>st'. grows cf st0 (st'\<lparr>st_max := st_max st0\<rparr>) \<and> good (st'\<lparr>st_max := st_max st0\<rparr>) \<and> st_max st' = st_pos st)"
proof -
  let ?s = "st\<lparr>st_max := st_pos st, st_pos := s\<rparr>"
  have e: "enclose tok op cl s st = andthen (tok (open_if True op ?s)) (\<lambda>st. Inr (close_if True cl st))"
    by (simp add: enclose_def Let_def open_if_def close_if_def)
  have good: "good ?s" using frame_good_max [OF st(1,2,3)] by simp
  have "returns (tok (open_if True op ?s))
    (\<lambda>st'. good st' \<and> grows cf (open_if True op ?s) st' \<and> st_pending st' = [] \<and> st_max (open_if True op ?s) \<le> st_pos st')"
    using good st(4) by (intro tok_okD [OF tok]) simp_all
  then show ?thesis unfolding e
  proof (rule returns_andthen, goal_cases)
    case (1 st')
    have w: "grows cf ?s (close_if True cl st')" "good (close_if True cl st')"
      using 1 grows_wrap(1) [of cf True op ?s st' k cl] b frame_fields(9) [OF st(1)] by simp_all
    have m: "st_max (close_if True cl st') = st_pos st" using w(1) by (simp add: grows_def)
    have "grows cf st (close_if True cl st'\<lparr>st_max := st_max st\<rparr>)" "good (close_if True cl st'\<lparr>st_max := st_max st\<rparr>)"
      using w st(2) grows_max [where m = "st_pos st" and st = st] grows_good_max [where m = "st_pos st" and st = st] by simp_all
    then show ?case using m grows_trans [OF grows_frame [OF st(1)]] frame_fields(2) [OF st(1)] by simp
  qed
qed

lemma rule_pair_ok:
  assumes "t \<or> skip_ok skip \<and> tok_ok cf d tok" "good st" "st_max st - st_pos st \<le> d"
    and b: "bracket op = Some (True, j)" "bracket cl = Some (False, j)"
    "token_ok (cf_html cf) (st_refs st) op" "token_ok (cf_html cf) (st_refs st) cl"
  shows "returns (rule_pair cf skip tok c k op cl t st) (kept cf t st)"
proof -
  let ?s = "st_pos st" and ?u = "st_max st"
  let ?r = "skip_while (\<lambda>d. d = Some c) st ?u (?s + 2)"
  have r: "?s < ?r" by (rule skip_while_gt) simp
  have run: "moved cf t st True ((if t then st else add_pending x st)\<lparr>st_pos := ?r\<rparr>)" for x
    using assms(2) r by (auto intro!: moved_intros)
  have body: "returns (andthen (find_pair skip c ?u (?u + 1 - ?s) 1 (st\<lparr>st_pos := ?s + 2\<rparr>)) (\<lambda>(found, st').
      if \<not> found then Inr (False, st'\<lparr>st_pos := ?s\<rparr>)
      else andthen (enclose tok op cl (?s + 2) st') (\<lambda>st'. Inr (True, st'\<lparr>st_pos := st_max st' + 2, st_max := ?u\<rparr>))))
      (kept cf t st)" if "\<not> t" "?s + 4 < ?u"
  proof (rule returns_andthen [OF find_pair_ok], goal_cases)
    case (5 x)
    show ?case
    proof (cases x)
      case (Pair found st')
      have f: "frame st st'" "good st'" "?s + 2 \<le> st_pos st'" "found \<longrightarrow> st_pos st' < ?u" using 5 Pair by simp_all
      have e: "returns (enclose tok op cl (?s + 2) st')
        (\<lambda>st'. grows cf st (st'\<lparr>st_max := ?u\<rparr>) \<and> good (st'\<lparr>st_max := ?u\<rparr>) \<and> ?s + 2 \<le> st_max st')" if "found"
        using f that assms(1,3) \<open>\<not> t\<close> by (intro returns_mono [OF enclose_ok [OF _ f(1,2) _ _ b]]) auto
      have "returns (andthen (enclose tok op cl (?s + 2) st') (\<lambda>st'. Inr (True, st'\<lparr>st_pos := st_max st' + 2, st_max := ?u\<rparr>)))
        (kept cf t st)" if "found"
        by (rule returns_andthen [OF e [OF that]]) (use \<open>\<not> t\<close> assms(2) in \<open>simp add: moved_def grows_def good_def\<close>)
      then show ?thesis using f by (auto simp: Pair kept_false simp del: kept_simp)
    qed
  qed (use assms that in auto)
  show ?thesis using assms(2) run body by (auto simp: rule_pair_def Let_def movedI_false)
qed


lemma pushed_simps [simp]:
  "pushed t l (st\<lparr>st_max := m\<rparr>) = pushed t l st" "pushed t l (st\<lparr>st_pos := p\<rparr>) = pushed t l st"
  by (simp_all add: pushed_def)

lemma rule_script_ok:
  assumes "t \<or> skip_ok skip" "good st" "\<And>x. bracket (mk x) = None" "\<And>x. token_ok (cf_html cf) (st_refs st) (mk x)"
  shows "returns (rule_script cf skip c mk t st) (kept cf t st)"
proof -
  let ?a = "st_pos st" and ?i = "st_max st"
  have found: "kept cf t st (True, push_tok (mk y) l (st'\<lparr>st_max := m, st_pos := Suc ?a\<rparr>)\<lparr>st_pos := Suc (st_pos st'), st_max := ?i\<rparr>)"
    if f: "frame st st'" "good st'" "Suc ?a \<le> st_pos st'" "\<not> t" for y l m st'
  proof -
    let ?x = "st'\<lparr>st_max := ?i, st_pos := Suc ?a\<rparr>"
    have x: "frame st ?x" "good ?x" using f frame_good_max [OF f(1,2), of ?i] by (simp_all add: frame_def)
    have "grows cf st (push_tok (mk y) l ?x)" by (rule grows_push_to [OF grows_frame [OF x(1)] assms(3,4)])
    then show ?thesis using x(2) f by (simp add: moved_def grows_def good_def)
  qed
  show ?thesis
  proof (cases "char_at st ?a \<noteq> Some c \<or> t \<or> ?i \<le> ?a + 2 \<or> cf_nesting cf \<le> st_level st")
    case True
    then show ?thesis using assms(2) by (auto simp: rule_script_def Let_def movedI_false)
  next
    case False
    then have "returns (rule_script cf skip c mk t st) (kept cf t st)"
      unfolding rule_script_def Let_def if_not_P [OF False]
    proof (intro returns_andthen [OF find_char_ok], goal_cases)
      case (4 x)
      then show ?case using found kept_false False by (cases x) (auto simp del: kept_simp)
    qed (use assms in auto)
    then show ?thesis .
  qed
qed

definition emphasize :: "nat \<Rightarrow> md_state \<Rightarrow> md_state" where
  "emphasize n st = open_if (n = 1 \<or> n = 3) EmOpen (open_if (n = 2 \<or> n = 3) StrongOpen st)"

definition emphasized :: "nat \<Rightarrow> md_state \<Rightarrow> md_state" where
  "emphasized n st = close_if (n = 2 \<or> n = 3) StrongClose (close_if (n = 1 \<or> n = 3) EmClose st)"

lemma emphasized_grows:
  assumes "grows cf (emphasize n st) st'" "st_pending st' = []" shows "grows cf st (emphasized n st')"
proof -
  let ?st = "open_if (n = 2 \<or> n = 3) StrongOpen st" and ?st' = "close_if (n = 1 \<or> n = 3) EmClose st'"
  have em: "grows cf (open_if (n = 1 \<or> n = 3) EmOpen ?st) st'" using assms(1) by (simp add: emphasize_def)
  have "grows cf ?st ?st'" "st_pending ?st' = []" using grows_wrap [OF em assms(2), of 2 EmClose] by simp_all
  then show ?thesis using grows_wrap(1) [of cf "n = 2 \<or> n = 3" StrongOpen st ?st' 1 StrongClose] by (simp add: emphasized_def)
qed

lemma rule_emphasis_ok:
  assumes "t \<or> skip_ok skip \<and> tok_ok cf d tok" "good st" "st_max st - st_pos st \<le> d" "st_pos st < st_max st"
  shows "returns (rule_emphasis cf skip tok t st) (kept cf t st)"
proof -
  let ?f = "st_pos st" and ?c = "st_max st"
  obtain o' c' n where sd: "scan_delims st ?f = (o', c', n)" by (cases "scan_delims st ?f")
  have n: "0 < n" using scan_delims_length [OF sd assms(4)] by simp
  have plain: "moved cf t st True ((if t then st else add_pending x st)\<lparr>st_pos := ?f + n\<rparr>)" for x
    using assms(2) n by (auto intro!: moved_intros)
  define rest where "rest = (\<lambda>(found, st'). case found of
      None \<Rightarrow> Inr (False, st'\<lparr>st_pos := ?f\<rparr>)
    | Some n \<Rightarrow> andthen (tok (emphasize n (st'\<lparr>st_max := st_pos st', st_pos := ?f + n\<rparr>)))
        (\<lambda>st. Inr (True, emphasized n st\<lparr>st_pos := st_max (emphasized n st) + n, st_max := ?c\<rparr>)))"
  have rest: "returns (rest (found, st')) (kept cf t st)"
    if f: "frame st st'" "good st'" "?f + n \<le> st_pos st'" "\<not> t"
      and a: "case found of Some a \<Rightarrow> 0 < a \<and> st_pos st' \<le> ?c | None \<Rightarrow> True" for found st'
  proof (cases found)
    case None
    then show ?thesis using f by (simp add: rest_def kept_false del: kept_simp)
  next
    case (Some a)
    let ?x = "st'\<lparr>st_max := st_pos st', st_pos := ?f + a\<rparr>"
    have x: "good ?x" "0 < a" "st_pos st' \<le> ?c" using a Some f frame_good_max [OF f(1,2)] by simp_all
    have "returns (tok (emphasize a ?x)) (\<lambda>y. good y \<and> grows cf (emphasize a ?x) y \<and> st_pending y = [] \<and> st_max (emphasize a ?x) \<le> st_pos y)"
      using x f assms by (intro tok_okD [where d = d]) (auto simp: emphasize_def)
    then have "returns (andthen (tok (emphasize a ?x)) (\<lambda>st. Inr (True, emphasized a st\<lparr>st_pos := st_max (emphasized a st) + a, st_max := ?c\<rparr>)))
      (kept cf t st)"
    proof (rule returns_andthen, goal_cases)
      case (1 y)
      let ?y = "emphasized a y"
      have y: "grows cf ?x ?y" using 1 by (intro emphasized_grows) simp_all
      have gy: "good ?y" using 1 by (simp add: emphasized_def)
      have "grows cf st' (?y\<lparr>st_max := st_max st'\<rparr>)" "good (?y\<lparr>st_max := st_max st'\<rparr>)"
        using y gy f(2) grows_max [where m = "st_pos st'" and st = st'] grows_good_max [where m = "st_pos st'" and st = st'] by simp_all
      then have "grows cf st (?y\<lparr>st_max := ?c\<rparr>)" "good (?y\<lparr>st_max := ?c\<rparr>)"
        using grows_trans [OF grows_frame [OF f(1)]] frame_fields(2) [OF f(1)] by simp_all
      moreover have "st_max ?y = st_pos st'" using y(1) by (simp add: grows_def)
      ultimately show ?case using f n by (simp add: moved_def grows_def good_def)
    qed
    then show ?thesis by (simp add: rest_def Some)
  qed
  have body: "returns (andthen (find_emph skip p (?c + 1 - ?f) [n] (st\<lparr>st_pos := ?f + n\<rparr>)) rest) (kept cf t st)" if "\<not> t" for p
  proof (rule returns_andthen [OF find_emph_ok], goal_cases)
    case (6 x)
    obtain a b where x: "x = (a, b)" by (cases x)
    then have "frame st b" "good b" "?f + n \<le> st_pos b" "case a of Some a \<Rightarrow> 0 < a \<and> st_pos b \<le> ?c | None \<Rightarrow> True"
      using 6 by (auto split: option.splits)
    then show ?case using rest that by (simp add: x)
  qed (use assms n that in auto)
  show ?thesis
    using assms(2) plain body
    unfolding rule_emphasis_def Let_def rest_def emphasize_def emphasized_def
    by (auto simp: sd movedI_false split: option.splits)
qed

subsection \<open>Links\<close>

lemma plain_end_ge: "t \<le> plain_end st s i t"
  by (induction st s i t rule: plain_end.induct) (subst plain_end.simps, auto simp: Let_def)

lemma angle_end_ge: "angle_end st s t = Some e \<Longrightarrow> t \<le> e"
proof (induction st s t rule: angle_end.induct)
  case (1 st s t)
  let ?t = "if char_at st t = Some 92 \<and> t + 1 < s then t + 2 else t + 1"
  show ?case
  proof (cases "t < s \<and> char_at st t \<noteq> Some 10 \<and> char_at st t \<noteq> Some 62")
    case True
    then have e: "angle_end st s ?t = Some e" using 1(2) by (subst (asm) angle_end.simps) (simp add: Let_def)
    have "?t \<le> e" by (rule 1(1) [OF _ refl _ _ e]) (use True in simp_all)
    then show ?thesis by (simp split: if_splits)
  next
    case False
    then show ?thesis using 1(2) by (subst (asm) angle_end.simps) (auto simp: Let_def split: if_splits)
  qed
qed

lemma quote_end_ge: "quote_end st a i t = Some e \<Longrightarrow> t \<le> e"
proof (induction st a i t rule: quote_end.induct)
  case (1 st a i t)
  let ?t = "if char_at st t = Some 92 \<and> t + 1 < i then t + 2 else t + 1"
  show ?case
  proof (cases "t < i \<and> char_at st t \<noteq> Some a")
    case True
    then have e: "quote_end st a i ?t = Some e" using 1(2) by (subst (asm) quote_end.simps) (simp add: Let_def)
    have "?t \<le> e" by (rule 1(1) [OF _ refl _ e]) (use True in simp_all)
    then show ?thesis by (simp split: if_splits)
  next
    case False
    then show ?thesis using 1(2) by (subst (asm) quote_end.simps) (auto simp: Let_def split: if_splits)
  qed
qed

lemma good_content [simp]: "good (st\<lparr>st_link_content := x\<rparr>) = good st"
  by (simp add: good_def)

lemma parse_dest_ok:
  assumes "good st"
  shows "returns (parse_dest st t) (\<lambda>(b, st'). good st' \<and> frame st st' \<and>
    (if b then t < st_pos st' \<and> validate_link (st_link_content st') else st' = st))"
proof (cases "char_at st t = Some 60")
  case True
  then show ?thesis using assms angle_end_ge [of st "st_max st" "t + 1"]
    by (auto simp: parse_dest_def frame_refl split: option.splits intro!: returns_andthen [OF normalize_link_returns])
next
  case False
  then show ?thesis using assms plain_end_ge [of t st "st_max st" 0]
    by (auto simp: parse_dest_def frame_refl Let_def)
qed

lemma parse_title_ok:
  assumes "good st" "parse_title st t = (b, st')"
  shows "good st' \<and> frame st st' \<and> (if b then t < st_pos st' else st' = st)"
  using assms quote_end_ge [of st _ "st_max st" "t + 1"]
  by (auto simp: parse_title_def frame_refl Let_def split: option.splits if_splits) (force simp: frame_refl)+

lemma validate_link_Nil: "validate_link []"
  by (simp add: validate_link_def js_trim_def to_lower_def replace_entities_def)

text \<open>What the two ways to find the target of a link have in common.\<close>

definition target_ok :: "md_state \<Rightarrow> nat \<Rightarrow> (jsstr \<times> jsstr \<times> nat) option \<times> md_state \<Rightarrow> bool" where
  "target_ok st n r \<longleftrightarrow> good (snd r) \<and> frame st (snd r) \<and>
     (case fst r of
        None \<Rightarrow> st_pos (snd r) = st_pos st
      | Some (l, c, p) \<Rightarrow> n < p \<and> (validate_link l \<or> l \<in> addresses (st_refs st)))"

lemma inline_target_ok:
  assumes "good st" shows "returns (inline_target st f) (target_ok st f)"
proof -
  let ?m = "st_max st"
  let ?f = "skip_while blank st ?m f"
  have f: "f \<le> ?f" by (rule skip_while_ge)
  define rest where "rest = (\<lambda>(ok, st').
    let l = (if ok then st_link_content st' else []);
        g = (if ok then st_pos st' else ?f);
        f' = skip_while blank st' ?m g;
        (titled, st'') = (if f' < ?m \<and> g \<noteq> f' then parse_title st' f' else (False, st'));
        c = (if titled then st_link_content st'' else []);
        f' = (if titled then skip_while blank st' ?m (st_pos st'') else f')
    in if ?m \<le> f' \<or> char_at st' f' \<noteq> Some 41 then Inr (None, st''\<lparr>st_pos := st_pos st\<rparr>)
       else Inr (Some (l, c, f' + 1), st'') :: js_error + (jsstr \<times> jsstr \<times> nat) option \<times> md_state)"
  have rest: "returns (rest (ok, st')) (target_ok st f)"
    if d: "good st'" "frame st st'" "if ok then ?f < st_pos st' \<and> validate_link (st_link_content st') else st' = st" for ok st'
  proof -
    let ?l = "if ok then st_link_content st' else []" and ?g = "if ok then st_pos st' else ?f"
    have l: "validate_link ?l" using d(3) by (simp add: validate_link_Nil)
    have g: "?f \<le> ?g" using d(3) by (auto split: if_splits)
    let ?f' = "skip_while blank st' ?m ?g"
    have f': "?g \<le> ?f'" by (rule skip_while_ge)
    obtain b st'' where t: "(if ?f' < ?m \<and> ?g \<noteq> ?f' then parse_title st' ?f' else (False, st')) = (b, st'')" by fastforce
    have st'': "good st''" "frame st st''" "b \<Longrightarrow> ?f' < st_pos st''"
      using parse_title_ok [OF d(1), of ?f' b st''] t d frame_trans [OF d(2)] by (auto split: if_splits)
    have "f < (if b then skip_while blank st' ?m (st_pos st'') else ?f') + 1"
      using f g f' st''(3) skip_while_ge [of "st_pos st''" blank st' ?m] by (cases b) auto
    then show ?thesis using st'' l unfolding rest_def prod.case Let_def t by (simp add: target_ok_def)
  qed
  have "returns (andthen (parse_dest st ?f) rest) (target_ok st f)"
    by (rule returns_andthen [OF parse_dest_ok [OF assms, of ?f]]) (use rest in auto)
  then show ?thesis using assms by (simp add: inline_target_def Let_def rest_def target_ok_def frame_refl)
qed

lemma reference_target_ok:
  assumes "good st" "label_ok label" shows "returns (reference_target cf label st n u) (target_ok st u)"
proof -
  let ?m = "st_max st"
  let ?f = "skip_while blank st ?m (u + 1)"
  have f: "u < ?f" by (rule skip_while_gt) simp
  define second where "second = (if ?f < ?m \<and> char_at st ?f = Some 91
     then andthen (label st ?f) (\<lambda>(r, st).
       Inr (case r of Some e \<Rightarrow> (Some (slice_at st (?f + 1) e), e + 1) | None \<Rightarrow> (None, ?f), st))
     else Inr ((None, ?f), st))"
  have second: "returns second (\<lambda>((s, g), st'). good st' \<and> frame st st' \<and> u < g)"
  proof (cases "?f < ?m \<and> char_at st ?f = Some 91")
    case True
    then have "returns (label st ?f) (\<lambda>(r, st'). good st' \<and> frame st st' \<and> st_pos st' = st_pos st
       \<and> (case r of Some u \<Rightarrow> ?f < u \<and> u < st_max st | None \<Rightarrow> True))"
      using assms by (intro label_okD) simp_all
    then have "returns (andthen (label st ?f) (\<lambda>(r, st).
       Inr (case r of Some e \<Rightarrow> (Some (slice_at st (?f + 1) e), e + 1) | None \<Rightarrow> (None, ?f), st)))
       (\<lambda>((s, g), st'). good st' \<and> frame st st' \<and> u < g)"
      by (rule returns_andthen) (use f in \<open>auto split: option.splits\<close>)
    then show ?thesis using True by (simp add: second_def)
  qed (use f assms in \<open>auto simp: second_def frame_refl\<close>)
  have last: "returns (let (s, f) = (case s of
                                Some x \<Rightarrow> if x \<noteq> [] then (x, g) else (slice_at st' n u, g)
                              | None \<Rightarrow> (slice_at st' n u, u + 1))
                in case map_of (st_refs st') (normalize_reference (cf_upper cf) s) of
                     None \<Rightarrow> Inr (None, st'\<lparr>st_pos := st_pos st\<rparr>)
                   | Some (l, c) \<Rightarrow> Inr (Some (l, c, f), st')) (target_ok st u)"
    if "good st'" "frame st st'" "u < g" for s g st'
  proof -
    have r: "l \<in> addresses (st_refs st)" if "map_of (st_refs st') k = Some (l, c)" for k l c
      using map_of_SomeD [OF that] frame_fields(9) [OF \<open>frame st st'\<close>] by (force simp: addresses_def)
    show ?thesis using that
      by (auto simp: target_ok_def Let_def case_prod_beta split: option.splits intro: r)
  qed
  have "returns (andthen second (\<lambda>((s, f), st'). let (s, f) = (case s of
                                Some x \<Rightarrow> if x \<noteq> [] then (x, f) else (slice_at st' n u, f)
                              | None \<Rightarrow> (slice_at st' n u, u + 1))
                in case map_of (st_refs st') (normalize_reference (cf_upper cf) s) of
                     None \<Rightarrow> Inr (None, st'\<lparr>st_pos := st_pos st\<rparr>)
                   | Some (l, c) \<Rightarrow> Inr (Some (l, c, f), st'))) (target_ok st u)"
    by (rule returns_andthen [OF second]) (use last [unfolded Let_def] in \<open>auto simp: Let_def\<close>)
  then show ?thesis using assms(1) unfolding reference_target_def second_def Let_def
    by (simp add: target_ok_def frame_refl)
qed

lemma rule_links_ok:
  assumes "t \<or> tok_ok cf d tok" "label_ok label" "good st" "st_max st - st_pos st \<le> d" "st_pos st < st_max st"
  shows "returns (rule_links cf label tok t st) (kept cf t st)"
proof -
  let ?v = "st_pos st" and ?m = "st_max st"
  let ?h = "char_at st ?v = Some 33"
  let ?g = "if ?h then ?v + 1 else ?v"
  define fin where "fin = (\<lambda>u. \<lambda>(target, st).
      case target of
        None \<Rightarrow> Inr (False, st)
      | Some (l, c, f) \<Rightarrow>
          andthen
            (if t then Inr st
             else
               let st = st\<lparr>st_pos := ?g + 1, st_max := u\<rparr>
               in if ?h then Inr (push_tok (Image l c (slice_at st (?g + 1) u)) (st_level st) st)
                  else
                    let lv = st_level st; st = push_tok (LinkOpen l c) lv (st\<lparr>st_level := lv + 1\<rparr>)
                    in andthen (tok (st\<lparr>st_link_level := st_link_level st + 1\<rparr>)) (\<lambda>st.
                         Inr (push_tok LinkClose (st_level st - 1)
                           (st\<lparr>st_link_level := st_link_level st - 1, st_level := st_level st - 1\<rparr>))))
            (\<lambda>st. Inr (True, st\<lparr>st_pos := f, st_max := ?m\<rparr>)))"
  have fin: "returns (fin u x) (kept cf t st)"
    if x: "target_ok st u x" and u: "?g < u" "u < ?m" for u x
  proof (cases x)
    case (Pair target st')
    have f: "good st'" "frame st st'" using x Pair by (simp_all add: target_ok_def)
    let ?x = "st'\<lparr>st_pos := ?g + 1, st_max := u\<rparr>"
    have gx: "good ?x" using f u frame_good_max [OF f(2,1), of u] by (simp add: good_def)
    have end_ok: "kept cf t st (True, y\<lparr>st_pos := f, st_max := ?m\<rparr>)"
      if y: "grows cf ?x y" "good y" "?v < f" "\<not> t" for y f
    proof -
      have "grows cf st' (y\<lparr>st_max := st_max st'\<rparr>)" "good (y\<lparr>st_max := st_max st'\<rparr>)"
        using y(1,2) f(1) by (simp_all add: grows_def good_def)
      then have "grows cf st (y\<lparr>st_max := ?m\<rparr>)" "good (y\<lparr>st_max := ?m\<rparr>)"
        using grows_trans [OF grows_frame [OF f(2)]] frame_fields(2) [OF f(2)] by simp_all
      then show ?thesis using y(3,4) by (simp add: moved_def grows_def good_def)
    qed
    show ?thesis
    proof (cases target)
      case None
      then show ?thesis using x f Pair by (simp add: fin_def target_ok_def moved_def)
    next
      case (Some lcp)
      obtain l c p where lcp: "lcp = (l, c, p)" by (cases lcp)
      have p: "?v < p" and l: "validate_link l \<or> l \<in> addresses (st_refs st)"
        using x u(1) by (auto simp: target_ok_def Pair Some lcp split: if_splits)
      have refs: "st_refs st' = st_refs st" using f(2) by (simp add: frame_fields)
      have image: "kept cf t st (True, push_tok (Image l c a) lv ?x\<lparr>st_pos := p, st_max := ?m\<rparr>)" if "\<not> t" for a lv
        using l p gx that refs by (intro end_ok grows_push) simp_all
      let ?y = "open_if True (LinkOpen l c) ?x"
      let ?z = "?y\<lparr>st_link_level := st_link_level ?y + 1\<rparr>"
      let ?close = "\<lambda>z. close_if True LinkClose (z\<lparr>st_link_level := st_link_level z - 1\<rparr>)"
      have z: "returns (tok ?z) (\<lambda>z. good z \<and> grows cf ?z z \<and> st_pending z = [] \<and> st_max ?z \<le> st_pos z)" if "\<not> t"
        using that assms(1,4,5) u gx by (intro tok_okD [where d = d]) auto
      have closed: "grows cf ?x (?close z)" if "grows cf ?z z" "st_pending z = []" for z
      proof -
        have "grows cf ?y (z\<lparr>st_link_level := st_link_level z - 1\<rparr>)" using that(1) by (intro grows_link) simp_all
        then show ?thesis using that(2) l refs by (intro grows_wrap(1) [where op = "LinkOpen l c" and k = 0]) simp_all
      qed
      have "returns (andthen (tok ?z) (\<lambda>z. Inr (?close z))) (\<lambda>y. grows cf ?x y \<and> good y)" if "\<not> t"
        by (rule returns_andthen [OF z [OF that]]) (use closed in simp)
      then have link: "returns (andthen (andthen (tok ?z) (\<lambda>z. Inr (?close z)))
        (\<lambda>st. Inr (True, st\<lparr>st_pos := p, st_max := ?m\<rparr>))) (kept cf t st)" if "\<not> t"
        by (rule returns_andthen) (use end_ok p that in simp_all)
      show ?thesis
        using image link f p frame_max_same [OF f(2,1)]
        unfolding fin_def Pair Some lcp Let_def open_if_def close_if_def
        by (auto simp: moved_def)
    qed
  qed
  have look: "returns (if u + 1 < ?m \<and> char_at st' (u + 1) = Some 40 then inline_target st' (u + 2)
      else reference_target cf label st' (?g + 1) u) (\<lambda>x. target_ok st u x)"
    if f: "good st'" "frame st st'" "st_pos st' = ?v" for st' u
  proof -
    have "target_ok st u x" if "target_ok st' u x \<or> target_ok st' (u + 2) x" for x
      using that f(3) frame_trans [OF f(2)] frame_fields(9) [OF f(2)] by (auto simp: target_ok_def split: option.splits)
    then show ?thesis
      using returns_mono [OF inline_target_ok [OF f(1)]] returns_mono [OF reference_target_ok [OF f(1) assms(2)]] by simp
  qed
  show ?thesis
  proof (cases "char_at st ?g \<noteq> Some 91 \<or> cf_nesting cf \<le> st_level st")
    case True
    then show ?thesis using assms(3) unfolding rule_links_def Let_def by (simp add: movedI_false)
  next
    case False
    have g: "?g \<le> ?m" using assms(5) by simp
    have "returns (andthen (label st ?g) (\<lambda>(u, st').
       case u of
         None \<Rightarrow> Inr (False, st')
       | Some u \<Rightarrow> andthen (if u + 1 < ?m \<and> char_at st' (u + 1) = Some 40 then inline_target st' (u + 2)
            else reference_target cf label st' (?g + 1) u) (fin u))) (kept cf t st)"
    proof (rule returns_andthen [OF label_okD [OF assms(2,3) g]], goal_cases)
      case (1 x)
      obtain u st' where x: "x = (u, st')" by (cases x)
      have f: "good st'" "frame st st'" "st_pos st' = ?v" using 1 x by simp_all
      show ?case
      proof (cases u)
        case None
        then show ?thesis using f by (simp add: x moved_def)
      next
        case (Some e)
        then have "?g < e" "e < ?m" using 1 x by simp_all
        then show ?thesis unfolding x Some prod.case option.case by (intro returns_andthen [OF look [OF f]] fin)
      qed
    qed
    then show ?thesis using False unfolding rule_links_def Let_def fin_def by simp
  qed
qed

lemma rule_footnote_inline_ok:
  assumes "t \<or> tok_ok cf d tok" "label_ok label" "good st" "st_max st - st_pos st \<le> d"
  shows "returns (rule_footnote_inline cf label tok t st) (kept cf t st)"
proof -
  let ?s = "st_pos st" and ?u = "st_max st"
  define body where "body = (\<lambda>e st'.
    let i = length (st_foot_list st');
        st' = push_tok (FootnoteRef i 0) (st_level st') (st'\<lparr>st_pos := ?s + 2, st_max := e\<rparr>);
        a = length (st_tokens st')
    in andthen (tok (st'\<lparr>st_link_level := st_link_level st' + 1\<rparr>)) (\<lambda>st'.
         let fl = st_foot_list st'; x = FnInline (drop a (st_tokens st'))
         in Inr (st'\<lparr>st_foot_list := (if i < length fl then fl[i := x] else fl @ [x]),
                    st_tokens := take a (st_tokens st'), st_link_level := st_link_level st' - 1\<rparr>)))"
  have body: "returns (body e st') (\<lambda>y. grows cf st (y\<lparr>st_max := ?u\<rparr>) \<and> good (y\<lparr>st_max := ?u\<rparr>))"
    if f: "good st'" "frame st st'" and e: "?s + 1 < e" "e < ?u" and nt: "\<not> t" for e st'
  proof -
    let ?i = "length (st_foot_list st')"
    let ?x = "push_tok (FootnoteRef ?i 0) (st_level st') (st'\<lparr>st_pos := ?s + 2, st_max := e\<rparr>)"
    let ?a = "length (st_tokens ?x)"
    let ?z = "?x\<lparr>st_link_level := st_link_level ?x + 1\<rparr>"
    have gx: "good ?x" using f e frame_good_max [OF f(2,1), of e] by (simp add: good_def)
    have gr: "grows cf (st'\<lparr>st_max := e\<rparr>) ?x" using grows_push [of "FootnoteRef ?i 0" cf "st'\<lparr>st_max := e\<rparr>"]
      by (simp add: grows_def)
    have "returns (tok ?z) (\<lambda>z. good z \<and> grows cf ?z z \<and> st_pending z = [] \<and> st_max ?z \<le> st_pos z)"
      using nt assms(1,4) e gx by (intro tok_okD [where d = d]) auto
    then show ?thesis unfolding body_def Let_def
    proof (rule returns_andthen, goal_cases)
      case (1 z)
      obtain ts where ts: "st_tokens z = st_tokens ?x @ ts" "clean cf (st_refs ?x) (map fst ts)"
        using 1 by (auto simp: grows_def)
      have ok: "foot_ok cf (st_refs ?x) (FnInline (drop ?a (st_tokens z)))"
        using ts(2) unfolding ts(1) foot_ok_def by simp
      let ?fl = "st_foot_list z" and ?n = "FnInline (drop ?a (st_tokens z))"
      let ?fl' = "if ?i < length ?fl then ?fl[?i := ?n] else ?fl @ [?n]"
      let ?y = "z\<lparr>st_foot_list := ?fl', st_tokens := take ?a (st_tokens z), st_link_level := st_link_level z - 1\<rparr>"
      have "set ?fl' \<subseteq> insert ?n (set ?fl)" by (auto dest: set_update_subset_insert [THEN subsetD])
      then have "grows cf ?x ?y" using 1 ok ts(1) unfolding grows_def by auto
      then have "grows cf (st'\<lparr>st_max := e\<rparr>) ?y" by (rule grows_trans [OF gr])
      moreover have "good ?y" using 1 by (simp add: good_def)
      ultimately have "grows cf st' (?y\<lparr>st_max := st_max st'\<rparr>)" "good (?y\<lparr>st_max := st_max st'\<rparr>)"
        using f(1) grows_max [where m = e and st = st'] grows_good_max [where m = e and st = st'] by blast+
      then show ?case using grows_trans [OF grows_frame [OF f(2)]] frame_fields(2) [OF f(2)] by simp
    qed
  qed
  show ?thesis
  proof (cases "?u \<le> ?s + 2 \<or> char_at st ?s \<noteq> Some 94 \<or> char_at st (?s + 1) \<noteq> Some 91 \<or> cf_nesting cf \<le> st_level st")
    case True
    then show ?thesis using assms(3) by (auto simp: rule_footnote_inline_def Let_def movedI_false)
  next
    case False
    then have "returns (andthen (label st (?s + 1)) (\<lambda>(r, st'). case r of
        None \<Rightarrow> Inr (False, st')
      | Some e \<Rightarrow> andthen (if t then Inr st' else body e st') (\<lambda>st. Inr (True, st\<lparr>st_pos := e + 1, st_max := ?u\<rparr>)))) (kept cf t st)"
    proof (intro returns_andthen [OF label_okD [OF assms(2,3)]], goal_cases)
      case (2 x)
      obtain r st' where x: "x = (r, st')" by (cases x)
      have f: "good st'" "frame st st'" "st_pos st' = ?s" using 2 x by simp_all
      show ?case
      proof (cases r)
        case None
        then show ?thesis using f by (simp add: x moved_def)
      next
        case (Some e)
        then have e: "?s + 1 < e" "e < ?u" using 2 x by simp_all
        have silent: "kept cf True st (True, st'\<lparr>st_pos := e + 1, st_max := ?u\<rparr>)"
          using e frame_max_same [OF f(2,1)] by (simp add: moved_def)
        have speaking: "returns (andthen (body e st') (\<lambda>st. Inr (True, st\<lparr>st_pos := e + 1, st_max := ?u\<rparr>))) (kept cf t st)" if "\<not> t"
          by (rule returns_andthen [OF body [OF f(1,2) e that]]) (use e that assms(3) in \<open>simp add: moved_def grows_def good_def\<close>)
        show ?thesis using silent speaking by (cases t) (simp_all add: x Some del: kept_simp)
      qed
    qed simp
    then show ?thesis using False unfolding rule_footnote_inline_def Let_def body_def by simp
  qed
qed

subsection \<open>The rules together\<close>

text \<open>
  The interface between a rule and the parser: the three callbacks with what a rule may rely on. In
  silent mode (\<open>t\<close>) a rule does not use the last two.
\<close>

locale rule_callbacks =
  fixes cf :: md_config and t :: bool and d :: nat
    and label :: md_label and skip :: md_step and tok :: md_step
  assumes label_law: "label_ok label"
    and skip_law: "t \<or> skip_ok skip"
    and tok_law: "t \<or> tok_ok cf d tok"
begin

lemma run_rule_ok:
  assumes "good st" "st_max st - st_pos st \<le> d" "st_pos st < st_max st"
  shows "returns (run_rule cf label skip tok t r st) (kept cf t st)"
proof (cases r)
  case RDel
  then show ?thesis using assms skip_law tok_law by (auto simp: run_rule_def intro!: rule_pair_ok [where d = d and j = 3])
next
  case RIns
  then show ?thesis using assms skip_law tok_law by (auto simp: run_rule_def intro!: rule_pair_ok [where d = d and j = 4])
next
  case RMark
  then show ?thesis using assms skip_law tok_law by (auto simp: run_rule_def intro!: rule_pair_ok [where d = d and j = 5])
next
  case RAutolink
  then show ?thesis using rule_autolink_moved [OF assms(1)] by (simp add: run_rule_def kept_def)
qed (use assms label_law skip_law tok_law in \<open>auto simp: run_rule_def kept_def rule_text_moved rule_newline_moved rule_escape_moved
      rule_backticks_moved rule_entity_moved rule_htmltag_moved rule_footnote_ref_moved
      intro!: rule_emphasis_ok [where d = d, unfolded kept_def] rule_script_ok [unfolded kept_def]
      rule_links_ok [where d = d, unfolded kept_def] rule_footnote_inline_ok [where d = d, unfolded kept_def]\<close>)

lemma run_rules_ok:
  "good st \<Longrightarrow> st_max st - st_pos st \<le> d \<Longrightarrow> st_pos st < st_max st \<Longrightarrow>
    returns (run_rules cf label skip tok t rs st) (kept cf t st)"
proof (induction rs arbitrary: st)
  case Nil
  then show ?case by (simp add: movedI_false)
next
  case (Cons r rs)
  show ?case unfolding run_rules.simps
  proof (rule returns_andthen [OF run_rule_ok [OF Cons.prems]])
    fix x assume x: "kept cf t st x"
    show "returns (case x of (b, st) \<Rightarrow> if b then Inr (True, st) else run_rules cf label skip tok t rs st) (kept cf t st)"
    proof (cases x)
      case (Pair b st')
      show ?thesis
      proof (cases b)
        case False
        then have f: "good st'" "frame st st'" "st_pos st' = st_pos st" using x Pair by (simp_all add: moved_def)
        have "kept cf t st y" if "kept cf t st' y" for y
          using that f frame_trans [OF f(2)] grows_trans [OF grows_frame [OF f(2)]]
          by (cases y) (auto simp: moved_def split: if_splits)
        then show ?thesis using Cons.IH [OF f(1)] Cons.prems f frame_fields(2) [OF f(2)] returns_mono
          by (simp add: Pair False) (metis (no_types, lifting) returns_mono)
      qed (use x Pair in simp)
    qed
  qed
qed

end

subsection \<open>\<open>skipToken\<close> and \<open>tokenize\<close>\<close>

lemma cache_set_ok:
  assumes "good st" "e < p" shows "good (cache_set e p st)"
  using assms by (auto simp: good_def cache_set_def nth_list_update nth_append)

lemma cache_set_fields [simp]:
  "frame st (cache_set e p st') = frame st st'" "st_pos (cache_set e p st') = st_pos st'"
  by (simp_all add: cache_set_def)

lemma skip_with_ok:
  assumes "label_ok label" shows "skip_ok (skip_with cf label)"
  unfolding skip_ok_def
proof (intro allI impI)
  fix st assume g: "good st" and p: "st_pos st < st_max st"
  let ?i = "st_pos st" and ?P = "\<lambda>st'. good st' \<and> frame st st' \<and> st_pos st < st_pos st'"
  have hit: "?i < cache_get st ?i" if "0 < cache_get st ?i"
    using g that by (auto simp: good_def cache_get_def split: if_splits)
  have "returns (andthen (run_rules cf label (\<lambda>_. Inl fuel) (\<lambda>_. Inl fuel) True (cf_rules cf) st) (\<lambda>(b, st).
      let st = (if b then st else st\<lparr>st_pos := st_pos st + 1\<rparr>) in Inr (cache_set ?i (st_pos st) st))) ?P"
    using assms g p
    by (intro returns_andthen [OF rule_callbacks.run_rules_ok [where d = "st_max st - st_pos st"]] rule_callbacks.intro)
      (auto simp: moved_def Let_def cache_set_ok)
  then show "returns (skip_with cf label st) ?P" using g hit by (simp add: skip_with_def Let_def frame_refl)
qed

lemma link_label_ok: "label_ok (link_label cf)"
  unfolding link_label_def skip_in_label_def
  by (intro parse_label_ok skip_with_ok) (simp add: label_ok_def frame_refl)

lemma skip_token_ok: "skip_ok (skip_token cf)"
  unfolding skip_token_def by (rule skip_with_ok [OF link_label_ok])

lemma tok_loop_ok:
  assumes "\<And>st. good st \<Longrightarrow> st_max st - st_pos st \<le> d \<Longrightarrow> st_pos st < st_max st \<Longrightarrow> returns (run st) (kept cf False st)"
  shows "good st \<Longrightarrow> st_max st = i \<Longrightarrow> i - st_pos st \<le> d \<Longrightarrow> i - st_pos st < n \<Longrightarrow>
    returns (tok_loop run n i st) (\<lambda>y. good y \<and> grows cf st y \<and> i \<le> st_pos y)"
proof (induction n arbitrary: st)
  case (Suc n)
  have again: "returns (tok_loop run n i st') (\<lambda>y. good y \<and> grows cf st y \<and> i \<le> st_pos y)"
    if "good st'" "grows cf st st'" "st_pos st < st_pos st'" "st_pos st < i" for st'
    using that Suc.prems
    by (intro returns_mono [OF Suc.IH]) (auto simp: grows_def [of cf st st'] intro: grows_trans [OF that(2)])
  show ?case
  proof (cases "st_pos st < i")
    case True
    have step: "returns (if b then if i \<le> st_pos st' then Inr st' else tok_loop run n i st'
        else tok_loop run n i ((add_pending (slice_at st' (st_pos st') (st_pos st' + 1)) st')\<lparr>st_pos := st_pos st' + 1\<rparr>))
        (\<lambda>y. good y \<and> grows cf st y \<and> i \<le> st_pos y)" if "moved cf False st b st'" for b st'
      using that True by (cases b) (auto simp: moved_def grows_frame intro!: again)
    have "returns (andthen (run st) (\<lambda>(b, st').
        if b then if i \<le> st_pos st' then Inr st' else tok_loop run n i st'
        else tok_loop run n i ((add_pending (slice_at st' (st_pos st') (st_pos st' + 1)) st')\<lparr>st_pos := st_pos st' + 1\<rparr>)))
      (\<lambda>y. good y \<and> grows cf st y \<and> i \<le> st_pos y)"
      using Suc.prems True
      by (intro returns_andthen [OF assms]) (use step in \<open>auto simp: kept_def\<close>)
    then show ?thesis using True by simp
  qed (use Suc.prems in \<open>simp add: grows_refl\<close>)
qed simp

lemma tokenize_ok: "tok_ok cf d (tokenize cf d)"
proof (induction d)
  case (Suc d)
  show ?case unfolding tok_ok_def
  proof (intro allI impI)
    fix st assume g: "good st" and d: "st_max st - st_pos st < Suc d"
    have "returns (run_rules cf (link_label cf) (skip_token cf) (tokenize cf d) False (cf_rules cf) st) (kept cf False st)"
      if "good st" "st_max st - st_pos st \<le> d" "st_pos st < st_max st" for st
      using link_label_ok skip_token_ok Suc that
      by (intro rule_callbacks.run_rules_ok [where d = d] rule_callbacks.intro) simp_all
    then have "returns (tok_loop (run_rules cf (link_label cf) (skip_token cf) (tokenize cf d) False (cf_rules cf))
        (Suc (st_max st - st_pos st)) (st_max st) st) (\<lambda>y. good y \<and> grows cf st y \<and> st_max st \<le> st_pos y)"
      using g d by (intro tok_loop_ok [where d = d]) auto
    then show "returns (tokenize cf (Suc d) st)
      (\<lambda>st'. good st' \<and> grows cf st st' \<and> st_pending st' = [] \<and> st_max st \<le> st_pos st')"
      unfolding tokenize.simps
    proof (rule returns_andthen, goal_cases)
      case (1 y)
      have "grows cf y (push_pending y)" by (auto simp: grows_def push_pending_def)
      then have "grows cf st (push_pending y)" using 1 grows_trans by blast
      then show ?case using 1 by (auto simp: push_pending_def good_def)
    qed
  qed
qed (simp add: tok_ok_def)

interpretation inline: rule_callbacks cf False d "link_label cf" "skip_token cf" "tokenize cf d"
  by unfold_locales (simp_all add: link_label_ok skip_token_ok tokenize_ok)

lemma parse_inline_ok:
  "returns (parse_inline cf src refs fl fr)
     (\<lambda>st. grows cf (md_init src refs fl fr) st \<and> st_pending st = [] \<and> length src \<le> st_pos st)"
proof -
  have "good (md_init src refs fl fr)" "st_max (md_init src refs fl fr) - st_pos (md_init src refs fl fr) < length src + 1"
    by (simp_all add: good_def md_init_def)
  then have "returns (parse_inline cf src refs fl fr) (\<lambda>st'. good st' \<and> grows cf (md_init src refs fl fr) st' \<and>
      st_pending st' = [] \<and> st_max (md_init src refs fl fr) \<le> st_pos st')"
    unfolding parse_inline_def by (rule tok_okD [OF tokenize_ok])
  then show ?thesis by (rule returns_mono) (simp add: md_init_def)
qed

subsection \<open>Properties\<close>

text \<open>
  Property C34. The inline parser always comes to an end, whatever rules are enabled and whatever the text is: it
  has walked over the whole text, nothing is left pending, and the nesting level is back at zero. The
  only exception it can throw is the \<open>URIError\<close> of \<open>encodeURI\<close>.
\<close>

theorem inline_parser_ends:
  "case parse_inline cf src refs fl fr of
     Inl e \<Rightarrow> e = uri_error
   | Inr st \<Rightarrow> length src \<le> st_pos st \<and> st_pending st = [] \<and> st_level st = 0 \<and> st_max st = length src"
  using parse_inline_ok [of cf src refs fl fr]
  by (cases "parse_inline cf src refs fl fr") (simp_all add: grows_def md_init_def)

text \<open>
  Property C35. The tokens of the inline parser are well nested: reading them with a stack of open
  elements, every closing token closes the element opened last, and at the end none is open.
\<close>

theorem inline_tokens_nested:
  "case parse_inline cf src refs fl fr of
     Inl e \<Rightarrow> e = uri_error | Inr st \<Rightarrow> nesting bracket [] (map fst (st_tokens st)) = Some []"
  using parse_inline_ok [of cf src refs fl fr]
  by (cases "parse_inline cf src refs fl fr") (auto simp: grows_def md_init_def clean_def balanced_def)

text \<open>
  Property C36. Every link and image the inline parser makes has an address that passes \<open>validateLink\<close> or stands in a
  reference definition, and raw HTML comes out only where the option allows it. This holds for the
  text and for the inline footnotes it adds.
\<close>

theorem inline_tokens_safe:
  "case parse_inline cf src refs [] fr of
     Inl e \<Rightarrow> e = uri_error
   | Inr st \<Rightarrow> list_all (token_ok (cf_html cf) refs) (map fst (st_tokens st))
       \<and> list_all (\<lambda>f. case f of FnInline ts \<Rightarrow> list_all (token_ok (cf_html cf) refs) (map fst ts) | FnLabel l c \<Rightarrow> True) (st_foot_list st)"
  using parse_inline_ok [of cf src refs "[]" fr]
  by (cases "parse_inline cf src refs [] fr")
    (auto simp: grows_def md_init_def clean_def foot_ok_def list_all_iff [of _ "st_foot_list _"] split: footnote.splits)

text \<open>
  From text to HTML: with the option for raw HTML off, what the parser makes of any text is rendered
  without an exception, and an HTML reader finds in the output the tags of the tokens and nothing
  else, whatever the text contains.
\<close>

lemma inline_text_renders:
  assumes "plain_options n" and "\<not> cf_html cf" and "parse_inline cf src refs fl fr = Inr st"
  shows "case render_inline n (map fst (st_tokens st)) of
           Inl e \<Rightarrow> False
         | Inr out \<Rightarrow> markup_of InText out = concat (map (token_markup n) (map fst (st_tokens st)))
             \<and> reader_state InText out = InText"
proof -
  have ok: "list_all (token_ok False refs) (map fst (st_tokens st))"
    using parse_inline_ok [of cf src refs fl fr] assms(2,3) by (auto simp: grows_def md_init_def clean_def)
  have plain: "plain_token t \<and> \<not> inline_token t" if "token_ok False refs t" for t
    using that by (cases t) simp_all
  have "\<exists>out. render_inline n (map fst (st_tokens st)) = Inr out"
    unfolding render_inline_def render_list_total rule_total
    using all_by_index [where P = "\<lambda>t. \<not> inline_token t" and xs = "map fst (st_tokens st)"] ok plain by (auto simp: list_all_iff)
  then obtain out where out: "render_inline n (map fst (st_tokens st)) = Inr out" by blast
  have "\<forall>t\<in>set (map fst (st_tokens st)). plain_token t" using ok plain by (auto simp: list_all_iff)
  from render_inline_markup [OF assms(1) this out] show ?thesis using out by simp
qed

text \<open>The text \<open>*<*\<close> with emphasis alone.\<close>

lemma inline_text_renders_witness:
  "\<exists>st out. parse_inline \<lparr>cf_rules = [RText, REmphasis], cf_nesting = 20, cf_html = False, cf_upper = id\<rparr> [42, 60, 42] [] [] None = Inr st \<and>
     render_inline \<lparr>xhtmlOut = False, breaks = True, langPrefix = [], linkTarget = [], highlight = None\<rparr> (map fst (st_tokens st)) = Inr out \<and>
     markup_of InText out = tag ''<em></em>''"
proof -
  let ?cf = "\<lparr>cf_rules = [RText, REmphasis], cf_nesting = 20, cf_html = False, cf_upper = id\<rparr>"
  let ?n = "\<lparr>xhtmlOut = False, breaks = True, langPrefix = [], linkTarget = [], highlight = None\<rparr>"
  have "(case parse_inline ?cf [42, 60, 42] [] [] None of Inr st \<Rightarrow> map fst (st_tokens st) | Inl e \<Rightarrow> []) = [EmOpen, TextTok [60], EmClose]"
    by code_simp
  then obtain st where st: "parse_inline ?cf [42, 60, 42] [] [] None = Inr st" "map fst (st_tokens st) = [EmOpen, TextTok [60], EmClose]"
    by (auto split: sum.splits)
  have "case render_inline ?n (map fst (st_tokens st)) of Inl e \<Rightarrow> False
      | Inr out \<Rightarrow> markup_of InText out = concat (map (token_markup ?n) (map fst (st_tokens st))) \<and> reader_state InText out = InText"
    by (rule inline_text_renders [OF _ _ st(1)]) (simp_all add: plain_options_def)
  then show ?thesis using st by (auto simp: token_markup_def split: sum.splits)
qed
text \<open>
  An inline footnote inside an inline footnote gets the number of the outer one, and its text is lost:
  for the text \<open>^[a^[b]]\<close> both references have the number 0, and the list has one footnote.
\<close>

lemma nested_footnotes_collide:
  "(case parse_inline \<lparr>cf_rules = [RText, RFootnoteInline], cf_nesting = 20, cf_html = False, cf_upper = id\<rparr>
       [94, 91, 97, 94, 91, 98, 93, 93] [] [] None of
      Inr st \<Rightarrow> (st_tokens st, st_foot_list st) | Inl e \<Rightarrow> ([], []))
    = ([(FootnoteRef 0 0, 0)], [FnInline [(TextTok [97], 0), (FootnoteRef 0 0, 0)]])"
  by code_simp

end
