(* ===== verification/MdBlock.thy ===== *)
theory MdBlock
  imports MdParse
begin

section \<open>The block parser of Markdown (swagger-ui-bundle.js, Remarkable)\<close>

text \<open>
  The parser cuts the source into lines and gives each line to the block rules. A rule that accepts a
  line consumes it and lines behind it, adds tokens, and may call the tokenizer on a range of lines
  with the marks of its first line moved behind the prefix it has read. The \<open>lines\<close> fields of the
  tokens, which nothing reads, are left out.
\<close>

subsection \<open>Tokens and state: \<open>StateBlock\<close>\<close>

text \<open>The tokens of the renderer, and two that \<open>footnote_tail\<close> takes out again.\<close>

datatype btoken = Tok token | FootDefOpen jsstr | FootDefClose

datatype parent = Root | InBlockquote | InList | InFootnote | InDeflist

record bl_state =
  bl_src :: jsstr
  bl_b :: "int list"
  bl_e :: "int list"
  bl_s :: "int list"
  bl_indent :: int
  bl_line :: nat
  bl_max :: nat
  bl_tight :: bool
  bl_parent :: parent
  bl_dd :: int
  bl_level :: nat
  bl_tokens :: "(btoken \<times> nat) list"
  bl_refs :: "(jsstr \<times> int) list option"

text \<open>
  The rules in the order of their table, and the lists in which a rule occurs as a terminator.
\<close>

datatype block_rule =
    BCode | BFences | BBlockquote | BHr | BList | BFootnote | BHeading | BLheading | BHtmlblock | BTable | BDeflist | BParagraph

primrec block_rank :: "block_rule \<Rightarrow> nat" where
  "block_rank BCode = 0"
| "block_rank BFences = 1"
| "block_rank BBlockquote = 2"
| "block_rank BHr = 3"
| "block_rank BList = 4"
| "block_rank BFootnote = 5"
| "block_rank BHeading = 6"
| "block_rank BLheading = 7"
| "block_rank BHtmlblock = 8"
| "block_rank BTable = 9"
| "block_rank BDeflist = 10"
| "block_rank BParagraph = 11"

lemma block_rank_inject: "block_rank r = block_rank s \<longleftrightarrow> r = s"
  by (cases r; cases s; simp)

instantiation block_rule :: linorder
begin

definition less_eq_block_rule :: "block_rule \<Rightarrow> block_rule \<Rightarrow> bool" where
  "less_eq_block_rule r s \<longleftrightarrow> block_rank r \<le> block_rank s"

definition less_block_rule :: "block_rule \<Rightarrow> block_rule \<Rightarrow> bool" where
  "less_block_rule r s \<longleftrightarrow> block_rank r < block_rank s"

instance
  by standard (auto simp: less_eq_block_rule_def less_block_rule_def block_rank_inject)

end

datatype chain = ChParagraph | ChBlockquote | ChList

fun alt_chains :: "block_rule \<Rightarrow> chain list" where
  "alt_chains BFences = [ChParagraph, ChBlockquote, ChList]"
| "alt_chains BBlockquote = [ChParagraph, ChBlockquote, ChList]"
| "alt_chains BHr = [ChParagraph, ChBlockquote, ChList]"
| "alt_chains BList = [ChParagraph, ChBlockquote]"
| "alt_chains BFootnote = [ChParagraph]"
| "alt_chains BHeading = [ChParagraph, ChBlockquote]"
| "alt_chains BHtmlblock = [ChParagraph, ChBlockquote]"
| "alt_chains BTable = [ChParagraph]"
| "alt_chains BDeflist = [ChParagraph]"
| "alt_chains _ = []"

text \<open>The enabled rules, in any order, and the options.\<close>

record bl_config =
  bc_rules :: "block_rule list"
  bc_nesting :: nat
  bc_html :: bool

definition block_rules :: "bl_config \<Rightarrow> block_rule list" where
  "block_rules cf = sort (remdups (bc_rules cf))"

definition chain_rules :: "bl_config \<Rightarrow> chain \<Rightarrow> block_rule list" where
  "chain_rules cf c = filter (\<lambda>r. c \<in> set (alt_chains r)) (block_rules cf)"

subsection \<open>Lines\<close>

text \<open>Start, end and indent of each line; a last line of spaces only is none.\<close>

fun scan_lines :: "int \<Rightarrow> int \<Rightarrow> int \<Rightarrow> bool \<Rightarrow> jsstr \<Rightarrow> (int \<times> int \<times> int) list" where
  "scan_lines s u c f [] = []"
| "scan_lines s u c f (i # r) =
     (if \<not> f \<and> i = 32 then scan_lines (s + 1) u (c + 1) f r
      else if i = 10 then (u, s, c) # scan_lines (s + 1) (s + 1) 0 False r
      else if r = [] then [(u, s + 1, c)]
      else scan_lines (s + 1) u c True r)"

definition bl_init :: "jsstr \<Rightarrow> bl_state" where
  "bl_init src =
     (let ls = scan_lines 0 0 0 False src @ [(int (length src), int (length src), 0)]
      in \<lparr>bl_src = src, bl_b = map fst ls, bl_e = map (fst \<circ> snd) ls, bl_s = map (snd \<circ> snd) ls, bl_indent = 0,
          bl_line = 0, bl_max = length ls - 1, bl_tight = False, bl_parent = Root, bl_dd = -1, bl_level = 0,
          bl_tokens = [], bl_refs = None\<rparr>)"

text \<open>The marks of a line; no rule looks behind the line \<open>bl_max\<close>, which is a sentinel.\<close>

definition mark :: "int list \<Rightarrow> nat \<Rightarrow> int" where
  "mark xs i = (if i < length xs then xs ! i else 0)"

abbreviation bmark :: "bl_state \<Rightarrow> nat \<Rightarrow> int" where "bmark st i \<equiv> mark (bl_b st) i"
abbreviation emark :: "bl_state \<Rightarrow> nat \<Rightarrow> int" where "emark st i \<equiv> mark (bl_e st) i"
abbreviation tshift :: "bl_state \<Rightarrow> nat \<Rightarrow> int" where "tshift st i \<equiv> mark (bl_s st) i"

definition set_marks :: "nat \<Rightarrow> int \<Rightarrow> int \<Rightarrow> bl_state \<Rightarrow> bl_state" where
  "set_marks i b s st = st\<lparr>bl_b := (bl_b st)[i := b], bl_s := (bl_s st)[i := s]\<rparr>"

definition bchar :: "bl_state \<Rightarrow> int \<Rightarrow> unit16 option" where
  "bchar st p = (if 0 \<le> p \<and> p < int (length (bl_src st)) then Some (bl_src st ! nat p) else None)"

text \<open>\<open>slice(a, b)\<close>, where a negative position counts from the end.\<close>

definition slice_from :: "jsstr \<Rightarrow> int \<Rightarrow> nat" where
  "slice_from s a = (if a < 0 then nat (max 0 (int (length s) + a)) else min (nat a) (length s))"

definition js_slice :: "jsstr \<Rightarrow> int \<Rightarrow> int \<Rightarrow> jsstr" where
  "js_slice s a b = take (slice_from s b - slice_from s a) (drop (slice_from s a) s)"

definition bslice :: "bl_state \<Rightarrow> int \<Rightarrow> int \<Rightarrow> jsstr" where
  "bslice st a b = js_slice (bl_src st) a b"

definition is_empty :: "bl_state \<Rightarrow> nat \<Rightarrow> bool" where
  "is_empty st i \<longleftrightarrow> emark st i \<le> bmark st i + tshift st i"

function skip_empty :: "bl_state \<Rightarrow> nat \<Rightarrow> nat" where
  "skip_empty st i = (if i < bl_max st \<and> is_empty st i then skip_empty st (i + 1) else i)"
  by pat_completeness auto
termination by (relation "measure (\<lambda>(st, i). bl_max st - i)") auto

declare skip_empty.simps [simp del]

function skip_chars :: "bl_state \<Rightarrow> int \<Rightarrow> unit16 \<Rightarrow> int" where
  "skip_chars st p c = (if bchar st p = Some c then skip_chars st (p + 1) c else p)"
  by pat_completeness auto
termination by (relation "measure (\<lambda>(st, p, c). nat (int (length (bl_src st)) - p))") (auto simp: bchar_def split: if_splits)

declare skip_chars.simps [simp del]

definition skip_spaces :: "bl_state \<Rightarrow> int \<Rightarrow> int" where
  "skip_spaces st p = skip_chars st p 32"

function skip_back :: "bl_state \<Rightarrow> int \<Rightarrow> unit16 \<Rightarrow> int \<Rightarrow> int" where
  "skip_back st p c n = (if p \<le> n then p else if bchar st (p - 1) \<noteq> Some c then p else skip_back st (p - 1) c n)"
  by pat_completeness auto
termination by (relation "measure (\<lambda>(st, p, c, n). nat (p - n))") auto

declare skip_back.simps [simp del]

definition get_lines :: "bl_state \<Rightarrow> nat \<Rightarrow> nat \<Rightarrow> int \<Rightarrow> bool \<Rightarrow> jsstr" where
  "get_lines st b e n keep =
     (if e \<le> b then []
      else if b + 1 = e then bslice st (bmark st b + min (tshift st b) n) (if keep then emark st b + 1 else emark st b)
      else concat (map (\<lambda>l. bslice st (bmark st l + max 0 (min (tshift st l) n))
                              (if l + 1 < e \<or> keep then emark st l + 1 else emark st l)) [b..<e]))"

definition bl_push :: "btoken \<Rightarrow> bl_state \<Rightarrow> bl_state" where
  "bl_push t st = st\<lparr>bl_tokens := bl_tokens st @ [(t, bl_level st)]\<rparr>"

text \<open>\<open>level: e.level++\<close> and \<open>level: --e.level\<close>.\<close>

definition bl_open :: "btoken \<Rightarrow> bl_state \<Rightarrow> bl_state" where
  "bl_open t st = (bl_push t st)\<lparr>bl_level := bl_level st + 1\<rparr>"

definition bl_close :: "btoken \<Rightarrow> bl_state \<Rightarrow> bl_state" where
  "bl_close t st = bl_push t (st\<lparr>bl_level := bl_level st - 1\<rparr>)"

definition push_inline :: "jsstr \<Rightarrow> nat \<Rightarrow> bl_state \<Rightarrow> bl_state" where
  "push_inline content l st = st\<lparr>bl_tokens := bl_tokens st @ [(Tok (Inline content []), l)]\<rparr>"

type_synonym bl_tok = "bl_state \<Rightarrow> nat \<Rightarrow> nat \<Rightarrow> bl_state option"

subsection \<open>Rules that read lines\<close>

text \<open>The end of an indented block: the line behind it, and the line behind its last line that is not empty.\<close>

function code_lines :: "bl_state \<Rightarrow> nat \<Rightarrow> nat \<Rightarrow> nat \<Rightarrow> nat \<times> nat" where
  "code_lines st n r o' =
     (if r < n then
        if is_empty st r then code_lines st n (r + 1) o'
        else if 4 \<le> tshift st r - bl_indent st then code_lines st n (r + 1) (r + 1)
        else (r, o')
      else (r, o'))"
  by pat_completeness auto
termination by (relation "measure (\<lambda>(st, n, r, o'). n - r)") auto

declare code_lines.simps [simp del]

definition rule_code :: "nat \<Rightarrow> nat \<Rightarrow> bl_state \<Rightarrow> bool \<times> bl_state" where
  "rule_code t n st =
     (if tshift st t - bl_indent st < 4 then (False, st)
      else
        let (r, o') = code_lines st n (t + 1) (t + 1)
        in (True, bl_push (Tok (Code (get_lines st t o' (4 + bl_indent st) True) True)) (st\<lparr>bl_line := r\<rparr>)))"

text \<open>The search for the closing fence: the line where it ends, and whether it is a fence.\<close>

function fence_end :: "bl_state \<Rightarrow> nat \<Rightarrow> unit16 \<Rightarrow> int \<Rightarrow> nat \<Rightarrow> nat \<times> bool" where
  "fence_end st n c i u =
     (if n \<le> u then (u, False)
      else
        let s = bmark st u + tshift st u; f = emark st u
        in if s < f \<and> tshift st u < bl_indent st then (u, False)
           else if bchar st s = Some c \<and> \<not> (4 \<le> tshift st u - bl_indent st \<or> skip_chars st s c - s < i
                     \<or> skip_spaces st (skip_chars st s c) < f)
                then (u, True)
           else fence_end st n c i (u + 1))"
  by pat_completeness auto
termination by (relation "measure (\<lambda>(st, n, c, i, u). n - u)") auto

declare fence_end.simps [simp del]

definition rule_fences :: "nat \<Rightarrow> nat \<Rightarrow> bool \<Rightarrow> bl_state \<Rightarrow> bool \<times> bl_state" where
  "rule_fences t n silent st =
     (let s = bmark st t + tshift st t; f = emark st t
      in if f < s + 3 then (False, st)
         else case bchar st s of
             None \<Rightarrow> (False, st)
           | Some c \<Rightarrow>
               if c \<noteq> 126 \<and> c \<noteq> 96 then (False, st)
               else
                 let e = skip_chars st s c; i = e - s; params = js_trim (bslice st e f)
                 in if i < 3 \<or> 96 \<in> set params then (False, st)
                    else if silent then (True, st)
                    else
                      let (u, closed) = fence_end st n c i (t + 1)
                      in (True, bl_push (Tok (Fence params (get_lines st (t + 1) u (tshift st t) True)))
                                 (st\<lparr>bl_line := u + (if closed then 1 else 0)\<rparr>)))"

definition rule_hr :: "nat \<Rightarrow> bool \<Rightarrow> bl_state \<Rightarrow> bool \<times> bl_state" where
  "rule_hr t silent st =
     (let u = bmark st t + tshift st t; s = emark st t
      in if s < u then (False, st)
         else case bchar st u of
             None \<Rightarrow> (False, st)
           | Some c \<Rightarrow>
               let r = map (bchar st) [u + 1..s - 1]
               in if c \<noteq> 42 \<and> c \<noteq> 45 \<and> c \<noteq> 95 \<or> \<not> set r \<subseteq> {Some c, Some 32} \<or> 1 + length (filter ((=) (Some c)) r) < 3
                  then (False, st)
                  else (True, if silent then st else bl_push (Tok Hr) (st\<lparr>bl_line := t + 1\<rparr>)))"

text \<open>The number of \<open>#\<close> at \<open>u\<close>, at most seven, and the position behind them.\<close>

function hashes :: "bl_state \<Rightarrow> int \<Rightarrow> nat \<Rightarrow> int \<Rightarrow> nat \<times> int" where
  "hashes st s i u = (if bchar st u = Some 35 \<and> u < s \<and> i \<le> 6 then hashes st s (i + 1) (u + 1) else (i, u))"
  by pat_completeness auto
termination by (relation "measure (\<lambda>(st, s, i, u). 7 - i)") auto

declare hashes.simps [simp del]

definition rule_heading :: "nat \<Rightarrow> bool \<Rightarrow> bl_state \<Rightarrow> bool \<times> bl_state" where
  "rule_heading t silent st =
     (let u = bmark st t + tshift st t; s = emark st t
      in if s \<le> u \<or> bchar st u \<noteq> Some 35 then (False, st)
         else
           let (i, u) = hashes st s 1 (u + 1)
           in if 6 < i \<or> u < s \<and> bchar st u \<noteq> Some 32 then (False, st)
              else if silent then (True, st)
              else
                let s = skip_back st s 32 u; a = skip_back st s 35 u;
                    s = (if u < a \<and> bchar st (a - 1) = Some 32 then a else s);
                    st = bl_push (Tok (HeadingOpen i)) (st\<lparr>bl_line := t + 1\<rparr>);
                    st = (if u < s then push_inline (js_trim (bslice st u s)) (bl_level st + 1) st else st)
                in (True, bl_push (Tok (HeadingClose i)) st))"

definition rule_lheading :: "nat \<Rightarrow> nat \<Rightarrow> bl_state \<Rightarrow> bool \<times> bl_state" where
  "rule_lheading t n st =
     (let a = t + 1; s = bmark st a + tshift st a; i = emark st a
      in if n \<le> a \<or> tshift st a < bl_indent st \<or> 3 < tshift st a - bl_indent st \<or> i \<le> s then (False, st)
         else case bchar st s of
             None \<Rightarrow> (False, st)
           | Some r \<Rightarrow>
               if r \<noteq> 45 \<and> r \<noteq> 61 \<or> skip_spaces st (skip_chars st s r) < i then (False, st)
               else
                 let h = (if r = 61 then 1 else 2);
                     c = js_trim (bslice st (bmark st t + tshift st t) (emark st t));
                     st = bl_push (Tok (HeadingOpen h)) (st\<lparr>bl_line := a + 1\<rparr>);
                     st = push_inline c (bl_level st + 1) st
                 in (True, bl_push (Tok (HeadingClose h)) st))"

text \<open>The tags that start a block of raw HTML.\<close>

definition html_blocks :: "jsstr list" where
  "html_blocks = map js [
    ''article'', ''aside'', ''button'', ''blockquote'', ''body'', ''canvas'', ''caption'', ''col'', ''colgroup'', ''dd'',
    ''div'', ''dl'', ''dt'', ''embed'', ''fieldset'', ''figcaption'', ''figure'', ''footer'', ''form'', ''h1'', ''h2'',
    ''h3'', ''h4'', ''h5'', ''h6'', ''header'', ''hgroup'', ''hr'', ''iframe'', ''li'', ''map'', ''object'', ''ol'',
    ''output'', ''p'', ''pre'', ''progress'', ''script'', ''section'', ''style'', ''table'', ''tbody'', ''td'',
    ''textarea'', ''tfoot'', ''th'', ''tr'', ''thead'', ''ul'', ''video'']"

text \<open>
  \<open>/^<([a-zA-Z]{1,15})[\s\/>]/\<close> and \<open>/^<\/([a-zA-Z]{1,15})[\s>]/\<close>: the name in front of a separator. The letters
  are taken as far as they go, since a separator is none.
\<close>

definition tag_name :: "(unit16 \<Rightarrow> bool) \<Rightarrow> jsstr \<Rightarrow> jsstr option" where
  "tag_name separator s =
     (let w = takeWhile is_letter s; r = drop (length w) s
      in if 1 \<le> length w \<and> length w \<le> 15 \<and> r \<noteq> [] \<and> separator (hd r) then Some w else None)"

definition html_start :: "bl_state \<Rightarrow> int \<Rightarrow> int \<Rightarrow> bool" where
  "html_start st c f =
     (case bchar st (c + 1) of
        None \<Rightarrow> False
      | Some u \<Rightarrow>
          if u = 33 \<or> u = 63 then True
          else if u \<noteq> 47 \<and> \<not> is_letter u then False
          else case (if u = 47 then tag_name (\<lambda>d. is_space d \<or> d = 62) (bslice st (c + 2) f)
                     else tag_name (\<lambda>d. is_space d \<or> d = 47 \<or> d = 62) (bslice st (c + 1) f)) of
              None \<Rightarrow> False
            | Some w \<Rightarrow> to_lower w \<in> set html_blocks)"

function next_empty :: "bl_state \<Rightarrow> nat \<Rightarrow> nat" where
  "next_empty st l = (if l < bl_max st \<and> \<not> is_empty st l then next_empty st (l + 1) else l)"
  by pat_completeness auto
termination by (relation "measure (\<lambda>(st, l). bl_max st - l)") auto

declare next_empty.simps [simp del]

definition rule_htmlblock :: "bool \<Rightarrow> nat \<Rightarrow> bool \<Rightarrow> bl_state \<Rightarrow> bool \<times> bl_state" where
  "rule_htmlblock html t silent st =
     (let c = bmark st t + tshift st t; f = emark st t
      in if \<not> html \<or> 3 < tshift st t \<or> f \<le> c + 2 \<or> bchar st c \<noteq> Some 60 \<or> \<not> html_start st c f then (False, st)
         else if silent then (True, st)
         else
           let l = next_empty st (t + 1)
           in (True, bl_push (Tok (Htmlblock (get_lines st t l 0 True))) (st\<lparr>bl_line := l\<rparr>)))"

subsection \<open>Tables\<close>

text \<open>\<open>substr(n, r - n)\<close> from the indent of the block on.\<close>

definition row_text :: "bl_state \<Rightarrow> nat \<Rightarrow> jsstr" where
  "row_text st t = (let n = bmark st t + bl_indent st in take (nat (emark st t - n)) (drop (slice_from (bl_src st) n) (bl_src st)))"

text \<open>\<open>replace(/^\||\|$/g, "").split("|")\<close>\<close>

definition row_cells :: "jsstr \<Rightarrow> jsstr list" where
  "row_cells a =
     (let a = (if a \<noteq> [] \<and> hd a = 124 then tl a else a);
          a = (if a \<noteq> [] \<and> last a = 124 then butlast a else a)
      in js_split 124 a)"

text \<open>\<open>/^:?-+:?$/\<close>\<close>

definition column_mark :: "jsstr \<Rightarrow> bool" where
  "column_mark d =
     (let d = (if d \<noteq> [] \<and> hd d = 58 then tl d else d);
          d = (if d \<noteq> [] \<and> last d = 58 then butlast d else d)
      in d \<noteq> [] \<and> set d \<subseteq> {45})"

definition column_align :: "jsstr \<Rightarrow> jsstr" where
  "column_align d =
     (if last d = 58 then if hd d = 58 then js ''center'' else js ''right''
      else if hd d = 58 then js ''left'' else [])"

text \<open>
  \<open>(c = a.split("|")) <= 2\<close> compares an array with a number: the array becomes the text of its
  pieces joined by commas, and that text a number. It is one (0) only for a single piece of white
  space, otherwise \<open>NaN\<close>, for which the comparison is false.
\<close>

definition pieces_le_2 :: "jsstr list \<Rightarrow> bool" where
  "pieces_le_2 c = (case c of [d] \<Rightarrow> js_trim d = [] | _ \<Rightarrow> False)"

text \<open>The alignments that the line of marks gives; empty parts are allowed at both ends only.\<close>

definition table_aligns :: "jsstr \<Rightarrow> jsstr list option" where
  "table_aligns a =
     (let c = js_split 124 a; d = map js_trim c; kept = filter ((\<noteq>) []) d
      in if pieces_le_2 c \<or> [] \<in> set (butlast (tl d)) \<or> \<not> list_all column_mark kept then None
         else Some (map column_align kept))"

text \<open>So a line of marks for one or two columns needs no outer bars.\<close>

lemma table_aligns_short:
  "table_aligns (js ''-|:-'') = Some [[], js ''left'']" "table_aligns (js '':-:'') = Some [js ''center'']"
  by (simp_all add: table_aligns_def pieces_le_2_def js_trim_def is_space_def column_mark_def column_align_def
    js_def Let_def)

definition cell_text :: "jsstr \<Rightarrow> jsstr" where
  "cell_text c =
     (let a = (if c \<noteq> [] \<and> hd c = 124 then 1 else 0);
          b = (if c \<noteq> [] \<and> last c = 124 then length c - 1 else length c)
      in js_trim (take (max a b - min a b) (drop (min a b) c)))"

text \<open>An alignment that is missing because the row has more cells than the head is \<open>undefined\<close>: none.\<close>

definition push_cell :: "(jsstr \<Rightarrow> token) \<Rightarrow> token \<Rightarrow> jsstr list \<Rightarrow> nat \<Rightarrow> jsstr \<Rightarrow> bl_state \<Rightarrow> bl_state" where
  "push_cell op cl aligns i content st =
     (let st = bl_open (Tok (op (if i < length aligns then aligns ! i else []))) st
      in bl_close (Tok cl) (push_inline content (bl_level st) st))"

definition push_row :: "(jsstr \<Rightarrow> token) \<Rightarrow> token \<Rightarrow> jsstr list \<Rightarrow> jsstr list \<Rightarrow> bl_state \<Rightarrow> bl_state" where
  "push_row op cl aligns cells st =
     bl_close (Tok TrClose)
       (fold (\<lambda>(i, c). push_cell op cl aligns i c) (zip [0..<length cells] cells) (bl_open (Tok TrOpen) st))"

function push_rows :: "nat \<Rightarrow> jsstr list \<Rightarrow> nat \<Rightarrow> bl_state \<Rightarrow> nat \<times> bl_state" where
  "push_rows n aligns l st =
     (let a = js_trim (row_text st l)
      in if l < n \<and> \<not> tshift st l < bl_indent st \<and> 124 \<in> set a
         then push_rows n aligns (l + 1) (push_row TdOpen TdClose aligns (map cell_text (row_cells a)) st)
         else (l, st))"
  by pat_completeness auto
termination by (relation "measure (\<lambda>(n, aligns, l, st). n - l)") auto

declare push_rows.simps [simp del]

definition rule_table :: "nat \<Rightarrow> nat \<Rightarrow> bool \<Rightarrow> bl_state \<Rightarrow> bool \<times> bl_state" where
  "rule_table t n silent st =
     (let l = t + 1; u = bmark st l + tshift st l; a = row_text st l; h = js_trim (row_text st t)
      in if n < t + 2 \<or> tshift st l < bl_indent st \<or> emark st l \<le> u
            \<or> bchar st u \<notin> {Some 124, Some 45, Some 58} \<or> a = [] \<or> \<not> set a \<subseteq> {45, 58, 124, 32}
         then (False, st)
         else case table_aligns a of
             None \<Rightarrow> (False, st)
           | Some aligns \<Rightarrow>
               if 124 \<notin> set h \<or> length aligns \<noteq> length (row_cells h) then (False, st)
               else if silent then (True, st)
               else
                 let st = bl_open (Tok TheadOpen) (bl_open (Tok TableOpen) st);
                     st = bl_close (Tok TheadClose) (push_row ThOpen ThClose aligns (map js_trim (row_cells h)) st);
                     (l, st) = push_rows n aligns (t + 2) (bl_open (Tok TbodyOpen) st)
                 in (True, (bl_close (Tok TableClose) (bl_close (Tok TbodyClose) st))\<lparr>bl_line := l\<rparr>))"

subsection \<open>Rules that call the tokenizer\<close>

text \<open>
  The tokenizer gives \<open>None\<close> when its fuel is used up. The first argument of these rules says whether a
  line ends what goes on before it: one of the rules of a chain accepts the line in silent mode.
\<close>

type_synonym terminator = "chain \<Rightarrow> bl_state \<Rightarrow> nat \<Rightarrow> nat \<Rightarrow> bool"

text \<open>The text of a quoted line behind the \<open>>\<close>: the new marks, and whether it is empty.\<close>

definition quote_marks :: "bl_state \<Rightarrow> nat \<Rightarrow> bl_state \<times> bool" where
  "quote_marks st t =
     (let v = bmark st t + tshift st t + 1; m = emark st t;
          v = (if bchar st v = Some 32 then v + 1 else v);
          w = (if v < m then skip_spaces st v else v)
      in (set_marks t v (w - v) st, m \<le> w))"

text \<open>The lines of the quote: the line behind them, and the marks that have been replaced.\<close>

function quote_lines ::
  "terminator \<Rightarrow> nat \<Rightarrow> nat \<Rightarrow> bool \<Rightarrow> (int \<times> int) list \<Rightarrow> bl_state \<Rightarrow> nat \<times> (int \<times> int) list \<times> bl_state" where
  "quote_lines ends n o' i saved st =
     (if \<not> o' < n \<or> is_empty st o' then (o', saved, st)
      else
        let now = saved @ [(bmark st o', tshift st o')]
        in if bchar st (bmark st o' + tshift st o') = Some 62 then
             let (st, i) = quote_marks st o' in quote_lines ends n (o' + 1) i now st
           else if i \<or> ends ChBlockquote st o' n then (o', saved, st)
           else quote_lines ends n (o' + 1) i now (set_marks o' (bmark st o') (-1337) st))"
  by pat_completeness auto
termination by (relation "measure (\<lambda>(ends, n, o', i, saved, st). n - o')") auto

declare quote_lines.simps [simp del]

fun restore_marks :: "nat \<Rightarrow> (int \<times> int) list \<Rightarrow> bl_state \<Rightarrow> bl_state" where
  "restore_marks t [] st = st"
| "restore_marks t ((b, s) # ms) st = restore_marks (t + 1) ms (set_marks t b s st)"

definition rule_blockquote :: "bl_config \<Rightarrow> terminator \<Rightarrow> bl_tok \<Rightarrow> nat \<Rightarrow> nat \<Rightarrow> bool \<Rightarrow> bl_state \<Rightarrow> (bool \<times> bl_state) option" where
  "rule_blockquote cf ends tok t n silent st =
     (let v = bmark st t + tshift st t
      in if emark st t < v \<or> bchar st v \<noteq> Some 62 \<or> bc_nesting cf \<le> bl_level st then Some (False, st)
         else if silent then Some (True, st)
         else
           let indent = bl_indent st; par = bl_parent st;
               (st', i) = quote_marks (st\<lparr>bl_indent := 0\<rparr>) t;
               (o', saved, st') = quote_lines ends n (t + 1) i [(bmark st t, tshift st t)] st';
               st' = bl_open (Tok BlockquoteOpen) (st'\<lparr>bl_parent := InBlockquote\<rparr>)
           in Option.bind (tok st' t o') (\<lambda>st'.
                Some (True, (restore_marks t saved (bl_close (Tok BlockquoteClose) st'))\<lparr>bl_parent := par, bl_indent := indent\<rparr>)))"

text \<open>\<open>skipBulletListMarker\<close> and \<open>skipOrderedListMarker\<close>: the position behind the marker.\<close>

definition bullet_marker :: "bl_state \<Rightarrow> nat \<Rightarrow> int option" where
  "bullet_marker st t =
     (let r = bmark st t + tshift st t; o' = emark st t
      in if o' \<le> r \<or> bchar st r \<notin> {Some 42, Some 45, Some 43} then None
         else if r + 1 < o' \<and> bchar st (r + 1) \<noteq> Some 32 then None
         else Some (r + 1))"

function digits_end :: "bl_state \<Rightarrow> int \<Rightarrow> int \<Rightarrow> int option" where
  "digits_end st o' r =
     (if o' \<le> r then None
      else case bchar st r of
          None \<Rightarrow> None
        | Some c \<Rightarrow> if is_digit c then digits_end st o' (r + 1) else if c = 41 \<or> c = 46 then Some (r + 1) else None)"
  by pat_completeness auto
termination by (relation "measure (\<lambda>(st, o', r). nat (o' - r))") auto

declare digits_end.simps [simp del]

definition ordered_marker :: "bl_state \<Rightarrow> nat \<Rightarrow> int option" where
  "ordered_marker st t =
     (let r = bmark st t + tshift st t; o' = emark st t
      in if o' \<le> r + 1 \<or> \<not> (case bchar st r of Some c \<Rightarrow> is_digit c | None \<Rightarrow> False) then None
         else case digits_end st o' (r + 1) of
             None \<Rightarrow> None
           | Some e \<Rightarrow> if e < o' \<and> bchar st e \<noteq> Some 32 then None else Some e)"

definition list_marker :: "bool \<Rightarrow> bl_state \<Rightarrow> nat \<Rightarrow> int option" where
  "list_marker ordered st t = (if ordered then ordered_marker st t else bullet_marker st t)"

text \<open>\<open>markTightParagraphs\<close>, from the second token of the list on.\<close>

fun tighten :: "btoken \<times> nat \<Rightarrow> btoken \<times> nat" where
  "tighten (Tok (ParagraphOpen b), l) = (Tok (ParagraphOpen True), l)"
| "tighten (Tok (ParagraphClose b), l) = (Tok (ParagraphClose True), l)"
| "tighten x = x"

definition opens_paragraph :: "nat \<Rightarrow> btoken \<times> nat \<Rightarrow> bool" where
  "opens_paragraph o' x = (case x of (Tok (ParagraphOpen b), l) \<Rightarrow> l = o' | _ \<Rightarrow> False)"

fun tight_from :: "nat \<Rightarrow> (btoken \<times> nat) list \<Rightarrow> (btoken \<times> nat) list" where
  "tight_from o' (x # y # z # r) =
     (if opens_paragraph o' x then tighten x # y # tighten z # tight_from o' r else x # tight_from o' (y # z # r))"
| "tight_from o' r = r"

definition mark_tight :: "nat \<Rightarrow> bl_state \<Rightarrow> bl_state" where
  "mark_tight b st =
     st\<lparr>bl_tokens := take (b + 2) (bl_tokens st) @ tight_from (bl_level st + 2) (drop (b + 2) (bl_tokens st))\<rparr>"

text \<open>An item that starts at line \<open>t\<close> with its text behind \<open>d\<close>; \<open>(all_tight, after_empty)\<close> are the flags of the loop.\<close>

definition list_item :: "bl_tok \<Rightarrow> nat \<Rightarrow> nat \<Rightarrow> int \<Rightarrow> bool \<times> bool \<Rightarrow> bl_state \<Rightarrow> ((bool \<times> bool) \<times> bl_state) option" where
  "list_item tok t n d flags st =
     (let y = skip_spaces st d;
          h = (if emark st t \<le> y then 1 else y - d); h = (if 4 < h then 1 else h); h = (if h < 1 then 1 else h);
          u = d - bmark st t + h; s = tshift st t;
          st' = (set_marks t (bmark st t) (y - bmark st t) (bl_open (Tok ListItemOpen) st))
                \<lparr>bl_indent := u, bl_tight := True, bl_parent := InList\<rparr>
      in Option.bind (tok st' t n) (\<lambda>st'.
           let all_tight = (if bl_tight st' \<and> \<not> snd flags then fst flags else False);
               after_empty = (1 < int (bl_line st') - int t \<and> is_empty st' (bl_line st' - 1));
               st' = (set_marks t (bmark st' t) s st')\<lparr>bl_indent := bl_indent st, bl_tight := bl_tight st, bl_parent := bl_parent st\<rparr>
           in Some ((all_tight, after_empty), bl_close (Tok ListItemClose) st')))"

fun list_items ::
  "terminator \<Rightarrow> bl_tok \<Rightarrow> nat \<Rightarrow> bool \<Rightarrow> unit16 option \<Rightarrow> nat \<Rightarrow> nat \<Rightarrow> int \<Rightarrow> bool \<times> bool \<Rightarrow> bl_state \<Rightarrow> (bool \<times> nat \<times> bl_state) option" where
  "list_items ends tok n ordered m 0 t d flags st = None"
| "list_items ends tok n ordered m (Suc k) t d flags st =
     (if \<not> t < n then Some (fst flags, t, st)
      else Option.bind (list_item tok t n d flags st) (\<lambda>(flags, st).
        let a = bl_line st; stop = Some (fst flags, a, st)
        in if n \<le> a \<or> is_empty st a \<or> tshift st a < bl_indent st \<or> ends ChList st a n then stop
           else case list_marker ordered st a of
               None \<Rightarrow> stop
             | Some d \<Rightarrow> if m \<noteq> bchar st (d - 1) then stop else list_items ends tok n ordered m k a d flags st))"

text \<open>\<open>Number\<close> of the digits, exact as far as the numbers of the language are.\<close>

definition list_order :: "bl_state \<Rightarrow> nat \<Rightarrow> int \<Rightarrow> nat" where
  "list_order st t d =
     (let p = bmark st t + tshift st t in case parse_int_10 (bslice st p (d - 1)) of Some k \<Rightarrow> k | None \<Rightarrow> 0)"

definition rule_list :: "bl_config \<Rightarrow> terminator \<Rightarrow> bl_tok \<Rightarrow> nat \<Rightarrow> nat \<Rightarrow> bool \<Rightarrow> bl_state \<Rightarrow> (bool \<times> bl_state) option" where
  "rule_list cf ends tok t n silent st =
     (let ordered = (ordered_marker st t \<noteq> None)
      in case list_marker ordered st t of
           None \<Rightarrow> Some (False, st)
         | Some d \<Rightarrow>
             if bc_nesting cf \<le> bl_level st then Some (False, st)
             else if silent then Some (True, st)
             else
               let b = length (bl_tokens st);
                   st' = bl_open (Tok (if ordered then OrderedListOpen (list_order st t d) else BulletListOpen)) st
               in Option.bind (list_items ends tok n ordered (bchar st (d - 1)) (n + 1 - t) t d (True, False) st') (\<lambda>(all_tight, a, st').
                    let st' = (bl_close (Tok (if ordered then OrderedListClose else BulletListClose)) st')\<lparr>bl_line := a\<rparr>
                    in Some (True, if all_tight then mark_tight b st' else st')))"

text \<open>\<open>[^label]:\<close> at the front of a line: the label, and the position behind the colon.\<close>

function label_end :: "bl_state \<Rightarrow> int \<Rightarrow> int \<Rightarrow> int option" where
  "label_end st c u =
     (if c \<le> u then Some u
      else if bchar st u = Some 32 then None
      else if bchar st u = Some 93 then Some u
      else label_end st c (u + 1))"
  by pat_completeness auto
termination by (relation "measure (\<lambda>(st, c, u). nat (c - u))") auto

declare label_end.simps [simp del]

definition footnote_label :: "bl_state \<Rightarrow> nat \<Rightarrow> (jsstr \<times> int) option" where
  "footnote_label st t =
     (let l = bmark st t + tshift st t; c = emark st t
      in if c < l + 4 \<or> bchar st l \<noteq> Some 91 \<or> bchar st (l + 1) \<noteq> Some 94 then None
         else case label_end st c (l + 2) of
             None \<Rightarrow> None
           | Some u \<Rightarrow>
               if u = l + 2 \<or> c \<le> u + 1 \<or> bchar st (u + 1) \<noteq> Some 58 then None
               else Some (bslice st (l + 2) u, u + 2))"

text \<open>Below the label, a text that is indented less than the block gets the indent of the block.\<close>

definition rule_footnote :: "bl_config \<Rightarrow> bl_tok \<Rightarrow> nat \<Rightarrow> nat \<Rightarrow> bool \<Rightarrow> bl_state \<Rightarrow> (bool \<times> bl_state) option" where
  "rule_footnote cf tok t n silent st =
     (case footnote_label st t of
        None \<Rightarrow> Some (False, st)
      | Some (label, u) \<Rightarrow>
          if bc_nesting cf \<le> bl_level st then Some (False, st)
          else if silent then Some (True, st)
          else
            let o' = bmark st t; i = tshift st t; a = bl_parent st;
                st' = st\<lparr>bl_refs := Some ((label, -1) # (case bl_refs st of Some r \<Rightarrow> r | None \<Rightarrow> []))\<rparr>;
                st' = bl_open (FootDefOpen label) st';
                s = skip_spaces st u - u; indent = bl_indent st + 4;
                (b, s) = (if s < indent then (u - indent, s + indent) else (u, s));
                st' = (set_marks t b s st')\<lparr>bl_indent := indent, bl_parent := InFootnote\<rparr>
            in Option.bind (tok st' t n) (\<lambda>st'.
                 Some (True, bl_close FootDefClose ((set_marks t o' i st')\<lparr>bl_parent := a, bl_indent := bl_indent st' - 4\<rparr>))))"

text \<open>\<open>skipMarker\<close> of definition lists: the position of the text behind \<open>:\<close> or \<open>~\<close> and a space.\<close>

definition def_marker :: "bl_state \<Rightarrow> nat \<Rightarrow> int option" where
  "def_marker st t =
     (let o' = bmark st t + tshift st t; i = emark st t; n = skip_spaces st (o' + 1)
      in if i \<le> o' \<or> bchar st o' \<notin> {Some 126, Some 58} \<or> o' + 1 = n \<or> i \<le> n then None else Some n)"

text \<open>One description: the line \<open>a\<close> with its text at \<open>i\<close>.\<close>

definition def_item :: "bl_tok \<Rightarrow> nat \<Rightarrow> nat \<Rightarrow> int \<Rightarrow> bool \<times> bool \<Rightarrow> bl_state \<Rightarrow> ((bool \<times> bool) \<times> bl_state) option" where
  "def_item tok n a i flags st =
     (let st' = bl_open (Tok DdOpen) st; v = tshift st a;
          st' = (set_marks a (bmark st a) (i - bmark st a) st')
                \<lparr>bl_indent := v + 2, bl_dd := v + 2, bl_tight := True, bl_parent := InDeflist\<rparr>
      in Option.bind (tok st' a n) (\<lambda>st'.
           let y = (if bl_tight st' \<and> \<not> snd flags then fst flags else False);
               g = (1 < int (bl_line st') - int a \<and> is_empty st' (bl_line st' - 1));
               st' = (set_marks a (bmark st' a) v st')\<lparr>bl_tight := bl_tight st, bl_parent := bl_parent st,
                        bl_indent := bl_indent st, bl_dd := bl_dd st\<rparr>
           in Some ((y, g), bl_close (Tok DdClose) st')))"

definition push_term :: "nat \<Rightarrow> bl_state \<Rightarrow> bl_state" where
  "push_term u st =
     (let st' = bl_open (Tok DtOpen) st
      in bl_close (Tok DtClose) (push_inline (js_trim (get_lines st u (u + 1) (bl_indent st) False)) (bl_level st' + 1) st'))"

text \<open>Where a further term with its description begins, when the last description ended in front of \<open>f\<close>.\<close>

definition next_term :: "bl_state \<Rightarrow> nat \<Rightarrow> nat \<Rightarrow> (nat \<times> int) option" where
  "next_term st n f =
     (if n \<le> f \<or> is_empty st f \<or> tshift st f < bl_indent st \<or> n \<le> f + 1 then None
      else
        let a = (if is_empty st (f + 1) then f + 2 else f + 1)
        in if n \<le> a \<or> tshift st a < bl_indent st then None
           else case def_marker st a of None \<Rightarrow> None | Some i \<Rightarrow> Some (a, i))"

text \<open>
  The two loops in one: \<open>y\<close> is the flag of the current term (it is set again for each term), and the
  result has the flag of the last one.
\<close>

fun def_items :: "bl_tok \<Rightarrow> nat \<Rightarrow> nat \<Rightarrow> nat \<Rightarrow> int \<Rightarrow> bool \<times> bool \<Rightarrow> bl_state \<Rightarrow> (bool \<times> nat \<times> bl_state) option" where
  "def_items tok n 0 a i flags st = None"
| "def_items tok n (Suc k) a i flags st =
     Option.bind (def_item tok n a i flags st) (\<lambda>(flags, st).
       let f = bl_line st; stop = Some (fst flags, f, st)
       in if n \<le> f \<or> tshift st f < bl_indent st then stop
          else case def_marker st f of
              Some i \<Rightarrow> def_items tok n k f i flags st
            | None \<Rightarrow>
                (case next_term st n f of
                   None \<Rightarrow> stop
                 | Some (a, i) \<Rightarrow> def_items tok n k a i (True, False) (push_term f st)))"

definition rule_deflist :: "bl_config \<Rightarrow> bl_tok \<Rightarrow> nat \<Rightarrow> nat \<Rightarrow> bool \<Rightarrow> bl_state \<Rightarrow> (bool \<times> bl_state) option" where
  "rule_deflist cf tok t n silent st =
     (if silent then Some (\<not> bl_dd st < 0 \<and> def_marker st t \<noteq> None, st)
      else
        let f = (if is_empty st (t + 1) then t + 2 else t + 1)
        in if is_empty st (t + 1) \<and> n < f \<or> tshift st f < bl_indent st then Some (False, st)
           else case def_marker st f of
               None \<Rightarrow> Some (False, st)
             | Some i \<Rightarrow>
                 if bc_nesting cf \<le> bl_level st then Some (False, st)
                 else
                   let c = length (bl_tokens st); st' = push_term t (bl_open (Tok DlOpen) st)
                   in Option.bind (def_items tok n (n + 1 - t) f i (True, False) st') (\<lambda>(y, f, st').
                        let st' = (bl_close (Tok DlClose) st')\<lparr>bl_line := f\<rparr>
                        in Some (True, if y then mark_tight c st' else st')))"

function paragraph_end :: "terminator \<Rightarrow> bl_state \<Rightarrow> nat \<Rightarrow> nat" where
  "paragraph_end ends st s =
     (if \<not> s < bl_max st \<or> is_empty st s then s
      else if \<not> 3 < tshift st s - bl_indent st \<and> ends ChParagraph st s (bl_max st) then s
      else paragraph_end ends st (s + 1))"
  by pat_completeness auto
termination by (relation "measure (\<lambda>(ends, st, s). bl_max st - s)") auto

declare paragraph_end.simps [simp del]

definition rule_paragraph :: "terminator \<Rightarrow> nat \<Rightarrow> bl_state \<Rightarrow> bool \<times> bl_state" where
  "rule_paragraph ends t st =
     (let s = paragraph_end ends st (t + 1);
          r = js_trim (get_lines st t s (bl_indent st) False);
          st = st\<lparr>bl_line := s\<rparr>
      in (True, if r = [] then st
                else bl_push (Tok (ParagraphClose False))
                       (push_inline r (bl_level st + 1) (bl_push (Tok (ParagraphOpen False)) st))))"

subsection \<open>\<open>tokenize\<close> and \<open>parse\<close>\<close>

definition block_rule_run ::
  "bl_config \<Rightarrow> terminator \<Rightarrow> bl_tok \<Rightarrow> block_rule \<Rightarrow> nat \<Rightarrow> nat \<Rightarrow> bool \<Rightarrow> bl_state \<Rightarrow> (bool \<times> bl_state) option" where
  "block_rule_run cf ends tok r t n silent st =
     (case r of
        BCode \<Rightarrow> Some (rule_code t n st)
      | BFences \<Rightarrow> Some (rule_fences t n silent st)
      | BBlockquote \<Rightarrow> rule_blockquote cf ends tok t n silent st
      | BHr \<Rightarrow> Some (rule_hr t silent st)
      | BList \<Rightarrow> rule_list cf ends tok t n silent st
      | BFootnote \<Rightarrow> rule_footnote cf tok t n silent st
      | BHeading \<Rightarrow> Some (rule_heading t silent st)
      | BLheading \<Rightarrow> Some (rule_lheading t n st)
      | BHtmlblock \<Rightarrow> Some (rule_htmlblock (bc_html cf) t silent st)
      | BTable \<Rightarrow> Some (rule_table t n silent st)
      | BDeflist \<Rightarrow> rule_deflist cf tok t n silent st
      | BParagraph \<Rightarrow> Some (rule_paragraph ends t st))"

text \<open>In silent mode no rule looks for a terminator or calls the tokenizer, and none changes the state.\<close>

definition block_ends :: "bl_config \<Rightarrow> terminator" where
  "block_ends cf c st t n \<longleftrightarrow>
     list_ex (\<lambda>r. case block_rule_run cf (\<lambda>_ _ _ _. False) (\<lambda>_ _ _. None) r t n True st of Some (b, _) \<Rightarrow> b | None \<Rightarrow> False)
       (chain_rules cf c)"

fun block_rules_run ::
  "bl_config \<Rightarrow> bl_tok \<Rightarrow> block_rule list \<Rightarrow> nat \<Rightarrow> nat \<Rightarrow> bl_state \<Rightarrow> bl_state option" where
  "block_rules_run cf tok [] t n st = Some st"
| "block_rules_run cf tok (r # rs) t n st =
     Option.bind (block_rule_run cf (block_ends cf) tok r t n False st)
       (\<lambda>(b, st). if b then Some st else block_rules_run cf tok rs t n st)"

text \<open>The loop over the lines; \<open>u\<close> says whether an empty line has been seen.\<close>

fun block_loop :: "(nat \<Rightarrow> nat \<Rightarrow> bl_state \<Rightarrow> bl_state option) \<Rightarrow> nat \<Rightarrow> nat \<Rightarrow> nat \<Rightarrow> bool \<Rightarrow> bl_state \<Rightarrow> bl_state option" where
  "block_loop run 0 n a u st = None"
| "block_loop run (Suc k) n a u st =
     (if \<not> a < n then Some st
      else
        let a = skip_empty st a; st = st\<lparr>bl_line := a\<rparr>
        in if n \<le> a \<or> tshift st a < bl_indent st then Some st
           else Option.bind (run a n st) (\<lambda>st.
             let st = st\<lparr>bl_tight := \<not> u\<rparr>; u = (u \<or> is_empty st (bl_line st - 1)); a = bl_line st
             in if a < n \<and> is_empty st a then
                  if a + 1 < n \<and> bl_parent st = InList \<and> is_empty st (a + 1) then Some st
                  else block_loop run k n (a + 1) True (st\<lparr>bl_line := a + 1\<rparr>)
                else block_loop run k n a u st))"

text \<open>The fuel of the tokenizer bounds the nesting: every inner call stands below an open token.\<close>

fun block_tokenize :: "bl_config \<Rightarrow> nat \<Rightarrow> bl_tok" where
  "block_tokenize cf 0 st t n = None"
| "block_tokenize cf (Suc d) st t n =
     block_loop (\<lambda>a n st. block_rules_run cf (block_tokenize cf d) (block_rules cf) a n st) (n + 1 - t) n t False st"

text \<open>Line ends and tabs: a tab goes to the next multiple of four, counted from the last tab or line end.\<close>

fun normalize_lines :: "jsstr \<Rightarrow> jsstr" where
  "normalize_lines (a # b # s) =
     (if a = 13 \<and> (b = 10 \<or> b = 133) then 10 # normalize_lines s
      else (if a = 9252 \<or> a = 8232 \<or> a = 133 then 10 else a) # normalize_lines (b # s))"
| "normalize_lines [a] = [if a = 9252 \<or> a = 8232 \<or> a = 133 then 10 else a]"
| "normalize_lines [] = []"

fun expand_tabs :: "nat \<Rightarrow> jsstr \<Rightarrow> jsstr" where
  "expand_tabs k [] = []"
| "expand_tabs k (c # s) =
     (if c = 10 then c # expand_tabs 0 s
      else if c = 9 then replicate (4 - k mod 4) 32 @ expand_tabs 0 s
      else c # expand_tabs (k + 1) s)"

definition parse_blocks :: "bl_config \<Rightarrow> jsstr \<Rightarrow> bl_state option" where
  "parse_blocks cf src =
     (let src = expand_tabs 0 (normalize_lines (map (\<lambda>c. if c = 160 then 32 else c) src));
          st = bl_init src
      in block_tokenize cf (bc_nesting cf + 1) st (bl_line st) (bl_max st))"

end
