(* ===== verification/MdBlocks.thy ===== *)
theory MdBlocks
  imports MdBlock MdParse
begin

section \<open>What the block parser guarantees (swagger-ui-bundle.js, Remarkable)\<close>

text \<open>
  With the paragraph rule enabled every line is consumed by some rule, so the parser comes to the end
  of the document; the tokens are well nested, the marks of the lines are as before after every rule,
  and no token carries a text that could leave an attribute.
\<close>

subsection \<open>Elements of the block level\<close>

fun block_bracket :: "btoken \<Rightarrow> (bool \<times> nat) option" where
  "block_bracket (Tok BlockquoteOpen) = Some (True, 0)"
| "block_bracket (Tok BlockquoteClose) = Some (False, 0)"
| "block_bracket (Tok BulletListOpen) = Some (True, 1)"
| "block_bracket (Tok BulletListClose) = Some (False, 1)"
| "block_bracket (Tok (OrderedListOpen k)) = Some (True, 2)"
| "block_bracket (Tok OrderedListClose) = Some (False, 2)"
| "block_bracket (Tok ListItemOpen) = Some (True, 3)"
| "block_bracket (Tok ListItemClose) = Some (False, 3)"
| "block_bracket (Tok (ParagraphOpen b)) = Some (True, 4)"
| "block_bracket (Tok (ParagraphClose b)) = Some (False, 4)"
| "block_bracket (Tok TableOpen) = Some (True, 5)"
| "block_bracket (Tok TableClose) = Some (False, 5)"
| "block_bracket (Tok TheadOpen) = Some (True, 6)"
| "block_bracket (Tok TheadClose) = Some (False, 6)"
| "block_bracket (Tok TbodyOpen) = Some (True, 7)"
| "block_bracket (Tok TbodyClose) = Some (False, 7)"
| "block_bracket (Tok TrOpen) = Some (True, 8)"
| "block_bracket (Tok TrClose) = Some (False, 8)"
| "block_bracket (Tok (ThOpen a)) = Some (True, 9)"
| "block_bracket (Tok ThClose) = Some (False, 9)"
| "block_bracket (Tok (TdOpen a)) = Some (True, 10)"
| "block_bracket (Tok TdClose) = Some (False, 10)"
| "block_bracket (Tok DlOpen) = Some (True, 11)"
| "block_bracket (Tok DlClose) = Some (False, 11)"
| "block_bracket (Tok DtOpen) = Some (True, 12)"
| "block_bracket (Tok DtClose) = Some (False, 12)"
| "block_bracket (Tok DdOpen) = Some (True, 13)"
| "block_bracket (Tok DdClose) = Some (False, 13)"
| "block_bracket b = (case b of
      FootDefOpen l \<Rightarrow> Some (True, 14) | FootDefClose \<Rightarrow> Some (False, 14)
    | Tok (HeadingOpen h) \<Rightarrow> Some (True, 15 + h) | Tok (HeadingClose h) \<Rightarrow> Some (False, 15 + h) | _ \<Rightarrow> None)"

text \<open>The tokens of the block level: texts are still to be parsed, raw HTML only where it is enabled.\<close>

definition block_ok :: "bl_config \<Rightarrow> btoken \<Rightarrow> bool" where
  "block_ok cf b \<longleftrightarrow>
     (case b of
        Tok (Inline c ts) \<Rightarrow> ts = []
      | Tok (Htmlblock c) \<Rightarrow> bc_html cf
      | FootDefOpen l \<Rightarrow> BFootnote \<in> set (bc_rules cf)
      | FootDefClose \<Rightarrow> BFootnote \<in> set (bc_rules cf)
      | Tok (ThOpen a) \<Rightarrow> 34 \<notin> set a
      | Tok (TdOpen a) \<Rightarrow> 34 \<notin> set a
      | Tok (Code c blk) \<Rightarrow> blk
      | Tok (Fence p c) \<Rightarrow> True
      | Tok Hr \<Rightarrow> True
      | _ \<Rightarrow> block_bracket b \<noteq> None)"

definition block_clean :: "bl_config \<Rightarrow> (btoken \<times> nat) list \<Rightarrow> bool" where
  "block_clean cf xs \<longleftrightarrow> balanced block_bracket (map fst xs) \<and> list_all (block_ok cf) (map fst xs)"

lemma block_clean_Nil [simp]: "block_clean cf []"
  by (simp add: block_clean_def)

lemma block_clean_append: "block_clean cf xs \<Longrightarrow> block_clean cf ys \<Longrightarrow> block_clean cf (xs @ ys)"
  by (simp add: block_clean_def balanced_append)

lemma block_clean_single: "block_bracket t = None \<Longrightarrow> block_ok cf t \<Longrightarrow> block_clean cf [(t, l)]"
  by (simp add: block_clean_def balanced_single)

lemma block_clean_wrap:
  assumes "block_clean cf xs" "block_bracket op = Some (True, k)" "block_bracket cl = Some (False, k)"
    "block_ok cf op" "block_ok cf cl"
  shows "block_clean cf ((op, l) # xs @ [(cl, l')])"
  using assms by (simp add: block_clean_def balanced_wrap)

text \<open>Tokens that are added to a list.\<close>

definition btoks :: "bl_config \<Rightarrow> (btoken \<times> nat) list \<Rightarrow> (btoken \<times> nat) list \<Rightarrow> bool" where
  "btoks cf T T' \<longleftrightarrow> (\<exists>xs. T' = T @ xs \<and> block_clean cf xs)"

lemma btoks_refl [simp]: "btoks cf T T"
  by (simp add: btoks_def)

lemma btoks_trans: "btoks cf A B \<Longrightarrow> btoks cf B C \<Longrightarrow> btoks cf A C"
  unfolding btoks_def by (metis append.assoc block_clean_append)

lemma btoks_single: "block_bracket t = None \<Longrightarrow> block_ok cf t \<Longrightarrow> btoks cf A B \<Longrightarrow> btoks cf A (B @ [(t, l)])"
  by (rule btoks_trans) (auto simp: btoks_def block_clean_single)

lemma btoks_wrap:
  assumes "btoks cf (A @ [(op, l)]) B" "block_bracket op = Some (True, k)" "block_bracket cl = Some (False, k)"
    "block_ok cf op" "block_ok cf cl"
  shows "btoks cf A (B @ [(cl, l')])"
proof -
  obtain xs where "B = (A @ [(op, l)]) @ xs" "block_clean cf xs" using assms(1) by (auto simp: btoks_def)
  then show ?thesis using block_clean_wrap [OF _ assms(2-5)] by (auto simp: btoks_def)
qed

subsection \<open>Tight lists\<close>

lemma tighten_bracket [simp]: "block_bracket (fst (tighten x)) = block_bracket (fst x)" "block_ok cf (fst (tighten x)) = block_ok cf (fst x)"
  by (cases x rule: tighten.cases; simp add: block_ok_def)+

lemma tight_from_bracket: "map block_bracket (map fst (tight_from o' xs)) = map block_bracket (map fst xs)"
  by (induction o' xs rule: tight_from.induct) simp_all

lemma tight_from_ok: "list_all (block_ok cf) (map fst (tight_from o' xs)) = list_all (block_ok cf) (map fst xs)"
  by (induction o' xs rule: tight_from.induct) simp_all

lemma tight_clean:
  assumes "block_clean cf xs" shows "block_clean cf (take n xs @ tight_from o' (drop n xs))"
proof -
  have "map block_bracket (map fst (take n xs @ tight_from o' (drop n xs))) = map block_bracket (map fst xs)"
    using tight_from_bracket [of o' "drop n xs"] by (metis append_take_drop_id map_append)
  moreover have "list_all (block_ok cf) (map fst (take n xs @ tight_from o' (drop n xs))) = list_all (block_ok cf) (map fst xs)"
    using tight_from_ok [of cf o' "drop n xs"] by (metis append_take_drop_id list_all_append map_append)
  ultimately show ?thesis using assms nesting_cong unfolding block_clean_def balanced_def by metis
qed

lemma mark_tight_btoks:
  assumes "btoks cf T (bl_tokens st)" shows "btoks cf T (bl_tokens (mark_tight (length T) st))"
proof -
  obtain xs where xs: "bl_tokens st = T @ xs" "block_clean cf xs" using assms by (auto simp: btoks_def)
  then show ?thesis using tight_clean [OF xs(2)] by (auto simp: btoks_def mark_tight_def)
qed

subsection \<open>What a rule keeps\<close>

definition lines_ok :: "bl_state \<Rightarrow> bool" where
  "lines_ok st \<longleftrightarrow> length (bl_b st) = bl_max st + 1 \<and> length (bl_s st) = bl_max st + 1 \<and> 0 \<le> bl_indent st
     \<and> is_empty st (bl_max st)"

definition same_lines :: "bl_state \<Rightarrow> bl_state \<Rightarrow> bool" where
  "same_lines st st' \<longleftrightarrow> bl_src st' = bl_src st \<and> bl_b st' = bl_b st \<and> bl_e st' = bl_e st \<and> bl_s st' = bl_s st
     \<and> bl_indent st' = bl_indent st \<and> bl_max st' = bl_max st \<and> bl_parent st' = bl_parent st \<and> bl_dd st' = bl_dd st
     \<and> bl_level st' = bl_level st"

definition bgrows :: "bl_config \<Rightarrow> bl_state \<Rightarrow> bl_state \<Rightarrow> bool" where
  "bgrows cf st st' \<longleftrightarrow> same_lines st st' \<and> btoks cf (bl_tokens st) (bl_tokens st')"

text \<open>
  A range of lines a rule may be given. A description list reads the line behind the range, so with that
  rule the range must end at the sentinel.
\<close>

definition ready :: "bl_config \<Rightarrow> bl_state \<Rightarrow> nat \<Rightarrow> nat \<Rightarrow> bool" where
  "ready cf st t n \<longleftrightarrow> lines_ok st \<and> t < n \<and> n \<le> bl_max st \<and> (BDeflist \<in> set (bc_rules cf) \<longrightarrow> n = bl_max st)"

definition yields :: "'a option \<Rightarrow> ('a \<Rightarrow> bool) \<Rightarrow> bool" where
  "yields r P \<longleftrightarrow> (case r of Some x \<Rightarrow> P x | None \<Rightarrow> False)"

lemma yields_simps [simp]: "yields (Some x) P \<longleftrightarrow> P x" "\<not> yields None P"
  by (simp_all add: yields_def)

lemma yields_bind: "yields r P \<Longrightarrow> (\<And>x. P x \<Longrightarrow> yields (f x) Q) \<Longrightarrow> yields (Option.bind r f) Q"
  by (cases r) auto

lemma yields_mono: "yields r P \<Longrightarrow> (\<And>x. P x \<Longrightarrow> Q x) \<Longrightarrow> yields r Q"
  by (cases r) auto

definition tok_good :: "bl_config \<Rightarrow> nat \<Rightarrow> bl_tok \<Rightarrow> bool" where
  "tok_good cf d tok \<longleftrightarrow> (\<forall>st t n. ready cf st t n \<longrightarrow> 0 < d \<longrightarrow> bc_nesting cf < bl_level st + d \<longrightarrow>
     yields (tok st t n) (\<lambda>st'. bgrows cf st st' \<and> (is_empty st t \<or> bl_indent st \<le> tshift st t \<longrightarrow> t < bl_line st')))"

lemma tok_goodD: "tok_good cf d tok \<Longrightarrow> ready cf st t n \<Longrightarrow> 0 < d \<Longrightarrow> bc_nesting cf < bl_level st + d \<Longrightarrow>
     yields (tok st t n) (\<lambda>st'. bgrows cf st st' \<and> (is_empty st t \<or> bl_indent st \<le> tshift st t \<longrightarrow> t < bl_line st'))"
  by (simp add: tok_good_def)

text \<open>What a rule owes: nothing has changed, or tokens are added and the line is consumed.\<close>

definition took :: "bl_config \<Rightarrow> nat \<Rightarrow> bl_state \<Rightarrow> bool \<times> bl_state \<Rightarrow> bool" where
  "took cf t st r \<longleftrightarrow> (if fst r then bgrows cf st (snd r) \<and> t < bl_line (snd r) else snd r = st)"

lemma took_simps [simp]: "took cf t st (True, st') \<longleftrightarrow> bgrows cf st st' \<and> t < bl_line st'" "took cf t st (False, st') \<longleftrightarrow> st' = st"
  by (simp_all add: took_def)

lemma same_lines_refl [simp]: "same_lines st st"
  by (simp add: same_lines_def)

lemma same_lines_trans: "same_lines a b \<Longrightarrow> same_lines b c \<Longrightarrow> same_lines a c"
  by (simp add: same_lines_def)

lemma bgrows_refl [simp]: "bgrows cf st st"
  by (simp add: bgrows_def)

lemma bgrows_trans: "bgrows cf a b \<Longrightarrow> bgrows cf b c \<Longrightarrow> bgrows cf a c"
  unfolding bgrows_def using same_lines_trans btoks_trans by blast

lemma bgrows_simps [simp]:
  "bgrows cf st (st'\<lparr>bl_line := l\<rparr>) \<longleftrightarrow> bgrows cf st st'" "bgrows cf st (st'\<lparr>bl_tight := b\<rparr>) \<longleftrightarrow> bgrows cf st st'"
  "bgrows cf (st\<lparr>bl_line := l\<rparr>) st' \<longleftrightarrow> bgrows cf st st'" "bgrows cf (st\<lparr>bl_tight := b\<rparr>) st' \<longleftrightarrow> bgrows cf st st'"
  by (simp_all add: bgrows_def same_lines_def)

lemma bl_fields [simp]:
  "bl_line (bl_push t st) = bl_line st" "bl_line (push_inline c l st) = bl_line st" "bl_line (bl_open t st) = bl_line st"
  "bl_line (bl_close t st) = bl_line st" "bl_line (set_marks i b s st) = bl_line st"
  "bl_level (bl_push t st) = bl_level st" "bl_level (push_inline c l st) = bl_level st" "bl_level (bl_open t st) = bl_level st + 1"
  "bl_level (bl_close t st) = bl_level st - 1" "bl_level (set_marks i b s st) = bl_level st"
  "bl_tokens (bl_push t st) = bl_tokens st @ [(t, bl_level st)]" "bl_tokens (bl_open t st) = bl_tokens st @ [(t, bl_level st)]"
  "bl_tokens (bl_close t st) = bl_tokens st @ [(t, bl_level st - 1)]" "bl_tokens (set_marks i b s st) = bl_tokens st"
  "bl_tokens (push_inline c l st) = bl_tokens st @ [(Tok (Inline c []), l)]"
  by (simp_all add: bl_push_def bl_open_def bl_close_def push_inline_def set_marks_def)

lemma bl_kept [simp]:
  "bl_b (bl_push t st) = bl_b st" "bl_b (bl_open t st) = bl_b st" "bl_b (bl_close t st) = bl_b st" "bl_b (push_inline c l st) = bl_b st"
  "bl_e (bl_push t st) = bl_e st" "bl_e (bl_open t st) = bl_e st" "bl_e (bl_close t st) = bl_e st" "bl_e (push_inline c l st) = bl_e st"
  "bl_s (bl_push t st) = bl_s st" "bl_s (bl_open t st) = bl_s st" "bl_s (bl_close t st) = bl_s st" "bl_s (push_inline c l st) = bl_s st"
  "is_empty (bl_open t st) = is_empty st"
  by (simp_all add: bl_push_def bl_open_def bl_close_def push_inline_def is_empty_def fun_eq_iff)

lemma bl_kept_more [simp]:
  "bl_src (bl_push t st) = bl_src st" "bl_src (bl_open t st) = bl_src st" "bl_src (bl_close t st) = bl_src st"
  "bl_src (push_inline c l st) = bl_src st" "bl_src (set_marks i b s st) = bl_src st"
  "bl_indent (bl_push t st) = bl_indent st" "bl_indent (bl_open t st) = bl_indent st" "bl_indent (bl_close t st) = bl_indent st"
  "bl_indent (push_inline c l st) = bl_indent st" "bl_indent (set_marks i b s st) = bl_indent st"
  "bl_max (bl_push t st) = bl_max st" "bl_max (bl_open t st) = bl_max st" "bl_max (bl_close t st) = bl_max st"
  "bl_max (push_inline c l st) = bl_max st" "bl_max (set_marks i b s st) = bl_max st"
  "bl_parent (bl_push t st) = bl_parent st" "bl_parent (bl_open t st) = bl_parent st" "bl_parent (bl_close t st) = bl_parent st"
  "bl_parent (push_inline c l st) = bl_parent st" "bl_parent (set_marks i b s st) = bl_parent st"
  "bl_dd (bl_push t st) = bl_dd st" "bl_dd (bl_open t st) = bl_dd st" "bl_dd (bl_close t st) = bl_dd st"
  "bl_dd (push_inline c l st) = bl_dd st" "bl_dd (set_marks i b s st) = bl_dd st"
  "bl_e (set_marks i b s st) = bl_e st" "bl_b (set_marks i b s st) = (bl_b st)[i := b]" "bl_s (set_marks i b s st) = (bl_s st)[i := s]"
  by (simp_all add: bl_push_def bl_open_def bl_close_def push_inline_def set_marks_def)

text \<open>Rules that add tokens without nesting.\<close>

lemma bgrows_push: "block_bracket t = None \<Longrightarrow> block_ok cf t \<Longrightarrow> bgrows cf st st' \<Longrightarrow> bgrows cf st (bl_push t st')"
  by (simp add: bgrows_def same_lines_def btoks_single)

lemma code_lines_ge: "code_lines st n r o' = (r', x) \<Longrightarrow> r \<le> r'"
proof (induction st n r o' rule: code_lines.induct)
  case (1 st n r o')
  then show ?case by (subst (asm) (3) code_lines.simps) (auto split: if_splits)
qed

lemma rule_code_took: "took cf t st (rule_code t n st)"
proof -
  obtain r x where r: "code_lines st n (t + 1) (t + 1) = (r, x)" by (cases "code_lines st n (t + 1) (t + 1)")
  then show ?thesis using code_lines_ge [OF r] by (simp add: rule_code_def block_ok_def bgrows_push)
qed

lemma fence_end_ge: "fence_end st n c i u = (v, b) \<Longrightarrow> u \<le> v"
proof (induction st n c i u rule: fence_end.induct)
  case (1 st n c i u)
  note ih = 1(1) [OF _ refl refl]
  show ?case using ih 1(2) by (subst (asm) (2) fence_end.simps) (auto simp: Let_def split: if_splits)
qed

lemma rule_fences_took: "took cf t st (rule_fences t n False st)"
proof -
  have g: "t < v" "t < Suc v" if "fence_end st n c i (Suc t) = (v, b)" for c i v b
    using fence_end_ge [OF that] by simp_all
  show ?thesis
    by (auto simp: rule_fences_def Let_def block_ok_def bgrows_push split: option.splits prod.splits dest: g)
qed

lemma rule_hr_took: "took cf t st (rule_hr t False st)"
  by (auto simp: rule_hr_def Let_def block_ok_def bgrows_push split: option.splits)

text \<open>An inline token between an opening and a closing token.\<close>

lemma bgrows_element:
  assumes "block_bracket op = Some (True, k)" "block_bracket cl = Some (False, k)" "block_ok cf op" "block_ok cf cl"
  shows "bgrows cf st (bl_push cl (push_inline c l (bl_push op st)))" "bgrows cf st (bl_push cl (bl_push op st))"
proof -
  have "btoks cf (A @ [(op, l1)]) (A @ [(op, l1), (Tok (Inline c []), l)])" for A l1
    using btoks_single [OF _ _ btoks_refl, of "Tok (Inline c [])" cf "A @ [(op, l1)]" l] by (simp add: block_ok_def)
  from btoks_wrap [OF this assms] show "bgrows cf st (bl_push cl (push_inline c l (bl_push op st)))"
    by (simp add: bgrows_def same_lines_def)
  show "bgrows cf st (bl_push cl (bl_push op st))"
    using btoks_wrap [OF btoks_refl assms] by (simp add: bgrows_def same_lines_def)
qed

lemma rule_heading_took: "took cf t st (rule_heading t False st)"
proof -
  have h: "bgrows cf st (bl_push (Tok (HeadingClose i)) (push_inline c l (bl_push (Tok (HeadingOpen i)) (st\<lparr>bl_line := k\<rparr>))))"
    "bgrows cf st (bl_push (Tok (HeadingClose i)) (bl_push (Tok (HeadingOpen i)) (st\<lparr>bl_line := k\<rparr>)))" for i c l k
    using bgrows_element [of "Tok (HeadingOpen i)" "15 + i" "Tok (HeadingClose i)" cf "st\<lparr>bl_line := k\<rparr>"]
    by (simp_all add: block_ok_def)
  show ?thesis using h by (auto simp: rule_heading_def Let_def split: prod.splits)
qed

lemma rule_lheading_took: "took cf t st (rule_lheading t n st)"
proof -
  have h: "bgrows cf st (bl_push (Tok (HeadingClose i)) (push_inline c l (bl_push (Tok (HeadingOpen i)) (st\<lparr>bl_line := k\<rparr>))))" for i c l k
    using bgrows_element(1) [of "Tok (HeadingOpen i)" "15 + i" "Tok (HeadingClose i)" cf "st\<lparr>bl_line := k\<rparr>"]
    by (simp add: block_ok_def)
  show ?thesis using h by (auto simp: rule_lheading_def Let_def split: option.splits)
qed

lemma next_empty_ge: "l \<le> next_empty st l"
  by (induction st l rule: next_empty.induct) (subst next_empty.simps, auto)

lemma rule_htmlblock_took: "took cf t st (rule_htmlblock (bc_html cf) t False st)"
  using next_empty_ge [of "t + 1" st]
  by (auto simp: rule_htmlblock_def Let_def block_ok_def intro!: bgrows_push)

lemma paragraph_end_ge: "s \<le> paragraph_end ends st s"
  by (induction ends st s rule: paragraph_end.induct) (subst paragraph_end.simps, auto)

lemma rule_paragraph_took: "took cf t st (rule_paragraph ends t st)" "fst (rule_paragraph ends t st)"
proof -
  have p: "bgrows cf st (bl_push (Tok (ParagraphClose False)) (push_inline c l (bl_push (Tok (ParagraphOpen False)) (st\<lparr>bl_line := k\<rparr>))))" for c l k
    using bgrows_element(1) [of "Tok (ParagraphOpen False)" 4 "Tok (ParagraphClose False)" cf "st\<lparr>bl_line := k\<rparr>"]
    by (simp add: block_ok_def)
  show "took cf t st (rule_paragraph ends t st)" "fst (rule_paragraph ends t st)"
    using p paragraph_end_ge [of "t + 1" ends st] by (auto simp: rule_paragraph_def Let_def)
qed

subsection \<open>Tables\<close>

lemma bgrows_wrap:
  assumes "bgrows cf (bl_open op st) st'"
    and "block_bracket op = Some (True, k)" "block_bracket cl = Some (False, k)" "block_ok cf op" "block_ok cf cl"
  shows "bgrows cf st (bl_close cl st')"
  using assms(1) btoks_wrap [OF _ assms(2-5), of "bl_tokens st" "bl_level st" "bl_tokens st'" "bl_level st"]
  by (simp add: bgrows_def same_lines_def)

lemma push_cell_grows:
  assumes "\<And>a. 34 \<notin> set a \<Longrightarrow> block_bracket (Tok (op a)) = Some (True, k) \<and> block_ok cf (Tok (op a))"
    and "block_bracket (Tok cl) = Some (False, k)" "block_ok cf (Tok cl)" "list_all (\<lambda>a. 34 \<notin> set a) aligns"
  shows "bgrows cf st (push_cell op cl aligns i c st)"
proof -
  let ?a = "if i < length aligns then aligns ! i else []"
  have a: "34 \<notin> set ?a" using assms(4) by (auto simp: list_all_length)
  let ?st = "bl_open (Tok (op ?a)) st"
  have "bgrows cf ?st (push_inline c (bl_level ?st) ?st)"
    using btoks_single [OF _ _ btoks_refl, of "Tok (Inline c [])" cf "bl_tokens ?st" "bl_level ?st"]
    by (simp add: bgrows_def same_lines_def block_ok_def)
  from bgrows_wrap [OF this] show ?thesis using assms(1) [OF a] assms(2,3) unfolding push_cell_def Let_def by blast
qed

lemma push_row_grows:
  assumes "\<And>a. 34 \<notin> set a \<Longrightarrow> block_bracket (Tok (op a)) = Some (True, k) \<and> block_ok cf (Tok (op a))"
    and "block_bracket (Tok cl) = Some (False, k)" "block_ok cf (Tok cl)" "list_all (\<lambda>a. 34 \<notin> set a) aligns"
  shows "bgrows cf st (push_row op cl aligns cells st)"
proof -
  have "bgrows cf st (fold (\<lambda>(i, c). push_cell op cl aligns i c) xs st)" for xs st
  proof (induction xs arbitrary: st)
    case (Cons x xs)
    show ?case using bgrows_trans [OF push_cell_grows [OF assms] Cons.IH] by (cases x) simp
  qed simp
  then show ?thesis unfolding push_row_def by (intro bgrows_wrap [where op = "Tok TrOpen" and k = 8]) (simp_all add: block_ok_def)
qed

lemma push_rows_grows:
  assumes "list_all (\<lambda>a. 34 \<notin> set a) aligns" "push_rows n aligns l st = (l', st')"
  shows "bgrows cf st st' \<and> l \<le> l'"
  using assms
proof (induction n aligns l st rule: push_rows.induct)
  case (1 n aligns l st)
  let ?go = "l < n \<and> \<not> tshift st l < bl_indent st \<and> 124 \<in> set (js_trim (row_text st l))"
  let ?st = "push_row TdOpen TdClose aligns (map cell_text (row_cells (js_trim (row_text st l)))) st"
  show ?case
  proof (cases ?go)
    case True
    have r: "bgrows cf st ?st" using 1(2) by (intro push_row_grows [where k = 10]) (simp_all add: block_ok_def)
    have "push_rows n aligns (l + 1) ?st = (l', st')" using 1(3) True by (subst (asm) push_rows.simps) (simp add: Let_def)
    then show ?thesis using 1(1) [OF refl True 1(2)] bgrows_trans [OF r] by auto
  next
    case False
    then show ?thesis using 1(3) by (subst (asm) push_rows.simps) (auto simp: Let_def)
  qed
qed

lemma column_align_plain: "34 \<notin> set (column_align d)"
  by (simp add: column_align_def js_def)

lemma rule_table_took: "took cf t st (rule_table t n False st)"
proof -
  have al: "list_all (\<lambda>a. 34 \<notin> set a) aligns" if "table_aligns a = Some aligns" for a aligns
    using that column_align_plain by (auto simp: table_aligns_def Let_def list_all_iff split: if_splits)
  have body: "bgrows cf st (bl_close (Tok TableClose) (bl_close (Tok TbodyClose) st')) \<and> t < l"
    if a: "list_all (\<lambda>a. 34 \<notin> set a) aligns"
      and r: "push_rows n aligns (Suc (Suc t)) (bl_open (Tok TbodyOpen) (bl_close (Tok TheadClose) (push_row ThOpen ThClose aligns cells
                (bl_open (Tok TheadOpen) (bl_open (Tok TableOpen) st))))) = (l, st')" for aligns cells l st'
  proof -
    let ?a = "bl_open (Tok TableOpen) st"
    let ?b = "bl_close (Tok TheadClose) (push_row ThOpen ThClose aligns cells (bl_open (Tok TheadOpen) ?a))"
    have "bgrows cf (bl_open (Tok TheadOpen) ?a) (push_row ThOpen ThClose aligns cells (bl_open (Tok TheadOpen) ?a))"
      using a by (intro push_row_grows [where k = 9]) (simp_all add: block_ok_def)
    then have ab: "bgrows cf ?a ?b" by (rule bgrows_wrap [where k = 6]) (simp_all add: block_ok_def)
    have rows: "bgrows cf (bl_open (Tok TbodyOpen) ?b) st'" "t < l" using push_rows_grows [OF a r, of cf] by simp_all
    have "bgrows cf ?b (bl_close (Tok TbodyClose) st')" using rows(1) by (rule bgrows_wrap [where k = 7]) (simp_all add: block_ok_def)
    from bgrows_trans [OF ab this] have "bgrows cf st (bl_close (Tok TableClose) (bl_close (Tok TbodyClose) st'))"
      by (rule bgrows_wrap [where k = 5]) (simp_all add: block_ok_def)
    then show ?thesis using rows(2) by blast
  qed
  show ?thesis unfolding rule_table_def Let_def
    by (auto split: option.splits prod.splits dest!: al dest: body)
qed

subsection \<open>Marks that are moved and put back\<close>

lemma mark_update [simp]: "i < length xs \<Longrightarrow> mark (xs[i := v]) j = (if j = i then v else mark xs j)"
  by (simp add: mark_def nth_list_update)

lemma mark_eqI:
  assumes "length xs = length ys" "\<And>j. mark xs j = mark ys j" shows "xs = ys"
proof (rule nth_equalityI [OF assms(1)])
  fix i assume "i < length xs"
  then show "xs ! i = ys ! i" using assms(1) assms(2) [of i] by (simp add: mark_def)
qed

lemma update_mark [simp]: "xs[i := v, i := mark xs i] = xs" "xs[i := mark xs i] = xs"
  by (auto simp: mark_def list_update_beyond)

lemma skip_chars_ge: "p \<le> skip_chars st p c"
  by (induction st p c rule: skip_chars.induct) (subst skip_chars.simps, auto)

lemma skip_spaces_ge: "p \<le> skip_spaces st p"
  by (simp add: skip_spaces_def skip_chars_ge)

lemma skip_spaces_gt: "bchar st p = Some 32 \<Longrightarrow> p < skip_spaces st p"
  unfolding skip_spaces_def using skip_chars_ge [of "p + 1" st 32] by (subst skip_chars.simps) simp

text \<open>A state with other marks below a line.\<close>

definition remarked :: "nat \<Rightarrow> nat \<Rightarrow> bl_state \<Rightarrow> bl_state \<Rightarrow> bool" where
  "remarked t o' st st' \<longleftrightarrow> (\<exists>b s. st' = st\<lparr>bl_b := b, bl_s := s\<rparr> \<and> length b = length (bl_b st) \<and> length s = length (bl_s st)
     \<and> (\<forall>j. j < t \<or> o' \<le> j \<longrightarrow> mark b j = bmark st j \<and> mark s j = tshift st j))"

lemma remarked_refl: "remarked t o' st st"
  unfolding remarked_def by (intro exI [of _ "bl_b st"] exI [of _ "bl_s st"]) simp

lemma remarked_step:
  assumes "remarked (t + 1) o' (set_marks t b s st) st'" "t < length (bl_b st)" "t < length (bl_s st)" "t < o'"
  shows "remarked t o' st st'"
proof -
  obtain b' s' where st': "st' = (set_marks t b s st)\<lparr>bl_b := b', bl_s := s'\<rparr>" "length b' = length (bl_b st)" "length s' = length (bl_s st)"
    and j: "\<forall>j. j < t + 1 \<or> o' \<le> j \<longrightarrow> mark b' j = bmark (set_marks t b s st) j \<and> mark s' j = tshift (set_marks t b s st) j"
    using assms(1) by (auto simp: remarked_def)
  have "mark b' j = bmark st j \<and> mark s' j = tshift st j" if "j < t \<or> o' \<le> j" for j
  proof -
    have "j < t + 1 \<or> o' \<le> j" "j \<noteq> t" using that assms(4) by auto
    then show ?thesis using j assms(2,3) by auto
  qed
  then show ?thesis using st' unfolding remarked_def set_marks_def by (intro exI [of _ b'] exI [of _ s']) simp
qed

lemma restore_marks_spec:
  "o' \<le> length (bl_b st) \<Longrightarrow> o' \<le> length (bl_s st) \<Longrightarrow>
    \<exists>b s. restore_marks t (map (\<lambda>j. (B j, S j)) [t..<o']) st = st\<lparr>bl_b := b, bl_s := s\<rparr>
      \<and> length b = length (bl_b st) \<and> length s = length (bl_s st)
      \<and> (\<forall>j. mark b j = (if t \<le> j \<and> j < o' then B j else bmark st j))
      \<and> (\<forall>j. mark s j = (if t \<le> j \<and> j < o' then S j else tshift st j))"
proof (induction "o' - t" arbitrary: t st)
  case 0
  then show ?case by (intro exI [of _ "bl_b st"] exI [of _ "bl_s st"]) simp
next
  case (Suc k)
  let ?st = "set_marks t (B t) (S t) st"
  have k: "k = o' - (t + 1)" using Suc(2) by simp
  have t: "t < o'" "t < length (bl_b st)" "t < length (bl_s st)" using Suc by simp_all
  then have e: "restore_marks t (map (\<lambda>j. (B j, S j)) [t..<o']) st = restore_marks (t + 1) (map (\<lambda>j. (B j, S j)) [t + 1..<o']) ?st"
    by (simp add: upt_conv_Cons)
  obtain b s where bs: "restore_marks (t + 1) (map (\<lambda>j. (B j, S j)) [t + 1..<o']) ?st = ?st\<lparr>bl_b := b, bl_s := s\<rparr>"
    "length b = length (bl_b st)" "length s = length (bl_s st)"
    and m: "\<forall>j. mark b j = (if t + 1 \<le> j \<and> j < o' then B j else bmark ?st j)"
      "\<forall>j. mark s j = (if t + 1 \<le> j \<and> j < o' then S j else tshift ?st j)"
    using Suc(1) [OF k, of ?st] Suc(3-) by (auto simp del: mark_update)
  have "mark b j = (if t \<le> j \<and> j < o' then B j else bmark st j)" "mark s j = (if t \<le> j \<and> j < o' then S j else tshift st j)" for j
    using m t by auto
  then show ?case unfolding e bs(1) using bs(2,3) by (intro exI [of _ b] exI [of _ s]) (simp add: set_marks_def)
qed

text \<open>Saving the marks of a range of lines and restoring them behind a step that keeps the lines.\<close>

lemma restore_same_lines:
  assumes r: "remarked t o' st st1" and k: "bl_b st2 = bl_b st1" "bl_s st2 = bl_s st1"
    and o': "o' \<le> length (bl_b st)" "o' \<le> length (bl_s st)"
  shows "restore_marks t (map (\<lambda>j. (bmark st j, tshift st j)) [t..<o']) st2 = st2\<lparr>bl_b := bl_b st, bl_s := bl_s st\<rparr>"
proof -
  obtain b1 s1 where st1: "st1 = st\<lparr>bl_b := b1, bl_s := s1\<rparr>" "length b1 = length (bl_b st)" "length s1 = length (bl_s st)"
    and j1: "\<forall>j. j < t \<or> o' \<le> j \<longrightarrow> mark b1 j = bmark st j \<and> mark s1 j = tshift st j"
    using r by (auto simp: remarked_def)
  have len: "o' \<le> length (bl_b st2)" "o' \<le> length (bl_s st2)" using k st1 o' by simp_all
  obtain b s where bs: "restore_marks t (map (\<lambda>j. (bmark st j, tshift st j)) [t..<o']) st2 = st2\<lparr>bl_b := b, bl_s := s\<rparr>"
    "length b = length (bl_b st2)" "length s = length (bl_s st2)"
    and m: "\<forall>j. mark b j = (if t \<le> j \<and> j < o' then bmark st j else bmark st2 j)"
      "\<forall>j. mark s j = (if t \<le> j \<and> j < o' then tshift st j else tshift st2 j)"
    using restore_marks_spec [OF len, of t "\<lambda>j. bmark st j" "\<lambda>j. tshift st j"] by auto
  have "b = bl_b st" by (rule mark_eqI) (use bs st1 k m j1 in auto)
  moreover have "s = bl_s st" by (rule mark_eqI) (use bs st1 k m j1 in auto)
  ultimately show ?thesis using bs(1) by blast
qed

subsection \<open>Quotes\<close>

lemma quote_marks_set:
  assumes "quote_marks st t = (st', i)" obtains v s where "st' = set_marks t v s st" "0 \<le> s"
proof -
  let ?v = "if bchar st (bmark st t + tshift st t + 1) = Some 32 then bmark st t + tshift st t + 1 + 1 else bmark st t + tshift st t + 1"
  let ?w = "if ?v < emark st t then skip_spaces st ?v else ?v"
  have "st' = set_marks t ?v (?w - ?v) st" using assms unfolding quote_marks_def Let_def prod.inject by blast
  moreover have "0 \<le> ?w - ?v" using skip_spaces_ge [of ?v st] by simp
  ultimately show thesis by (rule that)
qed

lemma quote_lines_spec:
  assumes "quote_lines ends n o' i saved st = (e, saved', st')" "n \<le> length (bl_b st)" "n \<le> length (bl_s st)" "o' \<le> n"
  shows "o' \<le> e \<and> e \<le> n \<and> remarked o' e st st' \<and> saved' = saved @ map (\<lambda>j. (bmark st j, tshift st j)) [o'..<e]"
  using assms
proof (induction ends n o' i saved st rule: quote_lines.induct)
  case (1 ends n o' i saved st)
  let ?now = "saved @ [(bmark st o', tshift st o')]"
  have step: "o' \<le> e \<and> e \<le> n \<and> remarked o' e st st' \<and> saved' = saved @ map (\<lambda>j. (bmark st j, tshift st j)) [o'..<e]"
    if l: "o' < n" and st1: "st1 = set_marks o' b s st"
      and r: "o' + 1 \<le> e \<and> e \<le> n \<and> remarked (o' + 1) e st1 st' \<and> saved' = ?now @ map (\<lambda>j. (bmark st1 j, tshift st1 j)) [o' + 1..<e]"
    for b s st1
  proof -
    have len: "o' < length (bl_b st)" "o' < length (bl_s st)" using l 1 by simp_all
    have "map (\<lambda>j. (bmark st1 j, tshift st1 j)) [o' + 1..<e] = map (\<lambda>j. (bmark st j, tshift st j)) [o' + 1..<e]"
      using len by (simp add: st1)
    then have "saved' = saved @ map (\<lambda>j. (bmark st j, tshift st j)) [o'..<e]" using r by (simp add: upt_conv_Cons)
    moreover have "remarked o' e st st'"
    proof (rule remarked_step [OF _ len])
      show "remarked (o' + 1) e (set_marks o' b s st) st'" "o' < e" using r st1 by simp_all
    qed
    ultimately show ?thesis using r by simp
  qed
  show ?case
  proof (cases "\<not> o' < n \<or> is_empty st o'")
    case True
    then have "(o', saved, st) = (e, saved', st')" using 1(3) by (subst (asm) quote_lines.simps) auto
    then show ?thesis using 1(6) remarked_refl by simp
  next
    case False
    then have l: "o' < n" by simp
    show ?thesis
    proof (cases "bchar st (bmark st o' + tshift st o') = Some 62")
      case True
      obtain st1 i1 where q: "quote_marks st o' = (st1, i1)" by (cases "quote_marks st o'")
      obtain b s where st1: "st1 = set_marks o' b s st" using quote_marks_set [OF q] by blast
      have "quote_lines ends n (o' + 1) i1 ?now st1 = (e, saved', st')"
        using 1(3) False True q by (subst (asm) quote_lines.simps) (simp add: Let_def)
      then have "o' + 1 \<le> e \<and> e \<le> n \<and> remarked (o' + 1) e st1 st' \<and> saved' = ?now @ map (\<lambda>j. (bmark st1 j, tshift st1 j)) [o' + 1..<e]"
        using 1(1) [OF False refl True q [symmetric]] 1(4,5) l st1 by simp
      then show ?thesis by (rule step [OF l st1])
    next
      case nq: False
      show ?thesis
      proof (cases "i \<or> ends ChBlockquote st o' n")
        case True
        then have "(o', saved, st) = (e, saved', st')" using 1(3) False nq by (subst (asm) quote_lines.simps) (auto simp: Let_def)
        then show ?thesis using 1(6) remarked_refl by simp
      next
        case no: False
        let ?st1 = "set_marks o' (bmark st o') (-1337) st"
        have "quote_lines ends n (o' + 1) i ?now ?st1 = (e, saved', st')"
          using 1(3) False nq no by (subst (asm) quote_lines.simps) (simp add: Let_def)
        then have "o' + 1 \<le> e \<and> e \<le> n \<and> remarked (o' + 1) e ?st1 st' \<and> saved' = ?now @ map (\<lambda>j. (bmark ?st1 j, tshift ?st1 j)) [o' + 1..<e]"
          using 1(2) [OF False refl nq no] 1(4,5) l by simp
        then show ?thesis by (rule step [OF l refl])
      qed
    qed
  qed
qed

lemma remarked_fields:
  assumes "remarked t o' st st'"
  shows "bl_src st' = bl_src st" "bl_e st' = bl_e st" "bl_indent st' = bl_indent st" "bl_max st' = bl_max st"
    "bl_parent st' = bl_parent st" "bl_dd st' = bl_dd st" "bl_level st' = bl_level st" "bl_tokens st' = bl_tokens st"
    "length (bl_b st') = length (bl_b st)" "length (bl_s st') = length (bl_s st)"
  using assms by (auto simp: remarked_def)

lemma rule_blockquote_took:
  assumes "tok_good cf d tok" "ready cf st t n" "bc_nesting cf < bl_level st + Suc d" "BDeflist \<notin> set (bc_rules cf)"
  shows "yields (rule_blockquote cf ends tok t n False st) (took cf t st)"
proof (cases "emark st t < bmark st t + tshift st t \<or> bchar st (bmark st t + tshift st t) \<noteq> Some 62 \<or> bc_nesting cf \<le> bl_level st")
  case True
  then show ?thesis by (auto simp: rule_blockquote_def Let_def)
next
  case False
  let ?st0 = "st\<lparr>bl_indent := 0\<rparr>"
  obtain st1 i where q: "quote_marks ?st0 t = (st1, i)" by (cases "quote_marks ?st0 t")
  obtain v s where st1: "st1 = set_marks t v s ?st0" and s: "0 \<le> s" using quote_marks_set [OF q] by blast
  obtain e saved st2 where ql: "quote_lines ends n (t + 1) i [(bmark st t, tshift st t)] st1 = (e, saved, st2)"
    by (cases "quote_lines ends n (t + 1) i [(bmark st t, tshift st t)] st1") auto
  have len: "n \<le> length (bl_b st)" "n \<le> length (bl_s st)" "t < n" using assms(2) by (simp_all add: ready_def lines_ok_def)
  have spec: "t + 1 \<le> e" "e \<le> n" "remarked (t + 1) e st1 st2"
    "saved = [(bmark st t, tshift st t)] @ map (\<lambda>j. (bmark st1 j, tshift st1 j)) [t + 1..<e]"
    using quote_lines_spec [OF ql] len by (simp_all add: st1)
  have saved: "saved = map (\<lambda>j. (bmark st j, tshift st j)) [t..<e]"
    using spec(1,4) len by (simp add: st1 upt_conv_Cons)
  have r: "remarked t e ?st0 st2"
    by (rule remarked_step [OF spec(3) [unfolded st1]]) (use len spec in simp_all)
  let ?st3 = "bl_open (Tok BlockquoteOpen) (st2\<lparr>bl_parent := InBlockquote\<rparr>)"
  note f = remarked_fields [OF r]
  have "is_empty ?st3 (bl_max ?st3)"
    using assms(2) spec(2) r f by (auto simp: is_empty_def ready_def lines_ok_def remarked_def bl_open_def bl_push_def)
  then have ready: "ready cf ?st3 t e" using assms(2,4) spec f by (simp add: ready_def lines_ok_def)
  have ts: "tshift ?st3 t = s"
  proof -
    have "tshift st2 t = tshift st1 t" using spec(3) by (auto simp: remarked_def)
    then show ?thesis using len by (simp add: st1)
  qed
  have run: "yields (tok ?st3 t e) (\<lambda>st'. bgrows cf ?st3 st' \<and> t < bl_line st')"
    using f assms(3) False ts s by (intro yields_mono [OF tok_goodD [OF assms(1) ready]]) auto
  have done': "took cf t st (True, (restore_marks t saved (bl_close (Tok BlockquoteClose) st'))\<lparr>bl_parent := bl_parent st, bl_indent := bl_indent st\<rparr>)"
    if g: "bgrows cf ?st3 st'" "t < bl_line st'" for st'
  proof -
    have same: "same_lines ?st3 st'" using g(1) by (simp add: bgrows_def)
    have "restore_marks t saved (bl_close (Tok BlockquoteClose) st') = (bl_close (Tok BlockquoteClose) st')\<lparr>bl_b := bl_b st, bl_s := bl_s st\<rparr>"
      using restore_same_lines [OF r, of "bl_close (Tok BlockquoteClose) st'"] same spec(2) len saved by (simp add: same_lines_def)
    moreover have "btoks cf (bl_tokens st) (bl_tokens (bl_close (Tok BlockquoteClose) st'))"
      using g(1) f by (simp add: bgrows_def) (rule btoks_wrap [where k = 0], auto simp: block_ok_def)
    ultimately show ?thesis using same f g(2) by (simp add: bgrows_def same_lines_def)
  qed
  have "yields (Option.bind (tok ?st3 t e) (\<lambda>st'.
      Some (True, (restore_marks t saved (bl_close (Tok BlockquoteClose) st'))\<lparr>bl_parent := bl_parent st, bl_indent := bl_indent st\<rparr>)))
      (took cf t st)"
    by (rule yields_bind [OF run]) (use done' in simp)
  then show ?thesis using False ql unfolding Suc_eq_plus1 [symmetric] by (simp add: rule_blockquote_def Let_def q)
qed

end
