(* ===== verification/MdBlockRun.thy ===== *)
theory MdBlockRun
  imports MdBlocks
begin

section \<open>The block parser comes to the end (swagger-ui-bundle.js, Remarkable)\<close>

text \<open>
  The rules that call the tokenizer, the loop of the tokenizer, and the parser. The induction is on the
  nesting that is left; a call consumes its line, so the loops end before their bounds.
\<close>

subsection \<open>A call with the marks of one line moved\<close>

text \<open>The states around an inner call: an element is opened and the line gets other marks.\<close>

definition moved :: "btoken \<Rightarrow> nat \<Rightarrow> int \<Rightarrow> int \<Rightarrow> bl_state \<Rightarrow> bl_state \<Rightarrow> bool" where
  "moved op t b s st st0 \<longleftrightarrow> bl_src st0 = bl_src st \<and> bl_b st0 = (bl_b st)[t := b] \<and> bl_e st0 = bl_e st \<and> bl_s st0 = (bl_s st)[t := s]
     \<and> bl_max st0 = bl_max st \<and> bl_level st0 = bl_level st + 1 \<and> bl_tokens st0 = bl_tokens st @ [(op, bl_level st)]"

definition put_back :: "btoken \<Rightarrow> nat \<Rightarrow> bl_state \<Rightarrow> bl_state \<Rightarrow> bl_state \<Rightarrow> bool" where
  "put_back cl t st st' st3 \<longleftrightarrow> bl_src st3 = bl_src st' \<and> bl_b st3 = (bl_b st')[t := bmark st t] \<and> bl_e st3 = bl_e st'
     \<and> bl_s st3 = (bl_s st')[t := tshift st t] \<and> bl_max st3 = bl_max st' \<and> bl_level st3 = bl_level st' - 1
     \<and> bl_tokens st3 = bl_tokens st' @ [(cl, bl_level st' - 1)] \<and> bl_indent st3 = bl_indent st \<and> bl_parent st3 = bl_parent st
     \<and> bl_dd st3 = bl_dd st"

lemma moved_call:
  assumes "tok_good cf d tok" "ready cf st t n" "bc_nesting cf < bl_level st + Suc d" "0 < d"
    and m: "moved op t b s st st0" "0 \<le> bl_indent st0" "emark st t \<le> b + s \<or> bl_indent st0 \<le> s"
  shows "yields (tok st0 t n) (\<lambda>st'. bgrows cf st0 st' \<and> t < bl_line st')"
proof -
  have r: "ready cf st0 t n" using assms(2) m by (simp add: ready_def lines_ok_def moved_def is_empty_def)
  have len: "t < length (bl_b st)" "t < length (bl_s st)" using assms(2) by (simp_all add: ready_def lines_ok_def)
  have "is_empty st0 t \<or> bl_indent st0 \<le> tshift st0 t" using m len by (auto simp: is_empty_def moved_def)
  moreover have "bc_nesting cf < bl_level st0 + d" using assms(3) m(1) by (simp add: moved_def)
  ultimately show ?thesis using assms(4) by (intro yields_mono [OF tok_goodD [OF assms(1) r]]) auto
qed

lemma moved_back:
  assumes "ready cf st t n" "moved op t b s st st0" "bgrows cf st0 st'" "put_back cl t st st' st3"
    and "block_bracket op = Some (True, k)" "block_bracket cl = Some (False, k)" "block_ok cf op" "block_ok cf cl"
  shows "bgrows cf st st3"
proof -
  have "btoks cf (bl_tokens st) (bl_tokens st3)"
    using assms(2-4) btoks_wrap [OF _ assms(5-8), of "bl_tokens st" "bl_level st" "bl_tokens st'"]
    by (simp add: moved_def bgrows_def put_back_def)
  moreover have "same_lines st st3" using assms(2-4) by (simp add: moved_def bgrows_def put_back_def same_lines_def)
  ultimately show ?thesis by (simp add: bgrows_def)
qed

lemma ready_grows: "bgrows cf st st' \<Longrightarrow> t \<le> a \<Longrightarrow> a < n \<Longrightarrow> ready cf st t n \<Longrightarrow> ready cf st' a n"
  by (simp add: bgrows_def same_lines_def ready_def lines_ok_def is_empty_def)

lemma further_step:
  fixes t a :: nat
  assumes "bgrows cf st st1" "t < a" "case x of (y, f, st') \<Rightarrow> bgrows cf st1 st' \<and> a < f"
  shows "case x of (y, f, st') \<Rightarrow> bgrows cf st st' \<and> t < f"
  using assms bgrows_trans [OF assms(1)] by (cases x) auto

lemma bgrows_same:
  assumes "bgrows cf st st'"
  shows "bl_level st' = bl_level st" "bl_indent st' = bl_indent st" "bl_b st' = bl_b st" "bl_e st' = bl_e st" "bl_s st' = bl_s st"
    "bl_max st' = bl_max st" "bl_parent st' = bl_parent st" "bl_src st' = bl_src st"
  using assms by (simp_all add: bgrows_def same_lines_def)

lemma mark_tight_grows: "bgrows cf st st' \<Longrightarrow> bgrows cf st (mark_tight (length (bl_tokens st)) st')"
  unfolding bgrows_def using mark_tight_btoks [of cf "bl_tokens st" st'] by (simp add: same_lines_def mark_tight_def)

text \<open>The markers depend on the text and the marks of the lines only.\<close>

definition same_text :: "bl_state \<Rightarrow> bl_state \<Rightarrow> bool" where
  "same_text st st' \<longleftrightarrow> bl_src st' = bl_src st \<and> bl_b st' = bl_b st \<and> bl_e st' = bl_e st \<and> bl_s st' = bl_s st \<and> bl_indent st' = bl_indent st"

lemma same_text_bchar: "same_text st st' \<Longrightarrow> bchar st' = bchar st"
  by (simp add: bchar_def same_text_def fun_eq_iff)

lemma same_text_skip: "same_text st st' \<Longrightarrow> skip_chars st' p c = skip_chars st p c"
proof (induction st p c rule: skip_chars.induct)
  case (1 st p c)
  then show ?case using same_text_bchar [OF 1(2)] by (subst (1 2) skip_chars.simps) simp
qed

lemma same_text_digits: "same_text st st' \<Longrightarrow> digits_end st' o' r = digits_end st o' r"
proof (induction st o' r rule: digits_end.induct)
  case (1 st o' r)
  then show ?case using same_text_bchar [OF 1(2)] by (subst (1 2) digits_end.simps) (simp split: option.splits)
qed

lemma same_text_markers:
  assumes "same_text st st'"
  shows "list_marker ordered st' t = list_marker ordered st t" "def_marker st' t = def_marker st t"
    "tshift st' t = tshift st t" "bl_indent st' = bl_indent st"
proof -
  have f: "bchar st' = bchar st" "digits_end st' = digits_end st" "skip_chars st' = skip_chars st"
    using same_text_bchar [OF assms] same_text_digits [OF assms] same_text_skip [OF assms] by (simp_all add: fun_eq_iff)
  have m: "bl_b st' = bl_b st" "bl_e st' = bl_e st" "bl_s st' = bl_s st" using assms by (simp_all add: same_text_def)
  show "list_marker ordered st' t = list_marker ordered st t" "def_marker st' t = def_marker st t" "tshift st' t = tshift st t"
    unfolding list_marker_def ordered_marker_def bullet_marker_def def_marker_def skip_spaces_def f m by (rule refl)+
  show "bl_indent st' = bl_indent st" using assms by (simp add: same_text_def)
qed

subsection \<open>Lists\<close>

lemma digits_end_gt: "digits_end st o' r = Some e \<Longrightarrow> r < e"
proof (induction st o' r rule: digits_end.induct)
  case (1 st o' r)
  then show ?case by (subst (asm) (2) digits_end.simps) (fastforce split: if_splits option.splits)
qed

lemma list_marker_ends:
  assumes "list_marker ordered st t = Some d"
  shows "bmark st t + tshift st t < d" "emark st t \<le> d \<or> bchar st d = Some 32"
  using assms by (auto simp: list_marker_def bullet_marker_def ordered_marker_def Let_def split: if_splits option.splits dest: digits_end_gt)

lemma list_item_grows:
  assumes "tok_good cf d tok" "ready cf st t n" "bc_nesting cf < bl_level st + Suc d" "bl_indent st \<le> tshift st t"
    and d: "0 < d"
    and m: "list_marker ordered st t = Some e"
  shows "yields (list_item tok t n e flags st) (\<lambda>(flags, st'). bgrows cf st st' \<and> t < bl_line st')"
proof -
  define y where "y = skip_spaces st e"
  define h where "h = (if emark st t \<le> y \<or> 4 < y - e \<or> y - e < 1 then 1 else y - e)"
  let ?st0 = "(set_marks t (bmark st t) (y - bmark st t) (bl_open (Tok ListItemOpen) st))
                \<lparr>bl_indent := e - bmark st t + h, bl_tight := True, bl_parent := InList\<rparr>"
  have e: "bmark st t + tshift st t < e" "emark st t \<le> e \<or> bchar st e = Some 32" using list_marker_ends [OF m] by simp_all
  have ge: "e \<le> y" by (simp add: y_def skip_spaces_ge)
  have gt: "emark st t \<le> y \<or> e < y" using e(2) ge skip_spaces_gt by (auto simp: y_def)
  have h: "1 \<le> h" "emark st t \<le> y \<or> h \<le> y - e" using gt by (auto simp: h_def)
  have ind: "0 \<le> bl_indent st" using assms(2) by (simp add: ready_def lines_ok_def)
  have mv: "moved (Tok ListItemOpen) t (bmark st t) (y - bmark st t) st ?st0" by (simp add: moved_def)
  have call: "yields (tok ?st0 t n) (\<lambda>st'. bgrows cf ?st0 st' \<and> t < bl_line st')"
    by (rule moved_call [OF assms(1-3) d mv]) (use e(1) h ind assms(4) in auto)
  have hh: "(let h = (if emark st t \<le> y then 1 else y - e); h = (if 4 < h then 1 else h) in if h < 1 then 1 else h) = h"
    by (simp add: h_def Let_def)
  have after: "bgrows cf st (bl_close (Tok ListItemClose)
      ((set_marks t (bmark st' t) (tshift st t) st')\<lparr>bl_indent := bl_indent st, bl_tight := bl_tight st, bl_parent := bl_parent st\<rparr>))"
    if g: "bgrows cf ?st0 st'" for st'
  proof (rule moved_back [OF assms(2) mv g, of _ _ 3])
    have "bl_b st' = bl_b st" using g by (simp add: bgrows_def same_lines_def)
    then show "put_back (Tok ListItemClose) t st st' (bl_close (Tok ListItemClose)
        ((set_marks t (bmark st' t) (tshift st t) st')\<lparr>bl_indent := bl_indent st, bl_tight := bl_tight st, bl_parent := bl_parent st\<rparr>))"
      using g by (simp add: put_back_def bgrows_def same_lines_def)
  qed (simp_all add: block_ok_def)
  have "yields (Option.bind (tok ?st0 t n) (\<lambda>st'.
      Some ((if bl_tight st' \<and> \<not> snd flags then fst flags else False, 1 < int (bl_line st') - int t \<and> is_empty st' (bl_line st' - 1)),
        bl_close (Tok ListItemClose) ((set_marks t (bmark st' t) (tshift st t) st')
          \<lparr>bl_indent := bl_indent st, bl_tight := bl_tight st, bl_parent := bl_parent st\<rparr>))))
      (\<lambda>(flags, st'). bgrows cf st st' \<and> t < bl_line st')"
    by (rule yields_bind [OF call]) (use after in simp)
  then show ?thesis using hh unfolding list_item_def Let_def y_def by simp
qed

lemma list_items_grows:
  assumes "tok_good cf d tok" "0 < d"
  shows "ready cf st t n \<Longrightarrow> bc_nesting cf < bl_level st + Suc d \<Longrightarrow> bl_indent st \<le> tshift st t \<Longrightarrow> list_marker ordered st t = Some e
    \<Longrightarrow> n - t \<le> k
    \<Longrightarrow> yields (list_items ends tok n ordered m k t e flags st) (\<lambda>(y, a, st'). bgrows cf st st' \<and> t < a)"
proof (induction k arbitrary: t e flags st)
  case 0
  then show ?case by (simp add: ready_def)
next
  case (Suc k)
  have t: "t < n" using Suc(2) by (simp add: ready_def)
  note item = list_item_grows [OF assms(1) Suc(2-4) assms(2) Suc(5), of flags]
  show ?case
  proof (simp add: t, rule yields_bind [OF item])
    fix x :: "(bool \<times> bool) \<times> bl_state"
    assume "(\<lambda>(flags, st'). bgrows cf st st' \<and> t < bl_line st') x"
    then obtain f st1 where x: "x = (f, st1)" and g: "bgrows cf st st1" "t < bl_line st1" by auto
    let ?a = "bl_line st1"
    have go: "yields (list_items ends tok n ordered m k ?a e' f st1) (\<lambda>(y, a, st'). bgrows cf st st' \<and> t < a)"
      if a: "?a < n" "bl_indent st1 \<le> tshift st1 ?a" "list_marker ordered st1 ?a = Some e'" for e'
    proof (rule yields_mono [OF Suc(1) [OF _ _ a(2,3)]])
      show "ready cf st1 ?a n" using ready_grows [OF g(1) _ a(1) Suc(2)] g(2) by simp
      show "bc_nesting cf < bl_level st1 + Suc d" using Suc(3) bgrows_same [OF g(1)] by simp
      show "n - ?a \<le> k" using g(2) a(1) Suc(6) by simp
    qed (rule further_step [OF g])
    show "yields (case x of (flags, st) \<Rightarrow> let a = bl_line st; stop = Some (fst flags, a, st)
        in if n \<le> a \<or> is_empty st a \<or> tshift st a < bl_indent st \<or> ends ChList st a n then stop
           else case list_marker ordered st a of
               None \<Rightarrow> stop
             | Some d \<Rightarrow> if m \<noteq> bchar st (d - 1) then stop else list_items ends tok n ordered m k a d flags st)
        (\<lambda>(y, a, st'). bgrows cf st st' \<and> t < a)"
      using g go by (auto simp: x Let_def split: option.splits)
  qed
qed

lemma rule_list_took:
  assumes "tok_good cf d tok" "ready cf st t n" "bc_nesting cf < bl_level st + Suc d" "bl_indent st \<le> tshift st t"
  shows "yields (rule_list cf ends tok t n False st) (took cf t st)"
proof (cases "list_marker (ordered_marker st t \<noteq> None) st t = None \<or> bc_nesting cf \<le> bl_level st")
  case True
  then show ?thesis by (auto simp: rule_list_def Let_def split: option.splits)
next
  case False
  then have d: "0 < d" using assms(3) by simp
  obtain e where Some: "list_marker (ordered_marker st t \<noteq> None) st t = Some e" using False by auto
  define ordered where "ordered = (ordered_marker st t \<noteq> None)"
  define op where "op = Tok (if ordered then OrderedListOpen (list_order st t e) else BulletListOpen)"
  define cl where "cl = Tok (if ordered then OrderedListClose else BulletListClose)"
  define k :: nat where "k = (if ordered then 2 else 1)"
  let ?st0 = "bl_open op st"
  have br: "block_bracket op = Some (True, k)" "block_bracket cl = Some (False, k)" "block_ok cf op" "block_ok cf cl" for cf
    by (simp_all add: op_def cl_def k_def block_ok_def)
  have "same_text st ?st0" by (simp add: same_text_def bl_open_def bl_push_def)
  from same_text_markers [OF this] have m: "list_marker ordered ?st0 t = Some e" using Some by (auto simp: ordered_def)
  have r: "ready cf ?st0 t n" using assms(2) by (simp add: ready_def lines_ok_def)
  have items: "yields (list_items ends tok n ordered (bchar st (e - 1)) (n + 1 - t) t e (True, False) ?st0)
      (\<lambda>(y, a, st'). bgrows cf ?st0 st' \<and> t < a)"
    by (rule list_items_grows [OF assms(1) d r _ _ m]) (use assms(3,4) in simp_all)
  have "yields (Option.bind (list_items ends tok n ordered (bchar st (e - 1)) (n + 1 - t) t e (True, False) ?st0) (\<lambda>(y, a, st').
      let st' = (bl_close cl st')\<lparr>bl_line := a\<rparr> in Some (True, if y then mark_tight (length (bl_tokens st)) st' else st')))
      (took cf t st)"
  proof (rule yields_bind [OF items])
    fix x :: "bool \<times> nat \<times> bl_state"
    assume "(\<lambda>(y, a, st'). bgrows cf ?st0 st' \<and> t < a) x"
    then obtain y a st' where x: "x = (y, a, st')" and g: "bgrows cf ?st0 st'" "t < a" by (cases x) auto
    have c: "bgrows cf st ((bl_close cl st')\<lparr>bl_line := a\<rparr>)" using bgrows_wrap [OF g(1) br] by simp
    show "yields (case x of (y, a, st') \<Rightarrow> let st' = (bl_close cl st')\<lparr>bl_line := a\<rparr>
        in Some (True, if y then mark_tight (length (bl_tokens st)) st' else st')) (took cf t st)"
      using c mark_tight_grows [OF c] g(2) by (simp add: x Let_def) (simp add: mark_tight_def)
  qed
  then show ?thesis using Some False by (simp add: rule_list_def Let_def ordered_def op_def cl_def)
qed

subsection \<open>Footnotes\<close>

lemma rule_footnote_took:
  assumes "tok_good cf d tok" "ready cf st t n" "bc_nesting cf < bl_level st + Suc d" "BFootnote \<in> set (bc_rules cf)"
  shows "yields (rule_footnote cf tok t n False st) (took cf t st)"
proof (cases "footnote_label st t = None \<or> bc_nesting cf \<le> bl_level st")
  case True
  then show ?thesis by (auto simp: rule_footnote_def split: option.splits)
next
  case False
  then have d: "0 < d" using assms(3) by simp
  obtain label u where l: "footnote_label st t = Some (label, u)" using False by auto
  define b where "b = (if skip_spaces st u - u < bl_indent st + 4 then u - (bl_indent st + 4) else u)"
  define s where "s = (if skip_spaces st u - u < bl_indent st + 4 then skip_spaces st u - u + (bl_indent st + 4) else skip_spaces st u - u)"
  define st1 where "st1 = st\<lparr>bl_refs := Some ((label, -1) # (case bl_refs st of Some r \<Rightarrow> r | None \<Rightarrow> []))\<rparr>"
  let ?st0 = "(set_marks t b s (bl_open (FootDefOpen label) st1))\<lparr>bl_indent := bl_indent st + 4, bl_parent := InFootnote\<rparr>"
  let ?done = "\<lambda>st'. bl_close FootDefClose ((set_marks t (bmark st t) (tshift st t) st')\<lparr>bl_parent := bl_parent st, bl_indent := bl_indent st' - 4\<rparr>)"
  have ind: "0 \<le> bl_indent st" using assms(2) by (simp add: ready_def lines_ok_def)
  have mv: "moved (FootDefOpen label) t b s st ?st0" by (simp add: moved_def st1_def bl_open_def bl_push_def set_marks_def)
  have call: "yields (tok ?st0 t n) (\<lambda>st'. bgrows cf ?st0 st' \<and> t < bl_line st')"
    by (rule moved_call [OF assms(1-3) d mv]) (use ind skip_spaces_ge [of u st] in \<open>auto simp: s_def\<close>)
  have after: "bgrows cf st (?done st')" if g: "bgrows cf ?st0 st'" for st'
  proof (rule moved_back [OF assms(2) mv g, of _ _ 14])
    show "put_back FootDefClose t st st' (?done st')"
      using g by (simp add: put_back_def bgrows_def same_lines_def st1_def bl_close_def bl_open_def bl_push_def set_marks_def)
  qed (use assms(4) in \<open>simp_all add: block_ok_def\<close>)
  have "yields (Option.bind (tok ?st0 t n) (\<lambda>st'. Some (True, ?done st'))) (took cf t st)"
    by (rule yields_bind [OF call]) (use after in simp)
  then show ?thesis using False l by (auto simp: rule_footnote_def Let_def b_def s_def st1_def split: if_splits)
qed

subsection \<open>Definition lists\<close>

lemma def_marker_gt:
  assumes "def_marker st t = Some i" shows "bmark st t + tshift st t + 2 \<le> i"
proof -
  let ?o = "bmark st t + tshift st t"
  have "i = skip_spaces st (?o + 1)" "?o + 1 \<noteq> i" using assms by (auto simp: def_marker_def Let_def split: if_splits)
  then show ?thesis using skip_spaces_ge [of "?o + 1" st] by simp
qed

lemma def_item_grows:
  assumes "tok_good cf d tok" "ready cf st a n" "bc_nesting cf < bl_level st + Suc d" "bl_indent st \<le> tshift st a"
    and d: "0 < d"
    and m: "def_marker st a = Some i"
  shows "yields (def_item tok n a i flags st) (\<lambda>(flags, st'). bgrows cf st st' \<and> a < bl_line st')"
proof -
  define v where "v = tshift st a"
  let ?st0 = "(set_marks a (bmark st a) (i - bmark st a) (bl_open (Tok DdOpen) st))
                \<lparr>bl_indent := v + 2, bl_dd := v + 2, bl_tight := True, bl_parent := InDeflist\<rparr>"
  let ?done = "\<lambda>st'. bl_close (Tok DdClose) ((set_marks a (bmark st' a) v st')\<lparr>bl_tight := bl_tight st, bl_parent := bl_parent st,
                        bl_indent := bl_indent st, bl_dd := bl_dd st\<rparr>)"
  have ind: "0 \<le> bl_indent st" using assms(2) by (simp add: ready_def lines_ok_def)
  have mv: "moved (Tok DdOpen) a (bmark st a) (i - bmark st a) st ?st0" by (simp add: moved_def)
  have call: "yields (tok ?st0 a n) (\<lambda>st'. bgrows cf ?st0 st' \<and> a < bl_line st')"
    by (rule moved_call [OF assms(1-3) d mv]) (use ind assms(4) def_marker_gt [OF m] in \<open>simp_all add: v_def\<close>)
  have after: "bgrows cf st (?done st')" if g: "bgrows cf ?st0 st'" for st'
  proof (rule moved_back [OF assms(2) mv g, of _ _ 13])
    have "bl_b st' = bl_b st" using g by (simp add: bgrows_def same_lines_def)
    then show "put_back (Tok DdClose) a st st' (?done st')"
      using g by (simp add: put_back_def bgrows_def same_lines_def v_def)
  qed (simp_all add: block_ok_def)
  have "yields (Option.bind (tok ?st0 a n) (\<lambda>st'. Some ((if bl_tight st' \<and> \<not> snd flags then fst flags else False,
      1 < int (bl_line st') - int a \<and> is_empty st' (bl_line st' - 1)), ?done st')))
      (\<lambda>(flags, st'). bgrows cf st st' \<and> a < bl_line st')"
    by (rule yields_bind [OF call]) (use after in simp)
  then show ?thesis by (simp add: def_item_def Let_def v_def)
qed

lemma push_term_grows: "bgrows cf st (push_term u st)"
proof -
  let ?st = "bl_open (Tok DtOpen) st"
  have "bgrows cf ?st (push_inline c l ?st)" for c l
    using btoks_single [OF _ _ btoks_refl, of "Tok (Inline c [])" cf "bl_tokens ?st" l]
    by (simp add: bgrows_def same_lines_def block_ok_def)
  from bgrows_wrap [OF this, of 12 "Tok DtClose"] show ?thesis by (simp add: push_term_def Let_def block_ok_def)
qed

lemma next_term_gt:
  assumes "next_term st n f = Some (a, i)" shows "f < a" "a < n" "bl_indent st \<le> tshift st a" "def_marker st a = Some i"
  using assms by (auto simp: next_term_def Let_def split: if_splits option.splits)

lemma def_items_grows:
  assumes "tok_good cf d tok" "0 < d"
  shows "ready cf st a n \<Longrightarrow> bc_nesting cf < bl_level st + Suc d \<Longrightarrow> bl_indent st \<le> tshift st a \<Longrightarrow> def_marker st a = Some i
    \<Longrightarrow> n - a \<le> k
    \<Longrightarrow> yields (def_items tok n k a i flags st) (\<lambda>(y, f, st'). bgrows cf st st' \<and> a < f)"
proof (induction k arbitrary: a i flags st)
  case 0
  then show ?case by (simp add: ready_def)
next
  case (Suc k)
  note item = def_item_grows [OF assms(1) Suc(2-4) assms(2) Suc(5), of flags]
  show ?case
  proof (simp, rule yields_bind [OF item])
    fix x :: "(bool \<times> bool) \<times> bl_state"
    assume "(\<lambda>(flags, st'). bgrows cf st st' \<and> a < bl_line st') x"
    then obtain fl st1 where x: "x = (fl, st1)" and g: "bgrows cf st st1" "a < bl_line st1" by auto
    let ?f = "bl_line st1"
    have ab: "a < b" if "?f \<le> b" for b using that g(2) by simp
    have go: "yields (def_items tok n k b j fl' st2) (\<lambda>(y, f, st'). bgrows cf st st' \<and> a < f)"
      if b: "?f \<le> b" "b < n" "bl_indent st2 \<le> tshift st2 b" "def_marker st2 b = Some j" and g2: "bgrows cf st st2" for b j fl' st2
    proof (rule yields_mono [OF Suc(1) [OF _ _ b(3,4)]])
      show "ready cf st2 b n" using ready_grows [OF g2 _ b(2) Suc(2)] g(2) b(1) by simp
      show "bc_nesting cf < bl_level st2 + Suc d" using Suc(3) bgrows_same [OF g2] by simp
      show "n - b \<le> k" using g(2) b(1,2) Suc(6) by simp
    qed (rule further_step [OF g2 ab [OF b(1)]])
    have term': "bgrows cf st (push_term ?f st1)" using bgrows_trans [OF g(1) push_term_grows] .
    have "same_text st1 (push_term u st1)" for u
      using push_term_grows [of cf st1 u] by (simp add: bgrows_def same_lines_def same_text_def)
    note marks = same_text_markers [OF this]
    show "yields (case x of (flags, st) \<Rightarrow> let f = bl_line st; stop = Some (fst flags, f, st)
       in if n \<le> f \<or> tshift st f < bl_indent st then stop
          else case def_marker st f of
              Some i \<Rightarrow> def_items tok n k f i flags st
            | None \<Rightarrow>
                (case next_term st n f of
                   None \<Rightarrow> stop
                 | Some (a, i) \<Rightarrow> def_items tok n k a i (True, False) (push_term f st)))
        (\<lambda>(y, f, st'). bgrows cf st st' \<and> a < f)"
      using g go [OF _ _ _ _ g(1)] go [OF _ _ _ _ term'] next_term_gt [of st1 n ?f]
      by (auto simp: x Let_def marks split: option.splits prod.splits)
  qed
qed

lemma rule_deflist_took:
  assumes "tok_good cf d tok" "ready cf st t n" "bc_nesting cf < bl_level st + Suc d" "BDeflist \<in> set (bc_rules cf)"
  shows "yields (rule_deflist cf tok t n False st) (took cf t st)"
proof -
  let ?f = "if is_empty st (Suc t) then Suc (Suc t) else Suc t"
  let ?st0 = "bl_open (Tok DlOpen) st" and ?c = "length (bl_tokens st)"
  let ?fin = "\<lambda>(y, f, st'). let st' = (bl_close (Tok DlClose) st')\<lparr>bl_line := f\<rparr> in Some (True, if y then mark_tight ?c st' else st')"
  show ?thesis
  proof (cases "is_empty st (Suc t) \<and> n < ?f \<or> tshift st ?f < bl_indent st \<or> def_marker st ?f = None \<or> bc_nesting cf \<le> bl_level st")
    case True
    then show ?thesis by (auto simp: rule_deflist_def Let_def split: option.splits)
  next
    case False
    then have d: "0 < d" using assms(3) by simp
    obtain i where i: "def_marker st ?f = Some i" using False by auto
    have e: "is_empty st n" "t < n" using assms(2,4) by (auto simp: ready_def lines_ok_def)
    have "\<not> is_empty st j" if "def_marker st j = Some i" for j using that by (auto simp: def_marker_def is_empty_def Let_def split: if_splits)
    then have "?f \<noteq> n" using i e(1) by metis
    moreover have "?f \<le> n" using False e(2) by (auto split: if_splits)
    ultimately have f: "?f < n" "t < ?f" by simp_all
    have grows: "bgrows cf ?st0 (push_term t ?st0)" by (rule push_term_grows)
    have "same_text st (push_term t ?st0)"
      using grows by (simp add: bgrows_def same_lines_def same_text_def bl_open_def bl_push_def)
    note marks = same_text_markers [OF this]
    have r: "ready cf (push_term t ?st0) ?f n"
      using assms(2) grows f by (simp add: ready_def lines_ok_def bgrows_def same_lines_def is_empty_def)
    have "yields (def_items tok n (n + 1 - t) ?f i (True, False) (push_term t ?st0))
        (\<lambda>(y, f, st'). bgrows cf (push_term t ?st0) st' \<and> ?f < f)"
      by (rule def_items_grows [OF assms(1) d r]) (use assms(3) bgrows_same [OF grows] marks False i f in simp_all)
    then have items: "yields (def_items tok n (n + 1 - t) ?f i (True, False) (push_term t ?st0))
        (\<lambda>(y, f, st'). bgrows cf ?st0 st' \<and> t < f)"
      by (rule yields_mono) (rule further_step [OF grows f(2)])
    have "yields (Option.bind (def_items tok n (n + 1 - t) ?f i (True, False) (push_term t ?st0)) ?fin) (took cf t st)"
    proof (rule yields_bind [OF items])
      fix x :: "bool \<times> nat \<times> bl_state"
      assume "case x of (y, f, st') \<Rightarrow> bgrows cf ?st0 st' \<and> t < f"
      then obtain y a st' where x: "x = (y, a, st')" and g: "bgrows cf ?st0 st'" "t < a" by (cases x) auto
      have c: "bgrows cf st ((bl_close (Tok DlClose) st')\<lparr>bl_line := a\<rparr>)"
        using bgrows_wrap [OF g(1), of 11 "Tok DlClose"] by (simp add: block_ok_def)
      show "yields (?fin x) (took cf t st)"
        using c mark_tight_grows [OF c] g(2) by (simp add: x Let_def) (simp add: mark_tight_def)
    qed
    then show ?thesis using False i by (auto simp: rule_deflist_def Let_def split: if_splits)
  qed
qed

subsection \<open>The loop over the lines\<close>

text \<open>
  What a configuration must have: the paragraph rule, which takes any line, and not the rules for quotes
  and for description lists together.
\<close>

definition settled :: "bl_config \<Rightarrow> bool" where
  "settled cf \<longleftrightarrow> BParagraph \<in> set (bc_rules cf) \<and> \<not> {BBlockquote, BDeflist} \<subseteq> set (bc_rules cf)"

lemma block_rule_took:
  assumes "settled cf" "r \<in> set (bc_rules cf)" "tok_good cf d tok" "ready cf st t n" "bc_nesting cf < bl_level st + Suc d"
    "bl_indent st \<le> tshift st t"
  shows "yields (block_rule_run cf ends tok r t n False st) (\<lambda>x. took cf t st x \<and> (r = BParagraph \<longrightarrow> fst x))"
proof (cases r)
  case BBlockquote
  then have "BDeflist \<notin> set (bc_rules cf)" using assms(1,2) by (auto simp: settled_def)
  from rule_blockquote_took [OF assms(3-5) this] show ?thesis using BBlockquote by (simp add: block_rule_run_def)
next
  case BList
  then show ?thesis using rule_list_took [OF assms(3-6)] by (simp add: block_rule_run_def)
next
  case BFootnote
  then show ?thesis using rule_footnote_took [OF assms(3-5)] assms(2) by (simp add: block_rule_run_def)
next
  case BDeflist
  then show ?thesis using rule_deflist_took [OF assms(3-5)] assms(2) by (simp add: block_rule_run_def)
qed (simp_all add: block_rule_run_def rule_code_took rule_fences_took rule_hr_took rule_heading_took rule_lheading_took
       rule_htmlblock_took rule_table_took rule_paragraph_took)

lemma block_rules_take:
  assumes "settled cf" "tok_good cf d tok" "ready cf st t n" "bc_nesting cf < bl_level st + Suc d" "bl_indent st \<le> tshift st t"
  shows "set rs \<subseteq> set (bc_rules cf) \<Longrightarrow> BParagraph \<in> set rs
    \<Longrightarrow> yields (block_rules_run cf tok rs t n st) (\<lambda>st'. bgrows cf st st' \<and> t < bl_line st')"
proof (induction rs)
  case (Cons r rs)
  have r: "r \<in> set (bc_rules cf)" using Cons(2) by simp
  show ?case unfolding block_rules_run.simps
  proof (rule yields_bind [OF block_rule_took [OF assms(1) r assms(2-5)]])
    fix x assume x: "took cf t st x \<and> (r = BParagraph \<longrightarrow> fst x)"
    show "yields (case x of (b, st) \<Rightarrow> if b then Some st else block_rules_run cf tok rs t n st)
        (\<lambda>st'. bgrows cf st st' \<and> t < bl_line st')"
      using x Cons by (cases x) (auto simp: took_def split: if_splits)
  qed
qed simp

lemma skip_empty_ge: "i \<le> skip_empty st i" "i < bl_max st \<Longrightarrow> is_empty st i \<Longrightarrow> i < skip_empty st i"
proof -
  show ge: "i \<le> skip_empty st i" for i
    by (induction st i rule: skip_empty.induct) (subst skip_empty.simps, auto)
  show "i < bl_max st \<Longrightarrow> is_empty st i \<Longrightarrow> i < skip_empty st i"
    using ge [of "i + 1"] by (subst skip_empty.simps) simp
qed

lemma skip_empty_stops: "\<not> is_empty st i \<Longrightarrow> skip_empty st i = i"
  by (subst skip_empty.simps) simp

text \<open>The loop stops at the end of its range, at a line that is indented less, or between two empty lines of a list.\<close>

definition stopped :: "bl_state \<Rightarrow> nat \<Rightarrow> nat \<Rightarrow> bool" where
  "stopped st n a \<longleftrightarrow> n \<le> a \<or> tshift st a < bl_indent st \<or> bl_parent st = InList"

lemma block_loop_good:
  assumes run: "\<And>a st. ready cf st a n \<Longrightarrow> bc_nesting cf < bl_level st + Suc d \<Longrightarrow> bl_indent st \<le> tshift st a
      \<Longrightarrow> yields (run a n st) (\<lambda>st'. bgrows cf st st' \<and> a < bl_line st')"
  shows "lines_ok st \<Longrightarrow> n \<le> bl_max st \<Longrightarrow> BDeflist \<in> set (bc_rules cf) \<longrightarrow> n = bl_max st \<Longrightarrow> bc_nesting cf < bl_level st + Suc d
    \<Longrightarrow> n - a < k \<Longrightarrow> a < n \<or> a \<le> bl_line st
    \<Longrightarrow> yields (block_loop run k n a u st) (\<lambda>st'. bgrows cf st st' \<and> a \<le> bl_line st' \<and> stopped st n (bl_line st')
          \<and> (a < n \<longrightarrow> is_empty st a \<or> bl_indent st \<le> tshift st a \<longrightarrow> a < bl_line st'))"
proof (induction k arbitrary: a u st)
  case 0
  then show ?case by simp
next
  case (Suc k)
  show ?case
  proof (cases "a < n")
    case False
    then show ?thesis using Suc(7) by (simp add: stopped_def)
  next
    case True
    define b where "b = skip_empty st a"
    have b: "a \<le> b" "is_empty st a \<longrightarrow> a < b" "\<not> is_empty st a \<longrightarrow> b = a"
      using skip_empty_ge [of a st] skip_empty_stops [of st a] True Suc(3) by (auto simp: b_def)
    let ?st = "st\<lparr>bl_line := b\<rparr>"
    let ?P = "\<lambda>st'. bgrows cf st st' \<and> a \<le> bl_line st' \<and> stopped st n (bl_line st')
          \<and> (a < n \<longrightarrow> is_empty st a \<or> bl_indent st \<le> tshift st a \<longrightarrow> a < bl_line st')"
    show ?thesis
    proof (cases "n \<le> b \<or> tshift st b < bl_indent st")
      case stop: True
      then have "block_loop run (Suc k) n a u st = Some ?st" using True by (simp add: b_def [symmetric] Let_def)
      moreover have "?P ?st" using stop b by (auto simp: stopped_def)
      ultimately show ?thesis by simp
    next
      case False
      have r: "ready cf ?st b n" using Suc(2-4) False by (simp add: ready_def lines_ok_def is_empty_def)
      have after: "yields (let st = st1\<lparr>bl_tight := \<not> u\<rparr>; u = (u \<or> is_empty st (bl_line st - 1)); a = bl_line st
             in if a < n \<and> is_empty st a then
                  if a + 1 < n \<and> bl_parent st = InList \<and> is_empty st (a + 1) then Some st
                  else block_loop run k n (a + 1) True (st\<lparr>bl_line := a + 1\<rparr>)
                else block_loop run k n a u st) ?P"
        if g: "bgrows cf ?st st1" "b < bl_line st1" for st1
      proof -
        have g1: "bgrows cf st st1" using g(1) by simp
        note same = bgrows_same [OF g1]
        have ok: "lines_ok st2" if "bgrows cf st st2" for st2
          using bgrows_same [OF that] Suc(2) by (simp add: lines_ok_def is_empty_def)
        have go: "yields (block_loop run k n c v st2) ?P"
          if c: "bl_line st1 \<le> c" "bgrows cf st st2" "c \<le> bl_line st2" for c v st2
        proof (rule yields_mono [OF Suc(1) [OF ok [OF c(2)]]])
          show "n \<le> bl_max st2" "BDeflist \<in> set (bc_rules cf) \<longrightarrow> n = bl_max st2" "bc_nesting cf < bl_level st2 + Suc d"
            using Suc(3-5) bgrows_same [OF c(2)] by simp_all
          show "n - c < k" "c < n \<or> c \<le> bl_line st2" using Suc(6) True b(1) g(2) c(1,3) by auto
          fix x assume x: "bgrows cf st2 x \<and> c \<le> bl_line x \<and> stopped st2 n (bl_line x)
            \<and> (c < n \<longrightarrow> is_empty st2 c \<or> bl_indent st2 \<le> tshift st2 c \<longrightarrow> c < bl_line x)"
          have "stopped st n (bl_line x)" using x bgrows_same [OF c(2)] by (simp add: stopped_def)
          then show "?P x" using x bgrows_trans [OF c(2)] b(1) g(2) c(1) by auto
        qed
        show ?thesis
          using go [of "bl_line st1"] go [of "bl_line st1 + 1"] g g1 same b(1) by (auto simp: Let_def stopped_def)
      qed
      have "yields (Option.bind (run b n ?st) (\<lambda>st1. let st = st1\<lparr>bl_tight := \<not> u\<rparr>; u = (u \<or> is_empty st (bl_line st - 1)); a = bl_line st
             in if a < n \<and> is_empty st a then
                  if a + 1 < n \<and> bl_parent st = InList \<and> is_empty st (a + 1) then Some st
                  else block_loop run k n (a + 1) True (st\<lparr>bl_line := a + 1\<rparr>)
                else block_loop run k n a u st)) ?P"
        by (rule yields_bind [OF run [OF r]]) (use Suc(5) False after in simp_all)
      then show ?thesis using True False by (simp add: b_def [symmetric] Let_def)
    qed
  qed
qed

subsection \<open>The tokenizer and the parser\<close>

lemma block_tokenize_good: "settled cf \<Longrightarrow> tok_good cf d (block_tokenize cf d)"
proof (induction d)
  case 0
  then show ?case by (simp add: tok_good_def)
next
  case (Suc d)
  have run: "yields (block_rules_run cf (block_tokenize cf d) (block_rules cf) a n st) (\<lambda>st'. bgrows cf st st' \<and> a < bl_line st')"
    if "ready cf st a n" "bc_nesting cf < bl_level st + Suc d" "bl_indent st \<le> tshift st a" for a n st
    by (rule block_rules_take [OF Suc(2) Suc(1) [OF Suc(2)] that]) (use Suc(2) in \<open>simp_all add: block_rules_def settled_def\<close>)
  show ?case unfolding tok_good_def block_tokenize.simps
    by (intro allI impI, rule yields_mono [OF block_loop_good [where cf = cf and d = d
        and run = "\<lambda>a n st. block_rules_run cf (block_tokenize cf d) (block_rules cf) a n st", OF run]]) (auto simp: ready_def)
qed

lemma scan_lines_shift: "0 \<le> c \<Longrightarrow> (x, y, z) \<in> set (scan_lines s u c f r) \<Longrightarrow> 0 \<le> z"
  by (induction s u c f r rule: scan_lines.induct) (auto split: if_splits)

lemma bl_init_ok: "lines_ok (bl_init src)" "0 \<le> tshift (bl_init src) i" "bl_indent (bl_init src) = 0" "bl_parent (bl_init src) = Root"
  "bl_line (bl_init src) = 0" "bl_tokens (bl_init src) = []" "bl_level (bl_init src) = 0"
proof -
  let ?ls = "scan_lines 0 0 0 False src @ [(int (length src), int (length src), 0)]"
  have "0 \<le> snd (snd x)" if "x \<in> set ?ls" for x
    using that scan_lines_shift [of 0 "fst x" "fst (snd x)" "snd (snd x)" 0 0 False src] by auto
  then have "0 \<le> z" if "z \<in> set (bl_s (bl_init src))" for z using that by (auto simp: bl_init_def Let_def)
  then show "0 \<le> tshift (bl_init src) i" by (simp add: mark_def)
  show "lines_ok (bl_init src)" by (simp add: lines_ok_def bl_init_def Let_def is_empty_def mark_def nth_append)
qed (simp_all add: bl_init_def Let_def)

text \<open>The whole of the parser, in one statement: the source is read to its end.\<close>

lemma parse_blocks_good:
  assumes "settled cf"
  shows "yields (parse_blocks cf src) (\<lambda>st. bl_max st \<le> bl_line st \<and> bl_level st = 0 \<and> block_clean cf (bl_tokens st))"
proof -
  define source where "source = expand_tabs 0 (normalize_lines (map (\<lambda>c. if c = 160 then 32 else c) src))"
  let ?st = "bl_init source" and ?run = "\<lambda>a n st. block_rules_run cf (block_tokenize cf (bc_nesting cf)) (block_rules cf) a n st"
  note init = bl_init_ok [of source]
  have run: "yields (?run a n st) (\<lambda>st'. bgrows cf st st' \<and> a < bl_line st')"
    if "ready cf st a n" "bc_nesting cf < bl_level st + Suc (bc_nesting cf)" "bl_indent st \<le> tshift st a" for a n st
    by (rule block_rules_take [OF assms block_tokenize_good [OF assms] that]) (use assms in \<open>simp_all add: block_rules_def settled_def\<close>)
  have "yields (block_loop (\<lambda>a n st. ?run a n st) (bl_max ?st + 1) (bl_max ?st) 0 False ?st)
      (\<lambda>st'. bgrows cf ?st st' \<and> 0 \<le> bl_line st' \<and> stopped ?st (bl_max ?st) (bl_line st')
          \<and> (0 < bl_max ?st \<longrightarrow> is_empty ?st 0 \<or> bl_indent ?st \<le> tshift ?st 0 \<longrightarrow> 0 < bl_line st'))"
    by (rule block_loop_good [where d = "bc_nesting cf" and run = ?run, OF run]) (use init in simp_all)
  then have "yields (block_loop (\<lambda>a n st. ?run a n st) (bl_max ?st + 1) (bl_max ?st) 0 False ?st)
      (\<lambda>st. bl_max st \<le> bl_line st \<and> bl_level st = 0 \<and> block_clean cf (bl_tokens st))"
  proof (rule yields_mono)
    fix st assume s: "bgrows cf ?st st \<and> 0 \<le> bl_line st \<and> stopped ?st (bl_max ?st) (bl_line st)
          \<and> (0 < bl_max ?st \<longrightarrow> is_empty ?st 0 \<or> bl_indent ?st \<le> tshift ?st 0 \<longrightarrow> 0 < bl_line st)"
    have "bl_max st = bl_max ?st" "bl_level st = 0" using s init by (simp_all add: bgrows_def same_lines_def)
    moreover have "bl_max ?st \<le> bl_line st" using s init(2) [of "bl_line st"] init(3,4) by (auto simp: stopped_def)
    moreover have "block_clean cf (bl_tokens st)" using s init(6) by (simp add: bgrows_def btoks_def)
    ultimately show "bl_max st \<le> bl_line st \<and> bl_level st = 0 \<and> block_clean cf (bl_tokens st)" by simp
  qed
  then show ?thesis using init(5) by (simp del: block_loop.simps add: parse_blocks_def Let_def source_def [symmetric])
qed

subsection \<open>Why quotes and description lists do not go together\<close>

text \<open>
  A quote may end with an empty line in front of a description (\<open>> t\<close>, \<open>>\<close>, \<open>: d\<close>). The rule then reads the
  line behind the range, finds nothing to tokenize there, and reports success without a step.
\<close>

lemma def_item_empty:
  assumes "tok = (\<lambda>st a n. Some st)"
  obtains flags' st' where "def_item tok n a i flags st = Some (flags', st')" "same_lines st st'" "bl_line st' = bl_line st"
  using that by (simp add: def_item_def Let_def assms) (simp add: same_lines_def set_marks_def)

lemma deflist_stuck:
  assumes e: "is_empty st (t + 1)" "\<not> is_empty st t" and m: "def_marker st (t + 2) = Some i" "def_marker st t = None"
    and ind: "bl_indent st \<le> tshift st t" "bl_indent st \<le> tshift st (t + 2)" and l: "bl_level st < bc_nesting cf" "bl_line st = t"
    and tok: "tok = (\<lambda>st a n. Some st)"
  obtains st' where "rule_deflist cf tok t (t + 2) False st = Some (True, st')" "same_lines st st'" "bl_line st' = t"
proof -
  let ?st0 = "push_term t (bl_open (Tok DlOpen) st)" and ?n = "Suc (Suc t)"
  have grows: "same_lines (bl_open (Tok DlOpen) st) ?st0" using push_term_grows by (simp add: bgrows_def)
  obtain fl st1 where item: "def_item tok ?n ?n i (True, False) ?st0 = Some (fl, st1)" "same_lines ?st0 st1" "bl_line st1 = bl_line ?st0"
    using def_item_empty [OF tok] by blast
  have same: "same_lines (bl_open (Tok DlOpen) st) st1" using grows item(2) same_lines_trans by blast
  then have "same_text st st1" by (simp add: same_lines_def same_text_def)
  note marks = same_text_markers [OF this]
  have line: "bl_line st1 = t" using item(3) l(2) by (simp add: push_term_def Let_def)
  have e1: "is_empty st1 j = is_empty st j" for j using same by (simp add: same_lines_def is_empty_def)
  have items: "def_items tok ?n 3 ?n i (True, False) ?st0 = Some (fst fl, t, st1)"
    using e ind m(2) marks e1 by (simp add: numeral_3_eq_3 item(1) line Let_def next_term_def)
  let ?st2 = "(bl_close (Tok DlClose) st1)\<lparr>bl_line := t\<rparr>"
  let ?st' = "if fst fl then mark_tight (length (bl_tokens st)) ?st2 else ?st2"
  have "same_lines st ?st2" using same by (simp add: same_lines_def)
  then have "same_lines st ?st'" "bl_line ?st' = t" by (simp_all add: same_lines_def mark_tight_def)
  moreover have "rule_deflist cf tok t ?n False st = Some (True, ?st')"
    using e(1) m(1) ind(2) l(1) by (simp add: rule_deflist_def Let_def items)
  ultimately show thesis using that by simp
qed

text \<open>The loop over the lines then stays where it is, whatever its bound.\<close>

lemma deflist_loops:
  assumes "is_empty st (t + 1)" "\<not> is_empty st t" "def_marker st (t + 2) = Some i" "def_marker st t = None"
    "bl_indent st \<le> tshift st t" "bl_indent st \<le> tshift st (t + 2)" "bl_level st < bc_nesting cf"
  shows "block_loop (block_rules_run cf (\<lambda>st a n. Some st) [BDeflist]) k (t + 2) t u st = None"
  using assms
proof (induction k arbitrary: u st)
  case (Suc k)
  let ?st = "st\<lparr>bl_line := t\<rparr>"
  have s: "skip_empty st t = t" using Suc(3) by (rule skip_empty_stops)
  have same0: "same_text st ?st" "same_lines st ?st" by (simp_all add: same_text_def same_lines_def)
  note marks0 = same_text_markers [OF same0(1)]
  have e0: "is_empty ?st = is_empty st" by (simp add: is_empty_def fun_eq_iff)
  obtain st' where r: "rule_deflist cf (\<lambda>st a n. Some st) t (t + 2) False ?st = Some (True, st')" "same_lines ?st st'" "bl_line st' = t"
    using deflist_stuck [of ?st t i cf "\<lambda>st a n. Some st"] Suc(2-) marks0 e0 by auto
  let ?st' = "st'\<lparr>bl_tight := \<not> u\<rparr>"
  have "same_lines st ?st'" using r(2) by (simp add: same_lines_def)
  then have same: "same_text st ?st'" "bl_level ?st' = bl_level st" "is_empty ?st' = is_empty st"
    by (simp_all add: same_lines_def same_text_def is_empty_def fun_eq_iff)
  note marks = same_text_markers [OF same(1)]
  have ih: "block_loop (block_rules_run cf (\<lambda>st a n. Some st) [BDeflist]) k (t + 2) t v ?st' = None" for v
    by (rule Suc(1)) (use Suc(2-) marks same in simp_all)
  have run: "block_rules_run cf (\<lambda>st a n. Some st) [BDeflist] t (t + 2) ?st = Some st'"
    by (simp add: block_rule_run_def r(1) [simplified])
  show ?case
    using Suc(3,6) ih r(2,3) run same(3) unfolding block_loop.simps s Let_def
    by (simp del: block_rules_run.simps)
qed simp

subsection \<open>Properties\<close>

text \<open>
  Property C2. The block parser comes to the end of every text: with the paragraph rule enabled, and not both
  the rules for quotes and for description lists, every line is consumed, the nesting level is back at
  zero, the tokens are well nested, and only enabled rules have left their tokens.
\<close>

theorem block_parser_ends:
  assumes "settled bc"
  shows "case parse_blocks bc src of
           None \<Rightarrow> False
         | Some st \<Rightarrow> bl_max st \<le> bl_line st \<and> bl_level st = 0 \<and> nesting block_bracket [] (map fst (bl_tokens st)) = Some []
             \<and> list_all (block_ok bc) (map fst (bl_tokens st))"
  using parse_blocks_good [OF assms, of src]
  by (cases "parse_blocks bc src") (simp_all add: block_clean_def balanced_def)

theorem block_parser_ends_witness:
  "\<exists>st. parse_blocks \<lparr>bc_rules = [BParagraph, BBlockquote, BList], bc_nesting = 20, bc_html = False\<rparr> [62, 32, 45, 32, 97] = Some st \<and> bl_max st \<le> bl_line st"
  using block_parser_ends [of "\<lparr>bc_rules = [BParagraph, BBlockquote, BList], bc_nesting = 20, bc_html = False\<rparr>" "[62, 32, 45, 32, 97]"]
  by (simp add: settled_def split: option.splits)

end
