(* ===== verification/MdDocument.thy ===== *)
theory MdDocument
  imports MdBlockRun MdParse
begin

section \<open>Documents: the core rules and the way to HTML (swagger-ui-bundle.js, Remarkable)\<close>

text \<open>
  The core rules \<open>references\<close>, \<open>inline\<close> and \<open>footnote_tail\<close> over the tokens of the block parser, and
  \<open>render\<close>. The levels of the tokens, which nothing reads behind the block parser, are dropped.
\<close>

subsection \<open>Reference definitions\<close>

type_synonym md_frefs = "(jsstr \<times> int) list option"

text \<open>
  \<open>[label]: address "title"\<close> at the front of a text: the position behind it and the table of
  references, in which the first definition of a label counts.
\<close>

definition reference_end :: "md_config \<Rightarrow> md_refs \<Rightarrow> nat \<Rightarrow> md_state \<Rightarrow> (nat \<times> md_refs) option" where
  "reference_end cf refs c st =
     (let p = st_max st; v = st_link_content st; h = st_pos st; f = skip_while blank st p (h + 1);
          (titled, st') = (if f < p then parse_title st f else (False, st));
          (m, f) = (if titled then (st_link_content st', st_pos st') else ([], h));
          f = skip_while ((=) (Some 32)) st' p f;
          g = normalize_reference (cf_upper cf) (slice_at st 1 c)
      in if f < p \<and> char_at st' f \<noteq> Some 10 then None
         else Some (f, if map_of refs g = None then (g, v, m) # refs else refs))"

definition reference_body :: "md_config \<Rightarrow> md_refs \<Rightarrow> md_state \<Rightarrow> nat \<Rightarrow> js_error + (nat \<times> md_refs) option" where
  "reference_body cf refs st c =
     (if char_at st (c + 1) \<noteq> Some 58 then Inr None
      else andthen (parse_dest st (skip_while blank st (st_max st) (c + 2))) (\<lambda>(ok, st).
        Inr (if ok then reference_end cf refs c st else None)))"

definition read_reference :: "md_config \<Rightarrow> md_refs \<Rightarrow> md_frefs \<Rightarrow> jsstr \<Rightarrow> js_error + (nat \<times> md_refs) option" where
  "read_reference cf refs fr e =
     (if e = [] \<or> hd e \<noteq> 91 \<or> \<not> list_ex (\<lambda>i. take 2 (drop i e) = [93, 58]) [0..<length e] then Inr None
      else andthen (link_label cf (md_init e refs [] fr) 0) (\<lambda>(c, st).
        case c of None \<Rightarrow> Inr None | Some c \<Rightarrow> reference_body cf refs st c))"

text \<open>The definitions at the front of a paragraph are taken off, each with the space behind it.\<close>

fun strip_references :: "md_config \<Rightarrow> md_frefs \<Rightarrow> nat \<Rightarrow> md_refs \<Rightarrow> jsstr \<Rightarrow> js_error + md_refs \<times> jsstr" where
  "strip_references cf fr 0 refs r = Inl fuel"
| "strip_references cf fr (Suc k) refs r =
     (if r = [] then Inr (refs, r)
      else andthen (read_reference cf refs fr r) (\<lambda>d.
        case d of None \<Rightarrow> Inr (refs, r) | Some (o', refs) \<Rightarrow> strip_references cf fr k refs (js_trim (drop o' r))))"

definition opens_par :: "btoken \<Rightarrow> bool option" where
  "opens_par t = (case t of Tok (ParagraphOpen b) \<Rightarrow> Some b | _ \<Rightarrow> None)"

definition closes_par :: "btoken \<Rightarrow> bool option" where
  "closes_par t = (case t of Tok (ParagraphClose b) \<Rightarrow> Some b | _ \<Rightarrow> None)"

definition text_of :: "btoken \<Rightarrow> (jsstr \<times> token list) option" where
  "text_of t = (case t of Tok (Inline c ts) \<Rightarrow> Some (c, ts) | _ \<Rightarrow> None)"

definition paragraph_text :: "btoken \<Rightarrow> btoken \<Rightarrow> btoken \<Rightarrow> (bool \<times> jsstr \<times> token list \<times> bool) option" where
  "paragraph_text x y z =
     (case (opens_par x, text_of y, closes_par z) of (Some b, Some (c, ts), Some b') \<Rightarrow> Some (b, c, ts, b') | _ \<Rightarrow> None)"

function rule_references :: "md_config \<Rightarrow> md_frefs \<Rightarrow> md_refs \<Rightarrow> btoken list \<Rightarrow> js_error + md_refs \<times> btoken list" where
  "rule_references cf fr refs (x # y # z # r) =
     (case paragraph_text x y z of
        None \<Rightarrow> andthen (rule_references cf fr refs (y # z # r)) (\<lambda>(refs, r). Inr (refs, x # r))
      | Some (b, c, ts, b') \<Rightarrow>
          andthen (strip_references cf fr (length c + 1) refs c) (\<lambda>(refs, c).
            andthen (rule_references cf fr refs r) (\<lambda>(refs, r).
              Inr (refs, Tok (ParagraphOpen (b \<or> c = [])) # Tok (Inline c ts) # Tok (ParagraphClose (b' \<or> c = [])) # r))))"
| "rule_references cf fr refs [x, y] = Inr (refs, [x, y])"
| "rule_references cf fr refs [x] = Inr (refs, [x])"
| "rule_references cf fr refs [] = Inr (refs, [])"
  by pat_completeness auto
termination by (relation "measure (\<lambda>(cf, fr, refs, xs). length xs)") auto

subsection \<open>Texts\<close>

text \<open>The footnotes go from one text to the next.\<close>

fun rule_inline :: "md_config \<Rightarrow> md_refs \<Rightarrow> footnote list \<Rightarrow> md_frefs \<Rightarrow> btoken list \<Rightarrow> js_error + footnote list \<times> btoken list" where
  "rule_inline cf refs fl fr [] = Inr (fl, [])"
| "rule_inline cf refs fl fr (t # r) =
     (case text_of t of
        None \<Rightarrow> andthen (rule_inline cf refs fl fr r) (\<lambda>(fl, r). Inr (fl, t # r))
      | Some (c, ts) \<Rightarrow>
          andthen (parse_inline cf c refs fl fr) (\<lambda>st.
            andthen (rule_inline cf refs (st_foot_list st) (st_foot_refs st) r) (\<lambda>(fl, r).
              Inr (fl, Tok (Inline c (ts @ map fst (st_tokens st))) # r))))"

subsection \<open>Footnotes\<close>

text \<open>
  The tokens without the definitions of footnotes, and the tokens of each definition. A definition
  inside another one takes over: what comes behind it is a part of the document again.
\<close>

fun take_definitions :: "bool \<Rightarrow> jsstr \<Rightarrow> token list \<Rightarrow> (jsstr \<times> token list) list \<Rightarrow> btoken list \<Rightarrow> token list \<times> (jsstr \<times> token list) list" where
  "take_definitions f l s p [] = ([], p)"
| "take_definitions f l s p (FootDefOpen l' # r) = take_definitions True l' [] p r"
| "take_definitions f l s p (FootDefClose # r) = take_definitions False l s ((l, s) # p) r"
| "take_definitions f l s p (Tok t # r) =
     (if f then take_definitions f l (s @ [t]) p r
      else let (ts, p) = take_definitions f l s p r in (t # ts, p))"

text \<open>
  The list at the end. The tokens of a footnote whose definition is missing are \<open>undefined\<close>, and
  reading the type of that last token throws.
\<close>

definition foot_tokens :: "(jsstr \<times> token list) list \<Rightarrow> footnote \<Rightarrow> (token list \<times> nat) option" where
  "foot_tokens p x =
     (case x of
        FnInline ts \<Rightarrow> Some ([ParagraphOpen False, Inline [] (map fst ts), ParagraphClose False], 1)
      | FnLabel l k \<Rightarrow> (case map_of p l of None \<Rightarrow> None | Some u \<Rightarrow> Some (u, max 1 k)))"

definition closes_paragraph :: "token \<Rightarrow> bool" where
  "closes_paragraph t \<longleftrightarrow> (case t of ParagraphClose b \<Rightarrow> True | _ \<Rightarrow> False)"

definition foot_item :: "nat \<Rightarrow> token list \<Rightarrow> nat \<Rightarrow> token list" where
  "foot_item i u k =
     (let anchors = map (FootnoteAnchor i) [0..<k]
      in FootnoteOpen i # (if u \<noteq> [] \<and> closes_paragraph (last u) then butlast u @ anchors @ [last u] else u @ anchors) @ [FootnoteClose])"

fun foot_items :: "(jsstr \<times> token list) list \<Rightarrow> nat \<Rightarrow> footnote list \<Rightarrow> js_error + token list" where
  "foot_items p i [] = Inr []"
| "foot_items p i (x # r) =
     (case foot_tokens p x of
        None \<Rightarrow> Inl (TypeError ''Cannot read property 'type' of undefined'')
      | Some (u, k) \<Rightarrow> andthen (foot_items p (i + 1) r) (\<lambda>ts. Inr (foot_item i u k @ ts)))"

definition footnote_tail :: "footnote list \<Rightarrow> btoken list \<Rightarrow> js_error + token list" where
  "footnote_tail fl toks =
     (let (ts, p) = take_definitions False [] [] [] toks
      in if fl = [] then Inr ts
         else andthen (foot_items p 0 fl) (\<lambda>fs. Inr (ts @ FootnoteBlockOpen # fs @ [FootnoteBlockClose])))"

subsection \<open>\<open>parse\<close> and \<open>render\<close>\<close>

text \<open>
  The rules \<open>block\<close>, \<open>references\<close> and \<open>inline\<close>, and \<open>footnote_tail\<close> where it is enabled. A preset
  without that rule leaves tokens in the list that the renderer has no rule for.
\<close>

definition document_tokens :: "bl_config \<Rightarrow> md_config \<Rightarrow> bool \<Rightarrow> jsstr \<Rightarrow> js_error + token list" where
  "document_tokens bc cf tail src =
     (case parse_blocks bc src of
        None \<Rightarrow> Inl fuel
      | Some st \<Rightarrow>
          andthen (rule_references cf (bl_refs st) [] (map fst (bl_tokens st))) (\<lambda>(refs, toks).
            andthen (rule_inline cf refs [] (bl_refs st) toks) (\<lambda>(fl, toks).
              if tail then footnote_tail fl toks
              else if FootDefClose \<in> set toks then Inl (TypeError ''r[e[i].type] is not a function'')
              else footnote_tail [] toks)))"

definition render_document :: "bl_config \<Rightarrow> md_config \<Rightarrow> bool \<Rightarrow> md_options \<Rightarrow> jsstr \<Rightarrow> js_error + jsstr" where
  "render_document bc cf tail n src = andthen (document_tokens bc cf tail src) (render_html n)"

subsection \<open>Texts with reference definitions\<close>

definition safe_refs :: "md_refs \<Rightarrow> bool" where
  "safe_refs refs \<longleftrightarrow> (\<forall>h \<in> addresses refs. validate_link h)"

lemma safe_refs_simps [simp]: "safe_refs []" "safe_refs ((g, v, m) # refs) \<longleftrightarrow> validate_link v \<and> safe_refs refs"
  by (simp_all add: safe_refs_def addresses_def)

text \<open>What reading a definition owes: the position moves, and the addresses stay safe.\<close>

definition reads :: "md_refs \<Rightarrow> (nat \<times> md_refs) option \<Rightarrow> bool" where
  "reads refs d \<longleftrightarrow> (case d of None \<Rightarrow> True | Some (f, refs') \<Rightarrow> 0 < f \<and> (safe_refs refs \<longrightarrow> safe_refs refs'))"

lemma reference_end_reads:
  assumes "good st" "0 < st_pos st" "validate_link (st_link_content st)"
  shows "reads refs (reference_end cf refs c st)"
proof -
  have pos: "0 < skip_while p st1 n f" if "0 < f" for p st1 n f
    using skip_while_ge [of f p st1 n] that by simp
  have title: "0 < st_pos st1" if "parse_title st f = (True, st1)" for f st1
    using parse_title_ok [OF assms(1) that] by simp
  have title': "0 < skip_while p st1 n (st_pos st1)" if "parse_title st f = (True, st1)" for p f n st1
    using pos title that by blast
  show ?thesis using assms(2,3) pos title'
    by (auto simp: reference_end_def reads_def Let_def split: prod.splits)
qed

lemma read_reference_ok: "returns (read_reference cf refs fr e) (reads refs)"
proof -
  have label: "returns (link_label cf (md_init e refs [] fr) 0) (\<lambda>(c, st). good st)"
    by (rule returns_mono [OF label_okD [OF link_label_ok]]) (auto simp: good_def md_init_def)
  have body: "returns (reference_body cf refs st c) (reads refs)" if g: "good st" for st c
  proof -
    have dest: "returns (parse_dest st i) (\<lambda>(ok, st'). ok \<longrightarrow> good st' \<and> 0 < st_pos st' \<and> validate_link (st_link_content st'))" for i
      by (rule returns_mono [OF parse_dest_ok [OF g]]) (auto split: if_splits)
    show ?thesis unfolding reference_body_def
      by (cases "char_at st (c + 1) = Some 58")
         (auto intro!: returns_andthen [OF dest] simp: reference_end_reads, simp_all add: reads_def)
  qed
  have none: "reads refs None" by (simp add: reads_def)
  show ?thesis unfolding read_reference_def
    by (auto intro!: returns_andthen [OF label] body simp: none split: option.splits)
qed

lemma js_trim_length: "length (js_trim s) \<le> length s"
  unfolding js_trim_def using length_dropWhile_le [of is_space s] length_dropWhile_le [of is_space "rev (dropWhile is_space s)"] by simp

lemma strip_references_ok:
  "length r < k \<Longrightarrow> safe_refs refs \<Longrightarrow> returns (strip_references cf fr k refs r) (\<lambda>(refs', c). safe_refs refs')"
proof (induction k arbitrary: refs r)
  case (Suc k)
  show ?case
  proof (cases "r = []")
    case False
    have "returns (case d of None \<Rightarrow> Inr (refs, r) | Some (o', refs) \<Rightarrow> strip_references cf fr k refs (js_trim (drop o' r)))
        (\<lambda>(refs', c). safe_refs refs')" if d: "reads refs d" for d
    proof (cases d)
      case (Some x)
      obtain f refs' where x: "x = (f, refs')" by (cases x)
      have "0 < f" "safe_refs refs'" using d Suc(3) by (simp_all add: Some x reads_def)
      moreover from this have "length (js_trim (drop f r)) < k"
        using js_trim_length [of "drop f r"] False Suc(2) by (cases r) auto
      ultimately show ?thesis using Suc(1) by (simp add: Some x)
    qed (use Suc(3) in simp)
    then show ?thesis using False by (auto intro!: returns_andthen [OF read_reference_ok])
  qed (use Suc(3) in simp)
qed simp

subsection \<open>Stages of a document\<close>

lemma text_of_simps [simp]: "text_of (Tok (Inline c ts)) = Some (c, ts)" "text_of (Tok (ParagraphOpen b)) = None"
  "text_of (Tok (ParagraphClose b)) = None"
  by (simp_all add: text_of_def)

lemma text_of_Some: "text_of y = Some (c, ts) \<Longrightarrow> y = Tok (Inline c ts)"
  by (simp add: text_of_def split: btoken.splits token.splits)

lemma paragraph_text_Some:
  assumes "paragraph_text x y z = Some (b, c, ts, b')"
  shows "x = Tok (ParagraphOpen b)" "y = Tok (Inline c ts)" "z = Tok (ParagraphClose b')"
  using assms text_of_Some [of y]
  by (auto simp: paragraph_text_def opens_par_def closes_par_def split: option.splits btoken.splits token.splits)

lemma returns_pair:
  "returns r (\<lambda>(a, b). P a b) \<Longrightarrow> (\<And>a b. P a b \<Longrightarrow> returns (f a b) Q) \<Longrightarrow> returns (andthen r (\<lambda>(a, b). f a b)) Q"
  by (erule returns_andthen) auto

lemma rule_references_ok:
  "safe_refs refs \<Longrightarrow> list_all (block_ok bc) xs \<Longrightarrow>
    returns (rule_references cf fr refs xs) (\<lambda>(refs', ys). safe_refs refs' \<and> list_all (block_ok bc) ys \<and> map block_bracket ys = map block_bracket xs)"
proof (induction cf fr refs xs rule: rule_references.induct)
  case (1 cf fr refs x y z r)
  show ?case
  proof (cases "paragraph_text x y z")
    case None
    have "returns (rule_references cf fr refs (y # z # r))
        (\<lambda>(refs', ys). safe_refs refs' \<and> list_all (block_ok bc) ys \<and> map block_bracket ys = map block_bracket (y # z # r))"
      using 1(1) [OF None] 1(3,4) by simp
    then show ?thesis unfolding rule_references.simps None option.case
      by (rule returns_pair) (use 1(4) in simp)
  next
    case (Some p)
    obtain b c ts b' where e: "p = (b, c, ts, b')" by (cases p)
    note p = paragraph_text_Some [OF Some [unfolded e]]
    have s: "returns (strip_references cf fr (length c + 1) refs c) (\<lambda>(refs', c). safe_refs refs')"
      by (rule strip_references_ok) (use 1(3) in simp_all)
    have r: "returns (rule_references cf fr refs' r)
        (\<lambda>(refs'', ys). safe_refs refs'' \<and> list_all (block_ok bc) ys \<and> map block_bracket ys = map block_bracket r)"
      if "safe_refs refs'" for refs'
      using 1(2) [OF Some e [symmetric] refl refl that] 1(4) by simp
    show ?thesis unfolding rule_references.simps Some e option.case prod.case
      by (rule returns_pair [OF s], rule returns_pair [OF r]) (use 1(4) p in \<open>simp_all add: block_ok_def [of _ "Tok _"]\<close>)
  qed
qed simp_all

definition parsed :: "bl_config \<Rightarrow> md_config \<Rightarrow> md_refs \<Rightarrow> btoken \<Rightarrow> bool" where
  "parsed bc cf refs t \<longleftrightarrow> (case text_of t of None \<Rightarrow> block_ok bc t | Some (c, ts) \<Rightarrow> list_all (token_ok (cf_html cf) refs) ts)"

lemma rule_inline_ok:
  "list_all (block_ok bc) xs \<Longrightarrow>
    returns (rule_inline cf refs fl fr xs) (\<lambda>(fl', ys). map block_bracket ys = map block_bracket xs \<and> list_all (parsed bc cf refs) ys)"
proof (induction xs arbitrary: fl fr)
  case (Cons t r)
  have ih: "returns (rule_inline cf refs fl fr r) (\<lambda>(fl', ys). map block_bracket ys = map block_bracket r \<and> list_all (parsed bc cf refs) ys)"
    for fl fr using Cons by simp
  show ?case
  proof (cases "text_of t")
    case None
    show ?thesis unfolding rule_inline.simps None option.case
      by (rule returns_pair [OF ih]) (use Cons(2) None in \<open>simp add: parsed_def [of _ _ _ t]\<close>)
  next
    case (Some x)
    then obtain c ts where t: "t = Tok (Inline c ts)" using text_of_Some by (cases x) blast
    have "ts = []" using Cons(2) t by (simp add: block_ok_def)
    have p: "returns (parse_inline cf c refs fl fr) (\<lambda>st. list_all (token_ok (cf_html cf) refs) (map fst (st_tokens st)))"
      by (rule returns_mono [OF parse_inline_ok]) (auto simp: grows_def md_init_def clean_def)
    show ?thesis unfolding t rule_inline.simps text_of_simps option.case prod.case
      by (rule returns_andthen [OF p], rule returns_pair [OF ih]) (simp add: parsed_def [of _ _ _ "Tok _"] \<open>ts = []\<close>)
  qed
qed simp

lemma take_definitions_none: "take_definitions False l s p (map Tok ts) = (ts, p)"
  by (induction ts) simp_all

lemma map_Tok: "list_all (\<lambda>t. \<exists>u. t = Tok u) xs \<Longrightarrow> \<exists>ts. xs = map Tok ts"
proof (induction xs)
  case (Cons x xs)
  then obtain u ts where "x = Tok u" "xs = map Tok ts" by auto
  then show ?case by (intro exI [of _ "u # ts"]) simp
qed simp

text \<open>The addresses of links and images, in a text or outside.\<close>

fun safe_links :: "token \<Rightarrow> bool" where
  "safe_links (Inline c ts) = (\<forall>t \<in> set ts. safe_links t)"
| "safe_links (LinkOpen h t) = validate_link h"
| "safe_links (Image h t a) = validate_link h"
| "safe_links t = True"

lemma token_ok_facts:
  assumes "token_ok html refs t"
  shows "\<not> inline_token t \<and> (safe_refs refs \<longrightarrow> safe_links t) \<and> (\<not> html \<longrightarrow> plain_token t)"
  using assms by (cases t) (auto simp: safe_refs_def)

lemma parsed_facts:
  assumes "parsed bc cf refs (Tok t)" "safe_refs refs"
  shows "well_nested t" "safe_links t" "\<not> bc_html bc \<Longrightarrow> \<not> cf_html cf \<Longrightarrow> plain_token t"
proof -
  have "well_nested t \<and> safe_links t \<and> (\<not> bc_html bc \<longrightarrow> \<not> cf_html cf \<longrightarrow> plain_token t)"
  proof (cases "text_of (Tok t)")
    case None
    then show ?thesis using assms by (cases t) (simp_all add: parsed_def block_ok_def)
  next
    case (Some x)
    then obtain c ts where t: "t = Inline c ts" using text_of_Some [of "Tok t"] by (cases x) auto
    then have "list_all (token_ok (cf_html cf) refs) ts" using assms(1) by (simp add: parsed_def)
    then show ?thesis using token_ok_facts [where html = "cf_html cf"] assms(2) by (auto simp: t list_all_iff)
  qed
  then show "well_nested t" "safe_links t" "\<not> bc_html bc \<Longrightarrow> \<not> cf_html cf \<Longrightarrow> plain_token t" by simp_all
qed

lemma document_tokens_ok:
  assumes "settled bc" "BFootnote \<notin> set (bc_rules bc)"
  shows "returns (document_tokens bc cf False src) (\<lambda>ts. nesting block_bracket [] (map Tok ts) = Some []
    \<and> (\<exists>refs. safe_refs refs \<and> (\<forall>t \<in> set ts. parsed bc cf refs (Tok t))))"
proof -
  obtain st where st: "parse_blocks bc src = Some st" "block_clean bc (bl_tokens st)"
    using parse_blocks_good [OF assms(1), of src] by (cases "parse_blocks bc src") auto
  let ?xs = "map fst (bl_tokens st)"
  have r: "returns (rule_references cf (bl_refs st) [] ?xs)
      (\<lambda>(refs', ys). safe_refs refs' \<and> list_all (block_ok bc) ys \<and> map block_bracket ys = map block_bracket ?xs)"
    by (rule rule_references_ok) (use st(2) in \<open>simp_all add: block_clean_def\<close>)
  have no_foot: "\<exists>u. t = Tok u" if "parsed bc cf refs t" for refs t
    using that assms(2) by (cases t) (auto simp: parsed_def text_of_def block_ok_def)
  show ?thesis unfolding document_tokens_def st(1) option.case
  proof (rule returns_pair [OF r], rule returns_pair [OF rule_inline_ok])
    fix refs ys fl zs
    assume y: "safe_refs refs \<and> list_all (block_ok bc) ys \<and> map block_bracket ys = map block_bracket ?xs"
      and z: "map block_bracket zs = map block_bracket ys \<and> list_all (parsed bc cf refs) zs"
    obtain ts where ts: "zs = map Tok ts" using map_Tok [of zs] no_foot [of refs] z unfolding list_all_iff by blast
    have "nesting block_bracket [] zs = Some []"
      using nesting_cong [of block_bracket zs ?xs "[]"] y z st(2) by (simp add: block_clean_def balanced_def)
    then show "returns (if False then footnote_tail fl zs
        else if FootDefClose \<in> set zs then Inl (TypeError ''r[e[i].type] is not a function'') else footnote_tail [] zs)
        (\<lambda>ts. nesting block_bracket [] (map Tok ts) = Some [] \<and> (\<exists>refs. safe_refs refs \<and> (\<forall>t \<in> set ts. parsed bc cf refs (Tok t))))"
      using y z by (auto simp: ts footnote_tail_def take_definitions_none list_all_iff)
  qed simp
qed

subsection \<open>Properties\<close>


text \<open>The document \<open><\<close>.\<close>

lemma parse_blocks_example:
  "parse_blocks \<lparr>bc_rules = [BParagraph], bc_nesting = 0, bc_html = False\<rparr> [60] =
     Some \<lparr>bl_src = [60], bl_b = [0, 1], bl_e = [1, 1], bl_s = [0, 0], bl_indent = 0, bl_line = 1, bl_max = 1,
       bl_tight = True, bl_parent = Root, bl_dd = -1, bl_level = 0,
       bl_tokens = [(Tok (ParagraphOpen False), 0), (Tok (Inline [60] []), 1), (Tok (ParagraphClose False), 0)], bl_refs = None\<rparr>"
  by (simp add: parse_blocks_def bl_init_def Let_def block_rules_def block_rule_run_def rule_paragraph_def paragraph_end.simps
      skip_empty.simps is_empty_def mark_def get_lines_def bslice_def js_slice_def slice_from_def js_trim_def is_space_def
      bl_push_def push_inline_def)


text \<open>
  A footnote definition inside another one takes its place, so a reference to the outer one makes the
  rule throw: \<open>[^a]: [^b]: x\<close> and then \<open>[^a]\<close>.
\<close>

lemma nested_definition_throws:
  "footnote_tail [FnLabel [97] 1]
     [FootDefOpen [97], FootDefOpen [98], Tok (ParagraphOpen False), Tok (Inline [120] [TextTok [120]]), Tok (ParagraphClose False),
      FootDefClose, FootDefClose, Tok (ParagraphOpen False), Tok (Inline [91, 94, 97, 93] [FootnoteRef 0 0]), Tok (ParagraphClose False)]
     = Inl (TypeError ''Cannot read property 'type' of undefined'')"
  by code_simp

end
