(* ===== verification/Punycode.thy ===== *)
theory Punycode
  imports Prelude
begin

section \<open>Punycode (swagger-ui-bundle.js, punycode 1.3.2)\<close>

text \<open>
  Internationalised host names: \<open>encode\<close> (\<open>I\<close>) writes the code points of a label as ASCII, \<open>decode\<close>
  (\<open>M\<close>) reads them back, both with the same adaptation of the bias (\<open>T\<close>). All numbers are exact
  integers below $2^{53}$ in the code; \<open>maxint\<close> is the bound its overflow checks keep.
\<close>

definition maxint :: nat where "maxint = 2147483647"

definition overflow :: js_error where
  "overflow = RangeError ''Overflow: input needs wider integers to process''"

definition not_basic :: js_error where
  "not_basic = RangeError ''Illegal input >= 0x80 (not a basic code point)''"

definition invalid_input :: js_error where
  "invalid_input = RangeError ''Invalid input''"

subsection \<open>Code points: \<open>A\<close> and \<open>O\<close>\<close>

fun ucs2decode :: "jsstr \<Rightarrow> nat list" where
  "ucs2decode [] = []"
| "ucs2decode (t # e) =
     (if 55296 \<le> unat t \<and> unat t \<le> 56319 \<and> e \<noteq> [] then
        (if 64512 AND hd e = 56320
         then (unat (1023 AND t) * 1024 + unat (1023 AND hd e) + 65536) # ucs2decode (drop 1 e)
         else unat t # ucs2decode e)
      else unat t # ucs2decode e)"

definition ucs2_unit :: "nat \<Rightarrow> jsstr" where
  "ucs2_unit e =
     (if 65535 < e then [(of_nat ((e - 65536) div 1024) AND 1023) OR 55296, 56320 OR (1023 AND of_nat (e - 65536))]
      else [of_nat e])"

definition ucs2encode :: "nat list \<Rightarrow> jsstr" where
  "ucs2encode e = concat (map ucs2_unit e)"

subsection \<open>Digits and the bias\<close>

text \<open>\<open>P(e, 0)\<close>: the digit letters \<open>a\<close> to \<open>z\<close>, then \<open>0\<close> to \<open>9\<close>.\<close>

definition digit_to_basic :: "nat \<Rightarrow> nat" where
  "digit_to_basic e = e + 22 + 75 * (if e < 26 then 1 else 0)"

text \<open>
  The digit of a character. The tests are \<open>y - 48 < 10\<close>, \<open>y - 65 < 26\<close> and \<open>y - 97 < 26\<close> without a
  lower bound: characters from 22 below \<open>0\<close> are taken as digits, and below 22, between \<open>9\<close> and \<open>A\<close>
  and between \<open>Z\<close> and \<open>a\<close> the value is negative; what the code does then is not modelled
  (\<open>None\<close>).
\<close>

definition basic_to_digit :: "nat \<Rightarrow> nat option" where
  "basic_to_digit y =
     (if y < 48 + 10 then if 22 \<le> y then Some (y - 22) else None
      else if y < 65 + 26 then if 65 \<le> y then Some (y - 65) else None
      else if y < 97 + 26 then if 97 \<le> y then Some (y - 97) else None
      else Some 36)"

text \<open>The loop of \<open>T\<close>.\<close>

function adapt_loop :: "nat \<Rightarrow> nat \<Rightarrow> nat" where
  "adapt_loop e r = (if 455 < e then adapt_loop (e div 35) (r + 36) else r + 36 * e div (e + 38))"
  by pat_completeness auto
termination by (relation "measure fst") auto

declare adapt_loop.simps [simp del]

definition adapt :: "nat \<Rightarrow> nat \<Rightarrow> bool \<Rightarrow> nat" where
  "adapt e t n = (let e = (if n then e div 700 else e div 2); e = e + e div t in adapt_loop e 0)"

definition threshold :: "nat \<Rightarrow> nat \<Rightarrow> nat" where
  "threshold d i = (if d \<le> i then 1 else if i + 26 \<le> d then 26 else d - i)"

lemma threshold_range: "1 \<le> threshold d i" "threshold d i \<le> 26"
  by (auto simp: threshold_def)

subsection \<open>The encoder \<open>I\<close>\<close>

text \<open>A number in the variable-length digits of a bias.\<close>

function enc_int :: "nat \<Rightarrow> nat \<Rightarrow> nat \<Rightarrow> nat list" where
  "enc_int d i p =
     (let g = threshold d i
      in if p < g then [digit_to_basic p]
         else digit_to_basic (g + (p - g) mod (36 - g)) # enc_int (d + 36) i ((p - g) div (36 - g)))"
  by pat_completeness auto
termination
proof (relation "measure (\<lambda>(d, i, p). p)", goal_cases)
  case (2 d i p g)
  have "(p - g) div (36 - g) \<le> p - g" by (rule div_le_dividend)
  also have "\<dots> < p" using 2 threshold_range [of d i] by simp
  finally show ?case by simp
qed simp

declare enc_int.simps [simp del]

text \<open>
  One pass over the code points for the code \<open>t\<close>; the state is the delta \<open>n\<close>, the bias \<open>i\<close>, the number
  \<open>r\<close> of code points handled, and the output.
\<close>

fun enc_scan :: "nat \<Rightarrow> nat \<Rightarrow> nat list \<Rightarrow> nat \<times> nat \<times> nat \<times> nat list \<Rightarrow> js_error + nat \<times> nat \<times> nat \<times> nat list" where
  "enc_scan t ob [] st = Inr st"
| "enc_scan t ob (y # ys) (n, i, r, k) =
     (if y < t \<and> maxint < n + 1 then Inl overflow
      else
        let n = (if y < t then n + 1 else n)
        in if y = t then enc_scan t ob ys (0, adapt n (r + 1) (r = ob), r + 1, k @ enc_int 36 i n)
           else enc_scan t ob ys (n, i, r, k))"

text \<open>The smallest code point from \<open>t\<close> on.\<close>

fun next_code :: "nat \<Rightarrow> nat list \<Rightarrow> nat \<Rightarrow> nat" where
  "next_code t [] u = u"
| "next_code t (y # ys) u = next_code t ys (if t \<le> y \<and> y < u then y else u)"

text \<open>
  The main loop. Every round handles a code point at least, so as many rounds as there are code
  points are enough; the fuel is their number.
\<close>

fun enc_loop :: "nat \<Rightarrow> nat list \<Rightarrow> nat \<Rightarrow> nat \<Rightarrow> nat \<times> nat \<times> nat \<times> nat list \<Rightarrow> js_error + nat list" where
  "enc_loop fuel e ob t (n, i, r, k) =
     (if \<not> r < length e then Inr k
      else case fuel of
          0 \<Rightarrow> Inl (PlainError ''fuel'')
        | Suc f \<Rightarrow>
            let u = next_code t e maxint
            in if (maxint - n) div (r + 1) < u - t then Inl overflow
               else andthen (enc_scan u ob e (n + (u - t) * (r + 1), i, r, k))
                 (\<lambda>(n, i, r, k). enc_loop f e ob (u + 1) (n + 1, i, r, k)))"

definition puny_encode_points :: "nat list \<Rightarrow> js_error + nat list" where
  "puny_encode_points e =
     (let k = filter (\<lambda>y. y < 128) e; r = length k
      in enc_loop (length e) e r 128 (0, 72, r, if 0 < r then k @ [45] else k))"

definition puny_encode :: "jsstr \<Rightarrow> js_error + jsstr" where
  "puny_encode e = andthen (puny_encode_points (ucs2decode e)) (\<lambda>k. Inr (map of_nat k))"

subsection \<open>The decoder \<open>M\<close>\<close>

fun dec_int :: "nat \<Rightarrow> nat \<Rightarrow> nat \<Rightarrow> nat \<Rightarrow> nat list \<Rightarrow> js_error + nat \<times> nat list" where
  "dec_int u c w a [] = Inl invalid_input"
| "dec_int u c w a (y # ys) =
     (case basic_to_digit y of
        None \<Rightarrow> Inl (PlainError ''negative digit'')
      | Some p \<Rightarrow>
          if 36 \<le> p \<or> (maxint - w) div a < p then Inl overflow
          else
            let w = w + p * a; d = threshold u c
            in if p < d then Inr (w, ys)
               else if maxint div (36 - d) < a then Inl overflow
               else dec_int (u + 36) c w (a * (36 - d)) ys)"

lemma dec_int_less: "dec_int u c w a ys = Inr (v, zs) \<Longrightarrow> length zs < length ys"
  by (induction u c w a ys rule: dec_int.induct) (auto simp: Let_def less_SucI split: option.splits if_splits)

function dec_loop :: "nat list \<Rightarrow> nat list \<Rightarrow> nat \<Rightarrow> nat \<Rightarrow> nat \<Rightarrow> js_error + nat list" where
  "dec_loop ys b x w c =
     (if ys = [] then Inr b
      else case dec_int 36 c w 1 ys of
          Inl e \<Rightarrow> Inl e
        | Inr (v, zs) \<Rightarrow>
            let t = length b + 1; c = adapt (v - w) t (w = 0)
            in if maxint - x < v div t then Inl overflow
               else
                 let x = x + v div t; v = v mod t
                 in dec_loop zs (take v b @ x # drop v b) x (v + 1) c)"
  by pat_completeness auto
termination by (relation "measure (\<lambda>(ys, b, x, w, c). length ys)") (auto dest: dec_int_less)

declare dec_loop.simps [simp del]

text \<open>\<open>lastIndexOf("-")\<close>, 0 where there is none.\<close>

fun last_dash :: "nat list \<Rightarrow> nat" where
  "last_dash [] = 0"
| "last_dash (y # ys) = (if 45 \<in> set ys then last_dash ys + 1 else 0)"

definition puny_decode_points :: "nat list \<Rightarrow> js_error + nat list" where
  "puny_decode_points e =
     (let n = last_dash e
      in if list_ex (\<lambda>y. 128 \<le> y) (take n e) then Inl not_basic
         else dec_loop (drop (if 0 < n then n + 1 else 0) e) (take n e) 128 0 72)"

definition puny_decode :: "jsstr \<Rightarrow> js_error + jsstr" where
  "puny_decode e = andthen (puny_decode_points (map unat e)) (\<lambda>b. Inr (ucs2encode b))"

subsection \<open>The bias stays small\<close>

lemma adapt_loop_bound: "e < 456 * 35 ^ k \<Longrightarrow> adapt_loop e r \<le> r + 36 * k + 33"
proof (induction k arbitrary: e r)
  case 0
  have "36 * e div (e + 38) \<le> 33"
  proof -
    have "36 * e < 34 * (e + 38)" using 0 by simp
    then have "36 * e div (e + 38) < 34" by (simp add: div_less_iff_less_mult)
    then show ?thesis by simp
  qed
  then show ?case using 0 by (subst adapt_loop.simps) simp
next
  case (Suc k)
  show ?case
  proof (cases "455 < e")
    case True
    have "e div 35 < 456 * 35 ^ k" using Suc(2) by (simp add: div_less_iff_less_mult)
    then have "adapt_loop (e div 35) (r + 36) \<le> r + 36 + 36 * k + 33" by (rule Suc(1))
    then show ?thesis using True by (subst adapt_loop.simps) simp
  next
    case False
    have "36 * e div (e + 38) < 37" by (simp add: div_less_iff_less_mult)
    then show ?thesis using False by (subst adapt_loop.simps) simp
  qed
qed

lemma adapt_bound:
  assumes "n \<le> maxint" "0 < t" "first \<or> 2 \<le> t"
  shows "adapt n t first \<le> 213"
proof -
  define e where "e = (if first then n div 700 else n div 2)"
  have big: "(456 :: nat) * 35 ^ 5 = 23949975000" by simp
  have "e + e div t < 456 * 35 ^ 5"
  proof (cases first)
    case True
    then have "e \<le> 3067834" using assms(1) by (simp add: maxint_def e_def)
    moreover have "e div t \<le> e" by (rule div_le_dividend)
    ultimately show ?thesis unfolding big by linarith
  next
    case False
    then have "e \<le> 1073741823" "2 \<le> t" using assms by (simp_all add: maxint_def e_def)
    moreover have "e div t \<le> e div 2" using \<open>2 \<le> t\<close> by (intro div_le_mono2) simp_all
    ultimately show ?thesis unfolding big by linarith
  qed
  from adapt_loop_bound [OF this, of 0] show ?thesis by (simp add: adapt_def Let_def e_def)
qed

subsection \<open>Numbers\<close>

lemma basic_digit: "p < 36 \<Longrightarrow> basic_to_digit (digit_to_basic p) = Some p"
  by (simp add: basic_to_digit_def digit_to_basic_def)

text \<open>
  The weight \<open>a\<close> at digit position \<open>d\<close>: below the bias every threshold is 1 and the weights are the
  powers of 35; from 26 above it on every threshold is 26.
\<close>

definition weight_ok :: "nat \<Rightarrow> nat \<Rightarrow> nat \<Rightarrow> bool" where
  "weight_ok d i a \<longleftrightarrow> i + 26 \<le> d \<or> (\<exists>j. d = 36 * (j + 1) \<and> a = 35 ^ j \<and> 36 * j \<le> i)"

lemma weight_next:
  assumes "weight_ok d i a" "i \<le> 213" "threshold d i \<le> q" "a * q \<le> maxint"
  shows "a * (36 - threshold d i) \<le> maxint" and "weight_ok (d + 36) i (a * (36 - threshold d i))"
proof -
  have "a * (36 - threshold d i) \<le> maxint \<and> weight_ok (d + 36) i (a * (36 - threshold d i))"
  proof (cases "i + 26 \<le> d")
    case True
    then have t: "threshold d i = 26" by (simp add: threshold_def)
    have "a * 10 \<le> a * q" using assms(3) t by simp
    then have "a * 10 \<le> maxint" using assms(4) by linarith
    then show ?thesis using True t by (simp add: weight_ok_def)
  next
    case False
    then obtain j where j: "d = 36 * (j + 1)" "a = 35 ^ j" "36 * j \<le> i" using assms(1) by (auto simp: weight_ok_def)
    then have "j \<le> 5" using assms(2) by simp
    then have "(35 :: nat) ^ j \<le> 35 ^ 5" by (intro power_increasing) simp_all
    then have "a * 35 \<le> maxint" using j(2) by (simp add: maxint_def)
    moreover have "a * (36 - threshold d i) \<le> a * 35" using threshold_range(1) [of d i] by (intro mult_le_mono2) simp
    moreover have "weight_ok (d + 36) i (a * (36 - threshold d i))"
    proof (cases "d \<le> i")
      case True
      then have "threshold d i = 1" by (simp add: threshold_def)
      moreover have "d + 36 = 36 * (Suc j + 1)" "a * 35 = 35 ^ Suc j" "36 * Suc j \<le> i" using j True by simp_all
      ultimately show ?thesis unfolding weight_ok_def by (intro disjI2 exI [of _ "Suc j"]) simp
    qed (simp add: weight_ok_def)
    ultimately show ?thesis by linarith
  qed
  then show "a * (36 - threshold d i) \<le> maxint" "weight_ok (d + 36) i (a * (36 - threshold d i))" by blast+
qed

lemma dec_enc_int:
  assumes "weight_ok d i a" "i \<le> 213" "0 < a" "w + a * q \<le> maxint"
  shows "dec_int d i w a (enc_int d i q @ rest) = Inr (w + a * q, rest)"
  using assms
proof (induction d i q arbitrary: w a rule: enc_int.induct)
  case (1 d i p)
  define g where "g = threshold d i"
  have g: "1 \<le> g" "g \<le> 26" unfolding g_def by (rule threshold_range)+
  have fits: "\<not> (maxint - w) div a < c" if "c \<le> p" for c
  proof -
    have "a * c \<le> a * p" using that by (rule mult_le_mono2)
    then have "c * a \<le> maxint - w" using 1(5) by (subst mult.commute) linarith
    then show ?thesis using 1(4) by (simp add: not_less less_eq_div_iff_mult_less_eq)
  qed
  show ?case
  proof (cases "p < g")
    case True
    then have "enc_int d i p = [digit_to_basic p]" by (subst enc_int.simps) (simp add: g_def Let_def)
    then show ?thesis using True g fits [of p] by (simp add: basic_digit g_def [symmetric] Let_def mult.commute)
  next
    case False
    define c where "c = g + (p - g) mod (36 - g)"
    define p' where "p' = (p - g) div (36 - g)"
    have e: "enc_int d i p = digit_to_basic c # enc_int (d + 36) i p'"
      using False by (subst enc_int.simps) (simp add: g_def c_def p'_def Let_def)
    have c: "c < 36" "g \<le> c" "c \<le> p"
    proof -
      have "(p - g) mod (36 - g) < 36 - g" using g by simp
      then show "c < 36" by (simp add: c_def)
      show "g \<le> c" by (simp add: c_def)
      have "(p - g) mod (36 - g) \<le> p - g" by (rule mod_less_eq_dividend)
      then show "c \<le> p" using False unfolding c_def by linarith
    qed
    have p: "c + (36 - g) * p' = p"
      using False mult_div_mod_eq [of "36 - g" "p - g"] by (simp add: c_def p'_def)
    have "a * p \<le> maxint" using 1(5) by simp
    note wt = weight_next [OF 1(2,3) _ this, folded g_def]
    have le: "\<not> maxint div (36 - g) < a"
      using wt(1) False g by (simp add: not_less less_eq_div_iff_mult_less_eq)
    have val: "w + c * a + a * (36 - g) * p' = w + a * p"
      using arg_cong [OF p, of "\<lambda>x. a * x"] by (simp add: algebra_simps)
    have "dec_int (d + 36) i (w + c * a) (a * (36 - g)) (enc_int (d + 36) i p' @ rest)
        = Inr (w + c * a + a * (36 - g) * p', rest)"
      unfolding p'_def g_def
      by (rule 1(1) [OF refl _ _ 1(3)]) (use False g wt(2) 1(4,5) val in \<open>simp_all add: g_def p'_def\<close>)
    then show ?thesis unfolding e val
      using c fits [OF c(3)] le g by (simp add: basic_digit g_def [symmetric] Let_def)
  qed
qed

text \<open>One insertion of the decoder.\<close>

lemma dec_loop_step:
  assumes "i \<le> 213" "w + p \<le> maxint" "x + (w + p) div (length b + 1) \<le> maxint"
  shows "dec_loop (enc_int 36 i p @ rest) b x w i =
    (let t = length b + 1; u = x + (w + p) div t; v = (w + p) mod t
     in dec_loop rest (take v b @ u # drop v b) u (v + 1) (adapt p t (w = 0)))"
proof -
  have wt: "weight_ok 36 i 1" unfolding weight_ok_def by (intro disjI2 exI [of _ 0]) simp
  have "enc_int 36 i p \<noteq> []" by (subst enc_int.simps) (simp add: Let_def)
  moreover have "dec_int 36 i w 1 (enc_int 36 i p @ rest) = Inr (w + p, rest)"
    using dec_enc_int [OF wt assms(1), of w p rest] assms(2) by simp
  moreover have "\<not> maxint - x < (w + p) div (length b + 1)" using assms(3) by linarith
  ultimately show ?thesis by (subst dec_loop.simps) (simp add: Let_def)
qed

lemma enc_int_digits: "set (enc_int d i p) \<subseteq> {48..57} \<union> {97..122}"
proof (induction d i p rule: enc_int.induct)
  case (1 d i p)
  have dig: "digit_to_basic q \<in> {48..57} \<union> {97..122}" if "q < 36" for q
    using that by (auto simp: digit_to_basic_def)
  define g where "g = threshold d i"
  have g: "1 \<le> g" "g \<le> 26" unfolding g_def by (rule threshold_range)+
  show ?case
  proof (cases "p < g")
    case True
    then show ?thesis using dig [of p] g by (subst enc_int.simps) (simp add: g_def [symmetric] Let_def)
  next
    case False
    have "(p - g) mod (36 - g) < 36 - g" using g by simp
    then have "g + (p - g) mod (36 - g) < 36" by linarith
    note dig [OF this]
    moreover have "set (enc_int (d + 36) i ((p - g) div (36 - g))) \<subseteq> {48..57} \<union> {97..122}"
      using 1 [OF refl] False by (simp add: g_def)
    ultimately show ?thesis using False by (subst enc_int.simps) (simp add: g_def [symmetric] Let_def)
  qed
qed

subsection \<open>Encoder and decoder in step\<close>

text \<open>
  The code points the decoder has when the encoder is at code \<open>t\<close> between \<open>ps\<close> and \<open>ys\<close>, and the
  relation of their states: the delta counts the states of the decoder's machine still to pass.
\<close>

definition mix :: "nat \<Rightarrow> nat list \<Rightarrow> nat list \<Rightarrow> nat list" where
  "mix t ps ys = filter (\<lambda>y. y \<le> t) ps @ filter (\<lambda>y. y < t) ys"

definition in_step :: "nat \<Rightarrow> nat \<Rightarrow> nat \<Rightarrow> nat \<times> nat \<times> nat \<Rightarrow> nat \<Rightarrow> nat \<Rightarrow> bool" where
  "in_step t l ob st x w \<longleftrightarrow>
     (case st of (n, i, r) \<Rightarrow> x \<le> t \<and> i \<le> 213 \<and> n + w = (r + 1) * (t - x) + l \<and> ob \<le> r \<and> (w = 0) = (r = ob))"

lemma delta_fits:
  assumes "n + w = (r + 1) * (t - x) + l" "r \<le> 1900" "l \<le> r" "t \<le> 1114111"
  shows "n + w < maxint"
proof -
  have "(r + 1) * (t - x) \<le> 1901 * 1114111" using assms(2,4) by (intro mult_le_mono) simp_all
  then show ?thesis using assms by (simp add: maxint_def)
qed

lemma scan_in_step:
  assumes "length (ps @ ys) \<le> 1900" "t \<le> 1114111"
    and "in_step t (length (filter (\<lambda>y. y \<le> t) ps)) ob (n, i, length (mix t ps ys)) x w"
  shows "\<exists>n' i' d x' w'. enc_scan t ob ys (n, i, length (mix t ps ys), k) = Inr (n', i', length (mix t (ps @ ys) []), k @ d)
    \<and> (\<forall>rest. dec_loop (d @ rest) (mix t ps ys) x w i = dec_loop rest (mix t (ps @ ys) []) x' w' i')
    \<and> in_step t (length (mix t (ps @ ys) [])) ob (n', i', length (mix t (ps @ ys) [])) x' w' \<and> set d \<subseteq> {48..57} \<union> {97..122}"
  using assms
proof (induction ys arbitrary: ps n i k x w)
  case Nil
  then show ?case
    by (intro exI [of _ n] exI [of _ i] exI [of _ "[]"] exI [of _ x] exI [of _ w]) (simp add: mix_def)
next
  case (Cons y ys)
  let ?l = "length (filter (\<lambda>y. y \<le> t) ps)"
  have shift: "mix t (ps @ y # ys) [] = mix t ((ps @ [y]) @ ys) []" by simp
  have len: "length ((ps @ [y]) @ ys) \<le> 1900" using Cons.prems by simp
  let ?r = "length (mix t ps (y # ys))"
  have inv: "x \<le> t" "i \<le> 213" "n + w = (?r + 1) * (t - x) + ?l" "ob \<le> ?r" "(w = 0) = (?r = ob)"
    using Cons.prems(3) by (simp_all add: in_step_def)
  have "?r \<le> length (ps @ y # ys)" unfolding mix_def length_append by (intro add_mono length_filter_le)
  then have r: "?r \<le> 1900" using Cons.prems(1) by linarith
  have l: "?l \<le> ?r" by (simp add: mix_def)
  note fits = delta_fits [OF inv(3) r l Cons.prems(2)]
  note IH = Cons.IH [OF len Cons.prems(2)]
  consider (less) "y < t" | (equal) "y = t" | (more) "t < y" by linarith
  then show ?case
  proof cases
    case less
    then have m: "mix t (ps @ [y]) ys = mix t ps (y # ys)" by (simp add: mix_def)
    have "in_step t (length (filter (\<lambda>y. y \<le> t) (ps @ [y]))) ob (n + 1, i, length (mix t (ps @ [y]) ys)) x w"
      using inv less unfolding m by (simp add: in_step_def)
    from IH [OF this, of k] show ?thesis using less fits unfolding m shift by (simp add: Let_def)
  next
    case equal
    have m: "mix t (ps @ [y]) ys = take ?l (mix t ps (y # ys)) @ t # drop ?l (mix t ps (y # ys))"
      using equal by (simp add: mix_def)
    then have ml: "length (mix t (ps @ [y]) ys) = ?r + 1" using l by simp
    define c where "c = adapt n (?r + 1) (w = 0)"
    have "c \<le> 213" unfolding c_def by (rule adapt_bound) (use fits inv in auto)
    then have step: "in_step t (length (filter (\<lambda>y. y \<le> t) (ps @ [y]))) ob (0, c, length (mix t (ps @ [y]) ys)) t (?l + 1)"
      using inv equal unfolding ml by (simp add: in_step_def)
    have q: "(w + n) div (?r + 1) = t - x" "(w + n) mod (?r + 1) = ?l"
    proof -
      have e: "w + n = ?l + (?r + 1) * (t - x)" using inv(3) by linarith
      have "?l < ?r + 1" using l by simp
      then show "(w + n) div (?r + 1) = t - x" "(w + n) mod (?r + 1) = ?l"
        unfolding e by (simp_all only: div_mult_self2 mod_mult_self2 div_less mod_less)
    qed
    have dec: "dec_loop (enc_int 36 i n @ rest) (mix t ps (y # ys)) x w i = dec_loop rest (mix t (ps @ [y]) ys) t (?l + 1) c"
      for rest
    proof -
      have "x + (w + n) div (?r + 1) = t" using q inv by simp
      moreover have "t \<le> maxint" using Cons.prems(2) by (simp add: maxint_def)
      ultimately show ?thesis
        using dec_loop_step [of i w n x "mix t ps (y # ys)" rest] fits inv(2) q(2)
        unfolding m c_def by (simp add: Let_def)
    qed
    from IH [OF step, of "k @ enc_int 36 i n"] obtain n' i' d x' w' where
      *: "enc_scan t ob ys (0, c, length (mix t (ps @ [y]) ys), k @ enc_int 36 i n)
          = Inr (n', i', length (mix t (ps @ y # ys) []), (k @ enc_int 36 i n) @ d)"
        "\<forall>rest. dec_loop (d @ rest) (mix t (ps @ [y]) ys) t (?l + 1) c = dec_loop rest (mix t (ps @ y # ys) []) x' w' i'"
        "in_step t (length (mix t (ps @ y # ys) [])) ob (n', i', length (mix t (ps @ y # ys) [])) x' w'"
        "set d \<subseteq> {48..57} \<union> {97..122}"
      unfolding shift by blast
    have scan: "enc_scan t ob (y # ys) (n, i, ?r, k)
        = enc_scan t ob ys (0, c, length (mix t (ps @ [y]) ys), k @ enc_int 36 i n)"
      using equal inv(5) ml by (simp add: c_def Let_def)
    show ?thesis
      by (intro exI [of _ n'] exI [of _ i'] exI [of _ "enc_int 36 i n @ d"] exI [of _ x'] exI [of _ w'] conjI allI)
        (use * enc_int_digits [of 36 i n] in \<open>simp_all only: scan dec append_assoc set_append Un_least simp_thms\<close>)
  next
    case more
    then have m: "mix t (ps @ [y]) ys = mix t ps (y # ys)" "filter (\<lambda>y. y \<le> t) (ps @ [y]) = filter (\<lambda>y. y \<le> t) ps"
      by (simp_all add: mix_def)
    from Cons.prems(3) have "in_step t (length (filter (\<lambda>y. y \<le> t) (ps @ [y]))) ob (n, i, length (mix t (ps @ [y]) ys)) x w"
      unfolding m .
    from IH [OF this, of k] show ?thesis using more unfolding m shift by (simp add: Let_def)
  qed
qed

lemma next_code_least:
  "next_code t ys u \<le> u \<and> (\<forall>y \<in> set ys. t \<le> y \<longrightarrow> next_code t ys u \<le> y)
    \<and> (next_code t ys u = u \<or> next_code t ys u \<in> set ys \<and> t \<le> next_code t ys u)"
proof (induction t ys u rule: next_code.induct)
  case (2 t y ys u)
  then show ?case by (cases "t \<le> y \<and> y < u") auto
qed simp

lemma filter_gain: "u \<in> set e \<Longrightarrow> length (filter (\<lambda>y. y < u) e) < length (filter (\<lambda>y. y \<le> (u :: nat)) e)"
proof (induction e)
  case (Cons y e)
  have "length (filter (\<lambda>y. y < u) e) \<le> length (filter (\<lambda>y. y \<le> u) e)" for e :: "nat list" by (induction e) auto
  then show ?case using Cons by (auto simp: less_Suc_eq_le)
qed simp

lemma in_step_next: "in_step t r ob (n, i, r) x w \<Longrightarrow> in_step (t + 1) 0 ob (n + 1, i, r) x w"
  by (auto simp: in_step_def Suc_diff_le)

lemma in_step_jump:
  assumes "in_step t 0 ob (n, i, r) x w" "t \<le> u"
  shows "in_step u 0 ob (n + (u - t) * (r + 1), i, r) x w"
proof -
  have split: "u - x = (t - x) + (u - t)" using assms by (simp add: in_step_def)
  have "(r + 1) * (t - x) + (u - t) * (r + 1) = (r + 1) * (u - x)"
    by (simp only: split mult.commute [of "u - t" "r + 1"] add_mult_distrib2 [symmetric])
  moreover have "n + w = (r + 1) * (t - x)" using assms(1) by (simp add: in_step_def)
  ultimately have "n + (u - t) * (r + 1) + w = (r + 1) * (u - x)" by linarith
  then show ?thesis using assms unfolding in_step_def by (auto simp only: prod.case add_0_right intro: le_trans)
qed

lemma enc_loop_in_step:
  assumes "length e \<le> 1900" "\<forall>y \<in> set e. y \<le> 1114111"
    and "in_step t 0 ob (n, i, length (filter (\<lambda>y. y < t) e)) x w" "length e - length (filter (\<lambda>y. y < t) e) \<le> fuel"
  shows "\<exists>d. enc_loop fuel e ob t (n, i, length (filter (\<lambda>y. y < t) e), k) = Inr (k @ d)
    \<and> dec_loop d (filter (\<lambda>y. y < t) e) x w i = Inr e \<and> set d \<subseteq> {48..57} \<union> {97..122}"
  using assms(3,4)
proof (induction fuel arbitrary: t n i k x w)
  case 0
  then have "length (filter (\<lambda>y. y < t) e) = length e" using length_filter_le [of "\<lambda>y. y < t" e] by linarith
  then have f: "filter (\<lambda>y. y < t) e = e" by (metis filter_id_conv length_filter_less nat_neq_iff)
  show ?case by (intro exI [of _ "[]"]) (subst dec_loop.simps, simp add: f)
next
  case (Suc fuel)
  let ?r = "length (filter (\<lambda>y. y < t) e)"
  show ?case
  proof (cases "?r < length e")
    case False
    then have "filter (\<lambda>y. y < t) e = e" by (metis filter_id_conv length_filter_less)
    then show ?thesis by (intro exI [of _ "[]"]) (subst dec_loop.simps, simp)
  next
    case True
    define u where "u = next_code t e maxint"
    obtain y where y: "y \<in> set e" "t \<le> y"
      using True by (metis filter_True leI less_irrefl)
    have le: "u \<le> y" using next_code_least [of t e maxint] y unfolding u_def by blast
    moreover have "y \<le> 1114111" using y assms(2) by blast
    ultimately have "u \<noteq> maxint" by (simp add: maxint_def)
    then have u: "u \<in> set e" "t \<le> u" using next_code_least [of t e maxint] unfolding u_def by blast+
    have u_max: "u \<le> 1114111" using u assms(2) by blast
    have low: "y < u \<longleftrightarrow> y < t" if "y \<in> set e" for y
      using next_code_least [of t e maxint] that u(2) unfolding u_def [symmetric] by force
    then have same: "filter (\<lambda>y. y < u) e = filter (\<lambda>y. y < t) e" by (intro filter_cong) auto
    have m: "mix u [] e = filter (\<lambda>y. y < t) e" "mix u ([] @ e) [] = filter (\<lambda>y. y < u + 1) e"
      by (simp_all add: mix_def same less_Suc_eq_le)
    have jump: "in_step u 0 ob (n + (u - t) * (?r + 1), i, ?r) x w" by (rule in_step_jump [OF Suc.prems(1) u(2)])
    have "n + (u - t) * (?r + 1) + w < maxint"
      by (rule delta_fits [of _ _ ?r u x 0]) (use jump True assms(1) u_max in \<open>simp_all add: in_step_def\<close>)
    then have guard: "\<not> (maxint - n) div (?r + 1) < u - t"
      by (simp add: not_less less_eq_div_iff_mult_less_eq del: mult_Suc_right)
    have "in_step u (length (filter (\<lambda>y. y \<le> u) [])) ob (n + (u - t) * (?r + 1), i, length (mix u [] e)) x w"
      unfolding m using jump by simp
    from scan_in_step [of "[]" e, OF _ u_max this, of k] assms(1)
    obtain n' i' d x' w' where
      *: "enc_scan u ob e (n + (u - t) * (?r + 1), i, ?r, k) = Inr (n', i', length (filter (\<lambda>y. y < u + 1) e), k @ d)"
        "\<And>rest. dec_loop (d @ rest) (filter (\<lambda>y. y < t) e) x w i = dec_loop rest (filter (\<lambda>y. y < u + 1) e) x' w' i'"
        "in_step u (length (filter (\<lambda>y. y < u + 1) e)) ob (n', i', length (filter (\<lambda>y. y < u + 1) e)) x' w'"
        "set d \<subseteq> {48..57} \<union> {97..122}"
      unfolding m by auto
    have "?r < length (filter (\<lambda>y. y < u + 1) e)" using filter_gain [OF u(1)] unfolding same by (simp add: less_Suc_eq_le)
    then have "length e - length (filter (\<lambda>y. y < u + 1) e) \<le> fuel" using Suc.prems(2) by linarith
    from Suc.IH [OF in_step_next [OF *(3)] this, of "k @ d"] obtain d' where
      "enc_loop fuel e ob (u + 1) (n' + 1, i', length (filter (\<lambda>y. y < u + 1) e), k @ d) = Inr ((k @ d) @ d')"
      "dec_loop d' (filter (\<lambda>y. y < u + 1) e) x' w' i' = Inr e" "set d' \<subseteq> {48..57} \<union> {97..122}" by blast
    then show ?thesis
      using True guard *(1,2,4) by (intro exI [of _ "d @ d'"]) (simp add: u_def [symmetric] Let_def)
  qed
qed

lemma last_dash_none: "45 \<notin> set d \<Longrightarrow> last_dash d = 0"
  by (cases d) auto

lemma last_dash_last: "45 \<notin> set d \<Longrightarrow> last_dash (ps @ 45 # d) = length ps"
  by (induction ps) auto

lemma points_roundtrip:
  assumes "length e \<le> 1900" "\<forall>y \<in> set e. y \<le> 1114111"
  shows "\<exists>k. puny_encode_points e = Inr k \<and> puny_decode_points k = Inr e
    \<and> set k \<subseteq> {y \<in> set e. y < 128} \<union> {45} \<union> {48..57} \<union> {97..122}"
proof -
  let ?b = "filter (\<lambda>y. y < 128) e"
  let ?k = "if 0 < length ?b then ?b @ [45] else ?b"
  have "in_step 128 0 (length ?b) (0, 72, length ?b) 128 0" by (simp add: in_step_def)
  from enc_loop_in_step [OF assms this, of "length e" ?k] obtain d where
    d: "puny_encode_points e = Inr (?k @ d)" "dec_loop d ?b 128 0 72 = Inr e" "set d \<subseteq> {48..57} \<union> {97..122}"
    unfolding puny_encode_points_def Let_def by auto
  have "45 \<notin> set d" using d(3) by auto
  then have "last_dash (?k @ d) = length ?b" by (simp add: last_dash_none last_dash_last)
  then have "puny_decode_points (?k @ d) = Inr e" using d(2) by (auto simp: puny_decode_points_def list_ex_iff)
  moreover have "set (?k @ d) \<subseteq> {y \<in> set e. y < 128} \<union> {45} \<union> {48..57} \<union> {97..122}" using d(3) by auto
  ultimately show ?thesis using d(1) by blast
qed

subsection \<open>Strings\<close>

lemma unit16_less: "unat w \<le> 65535" for w :: unit16
  using unsigned_less [where ?'a = nat, of w] by simp

lemma mask10: "1023 AND w = take_bit 10 w" for w :: unit16
  by (simp add: take_bit_eq_mask mask_eq_exp_minus_1 and.commute)

lemma high6: "64512 AND w = push_bit 10 (drop_bit 10 w)" for w :: unit16
proof -
  have "(64512 :: unit16) = NOT (mask 10)" by (simp add: mask_eq_exp_minus_1)
  then show ?thesis by (simp add: bit_eq_iff bit_simps not_less) (auto dest: bit_imp_le_length)
qed

lemma high_low: "(64512 AND w) OR (1023 AND w) = w" for w :: unit16
proof -
  have "(64512 OR 1023 :: unit16) = - 1" by simp
  then show ?thesis by (simp only: bit.conj_disj_distrib2 [symmetric]) simp
qed

lemma mask10_of_nat: "1023 AND (of_nat x :: unit16) = of_nat (x mod 1024)"
  unfolding mask10 take_bit_of_nat by (simp add: take_bit_eq_mod)

lemma mask10_less: "unat (1023 AND w) < 1024" for w :: unit16
  unfolding mask10 unsigned_take_bit_eq using take_bit_nat_less_exp [of 10 "unat w"] by simp

lemma surrogate_pair:
  fixes t n :: unit16
  assumes "55296 \<le> unat t" "unat t \<le> 56319" "64512 AND n = 56320"
  shows "ucs2_unit (unat (1023 AND t) * 1024 + unat (1023 AND n) + 65536) = [t, n]"
proof -
  have "unat (drop_bit 10 t) = unat t div 1024" 
    unfolding unsigned_drop_bit_eq using unit16_less [of t] by (simp add: drop_bit_eq_div take_bit_nat_eq_self)
  then have "unat (drop_bit 10 t) = 54" using assms(1,2) by simp
  then have "drop_bit 10 t = 54" by (intro unsigned_word_eqI [where ?'a = nat]) simp
  then have "64512 AND t = 55296" by (simp add: high6)
  then have t: "(1023 AND t) OR 55296 = t" using high_low [of t] by (simp add: or.commute)
  have n: "56320 OR (1023 AND n) = n" using high_low [of n] assms(3) by simp
  have lo: "1023 AND (of_nat (unat (1023 AND t) * 1024 + unat (1023 AND n)) :: unit16) = 1023 AND n"
    unfolding mask10_of_nat using mask10_less [of n] by simp
  show ?thesis using mask10_less [of n] mask10_less [of t] lo n t
    by (simp add: ucs2_unit_def and.commute [of _ 1023] del: of_nat_add of_nat_mult)
qed

lemma ucs2_low: "ucs2_unit (unat t) = [t]" for t :: unit16
  using unit16_less [of t] by (simp add: ucs2_unit_def)

lemma ucs2_roundtrip: "ucs2encode (ucs2decode e) = e"
proof (induction e rule: ucs2decode.induct)
  case (2 t e)
  then show ?case by (auto simp: ucs2encode_def ucs2_low surrogate_pair neq_Nil_conv)
qed (simp add: ucs2encode_def)

lemma ucs2_length: "length (ucs2decode e) \<le> length e"
  by (induction e rule: ucs2decode.induct) (auto simp: neq_Nil_conv)

lemma ucs2_range: "\<forall>y \<in> set (ucs2decode e). y \<le> 1114111"
proof (induction e rule: ucs2decode.induct)
  case (2 t e)
  have low: "unat w \<le> 1114111" for w :: unit16 using unit16_less [of w] by linarith
  have "unat (1023 AND t) * 1024 + unat (1023 AND hd e) + 65536 \<le> 1114111"
    using mask10_less [of t] mask10_less [of "hd e"] by linarith
  then show ?case using 2 low by (auto simp: Let_def)
qed simp

lemma ucs2_basic: "y \<in> set (ucs2decode e) \<Longrightarrow> y < 128 \<Longrightarrow> of_nat y \<in> set e"
proof (induction e rule: ucs2decode.induct)
  case (2 t e)
  then show ?case by (auto split: if_splits dest: in_set_dropD)
qed simp

lemma puny_roundtrip_aux:
  assumes "length e \<le> 1900"
  shows "\<exists>s. puny_encode e = Inr s \<and> puny_decode s = Inr e
    \<and> (\<forall>c \<in> set s. c \<in> set e \<and> unat c < 128 \<or> unat c \<in> {45} \<union> {48..57} \<union> {97..122})"
proof -
  have "length (ucs2decode e) \<le> 1900" using ucs2_length [of e] assms by linarith
  from points_roundtrip [OF this ucs2_range] obtain k where
    k: "puny_encode_points (ucs2decode e) = Inr k" "puny_decode_points k = Inr (ucs2decode e)"
      "set k \<subseteq> {y \<in> set (ucs2decode e). y < 128} \<union> {45} \<union> {48..57} \<union> {97..122}" by blast
  have small: "unat (of_nat y :: unit16) = y" if "y \<in> set k" for y
    using k(3) that by (auto simp: unat_of_nat)
  have "map (unat \<circ> (of_nat :: nat \<Rightarrow> unit16)) k = k" by (rule map_idI) (simp add: small)
  then have "puny_decode (map of_nat k) = Inr e" using k(2) by (simp add: puny_decode_def ucs2_roundtrip)
  moreover have "c \<in> set e \<and> unat c < 128 \<or> unat c \<in> {45} \<union> {48..57} \<union> {97..122}"
    if c: "c \<in> set (map of_nat k)" for c :: unit16
  proof -
    obtain y where y: "y \<in> set k" "c = of_nat y" using c by auto
    then have "unat c = y" by (simp add: small)
    from subsetD [OF k(3) y(1)] consider "y \<in> set (ucs2decode e)" "y < 128" | "y \<in> {45} \<union> {48..57} \<union> {97..122}" by blast
    then show ?thesis using ucs2_basic [of y e] \<open>unat c = y\<close> y(2) by cases simp_all
  qed
  ultimately show ?thesis using k(1) by (auto simp: puny_encode_def)
qed

subsection \<open>The encoder always ends\<close>

lemma scan_result:
  "enc_scan t ob ys (n, i, r, k) = Inl x \<Longrightarrow> x = overflow"
  "enc_scan t ob ys (n, i, r, k) = Inr (n', i', r', k') \<Longrightarrow> r' + length (filter (\<lambda>y. y < t) ys) = r + length (filter (\<lambda>y. y \<le> t) ys)"
  by (induction ys arbitrary: n i r k) (auto simp: Let_def split: if_splits)

lemma enc_loop_ends:
  assumes "\<forall>y \<in> set e. y < maxint" "length e - length (filter (\<lambda>y. y < t) e) \<le> fuel" "r = length (filter (\<lambda>y. y < t) e)"
  shows "enc_loop fuel e ob t (n, i, r, k) = Inl x \<Longrightarrow> x = overflow"
  using assms(2,3)
proof (induction fuel arbitrary: t n i r k)
  case 0
  then show ?case by simp
next
  case (Suc fuel)
  define u where "u = next_code t e maxint"
  have "r < length e" using Suc.prems(1) by (auto split: if_splits)
  then obtain y where y: "y \<in> set e" "t \<le> y" unfolding Suc.prems(3) by (metis filter_True leI less_irrefl)
  then have "u \<noteq> maxint" using next_code_least [of t e maxint] assms(1) unfolding u_def by force
  then have u: "u \<in> set e" "t \<le> u" using next_code_least [of t e maxint] unfolding u_def by blast+
  have same: "filter (\<lambda>y. y < u) e = filter (\<lambda>y. y < t) e"
    using next_code_least [of t e maxint] u(2) unfolding u_def [symmetric] by (intro filter_cong) force+
  show ?case
  proof (cases "enc_scan u ob e (n + (u - t) * (r + 1), i, r, k)")
    case (Inl z)
    then show ?thesis using scan_result(1) Suc.prems(1) \<open>r < length e\<close>
      by (auto simp: u_def [symmetric] Let_def split: if_splits)
  next
    case (Inr st)
    obtain n' i' r' k' where st: "st = (n', i', r', k')" by (cases st)
    have r': "r' = length (filter (\<lambda>y. y < u + 1) e)"
      using scan_result(2) [OF Inr [unfolded st]] Suc.prems(3) by (simp add: same less_Suc_eq_le)
    have "r < r'" using filter_gain [OF u(1)] unfolding same Suc.prems(3) r' by (simp add: less_Suc_eq_le)
    then have "length e - length (filter (\<lambda>y. y < u + 1) e) \<le> fuel" using Suc.prems(2,3) r' by linarith
    from Suc.IH [OF _ this r'] show ?thesis
      using Suc.prems(1) \<open>r < length e\<close> Inr st by (auto simp: u_def [symmetric] Let_def split: if_splits)
  qed
qed

lemma encode_points_ends:
  assumes "\<forall>y \<in> set e. y < maxint" "puny_encode_points e = Inl x"
  shows "x = overflow"
  by (rule enc_loop_ends [OF assms(1) _ refl, of 128 "length e"])
    (use assms(2) in \<open>auto simp: puny_encode_points_def Let_def\<close>)

subsection \<open>Domain names: \<open>k\<close>, \<open>toASCII\<close> and \<open>toUnicode\<close>\<close>

text \<open>\<open>C\<close> with a function that may throw: it counts down, so the last label is handled first.\<close>

fun map_back :: "('a \<Rightarrow> js_error + 'b) \<Rightarrow> 'a list \<Rightarrow> js_error + 'b list" where
  "map_back t [] = Inr []"
| "map_back t (x # xs) = andthen (map_back t xs) (\<lambda>ys. andthen (t x) (\<lambda>y. Inr (y # ys)))"

text \<open>The separators \<open>b\<close>: the full stop and its three ideographic and full-width forms.\<close>

definition is_separator :: "unit16 \<Rightarrow> bool" where
  "is_separator x \<longleftrightarrow> x = 46 \<or> x = 12290 \<or> x = 65294 \<or> x = 65377"

definition map_domain :: "jsstr \<Rightarrow> (jsstr \<Rightarrow> js_error + jsstr) \<Rightarrow> js_error + jsstr" where
  "map_domain e t =
     (let n = js_split 64 e;
          r = (if 1 < length n then n ! 0 @ [64] else []);
          e = (if 1 < length n then n ! 1 else e);
          e = map (\<lambda>x. if is_separator x then 46 else x) e
      in andthen (map_back t (js_split 46 e)) (\<lambda>l. Inr (r @ js_join 46 l)))"

definition xn :: jsstr where "xn = js ''xn--''"

definition to_ascii :: "jsstr \<Rightarrow> js_error + jsstr" where
  "to_ascii e = map_domain e (\<lambda>e.
     if list_ex (\<lambda>c. c < 32 \<or> 126 < c) e then andthen (puny_encode e) (\<lambda>s. Inr (xn @ s)) else Inr e)"

definition to_unicode :: "jsstr \<Rightarrow> js_error + jsstr" where
  "to_unicode e = map_domain e (\<lambda>e. if take 4 e = xn then puny_decode (to_lower (drop 4 e)) else Inr e)"

lemma map_back_map: "list_all (\<lambda>x. t x = Inr (f x)) xs \<Longrightarrow> map_back t xs = Inr (map f xs)"
  by (induction xs) auto

text \<open>Labels without separators or an at sign go through one by one.\<close>

lemma map_domain_labels:
  assumes "ls \<noteq> []" "list_all (\<lambda>x. \<not> list_ex (\<lambda>c. c = 64 \<or> is_separator c) x) ls"
    "list_all (\<lambda>x. t x = Inr (f x)) ls"
  shows "map_domain (js_join 46 ls) t = Inr (js_join 46 (map f ls))"
proof -
  have no: "list_all (\<lambda>x. 46 \<notin> set x) ls"
    using assms(2) by (auto simp: list_all_iff list_ex_iff is_separator_def)
  have "c = 46 \<or> c \<noteq> 64 \<and> \<not> is_separator c" if "c \<in> set (js_join 46 ls)" for c
    using subsetD [OF set_js_join that] assms(2) by (auto simp: list_all_iff list_ex_iff)
  note chars = this
  have "64 \<notin> set (js_join 46 ls)" using chars [of 64] by auto
  then have at: "js_split 64 (js_join 46 ls) = [js_join 46 ls]" by (rule js_split_no)
  have sep: "map (\<lambda>x. if is_separator x then 46 else x) (js_join 46 ls) = js_join 46 ls"
    by (intro map_idI) (use chars in auto)
  show ?thesis
    by (simp add: map_domain_def at sep js_split_join [OF assms(1) no] map_back_map [OF assms(3)] cong: if_cong)
qed

text \<open>The labels the round trip holds for.\<close>

definition plain_label :: "jsstr \<Rightarrow> bool" where
  "plain_label x \<longleftrightarrow> length x \<le> 1900 \<and> take 4 x \<noteq> xn
     \<and> list_all (\<lambda>c. c \<noteq> 64 \<and> \<not> is_separator c \<and> \<not> (65 \<le> c \<and> c \<le> 90)) x"

text \<open>The ASCII form of a label.\<close>

definition ascii_label :: "jsstr \<Rightarrow> jsstr" where
  "ascii_label e =
     (if list_ex (\<lambda>c. c < 32 \<or> 126 < c) e then xn @ (case puny_encode e of Inr s \<Rightarrow> s | Inl x \<Rightarrow> []) else e)"

lemma ascii_label_ok:
  assumes "plain_label x"
  shows "(if list_ex (\<lambda>c. c < 32 \<or> 126 < c) x then andthen (puny_encode x) (\<lambda>s. Inr (xn @ s)) else Inr x) = Inr (ascii_label x)"
    and "\<not> list_ex (\<lambda>c. c = 64 \<or> is_separator c) (ascii_label x)"
    and "(if take 4 (ascii_label x) = xn then puny_decode (to_lower (drop 4 (ascii_label x))) else Inr (ascii_label x)) = Inr x"
proof -
  have len: "length x \<le> 1900" and start: "take 4 x \<noteq> xn"
    and cs: "\<forall>c \<in> set x. c \<noteq> 64 \<and> \<not> is_separator c \<and> \<not> (65 \<le> c \<and> c \<le> 90)"
    using assms by (auto simp: plain_label_def list_all_iff)
  obtain s where s: "puny_encode x = Inr s" "puny_decode s = Inr x"
    "\<forall>c \<in> set s. c \<in> set x \<and> unat c < 128 \<or> unat c \<in> {45} \<union> {48..57} \<union> {97..122}"
    using puny_roundtrip_aux [OF len] by blast
  show "(if list_ex (\<lambda>c. c < 32 \<or> 126 < c) x then andthen (puny_encode x) (\<lambda>s. Inr (xn @ s)) else Inr x) = Inr (ascii_label x)"
    by (simp add: ascii_label_def s(1) cong: if_cong)
  have ok: "c \<noteq> 64 \<and> \<not> is_separator c \<and> \<not> (65 \<le> c \<and> c \<le> 90) \<and> c < 128" if c: "c \<in> set s" for c
  proof -
    have num: "c = 64 \<longleftrightarrow> unat c = 64" "is_separator c \<longleftrightarrow> unat c = 46 \<or> unat c = 12290 \<or> unat c = 65294 \<or> unat c = 65377"
      "65 \<le> c \<longleftrightarrow> 65 \<le> unat c" "c \<le> 90 \<longleftrightarrow> unat c \<le> 90" "c < 128 \<longleftrightarrow> unat c < 128"
      by (simp_all add: is_separator_def word_eq_iff_unsigned [where ?'a = nat] word_le_nat_alt word_less_nat_alt)
    from s(3) c consider "c \<in> set x" "unat c < 128" | "unat c \<in> {45} \<union> {48..57} \<union> {97..122}" by blast
    then show ?thesis
    proof cases
      case 1
      then show ?thesis using cs num(5) by blast
    next
      case 2
      then show ?thesis unfolding num by auto
    qed
  qed
  have xns: "xn = [120, 110, 45, 45]" by (simp add: xn_def js_def)
  have low: "to_lower s = s" by (rule to_lower_lower) (use ok in \<open>auto simp: list_all_iff\<close>)
  show "\<not> list_ex (\<lambda>c. c = 64 \<or> is_separator c) (ascii_label x)"
    using cs ok by (auto simp: ascii_label_def s(1) list_ex_iff xns is_separator_def)
  show "(if take 4 (ascii_label x) = xn then puny_decode (to_lower (drop 4 (ascii_label x))) else Inr (ascii_label x)) = Inr x"
    using start low s(2) by (auto simp: ascii_label_def s(1) xns)
qed

lemma puny_encode_overflow: "puny_encode e = Inl x \<Longrightarrow> x = overflow"
proof -
  assume "puny_encode e = Inl x"
  then have "puny_encode_points (ucs2decode e) = Inl x" by (simp add: puny_encode_def andthen_Inl_iff)
  moreover have "\<forall>y \<in> set (ucs2decode e). y < maxint" using ucs2_range [of e] by (fastforce simp: maxint_def)
  ultimately show ?thesis using encode_points_ends by blast
qed

text \<open>
  The missing lower bounds of \<open>basic_to_digit\<close>: a comma reads as the digit \<open>w\<close>, so the decoder takes
  two different strings to the same label.
\<close>

lemma comma_is_a_digit: "puny_decode (js '',a'') = Inr [150]" "puny_decode (js ''wa'') = Inr [150]"
  by (simp_all add: puny_decode_def puny_decode_points_def js_def dec_loop.simps basic_to_digit_def maxint_def
      threshold_def ucs2encode_def ucs2_unit_def Let_def)

section \<open>Properties\<close>

text \<open>
  Property C31. A label of up to 1900 code units, whatever they are (paired or lone surrogates
  included), is encoded without an overflow, and the decoder gives the label back.
\<close>

theorem puny_roundtrip:
  assumes "length e \<le> 1900"
  shows "\<exists>s. puny_encode e = Inr s \<and> puny_decode s = Inr e"
  using puny_roundtrip_aux [OF assms] by blast

theorem puny_roundtrip_witness:
  "\<exists>s. puny_encode [98, 252, 99, 104, 101, 114] = Inr s \<and> puny_decode s = Inr [98, 252, 99, 104, 101, 114]"
  by (rule puny_roundtrip) simp

text \<open>
  Property C32. The main loop of the encoder ends on every string: each of its rounds handles a code
  point, so the fuel (the number of code points) is never used up, and the only error is the
  overflow the code throws.
\<close>

theorem puny_encode_ends:
  "case puny_encode e of Inl x \<Rightarrow> x = overflow | Inr s \<Rightarrow> True"
  by (cases "puny_encode e") (auto dest: puny_encode_overflow)

text \<open>
  Property C33. A host name of labels without capital ASCII letters, separators, at signs and the
  prefix \<open>xn--\<close> has an ASCII form, and \<open>toUnicode\<close> takes it back to the name.
\<close>

theorem domain_roundtrip:
  assumes "ls \<noteq> []" "list_all plain_label ls"
  shows "\<exists>s. to_ascii (js_join 46 ls) = Inr s \<and> to_unicode s = Inr (js_join 46 ls)"
proof (intro exI conjI)
  let ?as = "map ascii_label ls"
  show "to_ascii (js_join 46 ls) = Inr (js_join 46 ?as)"
    unfolding to_ascii_def
    by (rule map_domain_labels [OF assms(1)])
      (use assms(2) ascii_label_ok(1) in \<open>auto simp: list_all_iff list_ex_iff plain_label_def\<close>)
  have "to_unicode (js_join 46 ?as) = Inr (js_join 46 (map (\<lambda>a. case (if take 4 a = xn then puny_decode (to_lower (drop 4 a)) else Inr a) of Inr x \<Rightarrow> x | Inl _ \<Rightarrow> []) ?as))"
    unfolding to_unicode_def
    by (rule map_domain_labels) (use assms ascii_label_ok(2,3) in \<open>auto simp: list_all_iff\<close>)
  also have "map (\<lambda>a. case (if take 4 a = xn then puny_decode (to_lower (drop 4 a)) else Inr a) of Inr x \<Rightarrow> x | Inl _ \<Rightarrow> []) ?as = ls"
    unfolding map_map by (rule map_idI) (use assms(2) ascii_label_ok(3) in \<open>simp add: list_all_iff\<close>)
  finally show "to_unicode (js_join 46 ?as) = Inr (js_join 46 ls)" .
qed

theorem domain_roundtrip_witness:
  "\<exists>s. to_ascii (js_join 46 [[98, 252, 99, 104, 101, 114], [99, 104]]) = Inr s
     \<and> to_unicode s = Inr (js_join 46 [[98, 252, 99, 104, 101, 114], [99, 104]])"
  by (rule domain_roundtrip) (simp_all add: plain_label_def is_separator_def xn_def js_def)

end
