(* ===== verification/ImmList.thy ===== *)
theory ImmList
  imports Prelude
begin

section \<open>Immutable List (swagger-ui-bundle.js, Immutable 3.8)\<close>

text \<open>
  A list is a window, from \<open>_origin\<close> up to \<open>_capacity\<close>, on a tree of arrays of 32 entries and a last
  array, the tail, kept outside the tree. An absent entry (\<open>undefined\<close>, or a node that is not there)
  is \<open>None\<close>. The level of the code, a multiple of 5, is kept divided by 5. Nodes have no owner
  here: a mutable copy differs from a persistent one only in what it shares. Positions are exact
  integers, as they are in the code for lists of fewer than $2^{30}$ positions. Comparing nodes
  for identity is modelled by equality; the code then builds an equal copy at most.
\<close>

subsection \<open>Arrays and nodes\<close>

definition arr_get :: "'a option list \<Rightarrow> nat \<Rightarrow> 'a option" where
  "arr_get xs i = (if i < length xs then xs ! i else None)"

definition arr_set :: "'a option list \<Rightarrow> nat \<Rightarrow> 'a option \<Rightarrow> 'a option list" where
  "arr_set xs i v = (if i < length xs then xs[i := v] else xs @ replicate (i - length xs) None @ [v])"

datatype 'a vnode = VLeaf "'a option list" | VInner "'a vnode option list"

fun leaf_array :: "'a vnode option \<Rightarrow> 'a option list" where
  "leaf_array (Some (VLeaf xs)) = xs"
| "leaf_array _ = []"

fun inner_array :: "'a vnode option \<Rightarrow> 'a vnode option list" where
  "inner_array (Some (VInner xs)) = xs"
| "inner_array _ = []"

text \<open>\<open>t >>> s & g\<close>.\<close>

definition digit32 :: "int \<Rightarrow> nat \<Rightarrow> nat" where
  "digit32 t s = nat (t div 2 ^ s mod 32)"

record 'a vlist =
  li_size :: int
  li_origin :: int
  li_cap :: int
  li_level :: nat
  li_root :: "'a vnode option"
  li_tail :: "'a vnode option"

definition make_list :: "int \<Rightarrow> int \<Rightarrow> nat \<Rightarrow> 'a vnode option \<Rightarrow> 'a vnode option \<Rightarrow> 'a vlist" where
  "make_list a u k l h =
     \<lparr>li_size = u - a, li_origin = a, li_cap = u, li_level = k, li_root = l, li_tail = h\<rparr>"

definition empty_list :: "'a vlist" where
  "empty_list = \<lparr>li_size = 0, li_origin = 0, li_cap = 0, li_level = 1, li_root = None, li_tail = None\<rparr>"

definition tail_offset :: "int \<Rightarrow> int" where
  "tail_offset e = (if e < 32 then 0 else (e - 1) div 32 * 32)"

subsection \<open>Reading\<close>

fun walk :: "nat \<Rightarrow> int \<Rightarrow> 'a vnode option \<Rightarrow> 'a vnode option" where
  "walk 0 t n = n"
| "walk (Suc k) t n = (if n = None then None else walk k t (arr_get (inner_array n) (digit32 t (5 * Suc k))))"

definition node_for :: "'a vlist \<Rightarrow> int \<Rightarrow> 'a vnode option" where
  "node_for e t =
     (if tail_offset (li_cap e) \<le> t then li_tail e
      else if t < 2 ^ (5 * li_level e + 5) then walk (li_level e) t (li_root e)
      else None)"

text \<open>\<open>k(e, t)\<close> on numbers.\<close>

definition wrap_index :: "'a vlist \<Rightarrow> int \<Rightarrow> int" where
  "wrap_index e t = (if t < 0 then li_size e + t else t)"

definition list_get :: "'a vlist \<Rightarrow> int \<Rightarrow> 'a option \<Rightarrow> 'a option" where
  "list_get e j t =
     (let j = wrap_index e j
      in if 0 \<le> j \<and> j < li_size e then
           let j = j + li_origin e in arr_get (leaf_array (node_for e j)) (digit32 j 0)
         else t)"

subsection \<open>Writing a position: \<open>xt\<close>\<close>

fun update_vnode :: "nat \<Rightarrow> 'a vnode option \<Rightarrow> int \<Rightarrow> 'a option \<Rightarrow> 'a vnode option" where
  "update_vnode 0 e r v =
     (let u = digit32 r 0; xs = leaf_array e; s = u < length xs
      in if \<not> s \<and> v = None then e
         else if s \<and> xs ! u = v then e
         else if v = None \<and> u = length xs - 1 then Some (VLeaf (butlast xs))
         else Some (VLeaf (arr_set xs u v)))"
| "update_vnode (Suc k) e r v =
     (let u = digit32 r (5 * Suc k); xs = inner_array e; s = u < length xs
      in if \<not> s \<and> v = None then e
         else
           let l = arr_get xs u; c = update_vnode k l r v
           in if c = l then e else Some (VInner (arr_set xs u c)))"

subsection \<open>Cutting nodes: \<open>removeBefore\<close> and \<open>removeAfter\<close>\<close>

text \<open>
  The first test of \<open>removeBefore\<close> reads \<open>n === t ? 1 << t : 0 === this.array.length\<close>: when the index
  equals the level the node is returned as it is. A child and a node of level 0 behave the same, the
  recursion being skipped there (\<open>o\<close> stays undefined).
\<close>

fun remove_before :: "nat \<Rightarrow> int \<Rightarrow> 'a vnode \<Rightarrow> 'a vnode" where
  "remove_before 0 n (VLeaf xs) =
     (if n = 0 \<or> xs = [] then VLeaf xs
      else
        let r = digit32 n 0
        in if length xs \<le> r then VLeaf []
           else if r = 0 then VLeaf xs
           else VLeaf (replicate r None @ drop r xs))"
| "remove_before (Suc k) n (VInner xs) =
     (if n = 5 * int (Suc k) \<or> n \<noteq> 5 * int (Suc k) \<and> xs = [] then VInner xs
      else
        let r = digit32 n (5 * Suc k)
        in if length xs \<le> r then VInner []
           else
             let a = xs ! r; o' = map_option (remove_before k n) a
             in if o' = a \<and> r = 0 then VInner xs
                else if r = 0 \<and> o' = None then VInner xs
                else
                  let u = (if r = 0 then xs else replicate r None @ drop r xs)
                  in VInner (if o' = None then u else u[r := o']))"
| "remove_before k n x = x"

fun remove_after :: "nat \<Rightarrow> int \<Rightarrow> 'a vnode \<Rightarrow> 'a vnode" where
  "remove_after 0 n (VLeaf xs) =
     (if n = 0 \<or> xs = [] then VLeaf xs
      else
        let o' = digit32 (n - 1) 0
        in if length xs \<le> o' then VLeaf xs else VLeaf (take (o' + 1) xs))"
| "remove_after (Suc k) n (VInner xs) =
     (if n = 2 ^ (5 * Suc k) \<or> xs = [] then VInner xs
      else
        let o' = digit32 (n - 1) (5 * Suc k)
        in if length xs \<le> o' then VInner xs
           else
             let i = xs ! o'; r = map_option (remove_after k n) i
             in if r = i \<and> o' = length xs - 1 then VInner xs
                else
                  let a = take (o' + 1) xs
                  in VInner (if r = None then a else a[o' := r]))"
| "remove_after k n x = x"

subsection \<open>Changing the bounds: \<open>kt\<close>\<close>

definition has_entries :: "'a vnode option \<Rightarrow> bool" where
  "has_entries l \<longleftrightarrow> leaf_array l \<noteq> [] \<or> inner_array l \<noteq> []"

text \<open>New roots on the left while the origin would be negative.\<close>

function grow_left :: "int \<Rightarrow> nat \<Rightarrow> 'a vnode option \<Rightarrow> int \<Rightarrow> nat \<times> 'a vnode option \<times> int" where
  "grow_left a k l c =
     (if a + c < 0
      then grow_left a (Suc k) (Some (VInner (if has_entries l then [None, l] else []))) (c + 2 ^ (5 * Suc k))
      else (k, l, c))"
  by pat_completeness auto
termination by (relation "measure (\<lambda>(a, k, l, c). nat (- (a + c)))") auto

declare grow_left.simps [simp del]

text \<open>New roots on the right until the tail offset fits.\<close>

function grow_right :: "int \<Rightarrow> nat \<Rightarrow> 'a vnode option \<Rightarrow> nat \<times> 'a vnode option" where
  "grow_right p k l =
     (if 2 ^ (5 * k + 5) \<le> p then grow_right p (Suc k) (Some (VInner (if has_entries l then [l] else [])))
      else (k, l))"
  by pat_completeness auto
termination by (relation "measure (\<lambda>(p, k, l). nat (p + 1 - 2 ^ (5 * k + 5)))") auto

declare grow_right.simps [simp del]

text \<open>The tail goes into the tree at \<open>f\<close>; the path is copied, or made where it is missing.\<close>

fun put_tail :: "nat \<Rightarrow> 'a vnode option \<Rightarrow> int \<Rightarrow> 'a vnode option \<Rightarrow> 'a vnode" where
  "put_tail (Suc (Suc k)) m f d =
     (let b = digit32 f (5 * Suc (Suc k))
      in VInner (arr_set (inner_array m) b (Some (put_tail (Suc k) (arr_get (inner_array m) b) f d))))"
| "put_tail _ m f d = VInner (arr_set (inner_array m) (digit32 f 5) d)"

text \<open>
  Roots with a single child on the way to both bounds are dropped. At level 1 the digits of the
  bounds always differ, so level 0 is not reached (the lemma \<open>narrow_ok\<close>).
\<close>

fun narrow :: "int \<Rightarrow> int \<Rightarrow> nat \<Rightarrow> 'a vnode option \<Rightarrow> int \<Rightarrow> nat \<times> 'a vnode option \<times> int" where
  "narrow a p 0 l c = (0, l, c)"
| "narrow a p (Suc k) l c =
     (if l = None then (Suc k, l, c)
      else
        let d = digit32 a (5 * Suc k)
        in if d \<noteq> digit32 p (5 * Suc k) then (Suc k, l, c)
           else narrow a p k (arr_get (inner_array l) d) (c + 2 ^ (5 * Suc k) * int d))"

definition list_clear :: "'a vlist \<Rightarrow> 'a vlist" where
  "list_clear e = (if li_size e = 0 then e else empty_list)"

definition set_bounds :: "'a vlist \<Rightarrow> int \<Rightarrow> int option \<Rightarrow> 'a vlist" where
  "set_bounds e t n =
     (let o' = li_origin e; i = li_cap e; a = o' + t;
          u = (case n of None \<Rightarrow> i | Some n \<Rightarrow> if n < 0 then i + n else o' + n)
      in if a = o' \<and> u = i then e
         else if u \<le> a then list_clear e
         else
           let (k, l, c) = grow_left a (li_level e) (li_root e) 0;
               a = a + c; o' = o' + c; u = u + c; i = i + c;
               f = tail_offset i; p = tail_offset u;
               (k, l) = grow_right p k l;
               d = li_tail e;
               h = (if p < f then node_for e (u - 1) else if f < p then Some (VLeaf []) else d);
               l = (if d \<noteq> None \<and> f < p \<and> a < i \<and> has_entries d then Some (put_tail k l f d) else l);
               h = (if u < i then map_option (remove_after 0 u) h else h)
           in if p \<le> a then make_list (a - p) (u - p) 1 None (map_option (remove_before 0 (a - p)) h)
              else if o' < a \<or> p < f then
                let (k, l, c) = narrow a p k l 0;
                    l = (if o' < a then map_option (remove_before k (a - c)) l else l);
                    l = (if p < f then map_option (remove_after k (p - c)) l else l)
                in make_list (a - c) (u - c) k l h
              else make_list a u k l h)"

subsection \<open>The operations\<close>

definition put_in_range :: "'a vlist \<Rightarrow> int \<Rightarrow> 'a option \<Rightarrow> 'a vlist" where
  "put_in_range e t v =
     (let t = t + li_origin e
      in if tail_offset (li_cap e) \<le> t
         then make_list (li_origin e) (li_cap e) (li_level e) (li_root e) (update_vnode 0 (li_tail e) t v)
         else make_list (li_origin e) (li_cap e) (li_level e) (update_vnode (li_level e) (li_root e) t v) (li_tail e))"

definition list_set :: "'a vlist \<Rightarrow> int \<Rightarrow> 'a option \<Rightarrow> 'a vlist" where
  "list_set e t v =
     (let t = wrap_index e t
      in if li_size e \<le> t then put_in_range (set_bounds e 0 (Some (t + 1))) t v
         else if t < 0 then put_in_range (set_bounds e t None) 0 v
         else put_in_range e t v)"

fun put_all :: "'a vlist \<Rightarrow> int \<Rightarrow> 'a option list \<Rightarrow> 'a vlist" where
  "put_all e t [] = e"
| "put_all e t (v # vs) = put_all (list_set e t v) (t + 1) vs"

definition list_push :: "'a vlist \<Rightarrow> 'a option list \<Rightarrow> 'a vlist" where
  "list_push e vs = put_all (set_bounds e 0 (Some (li_size e + int (length vs)))) (li_size e) vs"

definition list_pop :: "'a vlist \<Rightarrow> 'a vlist" where
  "list_pop e = set_bounds e 0 (Some (- 1))"

definition list_unshift :: "'a vlist \<Rightarrow> 'a option list \<Rightarrow> 'a vlist" where
  "list_unshift e vs = put_all (set_bounds e (- int (length vs)) None) 0 vs"

definition list_shift :: "'a vlist \<Rightarrow> 'a vlist" where
  "list_shift e = set_bounds e 1 None"

definition list_set_size :: "'a vlist \<Rightarrow> int \<Rightarrow> 'a vlist" where
  "list_set_size e n = set_bounds e 0 (Some n)"

text \<open>The constructor: up to 31 values are the tail of a new list, more are set one by one.\<close>

definition list_from :: "'a option list \<Rightarrow> 'a vlist" where
  "list_from vs =
     (let r = int (length vs)
      in if r = 0 then empty_list
         else if 0 < r \<and> r < 32 then make_list 0 r 1 None (Some (VLeaf vs))
         else put_all (list_set_size empty_list r) 0 vs)"

text \<open>\<open>O\<close>, \<open>P\<close>, \<open>T\<close> and \<open>M\<close>: the bounds of a slice.\<close>

definition whole_slice :: "int \<Rightarrow> int option \<Rightarrow> int \<Rightarrow> bool" where
  "whole_slice e t n \<longleftrightarrow> (e = 0 \<or> e \<le> - n) \<and> (case t of None \<Rightarrow> True | Some t \<Rightarrow> n \<le> t)"

definition resolve_index :: "int option \<Rightarrow> int \<Rightarrow> int \<Rightarrow> int" where
  "resolve_index e t n = (case e of None \<Rightarrow> n | Some e \<Rightarrow> if e < 0 then max 0 (t + e) else min t e)"

definition list_slice :: "'a vlist \<Rightarrow> int \<Rightarrow> int option \<Rightarrow> 'a vlist" where
  "list_slice e b t =
     (let n = li_size e
      in if whole_slice b t n then e
         else set_bounds e (resolve_index (Some b) n 0) (Some (resolve_index t n n)))"

subsection \<open>Iteration: \<open>_t\<close>\<close>

fun iter_node :: "'a vlist \<Rightarrow> nat \<Rightarrow> 'a vnode option \<Rightarrow> int \<Rightarrow> 'a option list" where
  "iter_node e 0 n a =
     (let u = (if a = tail_offset (li_cap e) then leaf_array (li_tail e) else leaf_array n);
          s = (if li_origin e < a then 0 else li_origin e - a);
          l = min 32 (li_cap e - a)
      in map (arr_get u) [nat s..<nat l])"
| "iter_node e (Suc k) n i =
     (let l = (if li_origin e < i then 0 else (li_origin e - i) div 2 ^ (5 * Suc k));
          c = min 32 (1 + (li_cap e - i) div 2 ^ (5 * Suc k))
      in concat (map (\<lambda>j. iter_node e k (arr_get (inner_array n) j) (i + int j * 2 ^ (5 * Suc k))) [nat l..<nat c]))"

definition list_values :: "'a vlist \<Rightarrow> 'a option list" where
  "list_values e = iter_node e (li_level e) (li_root e) 0"

subsection \<open>Digits\<close>

text \<open>The number of positions under a node of level \<open>k\<close>.\<close>

definition span :: "nat \<Rightarrow> int" where
  "span k = 2 ^ (5 * k + 5)"

lemma span_simps [simp]: "0 < span k" "0 \<le> span k" "span k \<noteq> 0" "span 0 = 32"
  by (simp_all add: span_def)

lemma span_Suc: "span (Suc k) = span k * 32"
  by (simp add: span_def power_add)

lemma span_power: "2 ^ (5 * Suc k) = span k" "2 ^ (5 * k + 5) = span k" "2 ^ (5 + 5 * k) = span k"
  by (simp_all add: span_def add.commute)

lemma span_dvd: "j \<le> k \<Longrightarrow> span j dvd span k" "32 dvd span k"
  by (simp_all add: span_def le_imp_power_dvd power_add)

lemma span_mono: "j \<le> k \<Longrightarrow> span j \<le> span k"
  by (simp add: span_def power_increasing)

lemma digit32_less: "digit32 t s < 32"
  by (simp add: digit32_def nat_less_iff)

lemma digit32_span: "int (digit32 t (5 * Suc k)) = t div span k mod 32" "int (digit32 t 0) = t mod 32"
  by (simp_all add: digit32_def span_def add.commute)

lemma mod_span_Suc: "t mod span (Suc k) = span k * int (digit32 t (5 * Suc k)) + t mod span k"
  unfolding span_Suc digit32_span by (rule zmod_zmult2_eq) simp

lemma mod_span_0: "t mod span 0 = int (digit32 t 0)"
  by (simp add: digit32_span)

lemma digits_less:
  fixes A :: int
  assumes "0 \<le> x" "x < A" "0 \<le> y" "d < e"
  shows "A * int d + x < A * int e + y"
proof -
  have "A * int (Suc d) \<le> A * int e" using assms by (intro mult_left_mono) simp_all
  then show ?thesis using assms by (simp add: distrib_left)
qed

lemma digits_order:
  fixes A :: int
  assumes "0 \<le> x" "x < A" "0 \<le> y" "y < A"
  shows "A * int d + x \<le> A * int e + y \<longleftrightarrow> d < e \<or> d = e \<and> x \<le> y"
  using digits_less [OF assms(1,2,3), of d e] digits_less [OF assms(3,4,1), of e d]
  by (cases d e rule: linorder_cases) simp_all

lemma mod_span_le_iff:
  "t mod span (Suc k) \<le> r mod span (Suc k) \<longleftrightarrow>
     digit32 t (5 * Suc k) < digit32 r (5 * Suc k) \<or> digit32 t (5 * Suc k) = digit32 r (5 * Suc k) \<and> t mod span k \<le> r mod span k"
  unfolding mod_span_Suc by (rule digits_order) simp_all

lemma mod_span_eq_iff:
  "t mod span (Suc k) = r mod span (Suc k) \<longleftrightarrow> digit32 t (5 * Suc k) = digit32 r (5 * Suc k) \<and> t mod span k = r mod span k"
  unfolding eq_iff [of "t mod span (Suc k)"] mod_span_le_iff by auto

subsection \<open>The value at a position\<close>

fun vget :: "nat \<Rightarrow> 'a vnode option \<Rightarrow> int \<Rightarrow> 'a option" where
  "vget 0 n t = arr_get (leaf_array n) (digit32 t 0)"
| "vget (Suc k) n t = vget k (arr_get (inner_array n) (digit32 t (5 * Suc k))) t"

lemma arr_get_out [simp]: "arr_get [] i = None" "length xs \<le> i \<Longrightarrow> arr_get xs i = None"
  by (simp_all add: arr_get_def)

lemma arr_get_in: "i < length xs \<Longrightarrow> arr_get xs i = xs ! i"
  by (simp add: arr_get_def)

lemma arr_get_upd: "arr_get (xs[i := v]) j = (if j = i \<and> i < length xs then v else arr_get xs j)"
  by (simp add: arr_get_def)

lemma arr_get_set [simp]: "arr_get (arr_set xs i v) j = (if j = i then v else arr_get xs j)"
  by (auto simp: arr_get_def arr_set_def nth_append)

lemma vget_None [simp]: "vget k None t = None"
  by (induction k) simp_all

lemma vget_walk: "arr_get (leaf_array (walk k t n)) (digit32 t 0) = vget k n t"
  by (induction k arbitrary: n) auto

lemma vget_cong: "t mod span k = r mod span k \<Longrightarrow> vget k n t = vget k n r"
proof (induction k arbitrary: n)
  case 0
  then show ?case by (simp add: digit32_def)
next
  case (Suc k)
  then show ?case by (simp add: mod_span_eq_iff)
qed

fun shaped :: "nat \<Rightarrow> 'a vnode \<Rightarrow> bool" where
  "shaped 0 (VLeaf xs) = True"
| "shaped (Suc k) (VInner xs) = list_all (case_option True (shaped k)) xs"
| "shaped k n = False"

definition oshaped :: "nat \<Rightarrow> 'a vnode option \<Rightarrow> bool" where
  "oshaped k = case_option True (shaped k)"

lemma oshaped_simps [simp]: "oshaped k None" "oshaped k (Some x) = shaped k x"
  by (simp_all add: oshaped_def)

lemma shaped_inner [simp]: "shaped (Suc k) (VInner xs) = list_all (oshaped k) xs"
  by (simp add: oshaped_def)

declare shaped.simps(2) [simp del]

lemma shaped_cases:
  "shaped 0 n \<Longrightarrow> \<exists>xs. n = VLeaf xs"
  "shaped (Suc k) n \<Longrightarrow> \<exists>xs. n = VInner xs \<and> list_all (oshaped k) xs"
  by (cases n; simp)+

lemma shaped_arrays:
  "oshaped 0 n \<Longrightarrow> n = None \<or> n = Some (VLeaf (leaf_array n))"
  "oshaped (Suc k) n \<Longrightarrow> (n = None \<or> n = Some (VInner (inner_array n))) \<and> list_all (oshaped k) (inner_array n)"
  by (cases n; auto dest!: shaped_cases)+

lemma oshaped_get: "oshaped (Suc k) n \<Longrightarrow> oshaped k (arr_get (inner_array n) i)"
  using shaped_arrays(2) [of k n] by (auto simp: arr_get_def list_all_length)

lemma list_all_arr_set: "list_all P xs \<Longrightarrow> P None \<Longrightarrow> P v \<Longrightarrow> list_all P (arr_set xs i v)"
  by (auto simp: arr_set_def list_all_iff dest!: set_update_subset_insert [THEN subsetD])

lemma oshaped_walk: "oshaped k n \<Longrightarrow> oshaped 0 (walk k t n)"
  by (induction k arbitrary: n) (auto dest: oshaped_get)

subsection \<open>What the node operations do to the values\<close>

lemma vget_update:
  "vget k (update_vnode k e r v) t = (if t mod span k = r mod span k then v else vget k e t)"
proof (induction k arbitrary: e)
  case 0
  have "t mod 32 = r mod 32 \<longleftrightarrow> digit32 t 0 = digit32 r 0"
    unfolding digit32_span(2) [symmetric] by simp
  moreover have "arr_get (butlast xs) j = (if j = length xs - 1 then None else arr_get xs j)" for xs :: "'a option list" and j
    by (auto simp: arr_get_def nth_butlast)
  ultimately show ?case by (auto simp: Let_def arr_get_in)
next
  case (Suc k)
  define u where "u = digit32 r (5 * Suc k)"
  define l where "l = arr_get (inner_array e) u"
  define c where "c = update_vnode k l r v"
  have IH: "vget k c t = (if t mod span k = r mod span k then v else vget k l t)" unfolding c_def by (rule Suc.IH)
  have e: "update_vnode (Suc k) e r v =
      (if \<not> u < length (inner_array e) \<and> v = None then e else if c = l then e else Some (VInner (arr_set (inner_array e) u c)))"
    unfolding c_def l_def u_def by (simp add: Let_def)
  show ?case
    unfolding e mod_span_eq_iff u_def [symmetric]
    using IH by (auto simp: l_def [symmetric] simp del: mult_Suc_right split: if_splits) (auto simp: l_def)
qed

lemma shaped_update: "oshaped k e \<Longrightarrow> oshaped k (update_vnode k e r v)"
proof (induction k arbitrary: e)
  case 0
  then show ?case by (simp add: Let_def)
next
  case (Suc k)
  have "oshaped k (update_vnode k (arr_get (inner_array e) i) r v)" for i
    by (rule Suc.IH [OF oshaped_get [OF Suc.prems]])
  then have "oshaped (Suc k) (Some (VInner (arr_set (inner_array e) i (update_vnode k (arr_get (inner_array e) i) r v))))" for i
    using shaped_arrays(2) [OF Suc.prems] by (simp add: list_all_arr_set)
  then show ?case using Suc.prems by (simp only: update_vnode.simps Let_def split: if_split) simp
qed

lemma arr_get_cut: "r \<le> q \<Longrightarrow> arr_get (replicate r None @ drop r xs) q = arr_get xs q"
  by (auto simp: arr_get_def nth_append)

text \<open>The inner case of both cuts: the array \<open>u\<close> with entry \<open>r\<close> replaced unless the replacement is undefined.\<close>

lemma vget_replaced:
  assumes "r < length xs" "length u = length xs \<or> length u = Suc r"
    and "arr_get u (digit32 t (5 * Suc k)) = arr_get xs (digit32 t (5 * Suc k))"
    and "o' = None \<longleftrightarrow> xs ! r = None" "digit32 t (5 * Suc k) = r \<Longrightarrow> vget k o' t = vget k (xs ! r) t"
  shows "vget (Suc k) (Some (VInner (if o' = None then u else u[r := o']))) t = vget (Suc k) (Some (VInner xs)) t"
proof -
  have "r < length u" using assms(1,2) by auto
  then show ?thesis using assms(1,3,4,5)
    by (cases "digit32 t (5 * Suc k) = r") (auto simp: arr_get_upd arr_get_in simp del: mult_Suc_right)
qed

lemma vget_remove_before:
  "shaped k x \<Longrightarrow> n mod span k \<le> t mod span k \<Longrightarrow> vget k (Some (remove_before k n x)) t = vget k (Some x) t"
proof (induction k arbitrary: x)
  case 0
  then obtain xs where x: "x = VLeaf xs" using shaped_cases by blast
  have "digit32 n 0 \<le> digit32 t 0" using 0(2) unfolding mod_span_0 by simp
  then show ?case by (auto simp: x Let_def arr_get_cut)
next
  case (Suc k)
  then obtain xs where x: "x = VInner xs" "list_all (oshaped k) xs" using shaped_cases by blast
  define r where "r = digit32 n (5 * Suc k)"
  have le: "r \<le> digit32 t (5 * Suc k)" "digit32 t (5 * Suc k) = r \<Longrightarrow> n mod span k \<le> t mod span k"
    using Suc.prems(2) unfolding mod_span_le_iff r_def by auto
  show ?case
  proof (cases "n = 5 * int (Suc k) \<or> xs = [] \<or> length xs \<le> r")
    case True
    then show ?thesis using le(1) by (auto simp: x Let_def r_def simp del: mult_Suc_right)
  next
    case False
    define o' where "o' = map_option (remove_before k n) (xs ! r)"
    have sr: "oshaped k (xs ! r)" using x(2) False by (auto simp: list_all_length)
    define u where "u = (if r = 0 then xs else replicate r None @ drop r xs)"
    have "vget k o' t = vget k (xs ! r) t" if "digit32 t (5 * Suc k) = r"
      using Suc.IH le(2) [OF that] sr by (cases "xs ! r") (auto simp: o'_def)
    then have eq: "vget (Suc k) (Some (VInner (if o' = None then u else u[r := o']))) t = vget (Suc k) (Some (VInner xs)) t"
      using False le(1) by (intro vget_replaced) (auto simp: u_def o'_def arr_get_cut)
    have "remove_before (Suc k) n x =
        (if o' = xs ! r \<and> r = 0 then VInner xs else if r = 0 \<and> o' = None then VInner xs
         else VInner (if o' = None then u else u[r := o']))"
      using False unfolding x(1) remove_before.simps Let_def r_def o'_def u_def by (simp only: de_Morgan_disj simp_thms if_False)
    then show ?thesis using eq x(1) by (simp split: if_splits del: vget.simps)
  qed
qed

lemma arr_get_take: "q \<le> r \<Longrightarrow> arr_get (take (r + 1) xs) q = arr_get xs q"
  by (auto simp: arr_get_def)

lemma vget_remove_after:
  "shaped k x \<Longrightarrow> t mod span k \<le> (n - 1) mod span k \<Longrightarrow> vget k (Some (remove_after k n x)) t = vget k (Some x) t"
proof (induction k arbitrary: x)
  case 0
  then obtain xs where x: "x = VLeaf xs" using shaped_cases by blast
  have "digit32 t 0 \<le> digit32 (n - 1) 0" using 0(2) unfolding mod_span_0 by simp
  then show ?case by (auto simp: x Let_def arr_get_take [simplified])
next
  case (Suc k)
  then obtain xs where x: "x = VInner xs" "list_all (oshaped k) xs" using shaped_cases by blast
  define r where "r = digit32 (n - 1) (5 * Suc k)"
  have le: "digit32 t (5 * Suc k) \<le> r" "digit32 t (5 * Suc k) = r \<Longrightarrow> t mod span k \<le> (n - 1) mod span k"
    using Suc.prems(2) unfolding mod_span_le_iff r_def by auto
  show ?case
  proof (cases "n = 2 ^ (5 * Suc k) \<or> xs = [] \<or> length xs \<le> r")
    case True
    then show ?thesis by (auto simp: x Let_def r_def simp del: mult_Suc_right)
  next
    case False
    define o' where "o' = map_option (remove_after k n) (xs ! r)"
    have sr: "oshaped k (xs ! r)" using x(2) False by (auto simp: list_all_length)
    have "vget k o' t = vget k (xs ! r) t" if "digit32 t (5 * Suc k) = r"
      using Suc.IH le(2) [OF that] sr by (cases "xs ! r") (auto simp: o'_def)
    then have eq: "vget (Suc k) (Some (VInner (if o' = None then take (r + 1) xs else (take (r + 1) xs)[r := o']))) t
        = vget (Suc k) (Some (VInner xs)) t"
      using False le(1) by (intro vget_replaced) (auto simp: o'_def arr_get_take [simplified])
    have "remove_after (Suc k) n x =
        (if o' = xs ! r \<and> r = length xs - 1 then VInner xs
         else VInner (if o' = None then take (r + 1) xs else (take (r + 1) xs)[r := o']))"
      using False unfolding x(1) remove_after.simps Let_def r_def o'_def by (simp only: de_Morgan_disj simp_thms if_False)
    then show ?thesis using eq x(1) by (simp split: if_splits del: vget.simps)
  qed
qed

lemma list_all_upd: "list_all P xs \<Longrightarrow> P v \<Longrightarrow> list_all P (xs[i := v])"
  by (auto simp: list_all_iff dest!: set_update_subset_insert [THEN subsetD])

lemma shaped_remove_before: "shaped k x \<Longrightarrow> shaped k (remove_before k n x)"
proof (induction k arbitrary: x)
  case 0
  then obtain xs where "x = VLeaf xs" using shaped_cases by blast
  then show ?case by (simp add: Let_def)
next
  case (Suc k)
  then obtain xs where x: "x = VInner xs" "list_all (oshaped k) xs" using shaped_cases by blast
  have "oshaped k (map_option (remove_before k n) (xs ! r))" if "r < length xs" for r
    using Suc.IH x(2) that by (cases "xs ! r") (auto simp: list_all_length)
  moreover have "list_all (oshaped k) (replicate r None @ drop r xs)" for r
    using x(2) by (auto simp: list_all_iff dest: in_set_dropD)
  ultimately show ?case using x
    by (simp add: Let_def list_all_upd not_le del: mult_Suc_right list_all_append)
qed

lemma shaped_remove_after: "shaped k x \<Longrightarrow> shaped k (remove_after k n x)"
proof (induction k arbitrary: x)
  case 0
  then obtain xs where "x = VLeaf xs" using shaped_cases by blast
  then show ?case by (simp add: Let_def)
next
  case (Suc k)
  then obtain xs where x: "x = VInner xs" "list_all (oshaped k) xs" using shaped_cases by blast
  have "oshaped k (map_option (remove_after k n) (xs ! r))" if "r < length xs" for r
    using Suc.IH x(2) that by (cases "xs ! r") (auto simp: list_all_length)
  moreover have "list_all (oshaped k) (take r xs)" for r
    using x(2) by (auto simp: list_all_iff dest: in_set_takeD)
  ultimately show ?case using x by (simp add: Let_def list_all_upd not_le del: mult_Suc_right)
qed

subsection \<open>The same leaf\<close>

fun same_leaf :: "nat \<Rightarrow> int \<Rightarrow> int \<Rightarrow> bool" where
  "same_leaf 0 t f = True"
| "same_leaf (Suc k) t f \<longleftrightarrow> digit32 t (5 * Suc k) = digit32 f (5 * Suc k) \<and> same_leaf k t f"

lemma digit32_leaf: "digit32 (t div 32 * 32) (5 * Suc k) = digit32 t (5 * Suc k)"
proof -
  have "x div (32 * 2 ^ (5 * k)) = x div 32 div 2 ^ (5 * k)" for x :: int by (rule zdiv_zmult2_eq) simp
  then show ?thesis by (simp add: digit32_def power_add)
qed

lemma same_leaf_mod: "same_leaf k t f \<longleftrightarrow> (t div 32 * 32) mod span k = (f div 32 * 32) mod span k"
  by (induction k) (simp_all add: mod_span_eq_iff digit32_leaf del: mult_Suc_right)

lemma same_leaf_iff:
  assumes "0 \<le> t" "t < span k" "0 \<le> f" "f < span k"
  shows "same_leaf k t f \<longleftrightarrow> t div 32 = f div 32"
proof -
  have "t div 32 * 32 mod span k = t div 32 * 32" if "0 \<le> t" "t < span k" for t
  proof (rule mod_pos_pos_trivial)
    have "t div 32 * 32 \<le> t" using div_mult_mod_eq [of t 32] pos_mod_sign [of 32 t] by linarith
    then show "t div 32 * 32 < span k" using that by simp
  qed (use that in simp)
  then show ?thesis using assms unfolding same_leaf_mod by simp
qed

lemma walk_same_leaf: "same_leaf k t f \<Longrightarrow> walk k t n = walk k f n"
  by (induction k arbitrary: n) (simp_all del: mult_Suc_right)

lemma vget_put_tail:
  "vget (Suc k) (Some (put_tail (Suc k) m f d)) t =
     (if same_leaf (Suc k) t f then arr_get (leaf_array d) (digit32 t 0) else vget (Suc k) m t)"
proof (induction k arbitrary: m)
  case (Suc k)
  show ?case
    unfolding vget.simps(2) [of "Suc k"] same_leaf.simps(2) [of "Suc k"] put_tail.simps(1) Let_def inner_array.simps arr_get_set
    by (cases "digit32 t (5 * Suc (Suc k)) = digit32 f (5 * Suc (Suc k))") (simp_all only: Suc simp_thms if_True if_False)
qed simp

lemma shaped_put_tail: "oshaped (Suc k) m \<Longrightarrow> oshaped 0 d \<Longrightarrow> shaped (Suc k) (put_tail (Suc k) m f d)"
proof (induction k arbitrary: m)
  case 0
  then show ?case using shaped_arrays(2) [OF 0(1)] by (simp add: list_all_arr_set)
next
  case (Suc k)
  have "shaped (Suc k) (put_tail (Suc k) (arr_get (inner_array m) b) f d)" for b
    by (rule Suc.IH [OF oshaped_get [OF Suc.prems(1)] Suc.prems(2)])
  then show ?case using shaped_arrays(2) [OF Suc.prems(1)]
    by (simp add: Let_def list_all_arr_set del: mult_Suc_right)
qed

subsection \<open>Levels\<close>

lemma no_entries: "oshaped k l \<Longrightarrow> \<not> has_entries l \<Longrightarrow> vget k l t = None"
  by (cases k) (auto simp: has_entries_def)

lemma grow_left_ok:
  assumes "grow_left a k l c = (k', l', c')" "oshaped k l"
  shows "0 \<le> a + c' \<and> k \<le> k' \<and> c \<le> c' \<and> oshaped k' l' \<and> 32 dvd (c' - c) \<and> (0 \<le> a + c \<longrightarrow> c' = c \<and> k' = k \<and> l' = l) \<and>
    (\<forall>t. 0 \<le> t \<and> t < span k \<longrightarrow> t + (c' - c) < span k' \<and> vget k' l' (t + (c' - c)) = vget k l t)"
  using assms
proof (induction a k l c rule: grow_left.induct)
  case (1 a k l c)
  show ?case
  proof (cases "a + c < 0")
    case True
    let ?l = "Some (VInner (if has_entries l then [None, l] else []))"
    have sh: "oshaped (Suc k) ?l" using 1(3) by simp
    have "grow_left a (Suc k) ?l (c + span k) = (k', l', c')"
      using 1(2) True by (subst (asm) grow_left.simps) (simp add: span_power)
    note IH = 1(1) [OF True, unfolded span_power, OF this sh]
    have one: "t + span k < span (Suc k)" "vget (Suc k) ?l (t + span k) = vget k l t" if "0 \<le> t" "t < span k" for t
    proof -
      show "t + span k < span (Suc k)" using that by (simp add: span_Suc)
      have "(t + span k) div span k = 1" using that by (simp add: div_add_self2 div_pos_pos_trivial)
      then have "digit32 (t + span k) (5 * Suc k) = 1" by (simp add: digit32_def span_power)
      moreover have "vget k l (t + span k) = vget k l t" by (rule vget_cong) simp
      ultimately show "vget (Suc k) ?l (t + span k) = vget k l t"
        using no_entries [OF 1(3), of t] by (simp add: arr_get_def del: mult_Suc_right)
    qed
    have "t + (c' - c) < span k' \<and> vget k' l' (t + (c' - c)) = vget k l t" if "0 \<le> t" "t < span k" for t
    proof -
      have "(t + span k) + (c' - (c + span k)) = t + (c' - c)" by simp
      then show ?thesis using IH one [OF that] that by (metis add_nonneg_nonneg span_simps(2))
    qed
    moreover have "32 dvd (c' - c)"
      using IH dvd_add [of 32 "c' - (c + span k)" "span k"] span_dvd(2) [of k] by simp
    ultimately show ?thesis using IH True span_simps(1) [of k] by (auto simp del: span_simps)
  next
    case False
    then show ?thesis using 1(2,3) by (subst (asm) grow_left.simps) auto
  qed
qed

lemma grow_right_ok:
  assumes "grow_right p k l = (k', l')" "oshaped k l"
  shows "p < span k' \<and> k \<le> k' \<and> oshaped k' l' \<and> (p < span k \<longrightarrow> k' = k \<and> l' = l) \<and>
    (\<forall>t. 0 \<le> t \<and> t < span k \<longrightarrow> t < span k' \<and> vget k' l' t = vget k l t)"
  using assms
proof (induction p k l rule: grow_right.induct)
  case (1 p k l)
  show ?case
  proof (cases "span k \<le> p")
    case True
    let ?l = "Some (VInner (if has_entries l then [l] else []))"
    have sh: "oshaped (Suc k) ?l" using 1(3) by simp
    have "grow_right p (Suc k) ?l = (k', l')"
      using 1(2) True by (subst (asm) grow_right.simps) (simp add: span_power)
    note IH = 1(1) [unfolded span_power, OF True this sh]
    have one: "t < span (Suc k)" "vget (Suc k) ?l t = vget k l t" if "0 \<le> t" "t < span k" for t
    proof -
      show "t < span (Suc k)" using that by (simp add: span_Suc)
      have "digit32 t (5 * Suc k) = 0" using that by (simp add: digit32_def span_power)
      then show "vget (Suc k) ?l t = vget k l t"
        using no_entries [OF 1(3), of t] by (simp add: arr_get_def del: mult_Suc_right)
    qed
    then show ?thesis using IH True by auto
  next
    case False
    then show ?thesis using 1(2,3) by (subst (asm) grow_right.simps) (auto simp: span_power)
  qed
qed

lemma multiple_gap: "32 dvd f \<Longrightarrow> 32 dvd p \<Longrightarrow> f < (p :: int) \<Longrightarrow> f + 32 \<le> p"
  by (auto elim!: dvdE)

lemma narrow_ok:
  assumes "narrow a p k l c = (k', l', c')" "oshaped k l" "span k dvd c" "c \<le> a" "a < p" "p < c + span k" "32 dvd p"
    and "vget k l a \<noteq> None"
  shows "1 \<le> k' \<and> oshaped k' l' \<and> span k' dvd c' \<and> c \<le> c' \<and> c' \<le> a \<and> p < c' + span k' \<and> l' \<noteq> None \<and>
    (\<forall>t. a \<le> t \<and> t < p \<longrightarrow> vget k' l' t = vget k l t)"
  using assms
proof (induction k arbitrary: l c)
  case 0
  then have "32 dvd c" "c \<le> a" "a < p" "p < c + 32" "32 dvd p" by simp_all
  then show ?case using multiple_gap [of c p] by linarith
next
  case (Suc k)
  let ?d = "digit32 a (5 * Suc k)"
  have l: "l \<noteq> None" using Suc.prems(8) by (cases l) simp_all
  show ?case
  proof (cases "?d = digit32 p (5 * Suc k)")
    case False
    then show ?thesis using Suc.prems l by auto
  next
    case True
    have md: "t mod span (Suc k) = t - c" if "c \<le> t" "t < c + span (Suc k)" for t
    proof -
      have "t mod span (Suc k) = (t - c) mod span (Suc k)"
        using Suc.prems(3) by (metis diff_zero mod_0_imp_dvd mod_diff_right_eq dvd_imp_mod_0)
      then show ?thesis using that by (simp add: mod_pos_pos_trivial)
    qed
    let ?c = "c + span k * int ?d"
    have a: "a = ?c + a mod span k" and p: "p = ?c + p mod span k"
      using md [of a] md [of p] Suc.prems(4-6) True unfolding mod_span_Suc by simp_all
    have rec: "narrow a p k (arr_get (inner_array l) ?d) ?c = (k', l', c')"
      using Suc.prems(1) True l by (simp add: Let_def span_power del: mult_Suc_right)
    have b: "span k dvd ?c" "?c \<le> a" "p < ?c + span k"
    proof -
      show "span k dvd ?c" using dvd_trans [OF span_dvd(1) Suc.prems(3)] by simp
      have "0 \<le> a mod span k" "p mod span k < span k" by simp_all
      then show "?c \<le> a" "p < ?c + span k" using a p by linarith+
    qed
    have digit: "digit32 t (5 * Suc k) = ?d" if "a \<le> t" "t < p" for t
    proof -
      have "a mod span (Suc k) \<le> t mod span (Suc k)" "t mod span (Suc k) \<le> p mod span (Suc k)"
        using md [of a] md [of t] md [of p] Suc.prems(4-6) that by simp_all
      then show ?thesis using True unfolding mod_span_le_iff by auto
    qed
    have "vget k (arr_get (inner_array l) ?d) a \<noteq> None" using Suc.prems(8) unfolding vget.simps .
    note IH = Suc.IH [OF rec oshaped_get [OF Suc.prems(2)] b(1,2) Suc.prems(5) b(3) Suc.prems(7) this]
    have "vget k' l' t = vget (Suc k) l t" if "a \<le> t" "t < p" for t
      using IH that unfolding vget.simps digit [OF that] by blast
    moreover have "c \<le> ?c" by simp
    ultimately show ?thesis using IH order_trans [of c ?c c'] by blast
  qed
qed

subsection \<open>Well-formed lists and their items\<close>

definition lookup :: "'a vlist \<Rightarrow> int \<Rightarrow> 'a option" where
  "lookup e t =
     (if tail_offset (li_cap e) \<le> t then vget 0 (li_tail e) t else vget (li_level e) (li_root e) t)"

definition wf_list :: "'a vlist \<Rightarrow> bool" where
  "wf_list e \<longleftrightarrow> 1 \<le> li_level e \<and> 0 \<le> li_origin e \<and> li_origin e \<le> li_cap e \<and> li_size e = li_cap e - li_origin e
     \<and> tail_offset (li_cap e) < span (li_level e) \<and> oshaped (li_level e) (li_root e) \<and> oshaped 0 (li_tail e)"

definition item :: "'a vlist \<Rightarrow> int \<Rightarrow> 'a option" where
  "item e j = lookup e (j + li_origin e)"

definition no_gaps :: "'a vlist \<Rightarrow> bool" where
  "no_gaps e \<longleftrightarrow> (\<forall>t. li_origin e \<le> t \<and> t < li_cap e \<longrightarrow> lookup e t \<noteq> None)"

lemma make_list_simps [simp]:
  "li_size (make_list a u k l h) = u - a" "li_origin (make_list a u k l h) = a" "li_cap (make_list a u k l h) = u"
  "li_level (make_list a u k l h) = k" "li_root (make_list a u k l h) = l" "li_tail (make_list a u k l h) = h"
  by (simp_all add: make_list_def)

lemma tail_offset_pos: "0 < u \<Longrightarrow> tail_offset u = (u - 1) div 32 * 32"
  by (simp add: tail_offset_def)

lemma tail_offset_facts:
  "0 \<le> tail_offset u" "32 dvd tail_offset u" "0 < u \<Longrightarrow> tail_offset u < u" "u \<le> tail_offset u + 32"
proof -
  show "0 \<le> tail_offset u" "32 dvd tail_offset u" by (simp_all add: tail_offset_def)
  have "(u - 1) div 32 * 32 \<le> u - 1" "u - 1 < (u - 1) div 32 * 32 + 32"
    using div_mult_mod_eq [of "u - 1" 32] pos_mod_sign [of 32 "u - 1"] pos_mod_bound [of 32 "u - 1"] by linarith+
  then show "0 < u \<Longrightarrow> tail_offset u < u" "u \<le> tail_offset u + 32" by (simp_all add: tail_offset_def)
qed

lemma tail_offset_mono:
  assumes "u \<le> v" shows "tail_offset u \<le> tail_offset v"
proof -
  have "(u - 1) div 32 \<le> (v - 1) div 32" using assms by (intro zdiv_mono1) simp_all
  then show ?thesis using assms by (simp add: tail_offset_def)
qed

lemma tail_offset_shift:
  assumes "32 dvd c" "0 < u" "0 < u - c"
  shows "tail_offset (u - c) = tail_offset u - c"
proof -
  obtain k where c: "c = 32 * k" using assms(1) by (rule dvdE)
  have "(u - 32 * k - 1) div 32 = (u - 1) div 32 - k"
    using div_mult_self2 [of 32 "u - 1" "- k"] by (simp add: algebra_simps)
  then show ?thesis using assms(2,3) by (simp add: tail_offset_pos c)
qed

lemma digit32_shift: "32 dvd c \<Longrightarrow> digit32 (t + c) 0 = digit32 t 0" "32 dvd c \<Longrightarrow> digit32 (t - c) 0 = digit32 t 0"
proof -
  have "(t + 32 * k) mod 32 = t mod 32" "(t - 32 * k) mod 32 = t mod 32" for k :: int
    using mod_mult_self2 [of t 32 k] mod_mult_self2 [of t 32 "- k"] by simp_all
  then show "32 dvd c \<Longrightarrow> digit32 (t + c) 0 = digit32 t 0" "32 dvd c \<Longrightarrow> digit32 (t - c) 0 = digit32 t 0"
    by (auto simp: digit32_def elim!: dvdE)
qed

text \<open>Positions of one leaf.\<close>

lemma leaf_window:
  assumes "32 dvd p" "p \<le> x" "x < p + (32 :: int)"
  shows "x div 32 = p div 32" "x mod 32 = x - p"
proof -
  obtain k where p: "p = 32 * k" using assms(1) by (rule dvdE)
  have x: "x = (x - p) + 32 * k" "0 \<le> x - p" "x - p < 32" using assms p by simp_all
  then have d: "(x - p) div 32 = 0" "(x - p) mod 32 = x - p" by (simp_all add: div_pos_pos_trivial mod_pos_pos_trivial)
  have "x div 32 = k + (x - p) div 32"
    by (rule trans [OF arg_cong [OF x(1), of "\<lambda>y. y div 32"]]) (rule div_mult_self2, simp)
  then show "x div 32 = p div 32" using d(1) p by simp
  have "x mod 32 = (x - p) mod 32"
    by (rule trans [OF arg_cong [OF x(1), of "\<lambda>y. y mod 32"]]) (rule mod_mult_self2)
  then show "x mod 32 = x - p" using d(2) by simp
qed

lemma same_start: "32 dvd i \<Longrightarrow> 32 dvd p \<Longrightarrow> i \<le> x \<Longrightarrow> x < i + 32 \<Longrightarrow> x < c \<Longrightarrow> c \<le> p + 32 \<Longrightarrow> i = p \<longleftrightarrow> p \<le> (x :: int)"
  using leaf_window(1) [of i x] leaf_window(1) [of p x] by (auto elim!: dvdE)

lemma leaf_below: "32 dvd p \<Longrightarrow> x < (p :: int) \<Longrightarrow> x div 32 \<noteq> p div 32"
  by (auto elim!: dvdE)

lemma list_get_item:
  assumes "wf_list e" "0 \<le> j" "j < li_size e"
  shows "list_get e j d = item e j"
  using assms by (auto simp: list_get_def wrap_index_def Let_def node_for_def item_def lookup_def wf_list_def span_power vget_walk)

lemma item_empty [simp]: "wf_list empty_list" "li_size empty_list = 0"
  by (simp_all add: wf_list_def empty_list_def tail_offset_def)

lemma ovget_remove:
  "oshaped k l \<Longrightarrow> n mod span k \<le> t mod span k \<Longrightarrow> vget k (map_option (remove_before k n) l) t = vget k l t"
  "oshaped k l \<Longrightarrow> t mod span k \<le> (n - 1) mod span k \<Longrightarrow> vget k (map_option (remove_after k n) l) t = vget k l t"
  by (cases l; simp add: vget_remove_before vget_remove_after)+

lemma oshaped_remove:
  "oshaped k l \<Longrightarrow> oshaped k (map_option (remove_before k n) l)" "oshaped k l \<Longrightarrow> oshaped k (map_option (remove_after k n) l)"
  by (cases l; simp add: shaped_remove_before shaped_remove_after)+

text \<open>The tail that a cut leaves.\<close>

lemma cut_tail:
  fixes e u
  defines "h \<equiv> (if tail_offset u < tail_offset (li_cap e) then node_for e (u - 1)
      else if tail_offset (li_cap e) < tail_offset u then Some (VLeaf []) else li_tail e)"
  defines "h' \<equiv> (if u < li_cap e then map_option (remove_after 0 u) h else h)"
  assumes "wf_list e" "0 < u" "u \<le> li_cap e"
  shows "oshaped 0 h'" "tail_offset u \<le> t \<Longrightarrow> t < u \<Longrightarrow> vget 0 h' t = lookup e t"
proof -
  have le: "tail_offset u \<le> tail_offset (li_cap e)" using assms(5) by (rule tail_offset_mono)
  have u: "tail_offset u < u" using assms(4) by (rule tail_offset_facts)
  have sh: "oshaped 0 h"
    using assms(3) le by (auto simp: h_def node_for_def wf_list_def oshaped_walk)
  then show "oshaped 0 h'" by (cases "u < li_cap e") (simp_all only: h'_def if_True if_False oshaped_remove)
  assume t: "tail_offset u \<le> t" "t < u"
  have "vget 0 h t = lookup e t"
  proof (cases "tail_offset u < tail_offset (li_cap e)")
    case True
    have to: "u - 1 < tail_offset (li_cap e)" "t < tail_offset (li_cap e)" "t div 32 = (u - 1) div 32"
    proof -
      have "tail_offset u + 32 \<le> tail_offset (li_cap e)"
        by (rule multiple_gap [OF tail_offset_facts(2) tail_offset_facts(2) True])
      then show "u - 1 < tail_offset (li_cap e)" "t < tail_offset (li_cap e)" using t tail_offset_facts(4) [of u] by simp_all
      show "t div 32 = (u - 1) div 32"
        using leaf_window(1) [OF tail_offset_facts(2) [of u], of t] leaf_window(1) [OF tail_offset_facts(2) [of u], of "u - 1"] t u
          tail_offset_facts(4) [of u] by simp
    qed
    have sp: "tail_offset (li_cap e) < span (li_level e)" using assms(3) by (simp add: wf_list_def)
    have "0 \<le> t" using t tail_offset_facts(1) [of u] by linarith
    then have "same_leaf (li_level e) (u - 1) t"
      using to sp assms(4) by (subst same_leaf_iff) simp_all
    from walk_same_leaf [OF this, of "li_root e"]
    have "h = walk (li_level e) t (li_root e)" using True to sp by (simp add: h_def node_for_def span_power)
    then show ?thesis using to by (simp add: lookup_def vget_walk)
  next
    case False
    then show ?thesis using le t by (simp add: h_def lookup_def)
  qed
  moreover have "t mod 32 \<le> (u - 1) mod 32"
    using leaf_window(2) [OF tail_offset_facts(2) [of u], of t] leaf_window(2) [OF tail_offset_facts(2) [of u], of "u - 1"] t u
      tail_offset_facts(4) [of u] by simp
  ultimately show "vget 0 h' t = lookup e t"
    using ovget_remove(2) [OF sh, of t u] by (simp add: h'_def del: vget.simps)
qed

subsection \<open>Bounds that shrink\<close>

text \<open>What every change of the bounds keeps: the items that are in both windows.\<close>

definition resized :: "'a vlist \<Rightarrow> 'a vlist \<Rightarrow> int \<Rightarrow> int \<Rightarrow> bool" where
  "resized e e' t n \<longleftrightarrow> wf_list e' \<and> li_size e' = n
     \<and> (\<forall>j. 0 \<le> j \<and> j < n \<and> 0 \<le> j + t \<and> j + t < li_size e \<longrightarrow> item e' j = item e (j + t))"

definition upper :: "'a vlist \<Rightarrow> int option \<Rightarrow> int" where
  "upper e n = (case n of None \<Rightarrow> li_cap e | Some n \<Rightarrow> if n < 0 then li_cap e + n else li_origin e + n)"

lemma resizedI:
  assumes "wf_list e" "wf_list e'" "li_size e' = n"
    and "\<And>x. li_origin e \<le> x \<Longrightarrow> x < li_cap e \<Longrightarrow> li_origin e + t \<le> x \<Longrightarrow> x < li_origin e + t + n \<Longrightarrow>
      lookup e' (x - (li_origin e + t) + li_origin e') = lookup e x"
  shows "resized e e' t n"
  unfolding resized_def
proof (intro conjI allI impI)
  fix j assume j: "0 \<le> j \<and> j < n \<and> 0 \<le> j + t \<and> j + t < li_size e"
  then have "lookup e' (j + t + li_origin e - (li_origin e + t) + li_origin e') = lookup e (j + t + li_origin e)"
    using assms(1) by (intro assms(4)) (auto simp: wf_list_def)
  then show "item e' j = item e (j + t)" by (simp add: item_def)
qed (use assms in simp_all)

text \<open>Cutting down to a part of the tail.\<close>

lemma tail_window:
  assumes "tail_offset u \<le> a" "a < u" "oshaped 0 h"
  shows "wf_list (make_list (a - tail_offset u) (u - tail_offset u) 1 None (map_option (remove_before 0 (a - tail_offset u)) h))"
    and "a \<le> x \<Longrightarrow> x < u \<Longrightarrow>
      lookup (make_list (a - tail_offset u) (u - tail_offset u) 1 None (map_option (remove_before 0 (a - tail_offset u)) h)) (x - tail_offset u)
      = vget 0 h x"
proof -
  have le: "u - tail_offset u \<le> 32" using tail_offset_facts(4) [of u] by simp
  then have p: "tail_offset (u - tail_offset u) = 0" by (auto simp: tail_offset_def)
  show "wf_list (make_list (a - tail_offset u) (u - tail_offset u) 1 None (map_option (remove_before 0 (a - tail_offset u)) h))"
    using assms p oshaped_remove(1) [OF assms(3), of "a - tail_offset u"] unfolding wf_list_def make_list_simps by simp
  assume x: "a \<le> x" "x < u"
  have "vget 0 (map_option (remove_before 0 (a - tail_offset u)) h) (x - tail_offset u) = vget 0 h (x - tail_offset u)"
    using x assms(1) le by (intro ovget_remove(1) [OF assms(3)]) simp
  then show "lookup (make_list (a - tail_offset u) (u - tail_offset u) 1 None (map_option (remove_before 0 (a - tail_offset u)) h)) (x - tail_offset u)
      = vget 0 h x"
    using x assms(1) p by (simp add: lookup_def digit32_shift tail_offset_facts)
qed

lemma set_bounds_shrink:
  assumes "wf_list e" "no_gaps e" "0 \<le> t" "li_origin e + t < upper e n" "upper e n \<le> li_cap e"
    and "t \<noteq> 0 \<or> upper e n \<noteq> li_cap e"
  shows "resized e (set_bounds e t n) t (upper e n - (li_origin e + t))"
proof -
  define u where "u = upper e n"
  define a where "a = li_origin e + t"
  define k where "k = li_level e"
  define p f where "p = tail_offset u" and "f = tail_offset (li_cap e)"
  define h where "h = (if p < f then node_for e (u - 1) else if f < p then Some (VLeaf []) else li_tail e)"
  define h' where "h' = (if u < li_cap e then map_option (remove_after 0 u) h else h)"
  have wf: "1 \<le> k" "0 \<le> li_origin e" "li_size e = li_cap e - li_origin e" "f < span k" "oshaped k (li_root e)"
    using assms(1) unfolding wf_list_def k_def f_def by blast+
  have a: "0 \<le> a" "li_origin e \<le> a" "a < u" "u \<le> li_cap e" "0 < u" using assms wf by (simp_all add: a_def u_def)
  have pf: "p \<le> f" "32 dvd p" "p < u" using a tail_offset_mono tail_offset_facts by (auto simp: p_def f_def)
  have gl: "grow_left a k (li_root e) 0 = (k, li_root e, 0)" using a(1) by (subst grow_left.simps) simp
  have gr: "grow_right p k (li_root e) = (k, li_root e)" using pf wf(4) by (subst grow_right.simps) (simp add: span_power)
  note tail = cut_tail [OF assms(1) a(5,4), folded p_def f_def, folded h_def, folded h'_def]
  define e' where "e' = set_bounds e t n"
  have e': "e' = (if p \<le> a then make_list (a - p) (u - p) 1 None (map_option (remove_before 0 (a - p)) h')
      else if li_origin e < a \<or> p < f then
        let (k, l, c) = narrow a p k (li_root e) 0;
            l = (if li_origin e < a then map_option (remove_before k (a - c)) l else l);
            l = (if p < f then map_option (remove_after k (p - c)) l else l)
        in make_list (a - c) (u - c) k l h'
      else make_list a u k (li_root e) h')"
  proof -
    have ne: "\<not> (a = li_origin e \<and> u = li_cap e)" "\<not> u \<le> a" "\<not> f < p"
      using assms(6) a pf by (auto simp: a_def u_def)
    show ?thesis
      unfolding e'_def set_bounds_def upper_def [symmetric] k_def [symmetric] u_def [symmetric] a_def [symmetric] Let_def
        if_not_P [OF ne(1)] if_not_P [OF ne(2)] gl split_conv add_0_right p_def [symmetric] f_def [symmetric] gr
      using ne(3) by (simp add: h_def h'_def)
  qed
  have "resized e e' t (u - a)"
  proof (cases "p \<le> a")
    case True
    then have e': "e' = make_list (a - p) (u - p) 1 None (map_option (remove_before 0 (a - p)) h')" by (simp add: e')
    note tw = tail_window [OF True [unfolded p_def] a(3) tail(1), folded p_def, folded e']
    show ?thesis
    proof (rule resizedI [OF assms(1) tw(1)])
      fix x assume x: "li_origin e + t \<le> x" "x < li_origin e + t + (u - a)"
      then have "lookup e' (x - p) = lookup e x" using tw(2) [of x] tail(2) [of x] True by (simp add: a_def)
      then show "lookup e' (x - (li_origin e + t) + li_origin e') = lookup e x" by (simp add: e' a_def algebra_simps)
    qed (simp add: e')
  next
    case False
    then have "a < p" by simp
    show ?thesis
    proof (cases "li_origin e < a \<or> p < f")
      case cut: True
      obtain k' l c where n: "narrow a p k (li_root e) 0 = (k', l, c)" by (metis prod_cases3)
      have "lookup e a \<noteq> None" using assms(2) a by (simp add: no_gaps_def)
      then have "vget k (li_root e) a \<noteq> None" using False pf by (simp add: lookup_def f_def k_def)
      with narrow_ok [OF n wf(5) _ a(1) \<open>a < p\<close> _ pf(2)] wf(4) pf
      have nr: "1 \<le> k'" "oshaped k' l" "span k' dvd c" "0 \<le> c" "c \<le> a" "p < c + span k'"
        "\<And>x. a \<le> x \<Longrightarrow> x < p \<Longrightarrow> vget k' l x = vget k (li_root e) x" by auto
      define l1 where "l1 = (if li_origin e < a then map_option (remove_before k' (a - c)) l else l)"
      define l2 where "l2 = (if p < f then map_option (remove_after k' (p - c)) l1 else l1)"
      have e': "e' = make_list (a - c) (u - c) k' l2 h'" using False cut by (simp add: e' n l1_def l2_def Let_def)
      have c32: "32 dvd c" using span_dvd(2) nr(3) by (rule dvd_trans)
      have sh1: "oshaped k' l1" using nr(2) by (cases "li_origin e < a") (simp_all only: l1_def if_True if_False oshaped_remove)
      have sh2: "oshaped k' l2" using sh1 by (cases "p < f") (simp_all only: l2_def if_True if_False oshaped_remove)
      have off: "tail_offset (u - c) = p - c" unfolding p_def by (rule tail_offset_shift [OF c32]) (use a nr in simp_all)
      have "wf_list e'" unfolding wf_list_def e' make_list_simps using nr a tail(1) sh2 off by auto
      then show ?thesis
      proof (rule resizedI [OF assms(1)])
        fix x assume x: "li_origin e + t \<le> x" "x < li_origin e + t + (u - a)"
        then have x': "a \<le> x" "x < u" by (simp_all add: a_def)
        have "lookup e' (x - c) = lookup e x"
        proof (cases "p \<le> x")
          case True
          then show ?thesis using tail(2) [OF True x'(2)] by (simp add: lookup_def e' off digit32_shift c32)
        next
          case False
          have m: "(x - c) mod span k' = x - c" "(a - c) mod span k' = a - c" "(p - c - 1) mod span k' = p - c - 1"
            using False x' nr(5,6) \<open>a < p\<close> by (intro mod_pos_pos_trivial; simp)+
          have "vget k' l2 (x - c) = vget k' l1 (x - c)"
            using ovget_remove(2) [OF sh1, of "x - c" "p - c"] m False by (auto simp: l2_def)
          also have "\<dots> = vget k' l (x - c)"
            using ovget_remove(1) [OF nr(2), of "a - c" "x - c"] m x' by (auto simp: l1_def)
          also have "\<dots> = vget k' l x"
            by (rule vget_cong) (metis nr(3) mod_diff_right_eq dvd_imp_mod_0 diff_zero)
          also have "\<dots> = vget k (li_root e) x" using nr(7) x' False by simp
          also have "\<dots> = lookup e x" using False pf by (simp add: lookup_def f_def k_def)
          finally show ?thesis using False by (simp add: lookup_def e' off)
        qed
        then show "lookup e' (x - (li_origin e + t) + li_origin e') = lookup e x" by (simp add: e' a_def algebra_simps)
      qed (simp add: e')
    next
      case False
      then have e': "e' = make_list a u k (li_root e) h'" using \<open>a < p\<close> by (simp add: e')
      have "p = f" "a = li_origin e" using False pf a by simp_all
      have "wf_list e'" unfolding wf_list_def e' make_list_simps using wf a tail(1) \<open>p = f\<close> by (auto simp: p_def)
      then show ?thesis
      proof (rule resizedI [OF assms(1)])
        fix x assume x: "li_origin e + t \<le> x" "x < li_origin e + t + (u - a)"
        then have x': "a \<le> x" "x < u" by (simp_all add: a_def)
        have "lookup e' x = lookup e x"
        proof (cases "p \<le> x")
          case True
          then show ?thesis using tail(2) [OF True x'(2)] by (simp add: lookup_def e' p_def)
        next
          case False
          then show ?thesis using \<open>p = f\<close> by (simp add: lookup_def e' p_def [symmetric] f_def [symmetric] k_def)
        qed
        then show "lookup e' (x - (li_origin e + t) + li_origin e') = lookup e x" by (simp add: e' a_def)
      qed (simp add: e')
    qed
  qed
  then show ?thesis by (simp add: e'_def u_def a_def)
qed

subsection \<open>Bounds that grow\<close>

lemma set_bounds_grow:
  assumes "wf_list e" "no_gaps e" "t \<le> 0" "li_origin e + t < upper e n" "li_cap e \<le> upper e n"
    and "t \<noteq> 0 \<or> upper e n \<noteq> li_cap e"
  shows "resized e (set_bounds e t n) t (upper e n - (li_origin e + t))"
proof -
  define k where "k = li_level e"
  obtain k1 l1 c where gl: "grow_left (li_origin e + t) k (li_root e) 0 = (k1, l1, c)" by (metis prod_cases3)
  define u where "u = upper e n + c"
  define a where "a = li_origin e + t + c"
  define i where "i = li_cap e + c"
  define p f where "p = tail_offset u" and "f = tail_offset i"
  obtain k2 l2 where gr: "grow_right p k1 l1 = (k2, l2)" by (metis prod.exhaust)
  define h where "h = (if f < p then Some (VLeaf []) else li_tail e)"
  define l3 where "l3 = (if li_tail e \<noteq> None \<and> f < p \<and> a < i \<and> has_entries (li_tail e) then Some (put_tail k2 l2 f (li_tail e)) else l2)"
  have wf: "1 \<le> k" "0 \<le> li_origin e" "li_origin e \<le> li_cap e" "tail_offset (li_cap e) < span k" "oshaped k (li_root e)" "oshaped 0 (li_tail e)"
    using assms(1) unfolding wf_list_def k_def by blast+
  from grow_left_ok [OF gl wf(5)]
  have g1: "0 \<le> a" "k \<le> k1" "0 \<le> c" "oshaped k1 l1" "32 dvd c"
    "\<And>x. 0 \<le> x \<Longrightarrow> x < span k \<Longrightarrow> x + c < span k1 \<and> vget k1 l1 (x + c) = vget k (li_root e) x"
    by (auto simp: a_def)
  from grow_right_ok [OF gr g1(4)]
  have g2: "p < span k2" "k1 \<le> k2" "oshaped k2 l2" "\<And>x. 0 \<le> x \<Longrightarrow> x < span k1 \<Longrightarrow> vget k2 l2 x = vget k1 l1 x" by auto
  have a: "a < u" "0 < u" "i \<le> u" "a \<le> li_origin e + c" using assms g1(1) by (auto simp: a_def u_def i_def)
  have pf: "f \<le> p" "32 dvd p" "32 dvd f" "p < u" "0 \<le> f"
    using a tail_offset_mono tail_offset_facts by (auto simp: p_def f_def)
  have f: "f = tail_offset (li_cap e) + c" if "0 < li_cap e"
    using tail_offset_shift [of "- c" "li_cap e"] g1(3,5) that by (simp add: f_def i_def)
  define e' where "e' = set_bounds e t n"
  have e': "e' = (if p \<le> a then make_list (a - p) (u - p) 1 None (map_option (remove_before 0 (a - p)) h) else make_list a u k2 l3 h)"
  proof -
    have ne: "\<not> (li_origin e + t = li_origin e \<and> upper e n = li_cap e)" "\<not> upper e n \<le> li_origin e + t"
      using assms(4,6) by auto
    have "\<not> p < f" "\<not> u < i" "\<not> li_origin e + c < a" using pf a by simp_all
    then show ?thesis
      unfolding e'_def set_bounds_def upper_def [symmetric] k_def [symmetric] Let_def
        if_not_P [OF ne(1)] if_not_P [OF ne(2)] gl split_conv u_def [symmetric] a_def [symmetric] i_def [symmetric]
        p_def [symmetric] f_def [symmetric] gr
      by (simp add: h_def l3_def)
  qed
  have sh_h: "oshaped 0 h" using wf(6) by (simp add: h_def)
  have sh3: "oshaped k2 l3"
  proof -
    obtain j where j: "k2 = Suc j" using wf(1) g1(2) g2(2) by (cases k2) auto
    have "oshaped k2 (Some (put_tail k2 l2 f (li_tail e)))"
      using shaped_put_tail [OF g2(3) [unfolded j] wf(6)] by (simp add: j)
    then show ?thesis using g2(3) by (simp only: l3_def split: if_split) blast
  qed
  have inside: "f \<le> x + c \<and> vget 0 (li_tail e) (x + c) = lookup e x \<or>
      x + c < f \<and> vget k2 l2 (x + c) = lookup e x" if x: "li_origin e \<le> x" "x < li_cap e" for x
  proof (cases "tail_offset (li_cap e) \<le> x")
    case True
    then show ?thesis using x f wf(2) g1(5) by (simp add: lookup_def digit32_shift)
  next
    case False
    then have "0 \<le> x" "x < span k" using x wf(2,4) by simp_all
    then show ?thesis using g1(6) [of x] g2(4) [of "x + c"] g1(3) False x f wf(2) by (simp add: lookup_def k_def)
  qed
  have "resized e e' t (u - a)"
  proof (cases "p \<le> a")
    case True
    then have e': "e' = make_list (a - p) (u - p) 1 None (map_option (remove_before 0 (a - p)) h)" by (simp add: e')
    note tw = tail_window [OF True [unfolded p_def] a(1) sh_h, folded p_def, folded e']
    show ?thesis
    proof (rule resizedI [OF assms(1) tw(1)])
      fix x assume x: "li_origin e \<le> x" "x < li_cap e" "li_origin e + t \<le> x" "x < li_origin e + t + (u - a)"
      have y: "a \<le> x + c" "x + c < u" using x by (simp_all add: a_def)
      have "f \<le> x + c" using y True pf by linarith
      moreover have "\<not> f < p"
      proof
        assume "f < p"
        then have "f + 32 \<le> p" by (rule multiple_gap [OF pf(3,2)])
        then show False using tail_offset_facts(4) [of i] y True x by (simp add: f_def i_def)
      qed
      ultimately have "lookup e' (x + c - p) = lookup e x" using tw(2) [OF y] inside [OF x(1,2)] by (simp add: h_def)
      then show "lookup e' (x - (li_origin e + t) + li_origin e') = lookup e x" by (simp add: e' a_def algebra_simps)
    qed (simp add: e')
  next
    case False
    then have e': "e' = make_list a u k2 l3 h" by (simp add: e')
    have "wf_list e'" unfolding wf_list_def e' make_list_simps
      using wf(1) g1 g2 a sh_h sh3 by (auto simp: p_def)
    then show ?thesis
    proof (rule resizedI [OF assms(1)])
      fix x assume x: "li_origin e \<le> x" "x < li_cap e" "li_origin e + t \<le> x" "x < li_origin e + t + (u - a)"
      have y: "a \<le> x + c" "x + c < u" "0 \<le> x + c" "x + c < i" using x g1(1) by (simp_all add: a_def i_def)
      have i32: "i \<le> f + 32" unfolding f_def by (rule tail_offset_facts)
      have "lookup e' (x + c) = lookup e x"
      proof (cases "p \<le> x + c")
        case True
        then have "f = p" using i32 y pf(1) multiple_gap [OF pf(3,2)] by linarith
        then show ?thesis using True inside [OF x(1,2)] by (simp add: lookup_def e' h_def p_def [symmetric])
      next
        case lt: False
        obtain j where j: "k2 = Suc j" using wf(1) g1(2) g2(2) by (cases k2) auto
        have sl: "same_leaf k2 (x + c) f \<longleftrightarrow> (x + c) div 32 = f div 32"
          by (rule same_leaf_iff) (use y g2(1) pf lt in simp_all)
        note put = vget_put_tail [of j l2 f "li_tail e" "x + c", folded j]
        have "vget k2 l3 (x + c) = lookup e x"
        proof (cases "f \<le> x + c")
          case True
          then have d: "vget 0 (li_tail e) (x + c) = lookup e x" "f < p" using inside [OF x(1,2)] lt by auto
          have "lookup e x \<noteq> None" using assms(2) x by (simp add: no_gaps_def)
          then have "leaf_array (li_tail e) \<noteq> []" using d(1) by auto
          then have "has_entries (li_tail e)" "li_tail e \<noteq> None" by (cases "li_tail e"; simp add: has_entries_def)+
          moreover have "a < i" using y by simp
          moreover have "(x + c) div 32 = f div 32" using True i32 y by (intro leaf_window(1) [OF pf(3)]) simp_all
          ultimately show ?thesis using d put sl by (simp add: l3_def)
        next
          case False
          then have "vget k2 l2 (x + c) = lookup e x" using inside [OF x(1,2)] by auto
          moreover have "(x + c) div 32 \<noteq> f div 32" using False by (intro leaf_below [OF pf(3)]) simp
          ultimately show ?thesis using put sl by (simp add: l3_def)
        qed
        then show ?thesis using lt by (simp add: lookup_def e' p_def [symmetric])
      qed
      then show "lookup e' (x - (li_origin e + t) + li_origin e') = lookup e x" by (simp add: e' a_def algebra_simps)
    qed (simp add: e')
  qed
  then show ?thesis by (simp add: e'_def u_def a_def)
qed

subsection \<open>Writing one item\<close>

lemma put_in_range_item:
  assumes "wf_list e" "0 \<le> t" "t < li_size e"
  shows "wf_list (put_in_range e t v)" "li_size (put_in_range e t v) = li_size e"
    and "0 \<le> j \<Longrightarrow> j < li_size e \<Longrightarrow> item (put_in_range e t v) j = (if j = t then v else item e j)"
proof -
  define x where "x = t + li_origin e"
  define y where "y = j + li_origin e"
  note wf = assms(1) [unfolded wf_list_def]
  have x: "0 \<le> x" "x < li_cap e" using assms wf by (auto simp: x_def)
  have sh: "oshaped 0 (update_vnode 0 (li_tail e) x v)" "oshaped (li_level e) (update_vnode (li_level e) (li_root e) x v)"
    by (rule shaped_update; use wf in blast)+
  show "wf_list (put_in_range e t v)"
    using wf sh unfolding put_in_range_def Let_def x_def [symmetric] by (auto simp: wf_list_def)
  show "li_size (put_in_range e t v) = li_size e" using wf by (auto simp: put_in_range_def Let_def)
  assume "0 \<le> j" "j < li_size e"
  then have y: "0 \<le> y" "y < li_cap e" "j = t \<longleftrightarrow> y = x" using wf by (auto simp: y_def x_def)
  show "item (put_in_range e t v) j = (if j = t then v else item e j)"
  proof (cases "tail_offset (li_cap e) \<le> x")
    case True
    have "y mod 32 = x mod 32 \<longleftrightarrow> y = x" if "tail_offset (li_cap e) \<le> y"
      using that True x y tail_offset_facts(4) [of "li_cap e"] leaf_window(2) [OF tail_offset_facts(2) [of "li_cap e"]] by simp
    then show ?thesis using True y(3) unfolding item_def lookup_def put_in_range_def Let_def x_def [symmetric]
      by (auto simp: y_def [symmetric] vget_update simp del: vget.simps update_vnode.simps) 
  next
    case False
    have "y mod span (li_level e) = x mod span (li_level e) \<longleftrightarrow> y = x" if "\<not> tail_offset (li_cap e) \<le> y"
      using that False x y wf by (simp add: mod_pos_pos_trivial)
    then show ?thesis using False y(3) unfolding item_def lookup_def put_in_range_def Let_def x_def [symmetric]
      by (auto simp: y_def [symmetric] vget_update simp del: vget.simps update_vnode.simps)
  qed
qed

lemma put_all_items:
  assumes "wf_list e" "0 \<le> t" "t + int (length vs) \<le> li_size e"
  shows "wf_list (put_all e t vs) \<and> li_size (put_all e t vs) = li_size e \<and>
    (\<forall>j. 0 \<le> j \<and> j < li_size e \<longrightarrow> item (put_all e t vs) j =
      (if t \<le> j \<and> j < t + int (length vs) then vs ! nat (j - t) else item e j))"
  using assms
proof (induction e t vs rule: put_all.induct)
  case (2 e t v vs)
  then have t: "0 \<le> t" "t < li_size e" by simp_all
  have set: "list_set e t v = put_in_range e t v" using t by (simp add: list_set_def wrap_index_def Let_def)
  note put = put_in_range_item [OF 2(2) t, where v = v]
  have IH: "wf_list (put_all (list_set e t v) (t + 1) vs)" "li_size (put_all (list_set e t v) (t + 1) vs) = li_size e"
    "\<And>j. 0 \<le> j \<Longrightarrow> j < li_size e \<Longrightarrow> item (put_all (list_set e t v) (t + 1) vs) j =
      (if t + 1 \<le> j \<and> j < t + 1 + int (length vs) then vs ! nat (j - (t + 1)) else if j = t then v else item e j)"
    using 2(1) 2(4) t put unfolding set by auto
  have "nat (j - t) = Suc (nat (j - (t + 1)))" if "t + 1 \<le> j" for j using that by simp
  then show ?case using IH by auto
qed auto

subsection \<open>The list a tree stands for\<close>

lemma set_bounds_same:
  assumes "upper e n = li_cap e" shows "set_bounds e 0 n = e"
  unfolding set_bounds_def upper_def [symmetric] Let_def assms by (simp only: add_0_right simp_thms if_True)

lemma set_bounds_clear:
  assumes "t \<noteq> 0 \<or> upper e n \<noteq> li_cap e" "upper e n \<le> li_origin e + t"
  shows "set_bounds e t n = list_clear e"
proof -
  have ne: "\<not> (li_origin e + t = li_origin e \<and> upper e n = li_cap e)" using assms(1) by simp
  show ?thesis
    unfolding set_bounds_def upper_def [symmetric] Let_def if_not_P [OF ne] if_P [OF assms(2)] by (rule refl)
qed

definition represents :: "'a vlist \<Rightarrow> 'a list \<Rightarrow> bool" where
  "represents e xs \<longleftrightarrow> wf_list e \<and> li_size e = int (length xs) \<and> (\<forall>j < length xs. item e (int j) = Some (xs ! j))"

lemma represents_item: "represents e xs \<Longrightarrow> 0 \<le> j \<Longrightarrow> j < int (length xs) \<Longrightarrow> item e j = Some (xs ! nat j)"
  by (auto simp: represents_def dest!: spec [of _ "nat j"])

lemma represents_no_gaps:
  assumes "represents e xs" shows "no_gaps e"
  unfolding no_gaps_def
proof (intro allI impI)
  fix t assume t: "li_origin e \<le> t \<and> t < li_cap e"
  have "lookup e t = item e (t - li_origin e)" by (simp add: item_def)
  also have "\<dots> = Some (xs ! nat (t - li_origin e))"
    by (rule represents_item [OF assms]) (use assms t in \<open>auto simp: represents_def wf_list_def\<close>)
  finally show "lookup e t \<noteq> None" by simp
qed

lemma representsI:
  assumes "wf_list e" "li_size e = int (length xs)"
    and "\<And>j. 0 \<le> j \<Longrightarrow> j < int (length xs) \<Longrightarrow> item e j = Some (xs ! nat j)"
  shows "represents e xs"
  using assms by (simp add: represents_def)

lemma represents_empty: "represents empty_list []"
  by (simp add: represents_def)

lemma represents_clear: "represents e xs \<Longrightarrow> represents (list_clear e) []"
  by (auto simp: list_clear_def represents_def)

text \<open>Any cut of a represented list.\<close>

lemma represents_cut:
  assumes "represents e xs" "0 \<le> t" "u \<le> int (length xs)" "upper e n = li_origin e + u"
  shows "represents (set_bounds e t n) (take (nat (u - t)) (drop (nat t) xs))"
proof -
  have wf: "wf_list e" "li_size e = int (length xs)" "li_cap e = li_origin e + int (length xs)"
    using assms(1) by (auto simp: represents_def wf_list_def)
  consider (same) "t = 0" "u = int (length xs)" | (clear) "t \<noteq> 0 \<or> u \<noteq> int (length xs)" "u \<le> t"
    | (cut) "t \<noteq> 0 \<or> u \<noteq> int (length xs)" "t < u" by linarith
  then show ?thesis
  proof cases
    case same
    then have "set_bounds e t n = e" using assms(4) wf by (simp add: set_bounds_same)
    then show ?thesis using assms(1) same by simp
  next
    case clear
    then have "set_bounds e t n = list_clear e" using assms(4) wf by (intro set_bounds_clear) auto
    then show ?thesis using represents_clear [OF assms(1)] clear by simp
  next
    case cut
    have "resized e (set_bounds e t n) t (u - t)"
      using set_bounds_shrink [OF wf(1) represents_no_gaps [OF assms(1)] assms(2), of n] assms wf cut by auto
    then show ?thesis using assms(2,3) cut wf
      by (intro representsI) (auto simp: resized_def represents_item [OF assms(1)] nat_add_distrib min_def add.commute split: if_splits)
  qed
qed

text \<open>New room on either side, filled by the code at once.\<close>

lemma represents_grow:
  assumes "represents e xs" "t = - int l" "upper e n = li_origin e + int (length xs) + int m"
  shows "wf_list (set_bounds e t n) \<and> li_size (set_bounds e t n) = int (l + length xs + m) \<and>
    (\<forall>j. int l \<le> j \<and> j < int (l + length xs) \<longrightarrow> item (set_bounds e t n) j = Some (xs ! nat (j - int l)))"
proof -
  have wf: "wf_list e" "li_size e = int (length xs)" "li_cap e = li_origin e + int (length xs)"
    using assms(1) by (auto simp: represents_def wf_list_def)
  show ?thesis
  proof (cases "l = 0 \<and> m = 0")
    case True
    then have "set_bounds e t n = e" using assms wf by (simp add: set_bounds_same)
    then show ?thesis using assms(1) True represents_item [OF assms(1)] by (auto simp: represents_def)
  next
    case False
    have "resized e (set_bounds e t n) t (int (l + length xs + m))"
      using set_bounds_grow [OF wf(1) represents_no_gaps [OF assms(1)], of t n] assms wf False
      by (auto simp: algebra_simps)
    then show ?thesis using represents_item [OF assms(1)] assms(2) wf by (auto simp: resized_def)
  qed
qed

subsection \<open>The operations on what they stand for\<close>

lemma upper_nonneg: "0 \<le> n \<Longrightarrow> upper e (Some n) = li_origin e + n"
  by (simp add: upper_def)

lemma represents_cap: "represents e xs \<Longrightarrow> upper e None = li_origin e + int (length xs)" "represents e xs \<Longrightarrow> li_cap e = li_origin e + int (length xs)"
  by (auto simp: represents_def wf_list_def upper_def)

lemma represents_filled:
  assumes "wf_list e" "li_size e = int (length ys)" "0 \<le> t" "t + int (length vs) \<le> int (length ys)"
    and "take (length vs) (drop (nat t) ys) = vs"
    and "\<And>j. 0 \<le> j \<Longrightarrow> j < int (length ys) \<Longrightarrow> j < t \<or> t + int (length vs) \<le> j \<Longrightarrow> item e j = Some (ys ! nat j)"
  shows "represents (put_all e t (map Some vs)) ys"
proof -
  note put = put_all_items [OF assms(1,3), of "map Some vs"]
  have vs: "vs ! nat (j - t) = ys ! nat j" if "t \<le> j" "j < t + int (length vs)" for j
  proof -
    have "vs ! nat (j - t) = drop (nat t) ys ! nat (j - t)"
      using that by (subst assms(5) [symmetric]) (simp add: nat_less_iff)
    also have "\<dots> = ys ! (nat t + nat (j - t))" using assms(3,4) that by (intro nth_drop) simp
    also have "nat t + nat (j - t) = nat j" using that assms(3) by simp
    finally show ?thesis .
  qed
  show ?thesis
  proof (rule representsI)
    fix j assume j: "0 \<le> j" "j < int (length ys)"
    have "item (put_all e t (map Some vs)) j = (if t \<le> j \<and> j < t + int (length vs) then map Some vs ! nat (j - t) else item e j)"
      using put assms(2,4) j by simp
    then show "item (put_all e t (map Some vs)) j = Some (ys ! nat j)"
      using vs [of j] assms(6) [OF j] by (auto simp: nat_less_iff)
  qed (use put assms(2,4) in simp_all)
qed

lemma represents_push:
  assumes "represents e xs" shows "represents (list_push e (map Some vs)) (xs @ vs)"
proof -
  have sz: "li_size e = int (length xs)" using assms by (simp add: represents_def)
  let ?n = "Some (li_size e + int (length vs))"
  from represents_grow [OF assms, of 0 0 ?n "length vs"] sz
  have g: "wf_list (set_bounds e 0 ?n)" "li_size (set_bounds e 0 ?n) = int (length (xs @ vs))"
    "\<And>j. 0 \<le> j \<Longrightarrow> j < int (length xs) \<Longrightarrow> item (set_bounds e 0 ?n) j = Some (xs ! nat j)"
    by (simp_all add: upper_nonneg)
  show ?thesis unfolding list_push_def sz length_map
    by (rule represents_filled) (use g sz in \<open>auto simp: nth_append\<close>)
qed

lemma represents_unshift:
  assumes "represents e xs" shows "represents (list_unshift e (map Some vs)) (vs @ xs)"
proof -
  from represents_grow [OF assms refl, of None 0 "length vs"]
  have g: "wf_list (set_bounds e (- int (length vs)) None)" "li_size (set_bounds e (- int (length vs)) None) = int (length (vs @ xs))"
    "\<And>j. int (length vs) \<le> j \<Longrightarrow> j < int (length vs + length xs) \<Longrightarrow>
      item (set_bounds e (- int (length vs)) None) j = Some (xs ! nat (j - int (length vs)))"
    using represents_cap(1) [OF assms] by simp_all
  show ?thesis unfolding list_unshift_def length_map
    by (rule represents_filled) (use g in \<open>auto simp: nth_append nat_diff_distrib\<close>)
qed

lemma represents_pop:
  assumes "represents e xs" shows "represents (list_pop e) (butlast xs)"
proof -
  have "upper e (Some (- 1)) = li_origin e + (int (length xs) - 1)" using represents_cap(2) [OF assms] by (simp add: upper_def)
  moreover have "nat (int (length xs) - 1) = length xs - 1" by linarith
  ultimately show ?thesis using represents_cut [OF assms, of 0 "int (length xs) - 1" "Some (- 1)"]
    by (simp add: list_pop_def butlast_conv_take)
qed

lemma represents_shift:
  assumes "represents e xs" shows "represents (list_shift e) (tl xs)"
  using represents_cut [OF assms _ _ represents_cap(1) [OF assms], of 1]
  by (simp add: list_shift_def drop_Suc nat_diff_distrib)

lemma represents_from: "represents (list_from (map Some vs)) vs"
proof -
  consider (nil) "vs = []" | (short) "vs \<noteq> []" "length vs < 32" | (long) "32 \<le> length vs" by linarith
  then show ?thesis
  proof cases
    case nil
    then show ?thesis by (simp add: list_from_def represents_empty)
  next
    case short
    have d: "digit32 j 0 = nat j" if "0 \<le> j" "j < int (length vs)" for j
      using that short(2) by (simp add: digit32_def mod_pos_pos_trivial)
    show ?thesis
    proof (rule representsI)
      fix j assume j: "0 \<le> j" "j < int (length vs)"
      then show "item (list_from (map Some vs)) j = Some (vs ! nat j)"
        using short d [OF j] by (simp add: list_from_def item_def lookup_def Let_def tail_offset_def arr_get_in nat_less_iff)
    qed (use short in \<open>simp_all add: list_from_def wf_list_def Let_def tail_offset_def\<close>)
  next
    case long
    then have "list_from (map Some vs) = list_push empty_list (map Some vs)"
      by (auto simp: list_from_def list_push_def list_set_size_def Let_def)
    then show ?thesis using represents_push [OF represents_empty, of vs] by simp
  qed
qed

text \<open>What a slice of a plain list is in the language.\<close>

definition js_slice :: "'a list \<Rightarrow> int \<Rightarrow> int option \<Rightarrow> 'a list" where
  "js_slice xs b t =
     (let n = int (length xs); i = resolve_index (Some b) n 0; j = resolve_index t n n
      in take (nat (j - i)) (drop (nat i) xs))"

lemma represents_slice:
  assumes "represents e xs" shows "represents (list_slice e b t) (js_slice xs b t)"
proof -
  have sz: "li_size e = int (length xs)" using assms by (simp add: represents_def)
  have r: "0 \<le> resolve_index (Some b) (int n) 0" "0 \<le> resolve_index t (int n) (int n)" "resolve_index t (int n) (int n) \<le> int n" for n
    by (auto simp: resolve_index_def split: option.splits)
  show ?thesis
  proof (cases "whole_slice b t (int (length xs))")
    case True
    then have "js_slice xs b t = xs"
      by (cases xs) (auto simp: whole_slice_def js_slice_def resolve_index_def Let_def split: option.splits)
    then show ?thesis using True assms sz by (simp add: list_slice_def Let_def)
  next
    case False
    then show ?thesis
      unfolding list_slice_def js_slice_def Let_def sz
      by (simp only: if_False) (intro represents_cut [OF assms r(1,3)] upper_nonneg r(2))
  qed
qed

lemma represents_set:
  assumes "represents e xs" "- int (length xs) \<le> i" "i \<le> int (length xs)"
  shows "represents (list_set e i (Some v))
    (if i = int (length xs) then xs @ [v] else xs[nat (if i < 0 then int (length xs) + i else i) := v])"
proof -
  have sz: "li_size e = int (length xs)" "wf_list e" using assms(1) by (auto simp: represents_def)
  show ?thesis
  proof (cases "i = int (length xs)")
    case True
    let ?n = "Some (i + 1)"
    from represents_grow [OF assms(1), of 0 0 ?n 1] True
    have g: "wf_list (set_bounds e 0 ?n)" "li_size (set_bounds e 0 ?n) = int (length (xs @ [v]))"
      "\<And>j. 0 \<le> j \<Longrightarrow> j < int (length xs) \<Longrightarrow> item (set_bounds e 0 ?n) j = Some (xs ! nat j)"
      by (simp_all add: upper_nonneg)
    have "list_set e i (Some v) = put_in_range (set_bounds e 0 ?n) i (Some v)"
      using True sz by (simp add: list_set_def wrap_index_def Let_def)
    then show ?thesis using True g put_in_range_item [OF g(1), of i]
      by (auto intro!: representsI simp: nth_append nat_less_iff)
  next
    case False
    define t where "t = (if i < 0 then int (length xs) + i else i)"
    have t: "0 \<le> t" "t < li_size e" using False assms(2,3) sz by (auto simp: t_def)
    have set: "list_set e i (Some v) = put_in_range e t (Some v)"
      using t sz by (auto simp: list_set_def wrap_index_def t_def Let_def split: if_splits)
    have "represents (put_in_range e t (Some v)) (xs[nat t := v])"
    proof (rule representsI)
      fix j assume j: "0 \<le> j" "j < int (length (xs[nat t := v]))"
      then have "item (put_in_range e t (Some v)) j = (if j = t then Some v else Some (xs ! nat j))"
        using put_in_range_item(3) [OF sz(2) t] sz(1) represents_item [OF assms(1)] by simp
      then show "item (put_in_range e t (Some v)) j = Some (xs[nat t := v] ! nat j)"
        using j t sz(1) by (auto simp: nth_list_update nat_eq_iff nat_less_iff)
    qed (use put_in_range_item(1,2) [OF sz(2) t] sz(1) in simp_all)
    then show ?thesis using False by (simp add: set t_def)
  qed
qed

subsection \<open>Iteration\<close>

lemma map_shift_upt: "map (\<lambda>j. f (j + n)) [a..<b] = map f [a + n..<b + n]"
  by (induction b) (auto simp: le_less_Suc_eq less_Suc_eq_le)

lemma upt_joint: "x \<le> y \<Longrightarrow> y \<le> z \<Longrightarrow> [x..<y] @ [y..<z] = [x..<z]"
  by (metis le_Suc_ex upt_add_eq_append le_add1)

text \<open>Consecutive windows of width \<open>S\<close>, cut to the part from \<open>b\<close> up to \<open>r\<close>.\<close>

lemma windows_join:
  assumes "0 \<le> i" "0 < S"
  shows "concat (map (\<lambda>j. [nat (max (i + int j * S) b)..<nat (min r (i + int j * S + S))]) [l..<l + d])
    = [nat (max (i + int l * S) b)..<nat (min r (i + int (l + d) * S))]"
proof (induction d)
  case 0
  have "min r (i + int l * S) \<le> max (i + int l * S) b" by simp
  then show ?case by (simp add: nat_mono)
next
  case (Suc d)
  define x where "x = i + int l * S"
  define y where "y = i + int (l + d) * S"
  have xy: "0 \<le> x" "x \<le> y" using assms by (simp_all add: x_def y_def algebra_simps)
  have "[nat (max x b)..<nat (min r y)] @ [nat (max y b)..<nat (min r (y + S))] = [nat (max x b)..<nat (min r (y + S))]"
  proof (cases "b \<le> y \<and> y \<le> r")
    case True
    then have "nat (min r y) = nat (max y b)" by simp
    moreover have "nat (max x b) \<le> nat (max y b)" "nat (max y b) \<le> nat (min r (y + S))"
      using True xy assms(2) by (intro nat_mono; simp)+
    ultimately show ?thesis by (simp only: upt_joint)
  next
    case False
    consider "y < b" | "r < y" using False by linarith
    then show ?thesis
    proof cases
      case 1
      then have "nat (min r y) \<le> nat (max x b)" "max y b = b" "max x b = b" using xy by (auto intro!: nat_mono)
      then show ?thesis by simp
    next
      case 2
      then have "nat (min r (y + S)) \<le> nat (max y b)" "min r y = r" "min r (y + S) = r" using assms(2) by (auto intro!: nat_mono)
      then show ?thesis by simp
    qed
  qed
  moreover have eq: "i + int (l + Suc d) * S = y + S" by (simp add: y_def algebra_simps)
  ultimately show ?case unfolding eq using Suc by (simp add: x_def y_def)
qed

text \<open>The windows of the children an inner node visits are the window of the node.\<close>

lemma windows_cover:
  fixes S i b r :: int
  defines "l \<equiv> (if b < i then 0 else (b - i) div S)" and "c \<equiv> min 32 (1 + (r - i) div S)"
  assumes "0 \<le> i" "0 < S" "0 \<le> b"
  shows "concat (map (\<lambda>j. [nat (max (i + int j * S) b)..<nat (min r (i + int j * S + S))]) [nat l..<nat c])
    = [nat (max i b)..<nat (min r (i + 32 * S))]"
proof -
  define q w where "q = (b - i) div S" and "w = (r - i) div S"
  have q: "q * S \<le> b - i" "b - i < q * S + S" and w: "w * S \<le> r - i" "r - i < w * S + S"
    using div_mult_mod_eq [of "b - i" S] div_mult_mod_eq [of "r - i" S] pos_mod_bound [OF assms(4)] pos_mod_sign [OF assms(4)]
    unfolding q_def w_def by (smt (verit))+
  have l: "0 \<le> l" "l = (if b < i then 0 else q)" using assms(4) by (simp_all add: l_def q_def pos_imp_zdiv_nonneg_iff)
  have low: "max (i + l * S) b = max i b" using q(1) l by (auto simp: max_def)
  have stop: "n * S \<le> w * S" if "n \<le> w" for n using that assms(4) by (intro mult_right_mono) simp_all
  have high: "min r (i + c * S) = min r (i + 32 * S) \<or> r < i \<and> c \<le> 0"
  proof (cases "32 \<le> 1 + w")
    case True
    then show ?thesis by (simp add: c_def w_def)
  next
    case False
    then have c: "c = 1 + w" by (simp add: c_def w_def)
    have "w * S + S \<le> 32 * S" using False mult_right_mono [of "w + 1" 32 S] assms(4) by (simp add: distrib_right)
    moreover have "r - i < c * S" using w(2) c by (simp add: distrib_right)
    ultimately show ?thesis using w(2) by (auto simp: min_def c distrib_right)
  qed
  show ?thesis
  proof (cases "nat l \<le> nat c")
    case True
    then have "concat (map (\<lambda>j. [nat (max (i + int j * S) b)..<nat (min r (i + int j * S + S))]) [nat l..<nat c])
      = [nat (max (i + int (nat l) * S) b)..<nat (min r (i + int (nat c) * S))]"
      using windows_join [OF assms(3,4), of b r "nat l" "nat c - nat l"] by simp
    also have "\<dots> = [nat (max i b)..<nat (min r (i + 32 * S))]"
    proof (cases "0 \<le> c")
      case c: True
      then show ?thesis using low high l(1) assms(4) by auto
    next
      case False
      then have "c < 0" by simp
      then have "w + 1 \<le> 0" by (simp add: c_def w_def)
      then have "(w + 1) * S \<le> 0" using assms(4) by (simp add: mult_nonpos_nonneg)
      then have "r < i" using w(2) by (simp add: distrib_right)
      have "nat c = 0" "nat l = 0" using False True by auto
      moreover have "nat r \<le> nat (max i b)" using \<open>r < i\<close> by (intro nat_mono) simp
      moreover have "min r i = r" "min r (i + 32 * S) = r" using \<open>r < i\<close> assms(4) by simp_all
      ultimately show ?thesis by simp
    qed
    finally show ?thesis .
  next
    case False
    then have lt: "c < l" "0 < l" using l(1) by linarith+
    then have "l = q" "\<not> b < i" using l(2) by (auto split: if_splits)
    have "min r (i + 32 * S) \<le> b"
    proof -
      have "(c + 0) * S \<le> l * S" using lt assms(4) by (intro mult_right_mono) simp_all
      then have "i + c * S \<le> b" using q(1) \<open>l = q\<close> by simp
      then show ?thesis using high \<open>\<not> b < i\<close> by auto
    qed
    then have "nat (min r (i + 32 * S)) \<le> nat (max i b)" by (intro nat_mono) simp
    then show ?thesis using False by simp
  qed
qed

lemma window_digit:
  assumes "span (Suc k) dvd i" "i + int j * span k \<le> t" "t < i + int j * span k + span k" "j < 32"
  shows "digit32 t (5 * Suc k) = j"
proof -
  obtain m where i: "i = span (Suc k) * m" using assms(1) by (rule dvdE)
  define y where "y = t - (i + int j * span k)"
  have t: "t = y + span k * (32 * m + int j)" by (simp add: y_def i span_Suc algebra_simps)
  have "y div span k = 0" using assms(2,3) by (simp add: y_def div_pos_pos_trivial)
  then have "t div span k = 32 * m + int j" unfolding t by (subst div_mult_self2) simp_all
  then show ?thesis using assms(4) by (simp add: digit32_def span_power)
qed

lemma iter_node_values:
  assumes "span k dvd i" "0 \<le> i" "0 \<le> li_origin e"
  shows "iter_node e k n i =
    map (\<lambda>t. if tail_offset (li_cap e) \<le> int t then vget 0 (li_tail e) (int t) else vget k n (int t))
      [nat (max i (li_origin e))..<nat (min (li_cap e) (i + span k))]"
  using assms
proof (induction k arbitrary: n i)
  case 0
  define s where "s = (if li_origin e < i then 0 else li_origin e - i)"
  define l where "l = min 32 (li_cap e - i)"
  define u where "u = (if i = tail_offset (li_cap e) then leaf_array (li_tail e) else leaf_array n)"
  have i: "i = int (nat i)" "32 dvd i" using 0 by simp_all
  have b: "nat s + nat i = nat (max i (li_origin e))" using 0 by (simp add: s_def nat_add_distrib [symmetric])
  have e: "nat l + nat i = nat (min (li_cap e) (i + 32)) \<or> nat (min (li_cap e) (i + 32)) \<le> nat (max i (li_origin e)) \<and> nat l = 0"
    using 0 by (auto simp: l_def nat_add_distrib [symmetric] min_def max_def)
  have val: "arr_get u j = (if tail_offset (li_cap e) \<le> int (j + nat i) then vget 0 (li_tail e) (int (j + nat i)) else vget 0 n (int (j + nat i)))"
    if j: "j < nat l" for j
  proof -
    have t: "i \<le> int (j + nat i)" "int (j + nat i) < i + 32" "int (j + nat i) < li_cap e" using j i by (auto simp: l_def)
    have "digit32 (int (j + nat i)) 0 = j" using leaf_window(2) [OF i(2) t(1,2)] i(1) by (simp add: digit32_def)
    moreover have "i = tail_offset (li_cap e) \<longleftrightarrow> tail_offset (li_cap e) \<le> int (j + nat i)"
      by (rule same_start [OF i(2) tail_offset_facts(2) t tail_offset_facts(4)])
    ultimately show ?thesis by (simp add: u_def)
  qed
  have "iter_node e 0 n i = map (arr_get u) [nat s..<nat l]" by (simp add: s_def l_def u_def Let_def)
  also have "\<dots> = map (\<lambda>j. if tail_offset (li_cap e) \<le> int (j + nat i) then vget 0 (li_tail e) (int (j + nat i)) else vget 0 n (int (j + nat i)))
      [nat s..<nat l]"
    using val by (intro map_cong refl) simp
  also have "\<dots> = map (\<lambda>t. if tail_offset (li_cap e) \<le> int t then vget 0 (li_tail e) (int t) else vget 0 n (int t)) [nat s + nat i..<nat l + nat i]"
    by (rule map_shift_upt)
  finally show ?case using b e by auto
next
  case (Suc k)
  define S where "S = span k"
  define l where "l = (if li_origin e < i then 0 else (li_origin e - i) div S)"
  define c where "c = min 32 (1 + (li_cap e - i) div S)"
  define val where "val t = (if tail_offset (li_cap e) \<le> int t then vget 0 (li_tail e) (int t) else vget (Suc k) n (int t))" for t
  define win where "win j = [nat (max (i + int j * S) (li_origin e))..<nat (min (li_cap e) (i + int j * S + S))]" for j :: nat
  have S: "0 < S" "span (Suc k) = 32 * S" by (simp_all add: S_def span_Suc)
  have child: "iter_node e k (arr_get (inner_array n) j) (i + int j * S) = map val (win j)" if j: "j < 32" for j
  proof -
    have "iter_node e k (arr_get (inner_array n) j) (i + int j * S)
        = map (\<lambda>t. if tail_offset (li_cap e) \<le> int t then vget 0 (li_tail e) (int t) else vget k (arr_get (inner_array n) j) (int t)) (win j)"
      unfolding win_def S_def
      by (rule Suc.IH) (use Suc.prems dvd_trans [OF span_dvd(1) Suc.prems(1), of k] in simp_all)
    also have "\<dots> = map val (win j)"
    proof (intro map_cong refl)
      fix t assume "t \<in> set (win j)"
      then have "digit32 (int t) (5 * Suc k) = j"
        using Suc.prems S(1) by (intro window_digit [OF Suc.prems(1) _ _ j]) (auto simp: win_def S_def)
      then show "(if tail_offset (li_cap e) \<le> int t then vget 0 (li_tail e) (int t) else vget k (arr_get (inner_array n) j) (int t)) = val t"
        by (simp add: val_def del: mult_Suc_right)
    qed
    finally show ?thesis .
  qed
  have c32: "nat c \<le> 32" by (simp add: c_def)
  have "iter_node e (Suc k) n i = concat (map (\<lambda>j. map val (win j)) [nat l..<nat c])"
    using child c32 by (auto simp: Let_def span_power S_def [symmetric] l_def c_def intro!: arg_cong [of _ _ concat] map_cong simp del: mult_Suc_right)
  also have "\<dots> = map val (concat (map win [nat l..<nat c]))" by (simp add: map_concat comp_def)
  also have "concat (map win [nat l..<nat c]) = [nat (max i (li_origin e))..<nat (min (li_cap e) (i + span (Suc k)))]"
    using windows_cover [OF Suc.prems(2) S(1) Suc.prems(3), of "li_cap e"] unfolding win_def l_def c_def S(2) .
  finally show ?case unfolding val_def .
qed

lemma represents_values:
  assumes "represents e xs" shows "list_values e = map Some xs"
proof (rule nth_equalityI)
  have wf: "wf_list e" "li_size e = int (length xs)" using assms by (auto simp: represents_def)
  note w = wf(1) [unfolded wf_list_def]
  have "li_cap e \<le> span (li_level e)"
    using w tail_offset_facts(2,4) [of "li_cap e"] multiple_gap [OF tail_offset_facts(2) span_dvd(2)] by force
  then have v: "list_values e = map (\<lambda>t. if tail_offset (li_cap e) \<le> int t then vget 0 (li_tail e) (int t)
      else vget (li_level e) (li_root e) (int t)) [nat (li_origin e)..<nat (li_cap e)]"
    using iter_node_values [of "li_level e" 0 e "li_root e"] w by (simp add: list_values_def min_def max_def)
  have len: "nat (li_cap e) - nat (li_origin e) = length xs" using w wf(2) by linarith
  then show "length (list_values e) = length (map Some xs)" by (simp add: v)
  fix i assume i: "i < length (list_values e)"
  then have "list_values e ! i = lookup e (int (nat (li_origin e) + i))" by (simp add: v lookup_def)
  also have "\<dots> = item e (int i)" using w by (simp add: item_def add.commute)
  also have "\<dots> = Some (xs ! i)" using assms i len by (simp add: represents_def v)
  finally show "list_values e ! i = map Some xs ! i" using i len by (simp add: v)
qed

lemma represents_get:
  assumes "represents e xs"
  shows "list_get e i d = (if 0 \<le> i \<and> i < int (length xs) then Some (xs ! nat i)
    else if - int (length xs) \<le> i \<and> i < 0 then Some (xs ! nat (int (length xs) + i)) else d)"
proof -
  have wf: "wf_list e" "li_size e = int (length xs)" using assms by (auto simp: represents_def)
  have "list_get e i d = list_get e (int (length xs) + i) d" if "- int (length xs) \<le> i" "i < 0"
    using that wf(2) by (simp add: list_get_def wrap_index_def Let_def)
  moreover have "list_get e j d = Some (xs ! nat j)" if "0 \<le> j" "j < int (length xs)" for j
    using list_get_item [OF wf(1)] represents_item [OF assms] that wf(2) by simp
  moreover have "list_get e i d = d" if "i < - int (length xs) \<or> int (length xs) \<le> i"
    using that wf(2) by (auto simp: list_get_def wrap_index_def Let_def)
  ultimately show ?thesis by auto
qed

section \<open>The interface of a sequence\<close>

text \<open>
  What the users of a list rely on: a value stands for a plain list, reading agrees with it, and the
  operations at both ends act on it as they do on plain lists. (The ordered maps of the library keep
  their entries in such a list.)
\<close>

locale sequence =
  fixes rep :: "'s \<Rightarrow> 'a list \<Rightarrow> bool" and size_of :: "'s \<Rightarrow> int" and nth_of :: "'s \<Rightarrow> int \<Rightarrow> 'a option"
  assumes rep_size: "rep s xs \<Longrightarrow> size_of s = int (length xs)"
    and rep_nth: "rep s xs \<Longrightarrow> i < length xs \<Longrightarrow> nth_of s (int i) = Some (xs ! i)"
begin

lemma rep_unique:
  assumes "rep s xs" "rep s ys" shows "xs = ys"
proof (rule nth_equalityI)
  show "length xs = length ys" using rep_size [OF assms(1)] rep_size [OF assms(2)] by simp
  then show "xs ! i = ys ! i" if "i < length xs" for i
    using rep_nth [OF assms(1) that] rep_nth [OF assms(2), of i] that by simp
qed

lemma rep_empty_iff: "rep s xs \<Longrightarrow> size_of s = 0 \<longleftrightarrow> xs = []"
  by (simp add: rep_size)

end

locale deque = sequence +
  fixes push unshift :: "'s \<Rightarrow> 'a list \<Rightarrow> 's" and pop shift :: "'s \<Rightarrow> 's"
  assumes rep_push: "rep s xs \<Longrightarrow> rep (push s vs) (xs @ vs)"
    and rep_unshift: "rep s xs \<Longrightarrow> rep (unshift s vs) (vs @ xs)"
    and rep_pop: "rep s xs \<Longrightarrow> rep (pop s) (butlast xs)"
    and rep_shift: "rep s xs \<Longrightarrow> rep (shift s) (tl xs)"
begin

lemma pop_push: "rep s xs \<Longrightarrow> rep (pop (push s [v])) xs"
  using rep_pop [OF rep_push [of s xs "[v]"]] by simp

lemma shift_unshift: "rep s xs \<Longrightarrow> rep (shift (unshift s [v])) xs"
  using rep_shift [OF rep_unshift [of s xs "[v]"]] by simp

text \<open>A queue gives back what was pushed first.\<close>

lemma shift_all:
  assumes "rep s (us @ xs)" shows "rep ((shift ^^ length us) s) xs"
  using assms
proof (induction us arbitrary: s)
  case (Cons u us)
  from rep_shift [OF Cons.prems] have "rep (shift s) (us @ xs)" by simp
  from Cons.IH [OF this] show ?case by (simp add: funpow_swap1)
qed simp

lemma pop_all:
  assumes "rep s (xs @ us)" shows "rep ((pop ^^ length us) s) xs"
  using assms
proof (induction us arbitrary: s rule: rev_induct)
  case (snoc u us)
  have "butlast (xs @ us @ [u]) = xs @ us" by (simp add: butlast_append)
  with rep_pop [OF snoc.prems] have "rep (pop s) (xs @ us)" by simp
  from snoc.IH [OF this] show ?case by (simp add: funpow_swap1)
qed simp

end

interpretation ilist: deque represents li_size "\<lambda>e i. list_get e i None"
  "\<lambda>e vs. list_push e (map Some vs)" "\<lambda>e vs. list_unshift e (map Some vs)" list_pop list_shift
  by unfold_locales
    (auto simp: represents_get represents_push represents_unshift represents_pop represents_shift, simp add: represents_def)

section \<open>Programs on a list\<close>

text \<open>
  A sequence of operations, and the plain list it describes. Writing beyond the end leaves undefined
  positions; such a program describes no plain list (\<open>None\<close>).
\<close>

datatype 'a list_op = Push "'a list" | Pop | Unshift "'a list" | Shift | SetAt int 'a | Slice int "int option" | Clear

fun run_op :: "'a list_op \<Rightarrow> 'a vlist \<Rightarrow> 'a vlist" where
  "run_op (Push vs) e = list_push e (map Some vs)"
| "run_op Pop e = list_pop e"
| "run_op (Unshift vs) e = list_unshift e (map Some vs)"
| "run_op Shift e = list_shift e"
| "run_op (SetAt i v) e = list_set e i (Some v)"
| "run_op (Slice b t) e = list_slice e b t"
| "run_op Clear e = list_clear e"

fun plain_op :: "'a list_op \<Rightarrow> 'a list \<Rightarrow> 'a list option" where
  "plain_op (Push vs) xs = Some (xs @ vs)"
| "plain_op Pop xs = Some (butlast xs)"
| "plain_op (Unshift vs) xs = Some (vs @ xs)"
| "plain_op Shift xs = Some (tl xs)"
| "plain_op (SetAt i v) xs =
     (if i < - int (length xs) \<or> int (length xs) < i then None
      else if i = int (length xs) then Some (xs @ [v])
      else Some (xs[nat (if i < 0 then int (length xs) + i else i) := v]))"
| "plain_op (Slice b t) xs = Some (js_slice xs b t)"
| "plain_op Clear xs = Some []"

fun run_ops :: "'a list_op list \<Rightarrow> 'a vlist \<Rightarrow> 'a vlist" where
  "run_ops [] e = e"
| "run_ops (p # ps) e = run_ops ps (run_op p e)"

fun plain_ops :: "'a list_op list \<Rightarrow> 'a list \<Rightarrow> 'a list option" where
  "plain_ops [] xs = Some xs"
| "plain_ops (p # ps) xs = (case plain_op p xs of None \<Rightarrow> None | Some ys \<Rightarrow> plain_ops ps ys)"

lemma represents_op: "represents e xs \<Longrightarrow> plain_op p xs = Some ys \<Longrightarrow> represents (run_op p e) ys"
proof (cases p)
  case (SetAt i v)
  assume "represents e xs" "plain_op p xs = Some ys"
  then show ?thesis using represents_set [of e xs i v] SetAt by (auto split: if_splits)
qed (auto simp: ilist.rep_push ilist.rep_unshift ilist.rep_pop ilist.rep_shift represents_slice represents_clear)

lemma represents_ops: "represents e xs \<Longrightarrow> plain_ops ps xs = Some ys \<Longrightarrow> represents (run_ops ps e) ys"
  by (induction ps arbitrary: e xs) (auto split: option.splits dest: represents_op)

text \<open>
  The test at the start of \<open>removeAfter\<close> compares the index with \<open>1 << level\<close>, one level too low, and
  the one of \<open>removeBefore\<close> with the level itself: at these indices nothing is cut off, and the old
  items come back when the list grows again.
\<close>

lemma set_size_revives:
  "list_get (list_set_size (list_set_size (list_push empty_list (map Some [0..<100])) 40) 100) 70 None = Some (70 :: nat)"
  by code_simp

lemma negative_set_revives:
  "list_get (list_set (list_slice (list_push empty_list (map Some [0..<70])) 5 None) (- 69) (Some 99)) 1 None = Some (2 :: nat)"
  by code_simp

section \<open>Properties\<close>

text \<open>
  Property C21. Start from the list of any values and apply any sequence of push, pop, unshift, shift,
  set, slice and clear that leaves no undefined position: the trie has the size of the plain list the
  sequence describes, and \<open>get\<close> reads at every index, negative and out of range ones included, what the
  plain list has there.
\<close>

theorem list_refines_plain_list:
  "case plain_ops ps vs of None \<Rightarrow> True
   | Some xs \<Rightarrow>
       let e = run_ops ps (list_from (map Some vs)); n = int (length xs)
       in li_size e = n
        \<and> list_get e i d = (if 0 \<le> i \<and> i < n then Some (xs ! nat i)
            else if - n \<le> i \<and> i < 0 then Some (xs ! nat (n + i)) else d)"
proof (cases "plain_ops ps vs")
  case (Some xs)
  from represents_ops [OF represents_from this] have "represents (run_ops ps (list_from (map Some vs))) xs" .
  then show ?thesis by (simp add: Some Let_def represents_get ilist.rep_size)
qed simp

text \<open>
  Property C22. Iterating over a list built that way yields exactly the items of the plain list in
  order: the iterator visits the nodes between both bounds and takes the tail for the last leaf.
\<close>

theorem list_iterates_in_order:
  "case plain_ops ps vs of None \<Rightarrow> True
   | Some xs \<Rightarrow> list_values (run_ops ps (list_from (map Some vs))) = map Some xs"
  using represents_values [OF represents_ops [OF represents_from]] by (auto split: option.splits)

end
