(* ===== verification/JsonPatch.thy ===== *)
theory JsonPatch
  imports Entities
begin

section \<open>JSON documents and patches (swagger-ui-bundle.js, fast-json-patch)\<close>

text \<open>
  The patches with which the Swagger client changes its copy of the API description. A document is a
  tree; numbers are whole ones, and an object keeps its keys in insertion order. The code changes
  documents in place: no value is in two places here, since the client makes copies of the values
  it puts into a patch, and so a new tree stands for the changed one.
\<close>

datatype json = JNull | JBool bool | JNum int | JStr jsstr | JArr "json list" | JObj "(jsstr \<times> json) list"

text \<open>
  What can go wrong: a property of \<open>null\<close> or \<open>undefined\<close> is used (a \<open>TypeError\<close>), a test fails, or the
  operation leaves the documents: it reads or writes a property that no JSON value has (inherited
  names, properties of strings and of array objects, holes, cycles).
\<close>

datatype patch_error = NoProperty | TestFailed | Outside

datatype op_kind = OAdd json | ORemove | OReplace json | OMove jsstr | OCopy jsstr | OTest json | OGet

record json_op =
  jo_path :: jsstr
  jo_kind :: op_kind

subsection \<open>Paths\<close>

definition escape_component :: "jsstr \<Rightarrow> jsstr" where
  "escape_component e = concat (map (\<lambda>c. if c = 126 then [126, 48] else if c = 47 then [126, 49] else [c]) e)"

text \<open>\<open>replace(/~1/g, "/").replace(/~0/g, "~")\<close>\<close>

fun replace_pair :: "unit16 \<Rightarrow> unit16 \<Rightarrow> jsstr \<Rightarrow> jsstr" where
  "replace_pair d c (a # b # s) = (if a = 126 \<and> b = d then c # replace_pair d c s else a # replace_pair d c (b # s))"
| "replace_pair d c s = s"

definition unescape_component :: "jsstr \<Rightarrow> jsstr" where
  "unescape_component e = replace_pair 48 126 (replace_pair 49 47 e)"

text \<open>
  The index a component means in an array of length \<open>n\<close>: \<open>isInteger\<close> has no objection to the empty
  component, and \<open>~~\<close> makes it 0. Numbers from \<open>2 ^ 31\<close> on are outside.
\<close>

definition is_integer :: "jsstr \<Rightarrow> bool" where
  "is_integer e = list_all is_digit e"

definition array_index :: "jsstr \<Rightarrow> nat \<Rightarrow> nat option" where
  "array_index g n =
     (if g = [45] then Some n
      else if is_integer g then let i = fold (\<lambda>d n. n * 10 + (unat d - 48)) g 0 in if int i < 2147483648 then Some i else None
      else None)"

subsection \<open>Properties\<close>

text \<open>The names every object inherits.\<close>

definition inherited :: "jsstr \<Rightarrow> bool" where
  "inherited k \<longleftrightarrow> k \<in> set (map js [''constructor'', ''__defineGetter__'', ''__defineSetter__'', ''hasOwnProperty'',
     ''__lookupGetter__'', ''__lookupSetter__'', ''isPrototypeOf'', ''propertyIsEnumerable'', ''toString'', ''valueOf'',
     ''__proto__'', ''toLocaleString''])"

fun json_prop :: "json \<Rightarrow> jsstr \<Rightarrow> patch_error + json option" where
  "json_prop JNull g = Inl NoProperty"
| "json_prop (JArr xs) g =
     (case array_index g (length xs) of
        None \<Rightarrow> Inl Outside | Some i \<Rightarrow> Inr (if i < length xs then Some (xs ! i) else None))"
| "json_prop (JObj kvs) g =
     (let k = unescape_component g
      in case map_of kvs k of Some v \<Rightarrow> Inr (Some v) | None \<Rightarrow> if inherited k then Inl Outside else Inr None)"
| "json_prop v g = Inl Outside"

fun set_key :: "jsstr \<Rightarrow> json \<Rightarrow> (jsstr \<times> json) list \<Rightarrow> (jsstr \<times> json) list" where
  "set_key k v [] = [(k, v)]"
| "set_key k v ((k', v') # r) = (if k' = k then (k, v) # r else (k', v') # set_key k v r)"

fun put_prop :: "json \<Rightarrow> jsstr \<Rightarrow> json \<Rightarrow> json" where
  "put_prop (JArr xs) g w = (case array_index g (length xs) of None \<Rightarrow> JArr xs | Some i \<Rightarrow> JArr (xs[i := w]))"
| "put_prop (JObj kvs) g w = JObj (set_key (unescape_component g) w kvs)"
| "put_prop v g w = v"

subsection \<open>Equality of the test operation\<close>

definition entries :: "json \<Rightarrow> (jsstr \<times> json) list" where
  "entries v = (case v of JArr xs \<Rightarrow> zip (map decimal [0..<length xs]) xs | JObj kvs \<Rightarrow> kvs | _ \<Rightarrow> [])"

definition own :: "json \<Rightarrow> jsstr \<Rightarrow> json option" where
  "own v p =
     (case v of JArr xs \<Rightarrow> if p = js ''length'' then Some (JNum (int (length xs))) else map_of (entries v) p
              | _ \<Rightarrow> map_of (entries v) p)"

definition compound :: "json \<Rightarrow> bool" where
  "compound v \<longleftrightarrow> (case v of JArr xs \<Rightarrow> True | JObj kvs \<Rightarrow> True | _ \<Rightarrow> False)"

lemma entries_size: "(p, l) \<in> set (entries e) \<Longrightarrow> size l < size e"
proof (cases e)
  case (JArr xs)
  assume "(p, l) \<in> set (entries e)"
  then have "l \<in> set xs" by (auto simp: entries_def JArr dest: set_zip_rightD)
  then show ?thesis unfolding JArr by (induction xs) auto
next
  case (JObj kvs)
  assume "(p, l) \<in> set (entries e)"
  then have "(p, l) \<in> set kvs" by (simp add: entries_def JObj)
  then show ?thesis unfolding JObj by (induction kvs) auto
qed (simp_all add: entries_def)

definition same_prototype :: "json \<Rightarrow> json \<Rightarrow> bool" where
  "same_prototype e t =
     (case (own e (js ''prototype''), own t (js ''prototype'')) of
        (None, None) \<Rightarrow> True | (Some a, Some b) \<Rightarrow> \<not> compound a \<and> a = b | _ \<Rightarrow> False)"

text \<open>Two objects under the key \<open>prototype\<close> are compared as references, and so they are different.\<close>

function deep_equal :: "json \<Rightarrow> json \<Rightarrow> bool" where
  "deep_equal e t =
     (if compound e \<and> compound t then
        same_prototype e t \<and> length (entries e) = length (entries t) \<and> set (map fst (entries e)) = set (map fst (entries t))
        \<and> list_all (\<lambda>(k, v). case own t k of Some w \<Rightarrow> deep_equal v w | None \<Rightarrow> False) (entries e)
      else e = t)"
  by pat_completeness auto
termination by (relation "measure (\<lambda>(e, t). size e)") (auto dest: entries_size)

declare deep_equal.simps [simp del]

subsection \<open>Operations\<close>

fun leaf_op :: "op_kind \<Rightarrow> json \<Rightarrow> jsstr \<Rightarrow> patch_error + json \<times> json option" where
  "leaf_op k JNull g = Inl NoProperty"
| "leaf_op k (JArr xs) g =
     (case array_index g (length xs) of
        None \<Rightarrow> Inl Outside
      | Some i \<Rightarrow>
          let x = (if i < length xs then Some (xs ! i) else None)
          in case k of
              OAdd v \<Rightarrow> Inr (JArr (take i xs @ v # drop i xs), None)
            | ORemove \<Rightarrow> Inr (JArr (take i xs @ drop (i + 1) xs), x)
            | OReplace v \<Rightarrow> if length xs < i then Inl Outside else Inr (JArr (take i xs @ v # drop (i + 1) xs), x)
            | OTest v \<Rightarrow> (case x of Some y \<Rightarrow> if deep_equal y v then Inr (JArr xs, None) else Inl TestFailed | None \<Rightarrow> Inl TestFailed)
            | _ \<Rightarrow> Inr (JArr xs, x))"
| "leaf_op k (JObj kvs) g =
     (let p = unescape_component g; x = map_of kvs p
      in case k of
          OAdd v \<Rightarrow> if x = None \<and> p = js ''__proto__'' then Inl Outside else Inr (JObj (set_key p v kvs), None)
        | ORemove \<Rightarrow> if x = None \<and> inherited p then Inl Outside else Inr (JObj (filter (\<lambda>(k, v). k \<noteq> p) kvs), x)
        | OReplace v \<Rightarrow> if x = None \<and> inherited p then Inl Outside else Inr (JObj (set_key p v kvs), x)
        | OTest v \<Rightarrow>
            (case x of Some y \<Rightarrow> if deep_equal y v then Inr (JObj kvs, None) else Inl TestFailed
                     | None \<Rightarrow> if inherited p then Inl Outside else Inl TestFailed)
        | _ \<Rightarrow> if x = None \<and> inherited p then Inl Outside else Inr (JObj kvs, x))"
| "leaf_op k v g = Inl Outside"

text \<open>The walk along the components to the last one.\<close>

fun walk_path :: "(json \<Rightarrow> jsstr \<Rightarrow> patch_error + json \<times> json option) \<Rightarrow> json \<Rightarrow> jsstr list \<Rightarrow> patch_error + json \<times> json option" where
  "walk_path f v [] = Inl Outside"
| "walk_path f v [g] = f v g"
| "walk_path f v (g # h # gs) =
     andthen (json_prop v g) (\<lambda>x.
       case x of
         None \<Rightarrow> Inl NoProperty
       | Some w \<Rightarrow> andthen (walk_path f w (h # gs)) (\<lambda>(w, r). Inr (put_prop v g w, r)))"

definition components :: "jsstr \<Rightarrow> jsstr list" where
  "components path = tl (js_split 47 path)"

text \<open>An operation that needs no other path; the result is the new document and the value removed or read.\<close>

definition apply_simple :: "op_kind \<Rightarrow> jsstr \<Rightarrow> json \<Rightarrow> patch_error + json \<times> json option" where
  "apply_simple k path e =
     (if path = [] then
        (case k of
           OAdd v \<Rightarrow> Inr (v, None)
         | OReplace v \<Rightarrow> Inr (v, Some e)
         | OTest v \<Rightarrow> if deep_equal e v then Inr (e, None) else Inl TestFailed
         | ORemove \<Rightarrow> Inr (JNull, Some e)
         | _ \<Rightarrow> Inr (e, Some e))
      else walk_path (leaf_op k) e (components path))"

definition value_at :: "json \<Rightarrow> jsstr \<Rightarrow> patch_error + json option" where
  "value_at e path = andthen (apply_simple OGet path e) (\<lambda>(d, x). Inr x)"

definition reach :: "json \<Rightarrow> jsstr \<Rightarrow> patch_error + unit" where
  "reach e path = andthen (walk_path (\<lambda>v g. Inr (v, None)) e (components path)) (\<lambda>x. Inr ())"

text \<open>
  Moving the document into itself makes a cycle; moving what is not there stores \<open>undefined\<close>, of which
  a copy is \<open>null\<close>.
\<close>

definition apply_op :: "json_op \<Rightarrow> json \<Rightarrow> patch_error + json \<times> json option" where
  "apply_op op e =
     (let path = jo_path op
      in case jo_kind op of
          OMove from \<Rightarrow>
            if path = [] then andthen (value_at e from) (\<lambda>x. case x of None \<Rightarrow> Inl Outside | Some v \<Rightarrow> Inr (v, Some e))
            else andthen (reach e path) (\<lambda>_. andthen (value_at e path) (\<lambda>r.
              if from = [] then Inl Outside
              else andthen (apply_simple ORemove from e) (\<lambda>(e, x).
                case x of
                  None \<Rightarrow> andthen (reach e path) (\<lambda>_. Inl Outside)
                | Some v \<Rightarrow> andthen (apply_simple (OAdd v) path e) (\<lambda>(e, _). Inr (e, r)))))
        | OCopy from \<Rightarrow>
            if path = [] then andthen (value_at e from) (\<lambda>x. case x of None \<Rightarrow> Inl Outside | Some v \<Rightarrow> Inr (v, None))
            else andthen (reach e path) (\<lambda>_. andthen (value_at e from) (\<lambda>x.
              apply_simple (OAdd (case x of None \<Rightarrow> JNull | Some v \<Rightarrow> v)) path e))
        | k \<Rightarrow> apply_simple k path e)"

fun apply_patch :: "json_op list \<Rightarrow> json \<Rightarrow> patch_error + json" where
  "apply_patch [] e = Inr e"
| "apply_patch (op # ops) e = andthen (apply_op op e) (\<lambda>(e, _). apply_patch ops e)"

subsection \<open>Comparing documents\<close>

text \<open>
  The keys of the old value from the last to the first, and then the keys of the new value that are
  missing in the old one.
\<close>

function compare_at :: "jsstr \<Rightarrow> json \<Rightarrow> json \<Rightarrow> json_op list" where
  "compare_at o' e t =
     (let a = entries e; i = entries t; gone = list_ex (\<lambda>(p, l). own t p = None) a
      in concat (map (\<lambda>(p, l). let q = o' @ 47 # escape_component p in case own t p of
             None \<Rightarrow> [\<lparr>jo_path = q, jo_kind = ORemove\<rparr>]
           | Some c \<Rightarrow> if compound l \<and> compound c then compare_at q l c
               else if l \<noteq> c then [\<lparr>jo_path = q, jo_kind = OReplace c\<rparr>] else []) (rev a))
         @ (if gone \<or> length i \<noteq> length a
            then map (\<lambda>(p, c). \<lparr>jo_path = o' @ 47 # escape_component p, jo_kind = OAdd c\<rparr>)
                   (filter (\<lambda>(p, c). own e p = None) i)
            else []))"
  by pat_completeness auto
termination by (relation "measure (\<lambda>(o', e, t). size e)") (auto dest: entries_size)

declare compare_at.simps [simp del]

text \<open>
  Two values at the top that are no objects are compared as such; the keys of \<open>null\<close> are a \<open>TypeError\<close>,
  and the characters of a string as its keys are outside.
\<close>

definition compare_json :: "json \<Rightarrow> json \<Rightarrow> patch_error + json_op list" where
  "compare_json e t =
     (if compound e \<and> compound t then Inr (compare_at [] e t)
      else if e = t then Inr []
      else if e = JNull \<or> t = JNull then Inl NoProperty
      else Inl Outside)"

end
