(* ===== verification/JsonPatches.thy ===== *)
theory JsonPatches
  imports JsonPatch
begin

section \<open>Comparing and patching are inverse (swagger-ui-bundle.js, fast-json-patch)\<close>

text \<open>
  The patch that \<open>compare\<close> makes of two documents takes the first to the second. The proof follows a
  patch into the tree: a patch whose paths have a common first component acts on one child.
\<close>

subsection \<open>Documents that are alike\<close>

definition is_arr :: "json \<Rightarrow> bool" where
  "is_arr v \<longleftrightarrow> (case v of JArr xs \<Rightarrow> True | _ \<Rightarrow> False)"

text \<open>Keys are unique, no key is \<open>__proto__\<close>, and array indices are below \<open>2 ^ 31\<close>.\<close>

definition shape_ok :: "json \<Rightarrow> bool" where
  "shape_ok v \<longleftrightarrow>
     (case v of JArr xs \<Rightarrow> int (length xs) < 2147483648
              | JObj kvs \<Rightarrow> distinct (map fst kvs) \<and> js ''__proto__'' \<notin> set (map fst kvs) | _ \<Rightarrow> True)"

function wf_json :: "json \<Rightarrow> bool" where
  "wf_json v \<longleftrightarrow> (if shape_ok v then list_all (\<lambda>(k, x). wf_json x) (entries v) else False)"
  by pat_completeness auto
termination by (relation "measure size") (auto dest: entries_size)

declare wf_json.simps [simp del]

text \<open>At no place does one document have an array and the other an object.\<close>

function alike :: "json \<Rightarrow> json \<Rightarrow> bool" where
  "alike e t \<longleftrightarrow>
     (if compound e \<and> compound t then
        is_arr e = is_arr t \<and> list_all (\<lambda>(k, l). case own t k of Some c \<Rightarrow> alike l c | None \<Rightarrow> True) (entries e)
      else True)"
  by pat_completeness auto
termination by (relation "measure (\<lambda>(e, t). size e)") (auto dest: entries_size)

declare alike.simps [simp del]

text \<open>Equality up to the order of keys.\<close>

function same_json :: "json \<Rightarrow> json \<Rightarrow> bool" where
  "same_json e t \<longleftrightarrow>
     (if compound e \<and> compound t then
        is_arr e = is_arr t \<and> set (map fst (entries e)) = set (map fst (entries t))
        \<and> list_all (\<lambda>(k, v). case map_of (entries t) k of Some w \<Rightarrow> same_json v w | None \<Rightarrow> False) (entries e)
      else e = t)"
  by pat_completeness auto
termination by (relation "measure (\<lambda>(e, t). size e)") (auto dest: entries_size)

declare same_json.simps [simp del]

subsection \<open>Components\<close>

lemma decimal_inject: "decimal i = decimal j \<longleftrightarrow> i = j"
  using decimal_value by metis

lemma digit_range: "is_digit c \<Longrightarrow> c \<noteq> 126 \<and> c \<noteq> 47 \<and> c \<noteq> 45 \<and> c \<noteq> 108"
  by (auto simp: is_digit_def)

lemma decimal_no: "c \<in> set (decimal i) \<Longrightarrow> is_digit c"
  using decimal_digits [of i] by (auto simp: list_all_iff)

lemma array_index_decimal [simp]: "i < 2147483648 \<Longrightarrow> array_index (decimal i) n = Some i"
  using decimal_no [of 45 i] decimal_digits [of i] decimal_value [of i]
  by (auto simp: array_index_def is_integer_def is_digit_def)

lemma escape_decimal [simp]: "escape_component (decimal i) = decimal i"
proof -
  have "concat (map (\<lambda>c. if c = 126 then [126, 48] else if c = 47 then [126, 49] else [c]) s) = s"
    if "\<forall>c\<in>set s. is_digit c" for s :: jsstr
    using that digit_range by (induction s) auto
  then show ?thesis using decimal_no by (simp add: escape_component_def)
qed

lemma replace_pair_other: "x \<noteq> 126 \<Longrightarrow> replace_pair d c (x # s) = x # replace_pair d c s"
  by (cases s) simp_all

lemma unescape_escape [simp]: "unescape_component (escape_component k) = k"
proof -
  have one: "replace_pair 49 47 (escape_component k) = concat (map (\<lambda>c. if c = 126 then [126, 48] else [c]) k)" for k
    by (induction k) (auto simp: escape_component_def replace_pair_other)
  have two: "replace_pair 48 126 (concat (map (\<lambda>c. if c = 126 then [126, 48] else [c]) k)) = k" for k
    by (induction k) (auto simp: replace_pair_other)
  show ?thesis by (simp add: unescape_component_def one two)
qed

lemma escape_no_slash: "47 \<notin> set (escape_component k)"
  by (auto simp: escape_component_def)

lemma split_slash: "js_split 47 (47 # s) = [] # js_split 47 s"
  by (simp add: Let_def)

lemma components_last: "components (47 # escape_component k) = [escape_component k]"
  by (simp add: components_def split_slash js_split_no [OF escape_no_slash])

lemma components_more: "components (47 # escape_component k @ 47 # s) = escape_component k # components (47 # s)"
  by (simp add: components_def split_slash js_split_append [OF escape_no_slash])

lemma components_nonempty: "components (47 # s) \<noteq> []"
  by (simp add: components_def split_slash js_split_nonempty)

subsection \<open>Children\<close>

text \<open>A component that names a child.\<close>

definition child :: "json \<Rightarrow> jsstr \<Rightarrow> json \<Rightarrow> bool" where
  "child v g w \<longleftrightarrow> json_prop v g = Inr (Some w)"

lemma map_of_set_key: "map_of (set_key k w kvs) = (map_of kvs)(k \<mapsto> w)"
  by (induction k w kvs rule: set_key.induct) auto

lemma keys_set_key: "set (map fst (set_key k w kvs)) = insert k (set (map fst kvs))"
  by (induction k w kvs rule: set_key.induct) auto

lemma distinct_set_key: "distinct (map fst kvs) \<Longrightarrow> distinct (map fst (set_key k w kvs))"
  using keys_set_key by (induction k w kvs rule: set_key.induct) (auto simp del: set_map)

lemma set_key_twice: "set_key k w (set_key k x kvs) = set_key k w kvs"
  by (induction k x kvs rule: set_key.induct) auto

lemma set_key_same: "map_of kvs k = Some w \<Longrightarrow> set_key k w kvs = kvs"
  by (induction kvs) (auto split: if_splits)

lemma child_put:
  assumes "child v g x"
  shows "child (put_prop v g w) g w" "put_prop (put_prop v g w) g y = put_prop v g y" "put_prop v g x = v"
  using assms
  by (cases v; auto simp: child_def Let_def map_of_set_key set_key_twice set_key_same split: option.splits if_splits)+

subsection \<open>Patches under a common component\<close>

definition prefix_op :: "jsstr \<Rightarrow> json_op \<Rightarrow> json_op" where
  "prefix_op q op = op\<lparr>jo_path := q @ jo_path op\<rparr>"

text \<open>The operations that a comparison makes.\<close>

definition patch_plain :: "json_op \<Rightarrow> bool" where
  "patch_plain op \<longleftrightarrow> (case jo_kind op of OAdd v \<Rightarrow> True | ORemove \<Rightarrow> True | OReplace v \<Rightarrow> True | _ \<Rightarrow> False)
     \<and> jo_path op \<noteq> [] \<and> hd (jo_path op) = 47"

lemma plain_apply: "patch_plain op \<Longrightarrow> apply_op op v = walk_path (leaf_op (jo_kind op)) v (components (jo_path op))"
  by (auto simp: patch_plain_def apply_op_def apply_simple_def split: op_kind.splits)

lemma prefix_plain: "patch_plain op \<Longrightarrow> patch_plain (prefix_op (47 # escape_component k) op)"
  by (simp add: patch_plain_def prefix_op_def)

lemma apply_prefix:
  assumes "patch_plain op" "child v (escape_component k) w" "apply_op op w = Inr (w', r)"
  shows "apply_op (prefix_op (47 # escape_component k) op) v = Inr (put_prop v (escape_component k) w', r)"
proof -
  obtain s where s: "jo_path op = 47 # s" using assms(1) by (cases "jo_path op") (auto simp: patch_plain_def)
  have w: "walk_path (leaf_op (jo_kind op)) w (components (47 # s)) = Inr (w', r)"
    using assms(3) plain_apply [OF assms(1)] by (simp add: s)
  obtain h gs where h: "components (47 # s) = h # gs" using components_nonempty by (cases "components (47 # s)") auto
  have "apply_op (prefix_op (47 # escape_component k) op) v
      = walk_path (leaf_op (jo_kind op)) v (escape_component k # components (47 # s))"
    using plain_apply [OF prefix_plain [OF assms(1)]] by (simp add: prefix_op_def s components_more)
  then show ?thesis using w assms(2) by (simp add: h child_def)
qed

lemma patch_prefix:
  assumes "list_all patch_plain ops" "child v (escape_component k) w" "apply_patch ops w = Inr w'"
  shows "apply_patch (map (prefix_op (47 # escape_component k)) ops) v = Inr (put_prop v (escape_component k) w')"
  using assms
proof (induction ops arbitrary: v w)
  case Nil
  then show ?case using child_put(3) by simp
next
  case (Cons op ops)
  let ?g = "escape_component k"
  obtain w1 r where w1: "apply_op op w = Inr (w1, r)" "apply_patch ops w1 = Inr w'"
    using Cons(4) by (auto simp: andthen_Inr_iff)
  have "apply_op (prefix_op (47 # ?g) op) v = Inr (put_prop v ?g w1, r)"
    using apply_prefix [OF _ Cons(3) w1(1)] Cons(2) by simp
  moreover have "apply_patch (map (prefix_op (47 # ?g)) ops) (put_prop v ?g w1) = Inr (put_prop (put_prop v ?g w1) ?g w')"
    using Cons(1) [OF _ child_put(1) [OF Cons(3)] w1(2)] Cons(2) by simp
  ultimately show ?case using child_put(2) [OF Cons(3)] by simp
qed

lemma patch_append: "apply_patch (xs @ ys) v = andthen (apply_patch xs v) (apply_patch ys)"
proof (induction xs arbitrary: v)
  case (Cons op xs)
  then show ?case by (cases "apply_op op v") auto
qed simp

subsection \<open>What a comparison makes\<close>

text \<open>The operations for one key of the old value, and the additions.\<close>

definition key_ops :: "json \<Rightarrow> jsstr \<times> json \<Rightarrow> json_op list" where
  "key_ops t = (\<lambda>(p, l). let q = 47 # escape_component p in case own t p of
       None \<Rightarrow> [\<lparr>jo_path = q, jo_kind = ORemove\<rparr>]
     | Some c \<Rightarrow> if compound l \<and> compound c then map (prefix_op q) (compare_at [] l c)
         else if l \<noteq> c then [\<lparr>jo_path = q, jo_kind = OReplace c\<rparr>] else [])"

definition add_ops :: "json \<Rightarrow> (jsstr \<times> json) list \<Rightarrow> json_op list" where
  "add_ops e i = map (\<lambda>(p, c). \<lparr>jo_path = 47 # escape_component p, jo_kind = OAdd c\<rparr>) (filter (\<lambda>(p, c). own e p = None) i)"

lemma prefix_op_append: "prefix_op (a @ b) op = prefix_op a (prefix_op b op)"
  by (simp add: prefix_op_def)

lemma prefix_op_Nil: "prefix_op [] op = op"
  by (simp add: prefix_op_def)

definition ops_of :: "json \<Rightarrow> json \<Rightarrow> json_op list" where
  "ops_of e t = concat (map (key_ops t) (rev (entries e)))
     @ (if list_ex (\<lambda>(p, l). own t p = None) (entries e) \<or> length (entries t) \<noteq> length (entries e) then add_ops e (entries t) else [])"

lemma map_prefix_Nil: "map (prefix_op []) ops = ops"
  by (simp add: prefix_op_Nil [abs_def])

lemma compare_at_ops: "compare_at o' e t = map (prefix_op o') (ops_of e t)"
proof (induction e arbitrary: o' t rule: measure_induct_rule [of size])
  case (less e)
  have inner: "compare_at q l c = map (prefix_op q) (compare_at [] l c)" if "(p, l) \<in> set (entries e)" for p l q c
    using less [OF entries_size [OF that]] by (simp add: map_prefix_Nil)
  let ?f = "\<lambda>(p, l). let q = o' @ 47 # escape_component p in case own t p of
             None \<Rightarrow> [\<lparr>jo_path = q, jo_kind = ORemove\<rparr>]
           | Some c \<Rightarrow> if compound l \<and> compound c then compare_at q l c
               else if l \<noteq> c then [\<lparr>jo_path = q, jo_kind = OReplace c\<rparr>] else []"
  have key: "?f x = map (prefix_op o') (key_ops t x)" if "x \<in> set (entries e)" for x
  proof -
    obtain p l where x: "x = (p, l)" by (cases x)
    show ?thesis using inner [of p l "o' @ 47 # escape_component p"] that
      by (auto simp: x key_ops_def Let_def prefix_op_append comp_def split: option.splits) (simp_all add: prefix_op_def)
  qed
  then have m: "map ?f (rev (entries e)) = map (\<lambda>x. map (prefix_op o') (key_ops t x)) (rev (entries e))"
    by (intro map_cong) auto
  have cmp: "compare_at o' e t = concat (map ?f (rev (entries e)))
     @ (if list_ex (\<lambda>(p, l). own t p = None) (entries e) \<or> length (entries t) \<noteq> length (entries e)
        then map (prefix_op o') (add_ops e (entries t)) else [])"
    by (subst compare_at.simps, unfold Let_def) (simp add: add_ops_def prefix_op_def case_prod_unfold comp_def)
  show ?case unfolding cmp m by (simp add: ops_of_def map_concat comp_def)
qed

lemma compare_json_ops: "compound e \<Longrightarrow> compound t \<Longrightarrow> compare_json e t = Inr (ops_of e t)"
  by (simp add: compare_json_def compare_at_ops map_prefix_Nil)

lemma ops_of_plain: "list_all patch_plain (ops_of e t)"
proof (induction e arbitrary: t rule: measure_induct_rule [of size])
  case (less e)
  have inner: "list_all patch_plain (map (prefix_op (47 # escape_component p)) (compare_at [] l c))" if "(p, l) \<in> set (entries e)" for p l c
    using less [OF entries_size [OF that], of c] by (auto simp: compare_at_ops map_prefix_Nil list_all_iff prefix_plain)
  have key: "list_all patch_plain (key_ops t x)" if "x \<in> set (entries e)" for x
  proof -
    obtain p l where x: "x = (p, l)" by (cases x)
    show ?thesis using inner [of p l] that
      by (auto simp: x key_ops_def Let_def patch_plain_def split: option.splits)
  qed
  have "list_all patch_plain (add_ops e i)" for i
    by (auto simp: add_ops_def list_all_iff patch_plain_def)
  then show ?case using key by (auto simp: ops_of_def list_all_iff)
qed

subsection \<open>One key\<close>

lemma distinct_entries: "shape_ok v \<Longrightarrow> distinct (map fst (entries v))"
  by (cases v) (auto simp: shape_ok_def entries_def distinct_map inj_on_def decimal_inject)

lemma wf_parts: "wf_json v \<longleftrightarrow> shape_ok v \<and> list_all (\<lambda>(k, x). wf_json x) (entries v)"
  by (subst wf_json.simps) simp

lemma wf_entries: "wf_json v \<Longrightarrow> (p, x) \<in> set (entries v) \<Longrightarrow> wf_json x"
  using wf_parts [of v] by (auto simp: list_all_iff)

lemma json_shape: "wf_json v \<Longrightarrow> shape_ok v"
  using wf_parts [of v] by blast

lemma same_json_refl: "wf_json v \<Longrightarrow> same_json v v"
proof (induction v rule: measure_induct_rule [of size])
  case (less v)
  have "map_of (entries v) p = Some x \<and> same_json x x" if "(p, x) \<in> set (entries v)" for p x
    using less(1) [OF entries_size [OF that]] wf_entries [OF less(2) that]
      map_of_is_SomeI [OF distinct_entries [OF json_shape [OF less(2)]] that] by simp
  then show ?case by (subst same_json.simps) (auto simp: list_all_iff)
qed

text \<open>The operations for a child make it equal to its counterpart.\<close>

definition steps :: "json \<Rightarrow> jsstr \<Rightarrow> json \<Rightarrow> bool" where
  "steps t p l \<longleftrightarrow> (\<forall>c v. own t p = Some c \<longrightarrow> child v (escape_component p) l \<longrightarrow>
     (\<exists>l'. same_json l' c \<and> apply_patch (key_ops t (p, l)) v = Inr (put_prop v (escape_component p) l')))"

lemma replace_child: "child v g l \<Longrightarrow> leaf_op (OReplace c) v g = Inr (put_prop v g c, Some l)"
  by (cases v) (auto simp: child_def Let_def upd_conv_take_nth_drop split: option.splits if_splits)

lemma steps_intro:
  assumes "\<And>c. own t p = Some c \<Longrightarrow> wf_json c"
    and "\<And>c. own t p = Some c \<Longrightarrow> compound l \<Longrightarrow> compound c \<Longrightarrow> \<exists>l'. apply_patch (ops_of l c) l = Inr l' \<and> same_json l' c"
  shows "steps t p l"
  unfolding steps_def
proof (intro allI impI)
  fix c v assume c: "own t p = Some c" and v: "child v (escape_component p) l"
  show "\<exists>l'. same_json l' c \<and> apply_patch (key_ops t (p, l)) v = Inr (put_prop v (escape_component p) l')"
  proof (cases "compound l \<and> compound c")
    case True
    then obtain l' where l': "apply_patch (ops_of l c) l = Inr l'" "same_json l' c" using assms(2) [OF c] by blast
    then show ?thesis using patch_prefix [OF ops_of_plain v l'(1)] c True
      by (auto simp: key_ops_def Let_def compare_at_ops map_prefix_Nil)
  next
    case nc: False
    have refl: "same_json c c" using same_json_refl assms(1) [OF c] by blast
    show ?thesis
    proof (cases "l = c")
      case True
      then show ?thesis using nc c refl child_put(3) [OF v] by (auto simp: key_ops_def Let_def)
    next
      case False
      have "apply_op \<lparr>jo_path = 47 # escape_component p, jo_kind = OReplace c\<rparr> v = Inr (put_prop v (escape_component p) c, Some l)"
        using replace_child [OF v] by (simp add: apply_op_def apply_simple_def components_last)
      then show ?thesis using nc c refl False by (auto simp: key_ops_def Let_def)
    qed
  qed
qed

lemma remove_key_ops: "own t p = None \<Longrightarrow> key_ops t (p, l) = [\<lparr>jo_path = 47 # escape_component p, jo_kind = ORemove\<rparr>]"
  by (simp add: key_ops_def)

lemma apply_leaf:
  assumes "k \<in> {ORemove, OAdd c, OReplace c}"
  shows "apply_op \<lparr>jo_path = 47 # escape_component p, jo_kind = k\<rparr> v = leaf_op k v (escape_component p)"
  using assms by (auto simp: apply_op_def apply_simple_def components_last)

subsection \<open>Arrays\<close>

lemma entries_nth: "i < length xs \<Longrightarrow> entries (JArr xs) ! i = (decimal i, xs ! i)"
  by (simp add: entries_def)

lemma keys_array: "map fst (entries (JArr xs)) = map decimal [0..<length xs]"
  by (simp add: entries_def)

lemma own_decimal: "own (JArr xs) (decimal i) = (if i < length xs then Some (xs ! i) else None)"
proof -
  have no: "decimal i \<noteq> js ''length''" using decimal_no [of 108 i] by (auto simp: is_digit_def js_def)
  have "map_of (entries (JArr xs)) (decimal i) = Some (xs ! i)" if "i < length xs"
  proof (rule map_of_is_SomeI)
    show "distinct (map fst (entries (JArr xs)))" by (simp add: entries_def distinct_map inj_on_def decimal_inject)
    show "(decimal i, xs ! i) \<in> set (entries (JArr xs))" using nth_mem [of i "entries (JArr xs)"] entries_nth [OF that] that
      by (simp add: entries_def)
  qed
  moreover have "map_of (entries (JArr xs)) (decimal i) = None" if "\<not> i < length xs"
    using that unfolding map_of_eq_None_iff set_map [symmetric] keys_array by (auto simp: decimal_inject)
  ultimately show ?thesis using no by (simp add: own_def)
qed

lemma array_loop:
  assumes s: "\<And>i. i < length xs \<Longrightarrow> steps (JArr ys) (decimal i) (xs ! i)" and n: "length xs \<le> 2147483647"
  shows "k \<le> length xs \<Longrightarrow> length ys < k \<longrightarrow> rest = [] \<Longrightarrow>
    \<exists>us. apply_patch (concat (map (key_ops (JArr ys)) (rev (take k (entries (JArr xs)))))) (JArr (take k xs @ rest)) = Inr (JArr (us @ rest))
      \<and> list_all2 same_json us (take k ys)"
proof (induction k arbitrary: rest)
  case (Suc k)
  have k: "k < length xs" "int k < 2147483648" using Suc(2) n by simp_all
  have e: "rev (take (Suc k) (entries (JArr xs))) = (decimal k, xs ! k) # rev (take k (entries (JArr xs)))"
    using entries_nth [OF k(1)] k(1) by (simp add: take_Suc_conv_app_nth entries_def)
  show ?case
  proof (cases "k < length ys")
    case False
    then have "rest = []" using Suc(3) by simp
    moreover have "apply_op \<lparr>jo_path = 47 # escape_component (decimal k), jo_kind = ORemove\<rparr> (JArr (take (Suc k) xs)) = Inr (JArr (take k xs), Some (xs ! k))"
      using k by (subst apply_leaf) (simp_all add: take_Suc_conv_app_nth nth_append)
    moreover have "own (JArr ys) (decimal k) = None" using False by (simp add: own_decimal)
    ultimately show ?thesis using Suc(1) [of "[]"] k False unfolding e by (simp add: remove_key_ops)
  next
    case True
    have "child (JArr (take (Suc k) xs @ rest)) (escape_component (decimal k)) (xs ! k)"
      using k by (simp add: child_def nth_append)
    moreover have "own (JArr ys) (decimal k) = Some (ys ! k)" using True by (simp add: own_decimal)
    ultimately obtain l' where l': "same_json l' (ys ! k)"
      "apply_patch (key_ops (JArr ys) (decimal k, xs ! k)) (JArr (take (Suc k) xs @ rest)) = Inr (put_prop (JArr (take (Suc k) xs @ rest)) (decimal k) l')"
      using s [OF k(1)] by (auto simp: steps_def)
    have put: "put_prop (JArr (take (Suc k) xs @ rest)) (decimal k) l' = JArr (take k xs @ l' # rest)"
      using k by (simp add: take_Suc_conv_app_nth list_update_append)
    obtain us where us: "apply_patch (concat (map (key_ops (JArr ys)) (rev (take k (entries (JArr xs)))))) (JArr (take k xs @ l' # rest)) = Inr (JArr (us @ l' # rest))"
      "list_all2 same_json us (take k ys)" using Suc(1) [of "l' # rest"] k True by auto
    show ?thesis
      using us l' put True unfolding e
      by (intro exI [of _ "us @ [l']"]) (simp add: patch_append take_Suc_conv_app_nth list_all2_appendI)
  qed
qed simp

abbreviation add_op :: "jsstr \<Rightarrow> json \<Rightarrow> json_op" where
  "add_op p c \<equiv> \<lparr>jo_path = 47 # escape_component p, jo_kind = OAdd c\<rparr>"

lemma add_at_end:
  "length us \<le> m \<Longrightarrow> m \<le> 2147483647 \<Longrightarrow>
    apply_patch (map (\<lambda>i. add_op (decimal i) (f i)) [length us..<m]) (JArr us) = Inr (JArr (us @ map f [length us..<m]))"
proof (induction m)
  case (Suc m)
  show ?case
  proof (cases "length us \<le> m")
    case True
    let ?vs = "us @ map f [length us..<m]"
    have m: "length ?vs = m" "int m < 2147483648" using True Suc(3) by simp_all
    have "apply_op (add_op (decimal m) (f m)) (JArr ?vs) = Inr (JArr (?vs @ [f m]), None)"
      using m by (subst apply_leaf) simp_all
    then show ?thesis using Suc(1) [OF True] Suc(3) True by (simp add: patch_append)
  qed (use Suc(2) in simp)
qed simp

lemma entries_array: "entries (JArr ys) = map (\<lambda>i. (decimal i, ys ! i)) [0..<length ys]"
  by (rule nth_equalityI) (simp_all add: entries_def)

lemma add_ops_array: "add_ops (JArr xs) (entries (JArr ys)) = map (\<lambda>i. add_op (decimal i) (ys ! i)) [length xs..<length ys]"
proof -
  have "filter (\<lambda>i. \<not> i < length xs) [0..<m] = [length xs..<m]" for m
    by (induction m) auto
  then show ?thesis by (simp add: add_ops_def entries_array filter_map comp_def own_decimal)
qed

lemma array_patch:
  assumes s: "\<And>i. i < length xs \<Longrightarrow> steps (JArr ys) (decimal i) (xs ! i)"
    and "wf_json (JArr xs)" "wf_json (JArr ys)"
  shows "\<exists>e'. apply_patch (ops_of (JArr xs) (JArr ys)) (JArr xs) = Inr e' \<and> same_json e' (JArr ys)"
proof -
  have n: "length xs \<le> 2147483647" "length ys \<le> 2147483647" using json_shape [OF assms(2)] json_shape [OF assms(3)] by (simp_all add: shape_ok_def)
  obtain us where us: "apply_patch (concat (map (key_ops (JArr ys)) (rev (entries (JArr xs))))) (JArr xs) = Inr (JArr us)"
    "list_all2 same_json us (take (length xs) ys)"
    using array_loop [OF s n(1), of "length xs" "[]"] by (auto simp: entries_def)
  let ?vs = "us @ drop (length xs) ys"
  have same: "list_all2 same_json ?vs ys"
  proof -
    have "same_json y y" if y: "y \<in> set ys" for y
    proof -
      obtain i where i: "i < length ys" "y = ys ! i" using y by (auto simp: in_set_conv_nth)
      then have "(decimal i, y) \<in> set (entries (JArr ys))" using entries_nth [of i ys] nth_mem [of i "entries (JArr ys)"] by (simp add: entries_def)
      then show ?thesis using wf_entries [OF assms(3)] same_json_refl by blast
    qed
    then have "list_all2 same_json (drop (length xs) ys) (drop (length xs) ys)" by (intro list.rel_refl_strong) (auto dest: in_set_dropD)
    from list_all2_appendI [OF us(2) this] show ?thesis by simp
  qed
  have "apply_patch (ops_of (JArr xs) (JArr ys)) (JArr xs) = Inr (JArr ?vs)"
  proof (cases "list_ex (\<lambda>(p, l). own (JArr ys) p = None) (entries (JArr xs)) \<or> length (entries (JArr ys)) \<noteq> length (entries (JArr xs))")
    case True
    have "apply_patch (add_ops (JArr xs) (entries (JArr ys))) (JArr us) = Inr (JArr ?vs)"
    proof (cases "length xs \<le> length ys")
      case True
      then have "length us = length xs" using list_all2_lengthD [OF us(2)] by simp
      moreover have dr: "map ((!) ys) [length xs..<length ys] = drop (length xs) ys"
        by (metis add_0 drop_map drop_upt map_nth)
      ultimately show ?thesis using add_at_end [of us "length ys" "(!) ys"] True n(2) dr by (simp add: add_ops_array)
    qed (simp add: add_ops_array)
    then show ?thesis using True us(1) by (simp add: ops_of_def patch_append)
  next
    case False
    then have "length ys = length xs" by (simp add: entries_def)
    then show ?thesis using False us(1) by (simp add: ops_of_def)
  qed
  moreover have "same_json (JArr ?vs) (JArr ys)"
  proof -
    have l: "length ?vs = length ys" using list_all2_lengthD [OF same] .
    have "case map_of (entries (JArr ys)) k of Some w \<Rightarrow> same_json v w | None \<Rightarrow> False" if kv: "(k, v) \<in> set (entries (JArr ?vs))" for k v
    proof -
      obtain i where i: "i < length ?vs" "k = decimal i" "v = ?vs ! i" using kv unfolding entries_array by auto
      have "map_of (entries (JArr ys)) k = Some (ys ! i)"
        by (rule map_of_is_SomeI [OF distinct_entries [OF json_shape [OF assms(3)]]]) (use i l in \<open>auto simp: entries_array\<close>)
      then show ?thesis using list_all2_nthD [OF same i(1)] i(3) by simp
    qed
    then show ?thesis using l by (subst same_json.simps) (auto simp: compound_def is_arr_def keys_array list_all_iff simp del: set_map)
  qed
  ultimately show ?thesis by blast
qed

subsection \<open>Objects\<close>

lemma map_of_remove: "map_of (filter (\<lambda>(k, v). k \<noteq> p) kvs) = (map_of kvs)(p := None)"
  by (induction kvs) (auto simp: fun_eq_iff)

lemma map_of_filter_key: "map_of (filter (\<lambda>(k, v). P k) kvs) q = (if P q then map_of kvs q else None)"
  by (induction kvs) auto

lemma distinct_remove: "distinct (map fst kvs) \<Longrightarrow> distinct (map fst (filter P kvs))"
  by (induction kvs) auto

lemma object_child: "child (JObj cs) (escape_component p) l \<longleftrightarrow> map_of cs p = Some l"
  by (auto simp: child_def Let_def split: option.splits)

lemma object_key:
  assumes "steps t p l" "distinct (map fst cs)" "map_of cs p = Some l"
  obtains cs' where "apply_patch (key_ops t (p, l)) (JObj cs) = Inr (JObj cs')" "distinct (map fst cs')"
    "\<forall>q. q \<noteq> p \<longrightarrow> map_of cs' q = map_of cs q"
    "case own t p of None \<Rightarrow> map_of cs' p = None | Some c \<Rightarrow> \<exists>v. map_of cs' p = Some v \<and> same_json v c"
proof (cases "own t p")
  case None
  have "apply_op \<lparr>jo_path = 47 # escape_component p, jo_kind = ORemove\<rparr> (JObj cs) = Inr (JObj (filter (\<lambda>(k, v). k \<noteq> p) cs), Some l)"
    using assms(3) by (subst apply_leaf) (simp_all add: Let_def)
  then show thesis using that [of "filter (\<lambda>(k, v). k \<noteq> p) cs"] None distinct_remove [OF assms(2)]
    by (simp add: remove_key_ops map_of_remove)
next
  case (Some c)
  obtain l' where l': "same_json l' c" "apply_patch (key_ops t (p, l)) (JObj cs) = Inr (put_prop (JObj cs) (escape_component p) l')"
    using assms(1,3) Some object_child unfolding steps_def by blast
  show thesis
  proof (rule that)
    show "apply_patch (key_ops t (p, l)) (JObj cs) = Inr (JObj (set_key p l' cs))" using l'(2) by simp
    show "distinct (map fst (set_key p l' cs))" by (rule distinct_set_key [OF assms(2)])
    show "\<forall>q. q \<noteq> p \<longrightarrow> map_of (set_key p l' cs) q = map_of cs q" by (simp add: map_of_set_key)
    show "case own t p of None \<Rightarrow> map_of (set_key p l' cs) p = None | Some c \<Rightarrow> \<exists>v. map_of (set_key p l' cs) p = Some v \<and> same_json v c"
      using l'(1) Some by (simp add: map_of_set_key)
  qed
qed

lemma object_loop:
  assumes "\<And>p l. (p, l) \<in> set as \<Longrightarrow> steps t p l"
  shows "distinct (map fst as) \<Longrightarrow> distinct (map fst cs) \<Longrightarrow> \<forall>(p, l) \<in> set as. map_of cs p = Some l \<Longrightarrow>
    \<exists>cs'. apply_patch (concat (map (key_ops t) as)) (JObj cs) = Inr (JObj cs') \<and> distinct (map fst cs')
      \<and> (\<forall>q. q \<notin> fst ` set as \<longrightarrow> map_of cs' q = map_of cs q)
      \<and> (\<forall>p \<in> fst ` set as. case own t p of None \<Rightarrow> map_of cs' p = None | Some c \<Rightarrow> \<exists>v. map_of cs' p = Some v \<and> same_json v c)"
  using assms
proof (induction "as" arbitrary: cs)
  case (Cons x "as")
  obtain p l where x: "x = (p, l)" by (cases x)
  have p: "steps t p l" "map_of cs p = Some l" "p \<notin> fst ` set as" using Cons(2,4,5) by (auto simp: x)
  obtain cs1 where c1: "apply_patch (key_ops t (p, l)) (JObj cs) = Inr (JObj cs1)" "distinct (map fst cs1)"
    "\<forall>q. q \<noteq> p \<longrightarrow> map_of cs1 q = map_of cs q"
    "case own t p of None \<Rightarrow> map_of cs1 p = None | Some c \<Rightarrow> \<exists>v. map_of cs1 p = Some v \<and> same_json v c"
    by (rule object_key [OF p(1) Cons(3) p(2)])
  have "map_of cs1 q = Some m" if "(q, m) \<in> set as" for q m
  proof -
    have "q \<in> fst ` set as" using imageI [OF that, of fst] by simp
    then have "q \<noteq> p" using p(3) by blast
    moreover have "map_of cs q = Some m" using Cons(4) that by auto
    ultimately show ?thesis using c1(3) by simp
  qed
  then have on: "\<forall>(q, m) \<in> set as. map_of cs1 q = Some m" by blast
  have "\<exists>cs'. apply_patch (concat (map (key_ops t) as)) (JObj cs1) = Inr (JObj cs') \<and> distinct (map fst cs')
      \<and> (\<forall>q. q \<notin> fst ` set as \<longrightarrow> map_of cs' q = map_of cs1 q)
      \<and> (\<forall>p \<in> fst ` set as. case own t p of None \<Rightarrow> map_of cs' p = None | Some c \<Rightarrow> \<exists>v. map_of cs' p = Some v \<and> same_json v c)"
    by (rule Cons(1) [OF _ c1(2) on]) (use Cons(2,5) in simp_all)
  then obtain cs' where c2: "apply_patch (concat (map (key_ops t) as)) (JObj cs1) = Inr (JObj cs')" "distinct (map fst cs')"
    "\<forall>q. q \<notin> fst ` set as \<longrightarrow> map_of cs' q = map_of cs1 q"
    "\<forall>p \<in> fst ` set as. case own t p of None \<Rightarrow> map_of cs' p = None | Some c \<Rightarrow> \<exists>v. map_of cs' p = Some v \<and> same_json v c"
    by blast
  have "map_of cs' p = map_of cs1 p" using c2(3) p(3) by simp
  then have at: "case own t q of None \<Rightarrow> map_of cs' q = None | Some c \<Rightarrow> \<exists>v. map_of cs' q = Some v \<and> same_json v c"
    if "q \<in> fst ` set (x # as)" for q
  proof (cases "q = p")
    case True
    show ?thesis unfolding True \<open>map_of cs' p = map_of cs1 p\<close> by (rule c1(4))
  next
    case False
    then have "q \<in> fst ` set as" using that by (simp add: x)
    then show ?thesis by (rule c2(4) [rule_format])
  qed
  have "map_of cs' q = map_of cs q" if "q \<notin> fst ` set (x # as)" for q
    using that c1(3) c2(3) by (simp add: x)
  then have rest: "\<forall>q. q \<notin> fst ` set (x # as) \<longrightarrow> map_of cs' q = map_of cs q" by blast
  have run: "apply_patch (concat (map (key_ops t) (x # as))) (JObj cs) = Inr (JObj cs')"
    using c1(1) c2(1) by (simp add: x patch_append)
  show ?case by (intro exI [of _ cs'] conjI run c2(2) rest ballI at)
qed simp

lemma object_adds:
  assumes "distinct (map fst i)" "js ''__proto__'' \<notin> fst ` set i" "distinct (map fst cs)" "\<forall>p \<in> fst ` set i. map_of cs p = None"
  shows "\<exists>cs'. apply_patch (map (\<lambda>(p, c). add_op p c) i) (JObj cs) = Inr (JObj cs') \<and> distinct (map fst cs')
     \<and> map_of cs' = map_of cs ++ map_of i"
  using assms
proof (induction i arbitrary: cs)
  case (Cons x i)
  obtain p c where x: "x = (p, c)" by (cases x)
  let ?cs = "set_key p c cs"
  have p: "p \<noteq> js ''__proto__''" "p \<notin> fst ` set i" "map_of cs p = None" using Cons(2,3,5) by (auto simp: x)
  have op: "apply_op (add_op p c) (JObj cs) = Inr (JObj ?cs, None)" using p by (subst apply_leaf) (simp_all add: Let_def)
  have "\<exists>cs'. apply_patch (map (\<lambda>(p, c). add_op p c) i) (JObj ?cs) = Inr (JObj cs') \<and> distinct (map fst cs')
      \<and> map_of cs' = map_of ?cs ++ map_of i"
  proof (rule Cons(1))
    show "distinct (map fst i)" "js ''__proto__'' \<notin> fst ` set i" using Cons(2,3) by simp_all
    show "distinct (map fst ?cs)" by (rule distinct_set_key [OF Cons(4)])
    show "\<forall>q \<in> fst ` set i. map_of ?cs q = None" using Cons(5) p(2) by (auto simp: map_of_set_key)
  qed
  then obtain cs' where cs': "apply_patch (map (\<lambda>(p, c). add_op p c) i) (JObj ?cs) = Inr (JObj cs')" "distinct (map fst cs')"
    "map_of cs' = map_of ?cs ++ map_of i" by blast
  have "map_of ?cs ++ map_of i = map_of cs ++ map_of ((p, c) # i)"
    using p(2) by (simp add: map_of_set_key map_add_upd_left dom_map_of_conv_image_fst del: fun_upd_apply) 
  then have "map_of cs' = map_of cs ++ map_of (x # i)" using cs'(3) by (simp only: x)
  moreover have "apply_patch (map (\<lambda>(p, c). add_op p c) (x # i)) (JObj cs) = Inr (JObj cs')" using op cs'(1) by (simp add: x)
  ultimately show ?case using cs'(2) by blast
qed simp

lemma object_patch:
  assumes s: "\<And>p l. (p, l) \<in> set kvs \<Longrightarrow> steps (JObj lvs) p l" and "wf_json (JObj kvs)" "wf_json (JObj lvs)"
  shows "\<exists>e'. apply_patch (ops_of (JObj kvs) (JObj lvs)) (JObj kvs) = Inr e' \<and> same_json e' (JObj lvs)"
proof -
  let ?e = "JObj kvs" and ?t = "JObj lvs"
  have d: "distinct (map fst kvs)" "distinct (map fst lvs)" "js ''__proto__'' \<notin> fst ` set lvs"
    using json_shape [OF assms(2)] json_shape [OF assms(3)] by (auto simp: shape_ok_def)
  have ent: "entries ?e = kvs" "entries ?t = lvs" "own ?e = map_of kvs" "own ?t = map_of lvs"
    by (simp_all add: entries_def own_def fun_eq_iff)
  obtain cs where cs: "apply_patch (concat (map (key_ops ?t) (rev kvs))) ?e = Inr (JObj cs)" "distinct (map fst cs)"
    "\<forall>q. q \<notin> fst ` set kvs \<longrightarrow> map_of cs q = map_of kvs q"
    "\<forall>p \<in> fst ` set kvs. case map_of lvs p of None \<Rightarrow> map_of cs p = None | Some c \<Rightarrow> \<exists>v. map_of cs p = Some v \<and> same_json v c"
    using object_loop [of "rev kvs" ?t kvs] s d(1) by (auto simp: rev_map [symmetric] ent)
  let ?i = "filter (\<lambda>(p, c). map_of kvs p = None) lvs"
  have old: "map_of cs q = None" if "q \<notin> fst ` set kvs" for q
    using cs(3) that by (simp add: map_of_eq_None_iff)
  obtain cs' where cs': "apply_patch (add_ops ?e lvs) (JObj cs) = Inr (JObj cs')" "map_of cs' = map_of cs ++ map_of ?i" "distinct (map fst cs')"
    using object_adds [of ?i cs] cs(2) d(2,3) distinct_remove [OF d(2)] old
    by (auto simp: add_ops_def ent map_of_eq_None_iff)
  have new: "map_of ?i q = (if q \<in> fst ` set kvs then None else map_of lvs q)" for q
    using map_of_filter_key [of "\<lambda>p. map_of kvs p = None" lvs q] by (simp add: map_of_eq_None_iff)
  have run: "apply_patch (ops_of ?e ?t) ?e = Inr (JObj cs')"
  proof (cases "list_ex (\<lambda>(p, l). map_of lvs p = None) kvs \<or> length lvs \<noteq> length kvs")
    case True
    then show ?thesis using cs(1) cs'(1) by (simp add: ops_of_def ent patch_append)
  next
    case False
    have "fst ` set kvs \<subseteq> fst ` set lvs" using False by (auto simp: list_ex_iff map_of_eq_None_iff)
    moreover have "card (fst ` set kvs) = card (fst ` set lvs)"
      using False d(1,2) by (metis distinct_card length_map set_map)
    ultimately have "fst ` set kvs = fst ` set lvs" by (intro card_subset_eq) simp_all
    then have "?i = []" by (force simp: filter_empty_conv map_of_eq_None_iff simp del: map_of_eq_None_iff [symmetric])
    then have "add_ops ?e lvs = []" by (simp add: add_ops_def ent)
    then have "JObj cs' = JObj cs" using cs'(1) by simp
    then show ?thesis using False cs(1) by (simp add: ops_of_def ent)
  qed
  have at: "case map_of lvs q of None \<Rightarrow> map_of cs' q = None | Some c \<Rightarrow> \<exists>v. map_of cs' q = Some v \<and> same_json v c" for q
  proof (cases "q \<in> fst ` set kvs")
    case True
    then have e: "map_of cs' q = map_of cs q" using new [of q] by (simp add: cs'(2) map_add_def)
    show ?thesis unfolding e by (rule cs(4) [rule_format, OF True])
  next
    case False
    then have q: "map_of cs' q = map_of lvs q" using new [of q] old [of q] by (simp add: cs'(2) map_add_def split: option.splits)
    have "same_json w w" if "map_of lvs q = Some w" for w
      using same_json_refl wf_entries [OF assms(3)] map_of_SomeD [OF that] ent(2) by metis
    then show ?thesis using q by (simp split: option.splits)
  qed
  have keys: "q \<in> fst ` set cs' \<longleftrightarrow> q \<in> fst ` set lvs" for q
    using at [of q] map_of_eq_None_iff [of cs' q] map_of_eq_None_iff [of lvs q] by (auto split: option.splits)
  have "case map_of lvs q of Some c \<Rightarrow> same_json v c | None \<Rightarrow> False" if "(q, v) \<in> set cs'" for q v
    using at [of q] map_of_is_SomeI [OF cs'(3) that] by (auto split: option.splits)
  then have "same_json (JObj cs') ?t"
    using keys by (subst same_json.simps) (auto simp: compound_def is_arr_def entries_def list_all_iff set_eq_iff)
  then show ?thesis using run by blast
qed

subsection \<open>Round trip\<close>

lemma alike_own:
  assumes "alike e t" "compound e" "compound t" "(p, l) \<in> set (entries e)" "own t p = Some c"
  shows "alike l c"
  using assms(1-3) by (subst (asm) alike.simps) (use assms(4,5) in \<open>auto simp: list_all_iff\<close>)

lemma own_entries: "own t p = Some c \<Longrightarrow> p \<noteq> js ''length'' \<or> \<not> is_arr t \<Longrightarrow> (p, c) \<in> set (entries t)"
  by (cases t) (auto simp: own_def is_arr_def split: if_splits dest: map_of_SomeD)

lemma compound_cases:
  assumes "compound v" obtains (Arr) xs where "v = JArr xs" | (Obj) kvs where "v = JObj kvs"
  using assms by (cases v) (simp_all add: compound_def)

lemma compare_patches:
  "wf_json e \<Longrightarrow> wf_json t \<Longrightarrow> compound e \<Longrightarrow> compound t \<Longrightarrow> alike e t \<Longrightarrow>
    \<exists>e'. apply_patch (ops_of e t) e = Inr e' \<and> same_json e' t"
proof (induction e arbitrary: t rule: measure_induct_rule [of size])
  case (less e)
  have arr: "is_arr e = is_arr t" using less(6) less(4,5) by (subst (asm) alike.simps) simp
  have step: "steps t p l" if pl: "(p, l) \<in> set (entries e)" for p l
  proof (rule steps_intro)
    fix c assume c: "own t p = Some c"
    have "(p, c) \<in> set (entries t)"
    proof (rule own_entries [OF c])
      have "p \<noteq> js ''length''" if ar: "is_arr e"
      proof -
        obtain xs where e: "e = JArr xs" using ar by (cases e) (simp_all add: is_arr_def)
        have "p \<in> set (map fst (entries e))" using imageI [OF pl, of fst] by simp
        then obtain i where "p = decimal i" unfolding e keys_array by auto
        then show ?thesis using decimal_no [of 108 i] by (auto simp: is_digit_def js_def)
      qed
      then show "p \<noteq> js ''length'' \<or> \<not> is_arr t" using arr by blast
    qed
    then have w: "wf_json c" by (rule wf_entries [OF less(3)])
    then show "wf_json c" .
    assume "compound l" "compound c"
    then show "\<exists>l'. apply_patch (ops_of l c) l = Inr l' \<and> same_json l' c"
      by (intro less(1) [OF entries_size [OF pl] wf_entries [OF less(2) pl] w] alike_own [OF less(6,4,5) pl c])
  qed
  show ?case
  proof (rule compound_cases [OF less(4)])
    fix xs assume e: "e = JArr xs"
    then obtain ys where t: "t = JArr ys" using arr less(5) by (cases t) (simp_all add: is_arr_def compound_def)
    show ?thesis unfolding e t
      by (rule array_patch) (use step less(2,3) nth_mem [of _ "entries (JArr xs)"] in \<open>simp_all add: e t entries_nth entries_array\<close>)
  next
    fix kvs assume e: "e = JObj kvs"
    then obtain lvs where t: "t = JObj lvs" using arr less(5) by (cases t) (simp_all add: is_arr_def compound_def)
    show ?thesis unfolding e t
      by (rule object_patch) (use step less(2,3) in \<open>simp_all add: e t entries_def\<close>)
  qed
qed

subsection \<open>Properties\<close>

text \<open>
  Property C37. The patch that \<open>compare\<close> makes of two documents takes the first to the second, up to
  the order of keys. The documents are objects or arrays, with distinct keys of which none is
  \<open>__proto__\<close> (\<open>wf_json\<close>), and alike: nowhere has one an array where the other has an object.
\<close>

theorem patch_roundtrip:
  assumes "wf_json e" "wf_json t" "compound e" "compound t" "alike e t"
  shows "case andthen (compare_json e t) (\<lambda>ops. apply_patch ops e) of Inl err \<Rightarrow> False | Inr e' \<Rightarrow> same_json e' t"
  using compare_patches [OF assms] by (auto simp: compare_json_ops [OF assms(3,4)])

text \<open>From \<open>{"a": [1]}\<close> to \<open>{"b": null, "a": [2, 3]}\<close>.\<close>

theorem patch_roundtrip_witness:
  "\<exists>e'. andthen (compare_json (JObj [([97], JArr [JNum 1])]) (JObj [([98], JNull), ([97], JArr [JNum 2, JNum 3])]))
        (\<lambda>ops. apply_patch ops (JObj [([97], JArr [JNum 1])])) = Inr e'
     \<and> same_json e' (JObj [([98], JNull), ([97], JArr [JNum 2, JNum 3])])"
proof -
  let ?e = "JObj [([97], JArr [JNum 1])]" and ?t = "JObj [([98], JNull), ([97], JArr [JNum 2, JNum 3])]"
  have "wf_json ?e" by code_simp
  moreover have "wf_json ?t" by code_simp
  moreover have "compound ?e \<and> compound ?t" by code_simp
  moreover have "alike ?e ?t" by code_simp
  ultimately show ?thesis using patch_roundtrip [of ?e ?t] by (simp split: sum.splits)
qed

text \<open>Where one document has an array and the other an object, the comparison sees no difference.\<close>

lemma compare_confuses:
  "compare_json (JObj [([97], JArr [JNum 1])]) (JObj [([97], JObj [([48], JNum 1)])]) = Inr []"
  by code_simp

text \<open>An empty component is the index 0: \<open>/a/\<close> removes the first element.\<close>

lemma empty_component_is_zero:
  "apply_patch [\<lparr>jo_path = [47, 97, 47], jo_kind = ORemove\<rparr>] (JObj [([97], JArr [JNum 1, JNum 2])]) = Inr (JObj [([97], JArr [JNum 2])])"
  by code_simp

text \<open>A path through \<open>__proto__\<close> leaves the document: it reaches the prototype that all objects share.\<close>

lemma path_through_prototype:
  "apply_patch [\<lparr>jo_path = 47 # js ''__proto__'' @ [47, 97], jo_kind = OAdd v\<rparr>] (JObj []) = Inl Outside"
proof -
  have "components (47 # js ''__proto__'' @ [47, 97]) = [js ''__proto__'', [97]]" by code_simp
  moreover have "json_prop (JObj []) (js ''__proto__'') = Inl Outside" by code_simp
  ultimately show ?thesis by (simp add: apply_op_def apply_simple_def)
qed

text \<open>Two objects with equal objects under the key \<open>prototype\<close> fail the test for equality.\<close>

lemma prototype_differs:
  "deep_equal (JObj [(js ''prototype'', JArr [])]) (JObj [(js ''prototype'', JArr [])]) = False"
  by code_simp

end
