(* ===== verification/QueryString.thy ===== *)
theory QueryString
  imports MdText Utf8
begin

section \<open>Query strings (swagger-ui-bundle.js, modules 897 to 900 and querystring-browser)\<close>

text \<open>
  The bundle has two codecs for query strings. The address parser uses the plain one, which splits the
  text and relies on \<open>encodeURIComponent\<close>; the Swagger client uses a copy of the one of Node, with its
  own escape function, a state machine for malformed escapes and a parser in one pass. Objects are lists
  of keys with values in the order of creation.
\<close>

subsection \<open>URI components\<close>

definition comp_unescaped :: "unit16 \<Rightarrow> bool" where
  "comp_unescaped c \<longleftrightarrow> is_alnum c \<or> c \<in> set (js (''-_.!~*()'' @ [CHR 0x27]))"

fun encode_component :: "jsstr \<Rightarrow> jsstr option" where
  "encode_component [] = Some []"
| "encode_component (c # s) =
     (if comp_unescaped c then map_option (\<lambda>r. c # r) (encode_component s)
      else if trail c then None
      else if lead c then
        (case s of
           [] \<Rightarrow> None
         | d # s' \<Rightarrow>
             if trail d
             then map_option (\<lambda>r. concat (map percent (utf8_of (65536 + (unat c - 55296) * 1024 + (unat d - 56320)))) @ r)
                    (encode_component s')
             else None)
      else map_option (\<lambda>r. concat (map percent (utf8_of (unat c))) @ r) (encode_component s))"

function decode_component :: "jsstr \<Rightarrow> jsstr option" where
  "decode_component s =
     (case s of
        [] \<Rightarrow> Some []
      | c # s' \<Rightarrow>
          if c \<noteq> 37 then map_option (\<lambda>r. c # r) (decode_component s')
          else case read_percent s of
              None \<Rightarrow> None
            | Some (b, r) \<Rightarrow>
                if b < 128 then map_option (\<lambda>r. of_nat b # r) (decode_component r)
                else case read_point b r of
                    None \<Rightarrow> None
                  | Some (e, r') \<Rightarrow> map_option (\<lambda>r. from_code_point (Some e) @ r) (decode_component r'))"
  by pat_completeness auto
termination
  by (relation "measure length") (auto dest!: read_percent_less read_point_le)

declare decode_component.simps [simp del]

subsection \<open>Values\<close>

text \<open>
  \<open>s\<close> and \<open>r\<close>: what is no string, boolean or finite number counts as the empty string (\<open>POther\<close>). The
  numbers are the integers of the signed 32-bit range, whose text is their decimal digits.
\<close>

datatype qprim = PStr jsstr | PBool bool | PNum "32 word" | POther

datatype qval = QOne qprim | QMany "qprim list"

fun prim_text :: "qprim \<Rightarrow> jsstr" where
  "prim_text (PStr s) = s"
| "prim_text (PBool b) = (if b then js ''true'' else js ''false'')"
| "prim_text (PNum w) = (let i = sint w in if i < 0 then 45 # decimal (nat (- i)) else decimal (nat i))"
| "prim_text POther = []"

text \<open>
  A parsed pair: a key that is there already gets an array. Setting the key \<open>__proto__\<close> makes no property
  of its own.
\<close>

datatype qparsed = ParsedOne jsstr | ParsedMany "jsstr list"

fun add_value :: "jsstr \<Rightarrow> qparsed \<Rightarrow> qparsed" where
  "add_value b (ParsedOne a) = ParsedMany [a, b]"
| "add_value b (ParsedMany as) = ParsedMany (as @ [b])"

fun add_pair :: "jsstr \<Rightarrow> jsstr \<Rightarrow> (jsstr \<times> qparsed) list \<Rightarrow> (jsstr \<times> qparsed) list" where
  "add_pair y b [] = (if y = js ''__proto__'' then [] else [(y, ParsedOne b)])"
| "add_pair y b ((k, v) # a) = (if k = y then (k, add_value b v) # a else (k, v) # add_pair y b a)"

subsection \<open>The plain codec\<close>

text \<open>\<open>replace(/\+/g, "%20")\<close>, and the text before and behind the first separator.\<close>

definition plus_space :: "jsstr \<Rightarrow> jsstr" where
  "plus_space s = concat (map (\<lambda>c. if c = 43 then [37, 50, 48] else [c]) s)"

definition key_value :: "unit16 \<Rightarrow> jsstr \<Rightarrow> jsstr \<times> jsstr" where
  "key_value n v = (if n \<in> set v then (takeWhile (\<lambda>c. c \<noteq> n) v, tl (dropWhile (\<lambda>c. c \<noteq> n) v)) else (v, []))"

fun plain_pairs :: "unit16 \<Rightarrow> jsstr list \<Rightarrow> (jsstr \<times> qparsed) list \<Rightarrow> (jsstr \<times> qparsed) list option" where
  "plain_pairs n [] a = Some a"
| "plain_pairs n (p # ps) a =
     (let (f, v) = key_value n (plus_space p)
      in case decode_component f of None \<Rightarrow> None | Some d \<Rightarrow>
         case decode_component v of None \<Rightarrow> None | Some h \<Rightarrow> plain_pairs n ps (add_pair d h a))"

definition plain_parse :: "int \<Rightarrow> unit16 \<Rightarrow> unit16 \<Rightarrow> jsstr \<Rightarrow> (jsstr \<times> qparsed) list option" where
  "plain_parse mk t n e =
     (if e = [] then Some []
      else let l = js_split t e in plain_pairs n (if 0 < mk \<and> mk < int (length l) then take (nat mk) l else l) [])"

fun all_some :: "'a option list \<Rightarrow> 'a list option" where
  "all_some [] = Some []"
| "all_some (x # xs) = (case x of None \<Rightarrow> None | Some y \<Rightarrow> map_option (\<lambda>ys. y # ys) (all_some xs))"

fun plain_item :: "unit16 \<Rightarrow> unit16 \<Rightarrow> jsstr \<times> qval \<Rightarrow> jsstr option" where
  "plain_item t n (k, v) =
     (case encode_component k of
        None \<Rightarrow> None
      | Some u \<Rightarrow>
          let one = \<lambda>p. map_option (\<lambda>w. u @ n # w) (encode_component (prim_text p))
          in case v of QOne p \<Rightarrow> one p | QMany ps \<Rightarrow> map_option (js_join t) (all_some (map one ps)))"

definition plain_stringify :: "unit16 \<Rightarrow> unit16 \<Rightarrow> (jsstr \<times> qval) list \<Rightarrow> jsstr option" where
  "plain_stringify t n e = map_option (js_join t) (all_some (map (plain_item t n) e))"

subsection \<open>Escape and unescape of the codec of Node\<close>

definition qs_safe :: "nat \<Rightarrow> bool" where
  "qs_safe c \<longleftrightarrow> c = 33 \<or> c = 45 \<or> c = 46 \<or> c = 95 \<or> c = 126 \<or> 39 \<le> c \<and> c \<le> 42 \<or> 48 \<le> c \<and> c \<le> 57
     \<or> 65 \<le> c \<and> c \<le> 90 \<or> 97 \<le> c \<and> c \<le> 122"

definition str_slice :: "jsstr \<Rightarrow> nat \<Rightarrow> nat \<Rightarrow> jsstr" where
  "str_slice e v k = take (k - v) (drop v e)"

text \<open>
  The text up to \<open>n\<close> has been written to \<open>t\<close>. A surrogate takes the next unit along, whatever the two are;
  at the end of the text it throws.
\<close>

function escape_loop :: "jsstr \<Rightarrow> jsstr \<Rightarrow> nat \<Rightarrow> nat \<Rightarrow> (jsstr \<times> nat) option" where
  "escape_loop e t n r =
     (if r < length e then
        let c = unat (e ! r)
        in if qs_safe c then escape_loop e t n (r + 1)
           else
             let t = (if n < r then t @ str_slice e n r else t)
             in if c < 55296 \<or> 57344 \<le> c then escape_loop e (t @ concat (map percent (utf8_of c))) (r + 1) (r + 1)
                else if r + 1 < length e then
                  let o' = 65536 + (c mod 1024 * 1024 + unat (e ! (r + 1)) mod 1024)
                  in escape_loop e (t @ concat (map percent (utf8_of o'))) (r + 2) (r + 2)
                else None
      else Some (t, n))"
  by pat_completeness auto
termination by (relation "measure (\<lambda>(e, t, n, r). length e - r)") auto

declare escape_loop.simps [simp del]

definition qs_escape :: "jsstr \<Rightarrow> jsstr option" where
  "qs_escape e =
     (case escape_loop e [] 0 0 of
        None \<Rightarrow> None
      | Some (t, n) \<Rightarrow> Some (if n = 0 then e else if n < length e then t @ drop n e else t))"

text \<open>
  The state machine of \<open>unescapeBuffer\<close>: nothing pending, a per cent sign, and a per cent sign with the
  first digit. The end of the text counts as a character that is no digit, which is cut off again.
\<close>

datatype un_state = Un0 | Un1 | Un2 unit16

fun unescape_machine :: "bool \<Rightarrow> un_state \<Rightarrow> jsstr \<Rightarrow> buffer" where
  "unescape_machine t Un0 [] = []"
| "unescape_machine t Un1 [] = [37]"
| "unescape_machine t (Un2 i) [] = [37, ucast i]"
| "unescape_machine t Un0 (c # s) =
     (if c = 37 then unescape_machine t Un1 s else ucast (if c = 43 \<and> t then 32 else c) # unescape_machine t Un0 s)"
| "unescape_machine t Un1 (c # s) =
     (if is_hex c then unescape_machine t (Un2 c) s else 37 # ucast c # unescape_machine t Un0 s)"
| "unescape_machine t (Un2 i) (c # s) =
     (if is_hex c then of_nat (16 * hex_val i + hex_val c) # unescape_machine t Un0 s
      else 37 # ucast i # ucast c # unescape_machine t Un0 s)"

definition unescape_buffer :: "jsstr \<Rightarrow> bool \<Rightarrow> buffer" where
  "unescape_buffer e t = unescape_machine t Un0 e"

definition qs_unescape :: "jsstr \<Rightarrow> bool \<Rightarrow> jsstr" where
  "qs_unescape e t =
     (case decode_component e of
        Some d \<Rightarrow> d
      | None \<Rightarrow> let b = unescape_buffer e t in utf8_slice b 0 (length b))"

subsection \<open>Writing\<close>

text \<open>The separators are inserted by position: none behind the last value of a key and behind the last key.\<close>

definition with_sep :: "jsstr \<Rightarrow> bool \<Rightarrow> jsstr" where
  "with_sep t again = (if again then t else [])"

fun qs_values :: "jsstr \<Rightarrow> jsstr \<Rightarrow> qprim list \<Rightarrow> jsstr option" where
  "qs_values t h [] = Some []"
| "qs_values t h (d # ds) =
     (case qs_escape (prim_text d) of
        None \<Rightarrow> None
      | Some w \<Rightarrow> map_option (\<lambda>c. h @ w @ with_sep t (ds \<noteq> []) @ c) (qs_values t h ds))"

fun qs_stringify :: "jsstr \<Rightarrow> jsstr \<Rightarrow> (jsstr \<times> qval) list \<Rightarrow> jsstr option" where
  "qs_stringify t n [] = Some []"
| "qs_stringify t n ((p, d) # e) =
     (case qs_escape p of
        None \<Rightarrow> None
      | Some h \<Rightarrow>
          let vs = (case d of QOne x \<Rightarrow> [x] | QMany xs \<Rightarrow> xs)
          in case qs_values t (h @ n) vs of
              None \<Rightarrow> None
            | Some c \<Rightarrow> map_option (\<lambda>r. c @ with_sep t (vs \<noteq> [] \<and> e \<noteq> []) @ r) (qs_stringify t n e))"

subsection \<open>Parsing in one pass\<close>

text \<open>
  The variables of the loop: \<open>f\<close> counts the pairs down (\<open>None\<close> is infinity), \<open>v\<close> is where the text not yet
  copied begins, \<open>m\<close> and \<open>g\<close> count the matched units of the separators, \<open>y\<close> and \<open>b\<close> are key and value, \<open>_\<close>
  and \<open>w\<close> say whether they need decoding, and \<open>E\<close> counts the units of an escape.
  The object \<open>a\<close> has own properties, \<open>sc_a\<close>, and a prototype, \<open>sc_proto\<close>: \<open>None\<close> as long as no key
  \<open>__proto__\<close> has been read; the first one changes nothing, \<open>Some []\<close>; the next one makes the array of
  \<open>Object.prototype\<close> and its text the prototype of the object, and the others go on in that array.
\<close>

record scan =
  sc_f :: "nat option"
  sc_a :: "(jsstr \<times> qparsed) list"
  sc_proto :: "jsstr list option"
  sc_v :: nat
  sc_m :: nat
  sc_g :: nat
  sc_y :: jsstr
  sc_b :: jsstr
  sc_ky :: bool
  sc_kb :: bool
  sc_E :: nat

definition track :: "unit16 \<Rightarrow> nat \<Rightarrow> nat \<times> bool" where
  "track c k = (if c = 37 then (1, False) else if 0 < k \<and> is_hex c then (k + 1, k = 2) else (0, False))"

definition track_value :: "unit16 \<Rightarrow> scan \<Rightarrow> scan" where
  "track_value c st = (if sc_kb st then st else let (k, found) = track c (sc_E st) in st\<lparr>sc_E := k, sc_kb := found\<rparr>)"

definition track_key :: "unit16 \<Rightarrow> scan \<Rightarrow> scan" where
  "track_key c st = (if sc_ky st then st else let (k, found) = track c (sc_E st) in st\<lparr>sc_E := k, sc_ky := found\<rparr>)"

definition on_plus :: "jsstr \<Rightarrow> jsstr \<Rightarrow> nat \<Rightarrow> scan \<Rightarrow> scan" where
  "on_plus e n x st =
     (if e ! x \<noteq> 43 then st
      else if sc_g st < length n then
        st\<lparr>sc_y := sc_y st @ str_slice e (sc_v st) x @ [37, 50, 48], sc_ky := True, sc_v := x + 1\<rparr>
      else st\<lparr>sc_b := sc_b st @ str_slice e (sc_v st) x @ [37, 50, 48], sc_kb := True, sc_v := x + 1\<rparr>)"

definition on_other :: "jsstr \<Rightarrow> jsstr \<Rightarrow> nat \<Rightarrow> scan \<Rightarrow> scan" where
  "on_other e n x st =
     (let c = e ! x; st = track_value c (st\<lparr>sc_m := 0\<rparr>)
      in if sc_g st < length n then
           if c = n ! sc_g st then
             let st = st\<lparr>sc_g := sc_g st + 1\<rparr>
             in if sc_g st = length n
                then st\<lparr>sc_y := sc_y st @ str_slice e (sc_v st) (x + 1 - sc_g st), sc_E := 0, sc_v := x + 1\<rparr>
                else st
           else on_plus e n x (track_key c (st\<lparr>sc_g := 0\<rparr>))
         else on_plus e n x st)"

definition add_proto :: "jsstr \<Rightarrow> jsstr \<Rightarrow> jsstr list option \<Rightarrow> jsstr list option" where
  "add_proto y b p =
     (if y = js ''__proto__'' then Some (case p of None \<Rightarrow> [] | Some bs \<Rightarrow> bs @ [b]) else p)"

text \<open>\<open>l\<close> with the default \<open>unescape\<close>, which never throws; then the pair is stored.\<close>

definition store_pair :: "scan \<Rightarrow> scan" where
  "store_pair st =
     (let y = (if sc_ky st then qs_unescape (sc_y st) False else sc_y st);
          b = (if sc_kb st then qs_unescape (sc_b st) False else sc_b st)
      in st\<lparr>sc_a := add_pair y b (sc_a st), sc_proto := add_proto y b (sc_proto st)\<rparr>)"

definition fresh :: "scan \<Rightarrow> scan" where
  "fresh st = st\<lparr>sc_m := 0, sc_g := 0, sc_y := [], sc_b := [], sc_ky := False, sc_kb := False, sc_E := 0\<rparr>"

text \<open>The end of a pair in front of a separator, and at the end of the text.\<close>

definition end_pair :: "jsstr \<Rightarrow> jsstr \<Rightarrow> nat \<Rightarrow> scan \<Rightarrow> scan" where
  "end_pair e n k st =
     store_pair (if sc_g st < length n then st\<lparr>sc_y := sc_y st @ str_slice e (sc_v st) k\<rparr>
       else st\<lparr>sc_b := sc_b st @ str_slice e (sc_v st) k\<rparr>)"

function scan_loop :: "jsstr \<Rightarrow> jsstr \<Rightarrow> jsstr \<Rightarrow> nat \<Rightarrow> scan \<Rightarrow> scan" where
  "scan_loop e t n x st =
     (if x < length e then
        if e ! x \<noteq> t ! sc_m st then scan_loop e t n (x + 1) (on_other e n x st)
        else
          let st = st\<lparr>sc_m := sc_m st + 1\<rparr>
          in if sc_m st = length t then
               let st = end_pair e n (x + 1 - sc_m st) st; st = st\<lparr>sc_f := map_option (\<lambda>f. f - 1) (sc_f st)\<rparr>
               in if sc_f st = Some 0 then st
                  else scan_loop e t n (x + 1) ((fresh st)\<lparr>sc_v := x + 1\<rparr>)
             else scan_loop e t n (x + 1) st
      else st)"
  by pat_completeness auto
termination by (relation "measure (\<lambda>(e, t, n, x, st). length e - x)") auto

declare scan_loop.simps [simp del]

definition scan_init :: "int \<Rightarrow> scan" where
  "scan_init mk = \<lparr>sc_f = (if 0 < mk then Some (nat mk) else None), sc_a = [], sc_proto = None, sc_v = 0, sc_m = 0, sc_g = 0,
     sc_y = [], sc_b = [], sc_ky = False, sc_kb = False, sc_E = 0\<rparr>"

definition qs_scan :: "int \<Rightarrow> jsstr \<Rightarrow> jsstr \<Rightarrow> jsstr \<Rightarrow> scan" where
  "qs_scan mk t n e =
     (let st = scan_loop e t n 0 (scan_init mk)
      in if sc_f st \<noteq> Some 0 \<and> (sc_v st < length e \<or> 0 < sc_g st) then end_pair e n (length e) st else st)"

text \<open>The own properties of the object that is returned, and its prototype.\<close>

definition qs_parse :: "int \<Rightarrow> jsstr \<Rightarrow> jsstr \<Rightarrow> jsstr \<Rightarrow> (jsstr \<times> qparsed) list" where
  "qs_parse mk t n e = sc_a (qs_scan mk t n e)"

definition qs_parse_proto :: "int \<Rightarrow> jsstr \<Rightarrow> jsstr \<Rightarrow> jsstr \<Rightarrow> jsstr list option" where
  "qs_parse_proto mk t n e = sc_proto (qs_scan mk t n e)"

end
