(* ===== verification/QsCode.thy ===== *)
theory QsCode
  imports QueryString
begin

section \<open>Escaping query strings (swagger-ui-bundle.js, querystring-browser)\<close>

text \<open>
  The escape function of the client computes \<open>encodeURIComponent\<close> wherever that is defined, and both
  decoders invert it.
\<close>

subsection \<open>Escapes of one code point\<close>

lemma hex_digit_val: "d < 16 \<Longrightarrow> is_hex (hex_digit d) \<and> hex_val (hex_digit d) = d"
proof -
  have "\<forall>d\<in>set [0..<16]. is_hex (hex_digit d) \<and> hex_val (hex_digit d) = d" by code_simp
  then show "d < 16 \<Longrightarrow> ?thesis" by simp
qed

lemma read_percent_percent [simp]: "b < 256 \<Longrightarrow> read_percent (percent b @ r) = Some (b, r)"
  using hex_digit_val [of "b div 16"] hex_digit_val [of "b mod 16"] by (simp add: read_percent_def percent_def)

lemma percent_Cons: "percent b @ r = 37 # hex_digit (b div 16) # hex_digit (b mod 16) # r"
  by (simp add: percent_def)

lemma decode_other [simp]: "c \<noteq> 37 \<Longrightarrow> decode_component (c # s) = map_option (\<lambda>r. c # r) (decode_component s)"
  by (subst decode_component.simps) simp

lemma decode_Nil [simp]: "decode_component [] = Some []"
  by (subst decode_component.simps) simp

lemma decode_percent:
  "b < 256 \<Longrightarrow> decode_component (percent b @ r) =
     (if b < 128 then map_option (\<lambda>r. of_nat b # r) (decode_component r)
      else case read_point b r of
          None \<Rightarrow> None
        | Some (e, r') \<Rightarrow> map_option (\<lambda>r. from_code_point (Some e) @ r) (decode_component r'))"
  using read_percent_percent [of b r]
  by (subst decode_component.simps) (simp add: percent_Cons del: read_percent_percent)

lemma read_more_percent [simp]:
  "b < 256 \<Longrightarrow> b div 64 = 2 \<Longrightarrow> read_more (Suc n) v (percent b @ r) = read_more n (v * 64 + b mod 64) r"
  by simp

definition scalar_point :: "nat \<Rightarrow> bool" where
  "scalar_point n \<longleftrightarrow> n < 1114112 \<and> \<not> (55296 \<le> n \<and> n \<le> 57343)"

lemma tail_byte:
  "128 + (n :: nat) mod 64 < 256" "(128 + n mod 64) div 64 = 2" "(128 + n mod 64) mod 64 = n mod 64"
proof -
  have n: "n mod 64 < 64" by simp
  show "128 + n mod 64 < 256" using n by linarith
  have "(n mod 64 + 64 * 2) mod 64 = n mod 64 mod 64" by (rule mod_mult_self2)
  then show "(128 + n mod 64) mod 64 = n mod 64" by (simp add: add.commute)
  show "(128 + n mod 64) div 64 = 2" using n by (simp add: div_nat_eqI)
qed

lemma read_tail: "read_more (Suc j) v (percent (128 + k mod 64) @ r) = read_more j (v * 64 + k mod 64) r"
  by (simp add: tail_byte)

lemma tail_digits:
  "(n :: nat) div 64 * 64 + n mod 64 = n"
  "(n div 4096 * 64 + n div 64 mod 64) * 64 + n mod 64 = n"
  "((n div 262144 * 64 + n div 4096 mod 64) * 64 + n div 64 mod 64) * 64 + n mod 64 = n"
proof -
  have d: "n div 4096 = n div 64 div 64" "n div 262144 = n div 64 div 64 div 64" by (simp_all add: div_mult2_eq [symmetric])
  show "n div 64 * 64 + n mod 64 = n" "(n div 4096 * 64 + n div 64 mod 64) * 64 + n mod 64 = n"
    "((n div 262144 * 64 + n div 4096 mod 64) * 64 + n div 64 mod 64) * 64 + n mod 64 = n"
    by (simp_all only: d div_mult_mod_eq)
qed

lemma lead_byte:
  "q < 32 \<Longrightarrow> (192 + q) div 32 = 6 \<and> (192 + q) mod 32 = q \<and> (192 + q) div 64 = (3 :: nat)"
  "q < 16 \<Longrightarrow> (224 + q) div 32 = 7 \<and> (224 + q) div 16 = 14 \<and> (224 + q) mod 16 = q \<and> (224 + q) div 64 = 3"
  "q < 8 \<Longrightarrow> (240 + q) div 32 = 7 \<and> (240 + q) div 16 = 15 \<and> (240 + q) mod 8 = q \<and> (240 + q) div 64 = 3"
  by (auto intro!: div_nat_eqI simp: mod_if)

lemma decode_point:
  assumes "scalar_point n"
  shows "decode_component (concat (map percent (utf8_of n)) @ r)
    = map_option (\<lambda>r. from_code_point (Some n) @ r) (decode_component r)"
proof -
  consider "n < 128" | "128 \<le> n" "n < 2048" | "2048 \<le> n" "n < 65536" | "65536 \<le> n" by linarith
  then show ?thesis
  proof cases
    case 1
    then show ?thesis by (simp add: utf8_of_def decode_percent from_code_point_def)
  next
    case 2
    have "n div 64 < 32" using 2 by simp
    note b = lead_byte(1) [OF this]
    then show ?thesis using 2 \<open>n div 64 < 32\<close>
      by (simp add: utf8_of_def decode_percent read_point_def tail_byte tail_digits del: read_more.simps(2))
  next
    case 3
    have q: "n div 4096 < 16" using 3 by simp
    note b = lead_byte(2) [OF q]
    have "\<not> (55296 \<le> n \<and> n \<le> 57343)" using assms by (simp add: scalar_point_def)
    moreover have "read_more 2 (n div 4096) (percent (128 + n div 64 mod 64) @ percent (128 + n mod 64) @ r) = Some (n, r)"
      by (simp only: numeral_2_eq_2 read_tail read_more.simps(1) tail_digits)
    ultimately have "read_point (224 + n div 4096) (percent (128 + n div 64 mod 64) @ percent (128 + n mod 64) @ r) = Some (n, r)"
      using 3 b q by (simp add: read_point_def del: read_more.simps)
    moreover have "utf8_of n = [224 + n div 4096, 128 + n div 64 mod 64, 128 + n mod 64]" using 3 by (simp add: utf8_of_def)
    ultimately show ?thesis using decode_percent [of "224 + n div 4096"] q by simp
  next
    case 4
    have n: "n < 1114112" using assms by (simp add: scalar_point_def)
    have q: "n div 262144 < 8" using n by simp
    note b = lead_byte(3) [OF q]
    have "read_more 3 (n div 262144)
        (percent (128 + n div 4096 mod 64) @ percent (128 + n div 64 mod 64) @ percent (128 + n mod 64) @ r) = Some (n, r)"
      by (simp only: numeral_3_eq_3 read_tail read_more.simps(1) tail_digits)
    then have "read_point (240 + n div 262144)
        (percent (128 + n div 4096 mod 64) @ percent (128 + n div 64 mod 64) @ percent (128 + n mod 64) @ r) = Some (n, r)"
      using 4 n q b by (simp add: read_point_def del: read_more.simps)
    moreover have "utf8_of n = [240 + n div 262144, 128 + n div 4096 mod 64, 128 + n div 64 mod 64, 128 + n mod 64]"
      using 4 by (simp add: utf8_of_def)
    ultimately show ?thesis using decode_percent [of "240 + n div 262144"] q by simp
  qed
qed

subsection \<open>Encoding\<close>

lemma lead_is: "lead c = is_lead c" "trail c = is_trail c"
proof -
  have "uint c = int (unat c)" by (rule uint_nat)
  then show "lead c = is_lead c" "trail c = is_trail c"
    unfolding lead_def trail_def is_lead_def is_trail_def by (intro iffI conjI; elim conjE; linarith)+
qed

lemma unit_eq: assumes k: "k < 65536" shows "unat (c :: unit16) = k \<longleftrightarrow> c = of_nat k"
proof
  { assume "unat c = k"
    then show "c = of_nat k" by auto }
  assume "c = of_nat k"
  then show "unat c = k" using k by (simp add: unat_of_nat take_bit_nat_eq_self)
qed

lemma comp_safe: "comp_unescaped c = qs_safe (unat c)"
proof -
  have j: "js (''-_.!~*()'' @ [CHR 0x27]) = [45, 95, 46, 33, 126, 42, 40, 41, 39]" by code_simp
  have r: "39 \<le> unat c \<and> unat c \<le> 42 \<longleftrightarrow> unat c = 39 \<or> unat c = 40 \<or> unat c = 41 \<or> unat c = 42" by auto
  have e: "unat c = 33 \<longleftrightarrow> c = 33" "unat c = 45 \<longleftrightarrow> c = 45" "unat c = 46 \<longleftrightarrow> c = 46" "unat c = 95 \<longleftrightarrow> c = 95"
    "unat c = 126 \<longleftrightarrow> c = 126" "unat c = 39 \<longleftrightarrow> c = 39" "unat c = 40 \<longleftrightarrow> c = 40" "unat c = 41 \<longleftrightarrow> c = 41"
    "unat c = 42 \<longleftrightarrow> c = 42"
    by (simp_all only: unit_eq) simp_all
  show ?thesis unfolding comp_unescaped_def qs_safe_def is_alnum_def code_alnum_def j r e by auto
qed

lemma pair_point:
  assumes "lead c" "trail d"
  shows "scalar_point (65536 + (unat c - 55296) * 1024 + (unat d - 56320))"
    "from_code_point (Some (65536 + (unat c - 55296) * 1024 + (unat d - 56320))) = [c, d]"
proof -
  define p q where "p = unat c - 55296" and "q = unat d - 56320"
  have p: "unat c = 55296 + p" "p < 1024" and q: "unat d = 56320 + q" "q < 1024"
    using assms unfolding p_def q_def lead_def trail_def by linarith+
  have "65536 + p * 1024 + q < 1114112" using p(2) q(2) by linarith
  then show "scalar_point (65536 + (unat c - 55296) * 1024 + (unat d - 56320))"
    by (simp add: scalar_point_def flip: p_def q_def)
  have "(p * 1024 + q) div 1024 = p" "(p * 1024 + q) mod 1024 = q" using q(2) by simp_all
  moreover have "c = of_nat (55296 + p)" by (rule iffD1 [OF unit_eq p(1)]) (use p(2) in simp)
  moreover have "d = of_nat (56320 + q)" by (rule iffD1 [OF unit_eq q(1)]) (use q(2) in simp)
  ultimately show "from_code_point (Some (65536 + (unat c - 55296) * 1024 + (unat d - 56320))) = [c, d]"
    unfolding p_def [symmetric] q_def [symmetric] by (simp add: from_code_point_def)
qed

lemma utf8_of_bytes: "scalar_point n \<Longrightarrow> b \<in> set (utf8_of n) \<Longrightarrow> b < 256"
  using tail_byte(1) [of n] tail_byte(1) [of "n div 64"] tail_byte(1) [of "n div 4096"]
  by (auto simp: utf8_of_def scalar_point_def split: if_splits)

text \<open>The characters that an encoded text consists of.\<close>

definition component_char :: "unit16 \<Rightarrow> bool" where
  "component_char c \<longleftrightarrow> c = 37 \<or> comp_unescaped c"

lemma percent_chars: "b < 256 \<Longrightarrow> list_all component_char (percent b)"
proof -
  have "\<forall>d\<in>set [0..<16]. component_char (hex_digit d)" by code_simp
  then show "b < 256 \<Longrightarrow> ?thesis" by (simp add: percent_def component_char_def [of 37])
qed

lemma point_chars: "scalar_point n \<Longrightarrow> list_all component_char (concat (map percent (utf8_of n)))"
  using percent_chars utf8_of_bytes by (force simp: list_all_iff)

lemma well_formed_lead: "well_formed (c # s) \<Longrightarrow> lead c \<Longrightarrow> \<exists>d s'. s = d # s' \<and> trail d \<and> well_formed s'"
  by (cases s) (auto simp: lead_is split: if_splits)

lemma well_formed_other: "well_formed (c # s) \<Longrightarrow> \<not> lead c \<Longrightarrow> \<not> trail c \<and> well_formed s"
  by (cases s) (auto simp: lead_is split: if_splits)

lemma encode_decodes:
  "well_formed s \<Longrightarrow> \<exists>r. encode_component s = Some r \<and> decode_component r = Some s \<and> list_all component_char r"
proof (induction s rule: encode_component.induct)
  case (2 c s)
  show ?case
  proof (cases "lead c")
    case True
    then obtain d s' where s: "s = d # s'" "trail d" "well_formed s'" using well_formed_lead 2(4) by blast
    have c: "\<not> comp_unescaped c" "\<not> trail c" using True by (auto simp: comp_safe qs_safe_def lead_def trail_def)
    obtain r where r: "encode_component s' = Some r" "decode_component r = Some s'" "list_all component_char r"
      using 2(2) [OF c True s(1,2,3)] by blast
    then show ?thesis using pair_point [OF True s(2)] point_chars c True s(2)
      by (simp add: s(1) decode_point)
  next
    case False
    note o' = well_formed_other [OF 2(4) False]
    have u: "unat c < 65536" by (rule order.strict_trans2 [OF unsigned_less]) simp
    then have p: "scalar_point (unat c)" using False o' by (auto simp: scalar_point_def lead_def trail_def)
    have f: "from_code_point (Some (unat c)) = [c]" using u by (simp add: from_code_point_def)
    show ?thesis
    proof (cases "comp_unescaped c")
      case True
      then have "c \<noteq> 37" "component_char c" by (auto simp: comp_safe qs_safe_def component_char_def)
      then show ?thesis using 2(1) [OF True] o' True by auto
    next
      case F: False
      then show ?thesis using 2(3) [OF F _ False] o' decode_point [OF p] f point_chars [OF p] False by auto
    qed
  qed
qed simp

lemma surrogate_mod:
  fixes u :: nat
  shows "55296 \<le> u \<Longrightarrow> u \<le> 56319 \<Longrightarrow> u mod 1024 = u - 55296"
    and "56320 \<le> u \<Longrightarrow> u \<le> 57343 \<Longrightarrow> u mod 1024 = u - 56320"
proof -
  have m: "(1024 * k + q) mod 1024 = q" if "q < 1024" for k q :: nat using that by simp
  show "55296 \<le> u \<Longrightarrow> u \<le> 56319 \<Longrightarrow> u mod 1024 = u - 55296" using m [of "u - 55296" 54] by simp
  show "56320 \<le> u \<Longrightarrow> u \<le> 57343 \<Longrightarrow> u mod 1024 = u - 56320" using m [of "u - 56320" 55] by simp
qed

lemma slice_step: "n \<le> r \<Longrightarrow> r < length e \<Longrightarrow> str_slice e n (r + 1) = str_slice e n r @ [e ! r]"
  by (simp add: str_slice_def Suc_diff_le take_Suc_conv_app_nth)

lemma slice_drop: "n \<le> r \<Longrightarrow> str_slice e n r @ drop r e = drop n e"
  unfolding str_slice_def by (metis append_take_drop_id drop_drop le_add_diff_inverse2)

lemma slice_empty [simp]: "r \<le> n \<Longrightarrow> str_slice e n r = []"
  by (simp add: str_slice_def)

text \<open>The loop has written the encoding of the text up to \<open>n\<close>, and the text from \<open>n\<close> to \<open>r\<close> needs none.\<close>

lemma escape_loop_encodes:
  "encode_component (drop r e) = Some z \<Longrightarrow> n \<le> r \<Longrightarrow> r \<le> length e \<Longrightarrow>
    \<exists>t' n'. escape_loop e t n r = Some (t', n') \<and> t' @ drop n' e = t @ str_slice e n r @ z \<and> n \<le> n' \<and> (n' = n \<longrightarrow> t' = t)"
proof (induction e t n r arbitrary: z rule: escape_loop.induct)
  case (1 e t n r)
  show ?case
  proof (cases "r < length e")
    case False
    then have "r = length e" using 1(6) by simp
    then show ?thesis using 1(4,5) slice_drop [of n r e] by (subst escape_loop.simps) simp
  next
    case True
    let ?c = "e ! r" and ?t = "if n < r then t @ str_slice e n r else t"
    have d: "drop r e = ?c # drop (r + 1) e" using True by (simp add: Cons_nth_drop_Suc)
    have t: "?t = t @ str_slice e n r" using 1(5) by auto
    show ?thesis
    proof (cases "qs_safe (unat ?c)")
      case safe: True
      obtain z' where z': "encode_component (drop (r + 1) e) = Some z'" "z = ?c # z'"
        using 1(4) safe by (auto simp: d comp_safe)
      have "\<exists>t' n'. escape_loop e t n (r + 1) = Some (t', n') \<and> t' @ drop n' e = t @ str_slice e n (r + 1) @ z'
          \<and> n \<le> n' \<and> (n' = n \<longrightarrow> t' = t)"
        using 1(1) [OF True refl safe z'(1)] 1(5) True by simp
      then show ?thesis using True safe slice_step [OF 1(5) True] z'(2)
        by (subst escape_loop.simps) (simp add: Let_def)
    next
      case unsafe: False
      then have nc: "\<not> comp_unescaped ?c" by (simp add: comp_safe)
      have nt: "\<not> trail ?c" using 1(4) nc by (auto simp: d)
      show ?thesis
      proof (cases "lead ?c")
        case False
        have c: "unat ?c < 55296 \<or> 57344 \<le> unat ?c" using False nt by (auto simp: lead_def trail_def)
        let ?p = "concat (map percent (utf8_of (unat ?c)))"
        obtain z' where z': "encode_component (drop (r + 1) e) = Some z'" "z = ?p @ z'"
          using 1(4) nc nt False by (auto simp: d)
        obtain t' n' where "escape_loop e (?t @ ?p) (r + 1) (r + 1) = Some (t', n')"
          "t' @ drop n' e = (?t @ ?p) @ str_slice e (r + 1) (r + 1) @ z'" "r + 1 \<le> n'"
          using 1(2) [OF True refl unsafe refl c z'(1)] True by auto
        moreover have "escape_loop e t n r = escape_loop e (?t @ ?p) (r + 1) (r + 1)"
          using True unsafe c by (subst escape_loop.simps) (simp add: Let_def)
        ultimately show ?thesis using 1(5) z'(2) by (simp add: t)
      next
        case l: True
        then have c: "\<not> (unat ?c < 55296 \<or> 57344 \<le> unat ?c)" by (auto simp: lead_def)
        obtain x s' where s': "drop (r + 1) e = x # s'" "trail x"
          using 1(4) nc nt l by (auto simp: d split: list.splits if_splits)
        have x1: "r + 1 < length e" using s'(1) by (cases "r + 1 < length e") auto
        then have "drop (r + 1) e = e ! (r + 1) # drop (r + 2) e" by (simp add: Cons_nth_drop_Suc)
        then have x: "r + 1 < length e" "e ! (r + 1) = x" "drop (r + 2) e = s'" using s'(1) x1 by simp_all
        let ?o = "65536 + (unat ?c mod 1024 * 1024 + unat x mod 1024)"
        have "unat ?c mod 1024 = unat ?c - 55296" "unat x mod 1024 = unat x - 56320"
          using l s'(2) surrogate_mod by (simp_all add: lead_def trail_def)
        then have o': "?o = 65536 + (unat ?c - 55296) * 1024 + (unat x - 56320)" by simp
        let ?p = "concat (map percent (utf8_of ?o))"
        obtain z' where z': "encode_component (drop (r + 2) e) = Some z'" "z = ?p @ z'"
          using 1(4) nc nt l s' x(3) unfolding d o' by auto
        obtain t' n' where "escape_loop e (?t @ ?p) (r + 2) (r + 2) = Some (t', n')"
          "t' @ drop n' e = (?t @ ?p) @ str_slice e (r + 2) (r + 2) @ z'" "r + 2 \<le> n'"
          using 1(3) [OF True refl unsafe refl c x(1) _ z'(1)] x by auto
        moreover have "escape_loop e t n r = escape_loop e (?t @ ?p) (r + 2) (r + 2)"
          using True unsafe c x by (subst escape_loop.simps) (simp add: Let_def)
        ultimately show ?thesis using 1(5) z'(2) by (simp add: t)
      qed
    qed
  qed
qed

lemma escape_is_encode: "encode_component s = Some r \<Longrightarrow> qs_escape s = Some r"
  using escape_loop_encodes [of 0 s r 0 "[]"] by (force simp: qs_escape_def)

end
