(* ===== verification/QueryStrings.thy ===== *)
theory QueryStrings
  imports QsCode
begin

section \<open>Query strings: the parser in one pass (swagger-ui-bundle.js, querystring-browser)\<close>

text \<open>
  With separators of one character, the loop over the text does to each pair what the plain parser
  does to the pieces of a split text. The proof follows the loop over one pair: through the key,
  the separator, and the value.
\<close>

subsection \<open>When to decode\<close>

definition has_escape :: "jsstr \<Rightarrow> bool" where
  "has_escape z \<longleftrightarrow> (\<exists>p a b r. z = p @ 37 # a # b # r \<and> is_hex a \<and> is_hex b)"

lemma plus_space_simps [simp]:
  "plus_space [] = []" "plus_space (c # s) = (if c = 43 then [37, 50, 48] else [c]) @ plus_space s"
  "plus_space (s @ t) = plus_space s @ plus_space t"
  by (simp_all add: plus_space_def)

lemma plus_space_no: "43 \<notin> set s \<Longrightarrow> plus_space s = s"
  by (induction s) auto

lemma plus_space_in: "c \<notin> {37, 48, 50} \<Longrightarrow> c \<in> set (plus_space s) \<longleftrightarrow> c \<noteq> 43 \<and> c \<in> set s"
  by (induction s) auto

lemma decode_no_escape: "37 \<notin> set s \<Longrightarrow> decode_component s = Some s"
  by (induction s) auto

lemma decode_append_no: "37 \<notin> set p \<Longrightarrow> decode_component (p @ s) = map_option (\<lambda>r. p @ r) (decode_component s)"
  by (cases "decode_component s"; induction p) auto

lemma decodable_escape:
  assumes "decode_component z = Some d" "37 \<in> set z"
  shows "has_escape z"
proof -
  obtain p r where z: "z = p @ 37 # r" "37 \<notin> set p" using split_list_first [OF assms(2)] by blast
  have "decode_component (37 # r) \<noteq> None" using assms(1) by (auto simp: z decode_append_no)
  then have "read_percent (37 # r) \<noteq> None" by (subst (asm) decode_component.simps) (auto split: option.splits)
  then obtain a b r' where "r = a # b # r'" "is_hex a" "is_hex b"
    by (auto simp: read_percent_def split: list.splits if_splits)
  then show ?thesis unfolding has_escape_def z by blast
qed

lemma decode_flag:
  assumes "decode_component (plus_space z) = Some d" "\<not> flag \<longrightarrow> 43 \<notin> set z \<and> \<not> has_escape z"
  shows "(if flag then qs_unescape (plus_space z) False else plus_space z) = d"
proof (cases flag)
  case True
  then show ?thesis using assms(1) by (simp add: qs_unescape_def)
next
  case False
  then have z: "plus_space z = z" "\<not> has_escape z" using assms(2) plus_space_no by auto
  then have "37 \<notin> set z" using decodable_escape assms(1) by auto
  then show ?thesis using decode_no_escape assms(1) False z by simp
qed

subsection \<open>One step\<close>

definition scan_steps :: "jsstr \<Rightarrow> nat \<Rightarrow> nat \<Rightarrow> scan \<Rightarrow> scan" where
  "scan_steps e x k st = fold (on_other e [61]) [x..<x + k] st"

lemma scan_steps_0 [simp]: "scan_steps e x 0 st = st"
  by (simp add: scan_steps_def)

lemma scan_steps_Suc: "scan_steps e x (Suc k) st = on_other e [61] (x + k) (scan_steps e x k st)"
  by (simp add: scan_steps_def)

lemma scan_steps_add: "scan_steps e x (j + k) st = scan_steps e (x + j) k (scan_steps e x j st)"
  by (induction k) (simp_all add: scan_steps_Suc add.assoc)

lemma track_frame [simp]:
  "sc_f (track_value c st) = sc_f st" "sc_a (track_value c st) = sc_a st" "sc_v (track_value c st) = sc_v st"
  "sc_m (track_value c st) = sc_m st" "sc_g (track_value c st) = sc_g st" "sc_y (track_value c st) = sc_y st"
  "sc_b (track_value c st) = sc_b st" "sc_ky (track_value c st) = sc_ky st"
  "sc_f (track_key c st) = sc_f st" "sc_a (track_key c st) = sc_a st" "sc_v (track_key c st) = sc_v st"
  "sc_m (track_key c st) = sc_m st" "sc_g (track_key c st) = sc_g st" "sc_y (track_key c st) = sc_y st"
  "sc_b (track_key c st) = sc_b st" "sc_kb (track_key c st) = sc_kb st"
  by (simp_all add: track_value_def track_key_def case_prod_unfold Let_def)

text \<open>What all steps inside a pair leave alone.\<close>

lemma step_frame [simp]:
  "sc_f (on_other e n x st) = sc_f st" "sc_a (on_other e n x st) = sc_a st" "sc_m (on_other e n x st) = 0"
  by (simp_all add: on_other_def on_plus_def Let_def)

lemma scan_steps_frame [simp]:
  "sc_f (scan_steps e x k st) = sc_f st" "sc_a (scan_steps e x k st) = sc_a st" "sc_m st = 0 \<Longrightarrow> sc_m (scan_steps e x k st) = 0"
  by (induction k) (simp_all add: scan_steps_Suc)

text \<open>The text of a part up to \<open>x\<close>, when \<open>t\<close> has been copied.\<close>

lemma slice_snoc: "v \<le> x \<Longrightarrow> x < length e \<Longrightarrow> str_slice e v (x + 1) = str_slice e v x @ [e ! x]"
  by (rule slice_step)

definition key_inv :: "jsstr \<Rightarrow> nat \<Rightarrow> jsstr \<Rightarrow> scan \<Rightarrow> bool" where
  "key_inv e x k st \<longleftrightarrow> sc_g st = 0 \<and> sc_v st \<le> x \<and> sc_y st @ str_slice e (sc_v st) x = k \<and> sc_b st = []"

definition value_inv :: "jsstr \<Rightarrow> nat \<Rightarrow> jsstr \<Rightarrow> jsstr \<Rightarrow> scan \<Rightarrow> bool" where
  "value_inv e x k b st \<longleftrightarrow> sc_g st = 1 \<and> sc_v st \<le> x \<and> sc_y st = k \<and> sc_b st @ str_slice e (sc_v st) x = b"

lemma key_step:
  assumes "key_inv e x k st" "x < length e" "e ! x \<noteq> 61"
  shows "key_inv e (x + 1) (k @ plus_space [e ! x]) (on_other e [61] x st)"
    "sc_ky st \<or> e ! x = 43 \<Longrightarrow> sc_ky (on_other e [61] x st)"
    "e ! x \<noteq> 43 \<Longrightarrow> sc_v (on_other e [61] x st) = sc_v st"
proof -
  have st: "sc_g st = 0" "sc_v st \<le> x" "sc_b st = []" using assms(1) by (simp_all add: key_inv_def)
  have k: "k = sc_y st @ str_slice e (sc_v st) x" using assms(1) by (simp add: key_inv_def)
  have [simp]: "str_slice e (sc_v st) (Suc x) = str_slice e (sc_v st) x @ [e ! x]" using slice_snoc [OF st(2) assms(2)] by simp
  show "key_inv e (x + 1) (k @ plus_space [e ! x]) (on_other e [61] x st)"
    using st assms(3) by (simp add: k key_inv_def on_other_def on_plus_def Let_def)
  show "sc_ky st \<or> e ! x = 43 \<Longrightarrow> sc_ky (on_other e [61] x st)"
    using st assms(3) by (auto simp: on_other_def on_plus_def Let_def track_key_def case_prod_unfold)
  show "e ! x \<noteq> 43 \<Longrightarrow> sc_v (on_other e [61] x st) = sc_v st"
    using st assms(3) by (simp add: on_other_def on_plus_def Let_def)
qed

lemma value_step:
  assumes "value_inv e x k b st" "x < length e"
  shows "value_inv e (x + 1) k (b @ plus_space [e ! x]) (on_other e [61] x st)"
    "sc_ky (on_other e [61] x st) = sc_ky st"
    "sc_kb st \<or> e ! x = 43 \<Longrightarrow> sc_kb (on_other e [61] x st)"
proof -
  have st: "sc_g st = 1" "sc_v st \<le> x" "sc_y st = k" using assms(1) by (simp_all add: value_inv_def)
  have b: "b = sc_b st @ str_slice e (sc_v st) x" using assms(1) by (simp add: value_inv_def)
  have [simp]: "str_slice e (sc_v st) (Suc x) = str_slice e (sc_v st) x @ [e ! x]" using slice_snoc [OF st(2) assms(2)] by simp
  show "value_inv e (x + 1) k (b @ plus_space [e ! x]) (on_other e [61] x st)"
    using st by (simp add: b value_inv_def on_other_def on_plus_def Let_def)
  show "sc_ky (on_other e [61] x st) = sc_ky st"
    using st by (simp add: on_other_def on_plus_def Let_def)
  show "sc_kb st \<or> e ! x = 43 \<Longrightarrow> sc_kb (on_other e [61] x st)"
    using st by (auto simp: on_other_def on_plus_def Let_def track_value_def case_prod_unfold)
qed

text \<open>Three characters of an escape raise the flag.\<close>

lemma hex_other: "is_hex c \<Longrightarrow> c \<noteq> 37 \<and> c \<noteq> 43 \<and> c \<noteq> 61"
  by (auto simp: is_hex_def is_digit_def)

lemma scan_steps_3: "scan_steps e x 3 st = on_other e [61] (Suc (Suc x)) (on_other e [61] (Suc x) (on_other e [61] x st))"
  by (simp add: scan_steps_def numeral_3_eq_3)

lemma key_tracks:
  assumes "sc_g st = 0"
  shows "e ! x = 37 \<Longrightarrow> sc_ky (on_other e [61] x st) \<or> sc_E (on_other e [61] x st) = 1"
    "is_hex (e ! x) \<Longrightarrow> sc_ky st \<or> sc_E st = 1 \<Longrightarrow>
      sc_ky (on_other e [61] x st) \<or> sc_kb (on_other e [61] x st) \<and> sc_E (on_other e [61] x st) = 2"
    "is_hex (e ! x) \<Longrightarrow> sc_ky st \<or> sc_kb st \<and> sc_E st = 2 \<Longrightarrow> sc_ky (on_other e [61] x st)"
    "e ! x = 37 \<or> is_hex (e ! x) \<Longrightarrow> sc_g (on_other e [61] x st) = 0"
  using assms hex_other [of "e ! x"]
  by (auto simp: on_other_def on_plus_def Let_def track_value_def track_key_def track_def)

lemma key_escape:
  assumes "sc_g st = 0" "e ! x = 37" "is_hex (e ! Suc x)" "is_hex (e ! Suc (Suc x))"
  shows "sc_ky (scan_steps e x 3 st)"
proof -
  let ?a = "on_other e [61] x st"
  let ?b = "on_other e [61] (Suc x) ?a"
  have a: "sc_g ?a = 0" "sc_ky ?a \<or> sc_E ?a = 1" using key_tracks [OF assms(1), of e x] assms(2) by simp_all
  have "sc_g ?b = 0" "sc_ky ?b \<or> sc_kb ?b \<and> sc_E ?b = 2" using key_tracks [OF a(1), of e "Suc x"] assms(3) a(2) by blast+
  then show ?thesis using key_tracks(3) [of ?b e "Suc (Suc x)"] assms(4) by (simp add: scan_steps_3)
qed

lemma value_tracks:
  assumes "sc_g st = 1"
  shows "e ! x = 37 \<Longrightarrow> sc_kb (on_other e [61] x st) \<or> sc_E (on_other e [61] x st) = 1"
    "is_hex (e ! x) \<Longrightarrow> sc_kb st \<or> sc_E st = k \<and> 0 < k \<Longrightarrow> sc_kb (on_other e [61] x st) \<or> sc_E (on_other e [61] x st) = k + 1 \<and> k \<noteq> 2"
    "sc_g (on_other e [61] x st) = 1"
  using assms hex_other [of "e ! x"]
  by (auto simp: on_other_def on_plus_def Let_def track_value_def track_def)

lemma value_escape:
  assumes "sc_g st = 1" "e ! x = 37" "is_hex (e ! Suc x)" "is_hex (e ! Suc (Suc x))"
  shows "sc_kb (scan_steps e x 3 st)"
proof -
  let ?a = "on_other e [61] x st"
  let ?b = "on_other e [61] (Suc x) ?a"
  have a: "sc_g ?a = 1" "sc_kb ?a \<or> sc_E ?a = 1 \<and> 0 < (1 :: nat)" using value_tracks [OF assms(1), of e x] assms(2) by simp_all
  have "sc_g ?b = 1" "sc_kb ?b \<or> sc_E ?b = 2 \<and> 0 < (2 :: nat)"
    using value_tracks(2) [OF a(1) assms(3) a(2)] value_tracks(3) [OF a(1)] by (auto simp: numeral_2_eq_2)
  then show ?thesis using value_tracks(2) [of ?b e "Suc (Suc x)" 2] assms(4) by (auto simp: scan_steps_3)
qed

subsection \<open>One part\<close>

lemma slice_nth: "x + k \<le> length e \<Longrightarrow> i < k \<Longrightarrow> str_slice e x (x + k) ! i = e ! (x + i)"
  by (simp add: str_slice_def)

lemma length_slice: "x + k \<le> length e \<Longrightarrow> length (str_slice e x (x + k)) = k"
  by (simp add: str_slice_def)

text \<open>An escape in a part ends three steps behind its per cent sign.\<close>

lemma escape_at:
  assumes "has_escape (str_slice e x (x + k))" "x + k \<le> length e"
  obtains i where "i + 3 \<le> k" "e ! (x + i) = 37" "is_hex (e ! Suc (x + i))" "is_hex (e ! Suc (Suc (x + i)))"
proof -
  obtain p a b r where z: "str_slice e x (x + k) = p @ 37 # a # b # r" "is_hex a" "is_hex b"
    using assms(1) by (auto simp: has_escape_def)
  let ?i = "length p"
  have "length (str_slice e x (x + k)) = k" by (rule length_slice [OF assms(2)])
  then have i: "?i + 3 \<le> k" by (simp add: z(1))
  have "e ! (x + ?i) = 37" "e ! (x + (?i + 1)) = a" "e ! (x + (?i + 2)) = b"
    using slice_nth [OF assms(2), of ?i] slice_nth [OF assms(2), of "?i + 1"] slice_nth [OF assms(2), of "?i + 2"] i
    by (simp_all add: z(1) nth_append)
  then show thesis using that [OF i] z(2,3) by simp
qed

lemma slice_Suc: "x + k < length e \<Longrightarrow> str_slice e x (Suc (x + k)) = str_slice e x (x + k) @ [e ! (x + k)]"
  using slice_snoc [of x "x + k" e] by simp

lemma key_run:
  assumes "key_inv e x q st" "x + k \<le> length e" "61 \<notin> set (str_slice e x (x + k))"
  shows "key_inv e (x + k) (q @ plus_space (str_slice e x (x + k))) (scan_steps e x k st)
    \<and> (sc_ky st \<or> 43 \<in> set (str_slice e x (x + k)) \<longrightarrow> sc_ky (scan_steps e x k st))"
  using assms(2,3)
proof (induction k)
  case (Suc k)
  have k: "x + k < length e" using Suc(2) by simp
  note z = slice_Suc [OF k]
  have i: "key_inv e (x + k) (q @ plus_space (str_slice e x (x + k))) (scan_steps e x k st)"
    "sc_ky st \<or> 43 \<in> set (str_slice e x (x + k)) \<longrightarrow> sc_ky (scan_steps e x k st)" and c: "e ! (x + k) \<noteq> 61"
    using Suc by (auto simp: z)
  show ?case using key_step [OF i(1) k c] i(2) by (auto simp: scan_steps_Suc z)
qed (use assms(1) in simp)

lemma value_run:
  assumes "value_inv e x q b st" "x + k \<le> length e"
  shows "value_inv e (x + k) q (b @ plus_space (str_slice e x (x + k))) (scan_steps e x k st)
    \<and> sc_ky (scan_steps e x k st) = sc_ky st \<and> (sc_kb st \<or> 43 \<in> set (str_slice e x (x + k)) \<longrightarrow> sc_kb (scan_steps e x k st))"
  using assms(2)
proof (induction k)
  case (Suc k)
  have k: "x + k < length e" using Suc(2) by simp
  note z = slice_Suc [OF k]
  have i: "value_inv e (x + k) q (b @ plus_space (str_slice e x (x + k))) (scan_steps e x k st)" "sc_ky (scan_steps e x k st) = sc_ky st"
    "sc_kb st \<or> 43 \<in> set (str_slice e x (x + k)) \<longrightarrow> sc_kb (scan_steps e x k st)"
    using Suc by auto
  show ?case using value_step [OF i(1) k] i(2,3) by (auto simp: scan_steps_Suc z)
qed (use assms(1) in simp)

lemma key_run_escape:
  assumes "key_inv e x q st" "x + k \<le> length e" "61 \<notin> set (str_slice e x (x + k))" "has_escape (str_slice e x (x + k))"
  shows "sc_ky (scan_steps e x k st)"
proof -
  obtain i where i: "i + 3 \<le> k" "e ! (x + i) = 37" "is_hex (e ! Suc (x + i))" "is_hex (e ! Suc (Suc (x + i)))"
    using escape_at [OF assms(4,2)] .
  have sub: "61 \<notin> set (str_slice e x (x + j))" if "j \<le> k" for j
    using assms(3) set_take_subset_set_take [OF that, of "drop x e"] by (auto simp: str_slice_def)
  have sub': "61 \<notin> set (str_slice e (x + j) (x + j + l))" if "j + l \<le> k" for j l
    using sub [OF that] by (auto simp: str_slice_def take_add add.assoc add.commute [of x])
  have a: "key_inv e (x + i) (q @ plus_space (str_slice e x (x + i))) (scan_steps e x i st)"
    using key_run [OF assms(1), of i] i(1) assms(2) sub [of i] by simp
  then have g: "sc_g (scan_steps e x i st) = 0" by (simp add: key_inv_def)
  have "sc_ky (scan_steps e (x + i) 3 (scan_steps e x i st))" by (rule key_escape [OF g i(2-4)])
  moreover have "key_inv e (x + i + 3) (q @ plus_space (str_slice e x (x + i)) @ plus_space (str_slice e (x + i) (x + i + 3)))
      (scan_steps e (x + i) 3 (scan_steps e x i st))"
    using key_run [OF a, of 3] i(1) assms(2) sub' [of i 3] by simp
  ultimately have "sc_ky (scan_steps e (x + i + 3) (k - (i + 3)) (scan_steps e (x + i) 3 (scan_steps e x i st)))"
    using key_run [of e "x + i + 3" _ _ "k - (i + 3)"] i(1) assms(2) sub' [of "i + 3" "k - (i + 3)"] by (simp add: add.assoc)
  then show ?thesis using i(1) by (simp flip: scan_steps_add add: add.assoc)
qed

lemma value_run_escape:
  assumes "value_inv e x q b st" "x + k \<le> length e" "has_escape (str_slice e x (x + k))"
  shows "sc_kb (scan_steps e x k st)"
proof -
  obtain i where i: "i + 3 \<le> k" "e ! (x + i) = 37" "is_hex (e ! Suc (x + i))" "is_hex (e ! Suc (Suc (x + i)))"
    using escape_at [OF assms(3,2)] .
  have a: "value_inv e (x + i) q (b @ plus_space (str_slice e x (x + i))) (scan_steps e x i st)"
    using value_run [OF assms(1), of i] i(1) assms(2) by simp
  then have g: "sc_g (scan_steps e x i st) = 1" by (simp add: value_inv_def)
  have "sc_kb (scan_steps e (x + i) 3 (scan_steps e x i st))" by (rule value_escape [OF g i(2-4)])
  moreover have "\<exists>b'. value_inv e (x + i + 3) q b' (scan_steps e (x + i) 3 (scan_steps e x i st))"
    using value_run [OF a, of 3] i(1) assms(2) by auto
  ultimately have "sc_kb (scan_steps e (x + i + 3) (k - (i + 3)) (scan_steps e (x + i) 3 (scan_steps e x i st)))"
    using value_run [of e "x + i + 3" _ _ _ "k - (i + 3)"] i(1) assms(2) by (auto simp: add.assoc)
  then show ?thesis using i(1) by (simp flip: scan_steps_add add: add.assoc)
qed

subsection \<open>One pair\<close>

definition at_start :: "nat \<Rightarrow> scan \<Rightarrow> bool" where
  "at_start x st \<longleftrightarrow> sc_v st = x \<and> sc_m st = 0 \<and> sc_g st = 0 \<and> sc_y st = [] \<and> sc_b st = [] \<and> \<not> sc_ky st \<and> \<not> sc_kb st"

lemma end_pair_key:
  assumes "key_inv e x q st"
  shows "sc_a (end_pair e [61] x st) = add_pair (if sc_ky st then qs_unescape q False else q)
      (if sc_kb st then qs_unescape [] False else []) (sc_a st)"
  using assms by (simp add: key_inv_def end_pair_def store_pair_def Let_def)

lemma end_pair_value:
  assumes "value_inv e x q b st"
  shows "sc_a (end_pair e [61] x st) = add_pair (if sc_ky st then qs_unescape q False else q)
      (if sc_kb st then qs_unescape b False else b) (sc_a st)"
  using assms by (simp add: value_inv_def end_pair_def store_pair_def Let_def)

lemma end_pair_frame [simp]: "sc_f (end_pair e n x st) = sc_f st"
  by (simp add: end_pair_def store_pair_def Let_def)

lemma equals_step:
  assumes "key_inv e x q st" "x < length e" "e ! x = 61"
  shows "value_inv e (x + 1) q [] (on_other e [61] x st)" "sc_ky (on_other e [61] x st) = sc_ky st"
  using assms by (simp_all add: key_inv_def value_inv_def on_other_def Let_def)

lemma split_piece:
  assumes "x + k \<le> length e" "61 \<in> set (str_slice e x (x + k))"
  obtains j where "j < k" "e ! (x + j) = 61" "61 \<notin> set (str_slice e x (x + j))"
    "str_slice e x (x + k) = str_slice e x (x + j) @ 61 # str_slice e (x + j + 1) (x + k)"
proof -
  obtain p r where z: "str_slice e x (x + k) = p @ 61 # r" "61 \<notin> set p" using split_list_first [OF assms(2)] by blast
  let ?j = "length p"
  have len: "length (str_slice e x (x + k)) = k" by (rule length_slice [OF assms(1)])
  then have j: "?j < k" by (simp add: z(1))
  have t: "str_slice e x (x + ?j) = take ?j (str_slice e x (x + k))" "str_slice e (x + ?j + 1) (x + k) = drop (?j + 1) (str_slice e x (x + k))"
    using j by (simp_all add: str_slice_def min_def drop_take add.commute)
  have "e ! (x + ?j) = 61" using slice_nth [OF assms(1) j] by (simp add: z(1))
  then show thesis using that [OF j] z(2) unfolding t by (simp add: z(1))
qed

lemma key_value_no: "n \<notin> set v \<Longrightarrow> key_value n v = (v, [])"
  by (simp add: key_value_def)

lemma key_value_at: "n \<notin> set k \<Longrightarrow> key_value n (k @ n # v) = (k, v)"
  by (induction k) (auto simp: key_value_def)

lemma unescape_Nil [simp]: "qs_unescape [] t = []"
  by (simp add: qs_unescape_def)

lemma start_key: "at_start x st \<Longrightarrow> key_inv e x [] st"
  by (simp add: at_start_def key_inv_def)

lemma pair_without:
  assumes st: "at_start x st" and k: "x + k \<le> length e" and no: "61 \<notin> set (str_slice e x (x + k))"
    and f: "decode_component (plus_space (str_slice e x (x + k))) = Some d"
  shows "sc_a (end_pair e [61] (x + k) (scan_steps e x k st)) = add_pair d [] (sc_a st)"
    and "k \<noteq> 0 \<Longrightarrow> e ! (x + k - 1) \<noteq> 43 \<Longrightarrow> sc_v (scan_steps e x k st) < x + k"
proof -
  let ?z = "str_slice e x (x + k)"
  have r: "key_inv e (x + k) (plus_space ?z) (scan_steps e x k st)" "43 \<in> set ?z \<longrightarrow> sc_ky (scan_steps e x k st)"
    using key_run [OF start_key [OF st] k no] by simp_all
  have "\<not> sc_ky (scan_steps e x k st) \<longrightarrow> 43 \<notin> set ?z \<and> \<not> has_escape ?z"
    using r(2) key_run_escape [OF start_key [OF st] k no] by blast
  from decode_flag [OF f this] show "sc_a (end_pair e [61] (x + k) (scan_steps e x k st)) = add_pair d [] (sc_a st)"
    by (simp add: end_pair_key [OF r(1)])
  assume "k \<noteq> 0" and c: "e ! (x + k - 1) \<noteq> 43"
  then obtain j where j: "k = Suc j" by (cases k) auto
  have s: "str_slice e x (x + k) = str_slice e x (x + j) @ [e ! (x + j)]" using slice_Suc [of x j e] k by (simp add: j)
  have i: "key_inv e (x + j) (plus_space (str_slice e x (x + j))) (scan_steps e x j st)"
    using key_run [OF start_key [OF st, of e], of j] k no by (simp add: s) (simp add: j)
  have "sc_v (scan_steps e x k st) = sc_v (scan_steps e x j st)"
    using key_step(3) [OF i] k no c by (simp add: s) (simp add: j scan_steps_Suc)
  then show "sc_v (scan_steps e x k st) < x + k" using i by (simp add: j key_inv_def)
qed

lemma pair_with:
  assumes st: "at_start x st" and k: "x + k \<le> length e" and j: "j < k" "e ! (x + j) = 61"
    and no: "61 \<notin> set (str_slice e x (x + j))"
    and f: "decode_component (plus_space (str_slice e x (x + j))) = Some d"
    and v: "decode_component (plus_space (str_slice e (x + j + 1) (x + k))) = Some h"
  shows "sc_a (end_pair e [61] (x + k) (scan_steps e x k st)) = add_pair d h (sc_a st)"
    and "0 < sc_g (scan_steps e x k st)"
proof -
  let ?z = "str_slice e x (x + j)" and ?w = "str_slice e (x + j + 1) (x + k)"
  let ?a = "scan_steps e x j st"
  let ?b = "on_other e [61] (x + j) ?a"
  have kj: "x + j \<le> length e" "x + j < length e" using j(1) k by simp_all
  have a: "key_inv e (x + j) (plus_space ?z) ?a" "43 \<in> set ?z \<longrightarrow> sc_ky ?a"
    using key_run [OF start_key [OF st] kj(1) no] by simp_all
  have b: "value_inv e (x + j + 1) (plus_space ?z) [] ?b" "sc_ky ?b = sc_ky ?a"
    using equals_step [OF a(1) kj(2) j(2)] by simp_all
  obtain l where l: "k = Suc (j + l)" using j(1) less_imp_Suc_add by blast
  have w: "x + j + 1 + l \<le> length e" "x + j + 1 + l = x + k" using k l by simp_all
  have split: "scan_steps e x k st = scan_steps e (x + j + 1) l ?b"
  proof -
    have k2: "k = Suc j + l" using l by simp
    show ?thesis unfolding k2 scan_steps_add scan_steps_Suc by simp
  qed
  have c: "value_inv e (x + k) (plus_space ?z) (plus_space ?w) (scan_steps e x k st)" "sc_ky (scan_steps e x k st) = sc_ky ?a"
    "43 \<in> set ?w \<longrightarrow> sc_kb (scan_steps e x k st)"
    using value_run [OF b(1) w(1)] b(2) unfolding split w(2) by simp_all
  have ky: "\<not> sc_ky (scan_steps e x k st) \<longrightarrow> 43 \<notin> set ?z \<and> \<not> has_escape ?z"
    using a(2) key_run_escape [OF start_key [OF st] kj(1) no] c(2) by auto
  have kb: "\<not> sc_kb (scan_steps e x k st) \<longrightarrow> 43 \<notin> set ?w \<and> \<not> has_escape ?w"
    using c(3) value_run_escape [OF b(1) w(1)] unfolding split w(2) by blast
  show "sc_a (end_pair e [61] (x + k) (scan_steps e x k st)) = add_pair d h (sc_a st)"
    using decode_flag [OF f ky] decode_flag [OF v kb] by (simp add: end_pair_value [OF c(1)])
  show "0 < sc_g (scan_steps e x k st)" using c(1) by (simp add: value_inv_def)
qed

lemma pair_run:
  assumes st: "at_start x st" and k: "x + k \<le> length e"
    and kv: "key_value 61 (plus_space (str_slice e x (x + k))) = (f, v)"
    and f: "decode_component f = Some d" and v: "decode_component v = Some h"
  shows "sc_a (end_pair e [61] (x + k) (scan_steps e x k st)) = add_pair d h (sc_a st)"
    and "k \<noteq> 0 \<Longrightarrow> 61 \<in> set (str_slice e x (x + k)) \<or> e ! (x + k - 1) \<noteq> 43
      \<Longrightarrow> sc_v (scan_steps e x k st) < x + k \<or> 0 < sc_g (scan_steps e x k st)"
proof -
  have "sc_a (end_pair e [61] (x + k) (scan_steps e x k st)) = add_pair d h (sc_a st)
    \<and> (k \<noteq> 0 \<longrightarrow> 61 \<in> set (str_slice e x (x + k)) \<or> e ! (x + k - 1) \<noteq> 43
      \<longrightarrow> sc_v (scan_steps e x k st) < x + k \<or> 0 < sc_g (scan_steps e x k st))"
  proof (cases "61 \<in> set (str_slice e x (x + k))")
    case False
    then have "f = plus_space (str_slice e x (x + k))" "v = []"
      using kv key_value_no [of 61 "plus_space (str_slice e x (x + k))"] by (simp_all add: plus_space_in)
    then have f': "decode_component (plus_space (str_slice e x (x + k))) = Some d" and h: "h = []" using f v by simp_all
    show ?thesis using pair_without [OF st k False f'] False h by blast
  next
    case True
    obtain j where j: "j < k" "e ! (x + j) = 61" "61 \<notin> set (str_slice e x (x + j))"
      "str_slice e x (x + k) = str_slice e x (x + j) @ 61 # str_slice e (x + j + 1) (x + k)"
      using split_piece [OF k True] .
    have "61 \<notin> set (plus_space (str_slice e x (x + j)))" using j(3) by (simp add: plus_space_in)
    from key_value_at [OF this] have "f = plus_space (str_slice e x (x + j))" "v = plus_space (str_slice e (x + j + 1) (x + k))"
      using kv by (simp_all add: j(4))
    then show ?thesis using pair_with [OF st k j(1-3)] f v by simp
  qed
  note r = this
  show "sc_a (end_pair e [61] (x + k) (scan_steps e x k st)) = add_pair d h (sc_a st)" by (rule conjunct1 [OF r])
  show "k \<noteq> 0 \<Longrightarrow> 61 \<in> set (str_slice e x (x + k)) \<or> e ! (x + k - 1) \<noteq> 43
      \<Longrightarrow> sc_v (scan_steps e x k st) < x + k \<or> 0 < sc_g (scan_steps e x k st)"
    by (rule conjunct2 [OF r, rule_format])
qed

subsection \<open>The whole text\<close>

lemma scan_run:
  "\<forall>i < k. e ! (x + i) \<noteq> 38 \<Longrightarrow> x + k \<le> length e \<Longrightarrow> sc_m st = 0 \<Longrightarrow>
    scan_loop e [38] [61] x st = scan_loop e [38] [61] (x + k) (scan_steps e x k st)"
proof (induction k)
  case (Suc k)
  have "scan_loop e [38] [61] x st = scan_loop e [38] [61] (x + k) (scan_steps e x k st)" using Suc by simp
  also have "\<dots> = scan_loop e [38] [61] (x + Suc k) (scan_steps e x (Suc k) st)"
    using Suc(2-4) by (subst scan_loop.simps) (simp add: scan_steps_Suc)
  finally show ?case .
qed simp

definition scan_end :: "jsstr \<Rightarrow> scan \<Rightarrow> (jsstr \<times> qparsed) list" where
  "scan_end e st = sc_a (if sc_f st \<noteq> Some 0 \<and> (sc_v st < length e \<or> 0 < sc_g st) then end_pair e [61] (length e) st else st)"

definition up_to :: "nat option \<Rightarrow> 'a list \<Rightarrow> 'a list" where
  "up_to f l = (case f of None \<Rightarrow> l | Some k \<Rightarrow> take k l)"

text \<open>An empty piece at the end is no pair.\<close>

definition body :: "jsstr list \<Rightarrow> jsstr list" where
  "body l = (if last l = [] then butlast l else l)"

definition last_ok :: "jsstr list \<Rightarrow> bool" where
  "last_ok l \<longleftrightarrow> last l = [] \<or> 61 \<in> set (last l) \<or> last (last l) \<noteq> 43"

lemma end_pair_m [simp]: "sc_a (end_pair e n k (st\<lparr>sc_m := m\<rparr>)) = sc_a (end_pair e n k st)"
  by (simp add: end_pair_def store_pair_def Let_def)

lemma scan_past: "length e \<le> x \<Longrightarrow> scan_loop e t n x st = st"
  by (subst scan_loop.simps) simp

lemma scan_amp:
  assumes "x < length e" "e ! x = 38" "sc_m st = 0"
  shows "scan_loop e [38] [61] x st =
     (let st = (end_pair e [61] x (st\<lparr>sc_m := 1\<rparr>))\<lparr>sc_f := map_option (\<lambda>f. f - 1) (sc_f st)\<rparr>
      in if sc_f st = Some 0 then st else scan_loop e [38] [61] (x + 1) ((fresh st)\<lparr>sc_v := x + 1\<rparr>))"
  unfolding scan_loop.simps [of e "[38]" "[61]" x st] Let_def
  by (simp only: assms simp_thms if_True if_False nth_Cons_0 scan.simps list.size add_0 add_diff_cancel_right')
    (simp, blast)

lemma no_amp: "38 \<notin> set s \<Longrightarrow> i < length s \<Longrightarrow> (pre @ s @ r) ! (length pre + i) \<noteq> 38"
  by (simp add: nth_append) (metis nth_mem)

lemma piece_slice: "str_slice (pre @ s @ rest) (length pre) (length pre + length s) = s"
  by (simp add: str_slice_def)

lemma plain_pairs_Cons:
  assumes "plain_pairs 61 (p # ps) a = Some r"
  obtains f v d h where "key_value 61 (plus_space p) = (f, v)" "decode_component f = Some d" "decode_component v = Some h"
    "plain_pairs 61 ps (add_pair d h a) = Some r"
  using assms by (auto split: prod.splits option.splits)

lemma scan_pieces:
  assumes "l \<noteq> []" "\<forall>s\<in>set l. 38 \<notin> set s" "e = pre @ js_join 38 l" "at_start (length pre) st" "sc_f st \<noteq> Some 0"
    "plain_pairs 61 (up_to (sc_f st) (body l)) (sc_a st) = Some a" "last_ok l"
  shows "scan_end e (scan_loop e [38] [61] (length pre) st) = a"
  using assms
proof (induction "38 :: unit16" l arbitrary: pre st rule: js_join.induct)
  case (2 s)
  let ?x = "length pre" and ?k = "length s"
  have e: "length e = ?x + ?k" "str_slice e ?x (?x + ?k) = s" using 2(3) piece_slice [of pre s "[]"] by simp_all
  have m: "sc_m st = 0" using 2(4) by (simp add: at_start_def)
  have "e ! (?x + i) \<noteq> 38" if "i < ?k" for i using no_amp [of s i pre "[]"] 2(2,3) that by simp
  then have run: "scan_loop e [38] [61] ?x st = scan_steps e ?x ?k st"
    using scan_run [of ?k e ?x st] m e(1) scan_past [of e "?x + ?k"] by simp
  show ?case
  proof (cases "s = []")
    case True
    then show ?thesis using 2(4,6) e(1) unfolding run by (simp add: scan_end_def at_start_def body_def up_to_def split: option.splits)
  next
    case False
    have up: "up_to (sc_f st) (body [s]) = [s]" using False 2(5) by (auto simp: up_to_def body_def split: option.splits)
    obtain f v d h where p: "key_value 61 (plus_space s) = (f, v)" "decode_component f = Some d" "decode_component v = Some h"
      "plain_pairs 61 [] (add_pair d h (sc_a st)) = Some a"
      using plain_pairs_Cons [OF 2(6) [unfolded up]] .
    have "last s = last e" "e \<noteq> []" using False 2(3) by simp_all
    then have "last s = e ! (?x + ?k - 1)" using last_conv_nth [of e] e(1) by simp
    then have "61 \<in> set s \<or> e ! (?x + ?k - 1) \<noteq> 43" using 2(7) False by (simp add: last_ok_def)
    then show ?thesis
      using pair_run [OF 2(4), of ?k e f v d h] e p False 2(5) unfolding run by (simp add: scan_end_def)
  qed
next
  case (3 s s' l)
  let ?x = "length pre" and ?k = "length s"
  have e: "e = pre @ s @ 38 # js_join 38 (s' # l)" using 3(4) by simp
  then have len: "?x + ?k < length e" and sl: "str_slice e ?x (?x + ?k) = s" and amp: "e ! (?x + ?k) = 38"
    using piece_slice [of pre s "38 # js_join 38 (s' # l)"] by (simp_all add: nth_append)
  have m: "sc_m st = 0" using 3(5) by (simp add: at_start_def)
  have "e ! (?x + i) \<noteq> 38" if "i < ?k" for i using no_amp [of s i pre] 3(3) that by (simp add: e)
  then have run: "scan_loop e [38] [61] ?x st = scan_loop e [38] [61] (?x + ?k) (scan_steps e ?x ?k st)"
    using scan_run [of ?k e ?x st] m len by simp
  have b: "body (s # s' # l) = s # body (s' # l)" by (simp add: body_def)
  let ?f = "map_option (\<lambda>f. f - 1) (sc_f st)"
  have up: "up_to (sc_f st) (body (s # s' # l)) = s # up_to ?f (body (s' # l))"
    using 3(6) by (cases "sc_f st") (auto simp: up_to_def b take_Cons')
  obtain f v d h where p: "key_value 61 (plus_space s) = (f, v)" "decode_component f = Some d" "decode_component v = Some h"
    "plain_pairs 61 (up_to ?f (body (s' # l))) (add_pair d h (sc_a st)) = Some a"
    using plain_pairs_Cons [OF 3(7) [unfolded up]] .
  let ?st = "(end_pair e [61] (?x + ?k) ((scan_steps e ?x ?k st)\<lparr>sc_m := 1\<rparr>))\<lparr>sc_f := ?f\<rparr>"
  have a: "sc_a ?st = add_pair d h (sc_a st)"
    using pair_run(1) [OF 3(5), of ?k e f v d h] len sl p(1-3) by simp
  have amp': "scan_loop e [38] [61] ?x st =
      (if ?f = Some 0 then ?st else scan_loop e [38] [61] (?x + ?k + 1) ((fresh ?st)\<lparr>sc_v := ?x + ?k + 1\<rparr>))"
    unfolding run using scan_amp [OF len amp, of "scan_steps e ?x ?k st"] m by (simp add: Let_def) blast
  show ?case
  proof (cases "?f = Some 0")
    case True
    have "up_to ?f (body (s' # l)) = []" unfolding True by (simp add: up_to_def)
    then have "a = sc_a ?st" using p(4) a by simp
    moreover have "sc_f ?st = Some 0" unfolding True by simp
    then have "scan_end e ?st = sc_a ?st" unfolding scan_end_def by (simp only: simp_thms if_False)
    ultimately show ?thesis unfolding amp' if_P [OF True] by simp
  next
    case False
    have "scan_end e (scan_loop e [38] [61] (length (pre @ s @ [38])) ((fresh ?st)\<lparr>sc_v := ?x + ?k + 1\<rparr>)) = a"
    proof (rule 3(1))
      show "\<forall>s\<in>set (s' # l). 38 \<notin> set s" "last_ok (s' # l)" using 3(3,8) by (simp_all add: last_ok_def)
      show "e = (pre @ s @ [38]) @ js_join 38 (s' # l)" by (simp add: e)
      show "at_start (length (pre @ s @ [38])) ((fresh ?st)\<lparr>sc_v := ?x + ?k + 1\<rparr>)" by (simp add: at_start_def fresh_def)
      show "sc_f ((fresh ?st)\<lparr>sc_v := ?x + ?k + 1\<rparr>) \<noteq> Some 0" using False by (simp add: fresh_def)
      show "plain_pairs 61 (up_to (sc_f ((fresh ?st)\<lparr>sc_v := ?x + ?k + 1\<rparr>)) (body (s' # l))) (sc_a ((fresh ?st)\<lparr>sc_v := ?x + ?k + 1\<rparr>)) = Some a"
        using p(4) a by (simp add: fresh_def)
    qed simp
    then show ?thesis unfolding amp' if_not_P [OF False] by (simp add: add.assoc)
  qed
qed simp

lemma join_split: "js_join c (js_split c e) = e"
proof (induction e)
  case (Cons x e)
  obtain p ps where "js_split c e = p # ps" using js_split_nonempty [of c e] by (cases "js_split c e") auto
  then show ?case using Cons by (cases ps) (auto simp: Let_def)
qed simp

lemma split_no: "p \<in> set (js_split c e) \<Longrightarrow> c \<notin> set p"
proof (induction e arbitrary: p)
  case (Cons x e)
  obtain q ps where "js_split c e = q # ps" using js_split_nonempty [of c e] by (cases "js_split c e") auto
  then show ?case using Cons by (auto simp: Let_def split: if_splits)
qed simp

lemma parse_pieces:
  assumes "plain_pairs 61 (up_to (if 0 < mk then Some (nat mk) else None) (body (js_split 38 e))) [] = Some a"
    and "last_ok (js_split 38 e)"
  shows "qs_parse mk [38] [61] e = a"
proof -
  have "scan_end e (scan_loop e [38] [61] (length ([] :: jsstr)) (scan_init mk)) = a"
  proof (rule scan_pieces)
    show "js_split 38 e \<noteq> []" by (rule js_split_nonempty)
    show "\<forall>s\<in>set (js_split 38 e). 38 \<notin> set s" using split_no by blast
    show "e = [] @ js_join 38 (js_split 38 e)" by (simp add: join_split)
    show "at_start (length []) (scan_init mk)" by (simp add: at_start_def scan_init_def)
  qed (use assms in \<open>simp_all add: scan_init_def\<close>)
  then show ?thesis by (simp add: qs_parse_def qs_scan_def scan_end_def Let_def)
qed

subsection \<open>Writing and parsing\<close>

definition enc :: "jsstr \<Rightarrow> jsstr" where
  "enc s = (case encode_component s of Some r \<Rightarrow> r | None \<Rightarrow> [])"

lemma enc_props:
  assumes "well_formed s"
  shows "qs_escape s = Some (enc s)" "decode_component (enc s) = Some s" "plus_space (enc s) = enc s"
    "38 \<notin> set (enc s)" "61 \<notin> set (enc s)"
proof -
  obtain r where r: "encode_component s = Some r" "decode_component r = Some s" "list_all component_char r"
    using encode_decodes [OF assms] by blast
  have "\<not> component_char 43" "\<not> component_char 38" "\<not> component_char 61" by code_simp+
  then have "43 \<notin> set r" "38 \<notin> set r" "61 \<notin> set r" using r(3) by (auto simp: list_all_iff)
  then show "qs_escape s = Some (enc s)" "decode_component (enc s) = Some s" "plus_space (enc s) = enc s"
    "38 \<notin> set (enc s)" "61 \<notin> set (enc s)"
    using escape_is_encode [OF r(1)] r(1,2) by (simp_all add: enc_def plus_space_no)
qed

fun texts :: "qval \<Rightarrow> jsstr list" where
  "texts (QOne x) = [prim_text x]"
| "texts (QMany xs) = map prim_text xs"

text \<open>What is read back: texts, an empty array as no property and an array of one value as the value.\<close>

definition read_back :: "jsstr \<times> qval \<Rightarrow> (jsstr \<times> qparsed) list" where
  "read_back = (\<lambda>(k, v). case texts v of [] \<Rightarrow> [] | [t] \<Rightarrow> [(k, ParsedOne t)] | ts \<Rightarrow> [(k, ParsedMany ts)])"

definition wf_query :: "(jsstr \<times> qval) list \<Rightarrow> bool" where
  "wf_query e \<longleftrightarrow> distinct (map fst e) \<and> js ''__proto__'' \<notin> set (map fst e)
     \<and> list_all (\<lambda>(k, v). well_formed k \<and> list_all well_formed (texts v)) e"

definition piece :: "jsstr \<Rightarrow> jsstr \<Rightarrow> jsstr" where
  "piece k t = enc k @ 61 # enc t"

definition pieces :: "(jsstr \<times> qval) list \<Rightarrow> jsstr list" where
  "pieces e = concat (map (\<lambda>(k, v). map (piece k) (texts v)) e)"

lemma values_pieces:
  assumes "well_formed k" "list_all (\<lambda>d. well_formed (prim_text d)) ds"
  shows "qs_values [38] (enc k @ [61]) ds = Some (js_join 38 (map (piece k) (map prim_text ds)))"
  using assms(2)
proof (induction ds)
  case (Cons d ds)
  then show ?case using enc_props(1) [of "prim_text d"] by (cases ds) (auto simp: with_sep_def piece_def)
qed simp

lemma split_join_more: "ps \<noteq> [] \<Longrightarrow> list_all (\<lambda>p. c \<notin> set p) ps \<Longrightarrow> js_split c (js_join c ps @ c # r) = ps @ js_split c r"
  by (induction c ps rule: js_join.induct) (auto simp: js_split_append)

lemma piece_no_amp: "well_formed k \<Longrightarrow> well_formed t \<Longrightarrow> 38 \<notin> set (piece k t)"
  using enc_props by (simp add: piece_def)

lemma stringify_pieces:
  assumes "list_all (\<lambda>(k, v). well_formed k \<and> list_all well_formed (texts v)) e"
  shows "\<exists>s. qs_stringify [38] [61] e = Some s \<and> body (js_split 38 s) = pieces e"
  using assms
proof (induction e)
  case Nil
  then show ?case by (simp add: body_def pieces_def)
next
  case (Cons x e)
  obtain k v where x: "x = (k, v)" by (cases x)
  define vs where "vs = (case v of QOne x \<Rightarrow> [x] | QMany xs \<Rightarrow> xs)"
  have t: "texts v = map prim_text vs" by (cases v) (simp_all add: vs_def)
  have w: "well_formed k" "list_all (\<lambda>d. well_formed (prim_text d)) vs" using Cons(2) by (simp_all add: x t list.pred_map comp_def)
  obtain r where r: "qs_stringify [38] [61] e = Some r" "body (js_split 38 r) = pieces e" using Cons by auto
  let ?ps = "map (piece k) (map prim_text vs)"
  have s: "qs_stringify [38] [61] (x # e) = Some (js_join 38 ?ps @ with_sep [38] (vs \<noteq> [] \<and> e \<noteq> []) @ r)"
    using values_pieces [OF w] enc_props(1) [OF w(1)] r(1) by (simp add: x vs_def [symmetric] Let_def)
  have no: "list_all (\<lambda>p. 38 \<notin> set p) ?ps" using w piece_no_amp by (auto simp: list_all_iff)
  have ps: "pieces (x # e) = ?ps @ pieces e" by (simp add: pieces_def x t)
  show ?case
  proof (cases "vs \<noteq> [] \<and> e \<noteq> []")
    case True
    then have "js_split 38 (js_join 38 ?ps @ 38 # r) = ?ps @ js_split 38 r" using split_join_more [OF _ no] by simp
    moreover have "body (?ps @ js_split 38 r) = ?ps @ body (js_split 38 r)"
      using js_split_nonempty [of 38 r] by (simp add: body_def butlast_append)
    ultimately show ?thesis using s r(2) True by (simp add: ps with_sep_def)
  next
    case False
    show ?thesis
    proof (cases "vs = []")
      case True
      then show ?thesis using s r(2) by (simp add: ps with_sep_def)
    next
      case F: False
      then have e: "e = []" "r = []" using False r(1) by auto
      have "js_split 38 (js_join 38 ?ps) = ?ps" using js_split_join [OF _ no] F by simp
      moreover have "body ?ps = ?ps" using F by (simp add: body_def last_map piece_def)
      ultimately show ?thesis using s by (simp add: e with_sep_def pieces_def x t)
    qed
  qed
qed

lemma add_new: "k \<notin> fst ` set a \<Longrightarrow> k \<noteq> js ''__proto__'' \<Longrightarrow> add_pair k t a = a @ [(k, ParsedOne t)]"
  by (induction k t a rule: add_pair.induct) auto

lemma add_old: "k \<notin> fst ` set a \<Longrightarrow> add_pair k t (a @ [(k, v)]) = a @ [(k, add_value t v)]"
  by (induction a) auto

lemma pairs_piece:
  assumes "well_formed k" "well_formed t"
  shows "plain_pairs 61 (piece k t # ps) a = plain_pairs 61 ps (add_pair k t a)"
proof -
  have "key_value 61 (plus_space (piece k t)) = (enc k, enc t)"
    using enc_props [OF assms(1)] enc_props [OF assms(2)] by (simp add: piece_def key_value_at)
  then show ?thesis using enc_props(2) [OF assms(1)] enc_props(2) [OF assms(2)] by simp
qed

lemma pairs_many:
  assumes "well_formed k" "list_all well_formed ts" "k \<notin> fst ` set a"
  shows "plain_pairs 61 (map (piece k) ts @ ps) (a @ [(k, ParsedMany us)]) = plain_pairs 61 ps (a @ [(k, ParsedMany (us @ ts))])"
  using assms by (induction ts arbitrary: us) (simp_all add: pairs_piece add_old del: plain_pairs.simps(2))

lemma pairs_key:
  assumes "well_formed k" "list_all well_formed (texts v)" "k \<notin> fst ` set a" "k \<noteq> js ''__proto__''"
  shows "plain_pairs 61 (map (piece k) (texts v) @ ps) a = plain_pairs 61 ps (a @ read_back (k, v))"
proof (cases "texts v")
  case (Cons t ts)
  then show ?thesis using assms pairs_many [OF assms(1) _ assms(3), of _ ps]
    by (cases ts) (simp_all add: pairs_piece add_new add_old read_back_def del: plain_pairs.simps(2))
qed (simp add: read_back_def)

lemma pairs_all:
  assumes "wf_query e" "\<forall>k\<in>set (map fst e). k \<notin> fst ` set a"
  shows "plain_pairs 61 (pieces e) a = Some (a @ concat (map read_back e))"
  using assms
proof (induction e arbitrary: a)
  case (Cons x e)
  obtain k v where x: "x = (k, v)" by (cases x)
  have "fst ` set (read_back (k, v)) \<subseteq> {k}" by (cases "texts v"; cases "tl (texts v)") (simp_all add: read_back_def)
  then have "plain_pairs 61 (pieces e) (a @ read_back (k, v)) = Some ((a @ read_back (k, v)) @ concat (map read_back e))"
    using Cons(2,3) by (intro Cons(1)) (auto simp: wf_query_def x image_Un)
  moreover have "plain_pairs 61 (map (piece k) (texts v) @ pieces e) a = plain_pairs 61 (pieces e) (a @ read_back (k, v))"
    using Cons(2,3) by (intro pairs_key) (auto simp: x wf_query_def)
  moreover have "pieces (x # e) = map (piece k) (texts v) @ pieces e" by (simp add: pieces_def x)
  ultimately show ?case by (simp add: x)
qed (simp add: pieces_def)

lemma some_result: "(case x of None \<Rightarrow> False | Some s \<Rightarrow> P s) \<Longrightarrow> \<exists>s. x = Some s \<and> P s"
  by (cases x) auto

subsection \<open>Properties\<close>

text \<open>
  Property C40. The escape function of the client, its own loop over the code units, computes
  \<open>encodeURIComponent\<close> on every string without lone surrogates, never throws there, leaves only characters
  that have no meaning in a query, and its \<open>unescape\<close> gives the string back.
\<close>

theorem escape_is_inverted:
  assumes "well_formed s"
  shows "case qs_escape s of None \<Rightarrow> False
    | Some r \<Rightarrow> encode_component s = Some r \<and> list_all component_char r \<and> qs_unescape r f = s"
proof -
  obtain r where r: "encode_component s = Some r" "decode_component r = Some s" "list_all component_char r"
    using encode_decodes [OF assms] by blast
  then show ?thesis using escape_is_encode [OF r(1)] by (simp add: qs_unescape_def)
qed

text \<open>A space, a letter with an accent, an ampersand and a character outside the basic plane.\<close>

theorem escape_is_inverted_witness:
  "qs_unescape (case qs_escape [32, 233, 38, 55357, 56832] of Some r \<Rightarrow> r | None \<Rightarrow> []) True = [32, 233, 38, 55357, 56832]"
proof -
  have "well_formed [32, 233, 38, 55357, 56832]" by code_simp
  from escape_is_inverted [OF this, of True] show ?thesis by (auto split: option.splits)
qed

text \<open>
  Property C38. What the client writes as a query string it reads back: the same keys with the texts of
  their values, an array as an array, an array of one value as that value and an empty one not at all, for distinct
  keys and values without lone surrogates, no key being \<open>__proto__\<close>, up to the limit of 1000 pairs.
\<close>

theorem query_roundtrip:
  assumes "wf_query e" "length (concat (map (texts \<circ> snd) e)) \<le> 1000"
  shows "case qs_stringify [38] [61] e of None \<Rightarrow> False | Some s \<Rightarrow> qs_parse 1000 [38] [61] s = concat (map read_back e)"
proof -
  obtain s where s: "qs_stringify [38] [61] e = Some s" "body (js_split 38 s) = pieces e"
    using stringify_pieces [of e] assms(1) by (auto simp: wf_query_def)
  have "length (pieces e) = length (concat (map (texts \<circ> snd) e))"
    by (simp add: pieces_def length_concat comp_def case_prod_unfold)
  then have "up_to (if 0 < (1000 :: int) then Some (nat 1000) else None) (body (js_split 38 s)) = pieces e"
    using assms(2) by (simp add: up_to_def s(2))
  moreover have "last_ok (js_split 38 s)"
  proof -
    have "last (js_split 38 s) = [] \<or> last (js_split 38 s) \<in> set (pieces e)"
      using js_split_nonempty [of 38 s] s(2) by (auto simp: body_def split: if_splits)
    moreover have "61 \<in> set p" if "p \<in> set (pieces e)" for p using that by (auto simp: pieces_def piece_def)
    ultimately show ?thesis by (auto simp: last_ok_def)
  qed
  ultimately show ?thesis using parse_pieces [of 1000 s "concat (map read_back e)"] pairs_all [OF assms(1), of "[]"] s(1) by simp
qed

text \<open>\<open>{"a b": ["\&", 7], "c": true}\<close>, with a character outside ASCII.\<close>

theorem query_roundtrip_witness:
  "\<exists>s. qs_stringify [38] [61] [([97, 32], QMany [PStr [38, 233], PNum 7]), ([99], QOne (PBool True))] = Some s
     \<and> qs_parse 1000 [38] [61] s = [([97, 32], ParsedMany [[38, 233], [55]]), ([99], ParsedOne (js ''true''))]"
proof -
  let ?e = "[([97, 32], QMany [PStr [38, 233], PNum 7]), ([99], QOne (PBool True))] :: (jsstr \<times> qval) list"
  have "wf_query ?e" by code_simp
  moreover have "length (concat (map (texts \<circ> snd) ?e)) \<le> 1000" by code_simp
  moreover have "concat (map read_back ?e) = [([97, 32], ParsedMany [[38, 233], [55]]), ([99], ParsedOne (js ''true''))]" by code_simp
  ultimately have "case qs_stringify [38] [61] ?e of None \<Rightarrow> False
      | Some s \<Rightarrow> qs_parse 1000 [38] [61] s = [([97, 32], ParsedMany [[38, 233], [55]]), ([99], ParsedOne (js ''true''))]"
    using query_roundtrip [of ?e] by (simp only:)
  then show ?thesis by (rule some_result)
qed

lemma last_last: "last (js_split c e) \<noteq> [] \<Longrightarrow> last e = last (last (js_split c e))"
proof (induction e)
  case (Cons x e)
  obtain q ps where q: "js_split c e = q # ps" using js_split_nonempty [of c e] by (cases "js_split c e") auto
  show ?case
  proof (cases "e = []")
    case False
    have "last (js_split c (x # e)) = last (js_split c e) \<or> ps = [] \<and> x \<noteq> c \<and> last (js_split c (x # e)) = x # q"
      by (auto simp: q Let_def)
    then show ?thesis
    proof
      assume "last (js_split c (x # e)) = last (js_split c e)"
      then show ?thesis using Cons False by (simp del: js_split.simps)
    next
      assume p: "ps = [] \<and> x \<noteq> c \<and> last (js_split c (x # e)) = x # q"
      then have "q = e" using join_split [of c e] by (simp add: q)
      then show ?thesis using p False by (simp del: js_split.simps)
    qed
  qed (use Cons(2) in \<open>auto simp: Let_def split: if_splits\<close>)
qed simp

text \<open>
  Property C39. The parser in one pass agrees with the plain one that splits the text: wherever that one
  returns, it gives the same pairs, for every text and every limit of pairs, unless the text ends with an
  empty piece or with a key that ends in a plus sign and has no value.
\<close>

theorem query_parsers_agree:
  assumes "plain_parse mk 38 61 e = Some a" "last (js_split 38 e) \<noteq> []"
    and "61 \<in> set (last (js_split 38 e)) \<or> last e \<noteq> 43"
  shows "qs_parse mk [38] [61] e = a"
proof -
  let ?l = "js_split 38 e"
  have e: "e \<noteq> []" using assms(2) by auto
  have up: "up_to (if 0 < mk then Some (nat mk) else None) (body ?l) = (if 0 < mk \<and> mk < int (length ?l) then take (nat mk) ?l else ?l)"
    using assms(2) by (auto simp: up_to_def body_def)
  have "last e = last (last ?l)"
    by (rule last_last) (rule assms(2))
  then have "last_ok ?l" using assms(3) by (simp add: last_ok_def)
  then show ?thesis using parse_pieces [of mk e a] assms(1) e up by (simp add: plain_parse_def Let_def)
qed

text \<open>The text \<open>a=%41&a=x+y&b\<close>, where the second parser has an escape, a plus sign and a repeated key to deal with.\<close>

theorem query_parsers_agree_witness:
  "qs_parse 1000 [38] [61] (js ''a=%41&a=x+y&b'') = [(js ''a'', ParsedMany [js ''A'', js ''x y'']), (js ''b'', ParsedOne [])]"
proof (rule query_parsers_agree)
  show "plain_parse 1000 38 61 (js ''a=%41&a=x+y&b'') = Some [(js ''a'', ParsedMany [js ''A'', js ''x y'']), (js ''b'', ParsedOne [])]"
    by code_simp
  show "last (js_split 38 (js ''a=%41&a=x+y&b'')) \<noteq> []" by code_simp
  show "61 \<in> set (last (js_split 38 (js ''a=%41&a=x+y&b''))) \<or> last (js ''a=%41&a=x+y&b'') \<noteq> 43" by code_simp
qed

text \<open>A key at the end of the text that ends in a plus sign is lost: \<open>x=1&a+\<close> has one pair.\<close>

lemma trailing_plus_lost:
  "qs_parse 1000 [38] [61] (js ''x=1&a+'') = [(js ''x'', ParsedOne (js ''1''))]"
  "plain_parse 1000 38 61 (js ''x=1&a+'') = Some [(js ''x'', ParsedOne (js ''1'')), (js ''a '', ParsedOne [])]"
  by code_simp+

text \<open>One digit behind a per cent sign in a key asks for decoding, which destroys other characters: \<open>\<eacute>%4\<close>.\<close>

lemma half_escape_mangles: "qs_parse 1000 [38] [61] [233, 37, 52] = [([65533, 37, 52], ParsedOne [])]"
  by code_simp

text \<open>
  The second key \<open>__proto__\<close> of a text replaces the prototype of the object by an array; the plain parser,
  which looks for own properties only, does not.
\<close>

lemma prototype_replaced:
  "qs_parse_proto 1000 [38] [61] (js ''__proto__=1&__proto__=2&a=3'') = Some [js ''2'']"
  "qs_parse 1000 [38] [61] (js ''__proto__=1&__proto__=2&a=3'') = [(js ''a'', ParsedOne (js ''3''))]"
  by code_simp+

text \<open>A lone surrogate swallows the unit behind it instead of being refused.\<close>

lemma escape_swallows:
  "qs_escape [56320, 97] = Some (js ''%F0%90%81%A1'')" "encode_component [56320, 97] = None"
  by (simp_all add: qs_escape_def escape_loop.simps qs_safe_def utf8_of_def percent_def hex_digit_def js_def
      comp_safe trail_def)

end
