(* ===== verification/Spec2Isabelle.thy ===== *)
theory Spec2Isabelle
  imports BufEnc ImmSet ImmPath MdDocument Punycode ImmList JsonPatches QueryStrings
begin

text \<open>
  A verification library for the JavaScript that the repository ships with its API documentation:
  the bundle of Swagger UI, \<open>src/client/docs/swagger-ui/swagger-ui-bundle.js\<close>. The node itself is Go
  code under \<open>app\<close>, \<open>cmd\<close> and \<open>vendor\<close>; the JavaScript is the page at \<open>/swagger\<close>, which reads the API
  description, keeps it in an immutable store and shows its Markdown descriptions as HTML. The
  library models the parts of the bundle that compute something: the byte buffers, the persistent
  collections of the store, Markdown, host names, query
  strings, and JSON patches.

  \<^bold>\<open>How the parts work together.\<close> The page fetches the description and puts it into a store of
  \<open>Immutable\<close> maps and lists; the plug-ins of Swagger UI read and change the store with \<open>getIn\<close>,
  \<open>setIn\<close>, \<open>mergeDeep\<close>. Descriptions are Markdown: \<open>Remarkable\<close> splits them into blocks, parses the text
  of each block with its inline rules, and renders the tokens; entities and escapes are shared by
  both ends. The Swagger client resolves references in the description by JSON patches to its copy of
  it. Examples, files and credentials go through the \<open>Buffer\<close> polyfill (base64, UTF-8 and the
  other encodings). Addresses are taken apart by \<open>url-parse\<close> and \<open>punycode\<close>.

  \<^bold>\<open>Conventions\<close> (theories \<open>Prelude\<close> and \<open>JsNum\<close>). A string is the list of its UTF-16 code units
  (\<open>jsstr\<close>), a byte buffer the list of its bytes, a thrown exception the left side of a sum
  (\<open>js_error\<close>). A number that the code keeps in 32 bits is an \<open>int\<close> with the conversions \<open>to_int32\<close> and
  \<open>to_uint32\<close> and the operators \<open>js_and\<close>, \<open>js_or\<close>, \<open>js_shl\<close> and so on written out; other numbers are \<open>int\<close> or
  \<open>nat\<close> where the code keeps them below \<open>2 ^ 53\<close>. The sums that can leave that range, in
  the integer accessors of the buffers, are sums of doubles with their rounding and infinities (theory
  \<open>JsDouble\<close>). \<open>undefined\<close> and absent values are \<open>None\<close>. Objects that
  the code mutates in place (the parser state) are records passed along and returned; persistent
  nodes are values, with the identity that the code tests (\<open>===\<close>) modelled as an explicit \<open>Same\<close> or
  \<open>New\<close> result, and for the whole map as the result \<open>None\<close> of \<open>map_step\<close>.

  \<^bold>\<open>Byte buffers\<close> (module 54 and base64-js).
  \<open>Base64\<close> has the codec of base64-js with its tables, padding and chunks; the lemmas show that the
  chunked encoder is the three-byte reference encoding and that the decoder inverts it. \<open>Utf8\<close> has
  \<open>utf8ToBytes\<close> with its byte budget and replacement of lone surrogates, and the decoder; they are
  related to a reference on Unicode scalar values. \<open>BufInt\<close> has the range checks and every integer
  reader and writer, on the two representations of a buffer, typed array and plain object (\<open>bstore\<close>);
  each is shown to be a store or a read of a window of base-256 digits, for one to six bytes, and
  \<open>seven_bytes_lost\<close> shows what the rounding does beyond. \<open>BufOps\<close> has
  \<open>slice\<close>, \<open>compare\<close>, \<open>copy\<close>, \<open>concat\<close>, \<open>fill\<close>, \<open>indexOf\<close> and the swaps. \<open>BufEnc\<close> dispatches on the name of
  the encoding: \<open>Buffer.from\<close>, \<open>write\<close>, \<open>toString\<close>, \<open>byteLength\<close>. The interfaces are the locales \<open>codec\<close>
  (interpreted for base64 and UTF-8) and \<open>int_format\<close> (interpreted for every width and byte order, in
  both representations).

  \<^bold>\<open>Persistent collections\<close> (module 1, Immutable 3.8).
  \<open>ImmHash\<close> has the hash functions with the string cache, and the population count. The string keys are
  a type of their own, all strings but \<open>propertyIsEnumerable\<close>: the cache gives that one a function for a
  hash, and the trie recurses for ever when it meets a key of hash 0. \<open>ImmNode\<close> has the five
  kinds of map node with lookup and update, \<open>ImmMap\<close> the proofs: the invariant \<open>wf_node\<close> is kept, an
  updated map is an updated function, iteration lists each entry once. \<open>ImmSet\<close> and \<open>ImmPath\<close> build on
  the locale \<open>persistent_map\<close>: set algebra, \<open>updateIn\<close> and its relatives, \<open>mergeDeep\<close>. \<open>ImmList\<close> has the
  32-way trie with tail, origin and capacity; every gap-free program of operations is simulated by
  one on plain lists (locales \<open>sequence\<close> and \<open>deque\<close>).

  \<^bold>\<open>Markdown\<close> (Remarkable).
  \<open>EntityTable\<close> is the table of named entities, \<open>Entities\<close> the decoder and the escapes, \<open>MdRender\<close> the
  rules of the renderer. \<open>MdText\<close> has what the parser needs of the language: a backtracking matcher for
  its regular expressions, \<open>encodeURI\<close> and \<open>decodeURI\<close>, \<open>normalizeLink\<close> and \<open>validateLink\<close>. \<open>MdInline\<close> has
  the sixteen inline rules, the silent mode with its cache (\<open>skipToken\<close>), \<open>parseLinkLabel\<close> and the
  tokenizer. \<open>MdParse\<close> states what a rule may rely on (locale \<open>rule_callbacks\<close>) and what it owes in
  return (\<open>moved\<close>: it makes progress, and adds only well-nested tokens with validated addresses); the
  properties follow for the parser, and together with \<open>MdRender\<close> for the HTML. \<open>MdBlock\<close> has the block
  parser: the state with the marks of its lines (\<open>StateBlock\<close>), the twelve rules, the chains of rules that
  end what goes on before them (\<open>Ruler\<close>), and the tokenizer. \<open>MdBlocks\<close> shows for the rules, and \<open>MdBlockRun\<close>
  for the nested calls and the loops, that a rule which accepts a line consumes it, puts the marks back
  and adds a well-nested piece (\<open>took\<close>). \<open>MdDocument\<close> has the core rules \<open>references\<close>, \<open>inline\<close> and
  \<open>footnote_tail\<close> and joins the parts: a document becomes tokens with safe links, and these become HTML.

  \<^bold>\<open>Host names.\<close> \<open>Punycode\<close> has both directions of Punycode with all overflow checks, \<open>toASCII\<close> and
  \<open>toUnicode\<close>; encoder and decoder are shown to run in step.

  \<^bold>\<open>Query strings\<close> (querystring and querystring-browser). \<open>QueryString\<close> has both codecs of the bundle:
  the plain one, which splits the text and decodes with \<open>decodeURIComponent\<close>, and the one of Node with its
  own escape loop, the state machine of \<open>unescapeBuffer\<close> and a parser in one pass, whose variables are the
  record \<open>scan\<close>; the prototype that repeated \<open>__proto__\<close> keys give the result is part of it. Numbers to be
  written are 32-bit integers. \<open>QsCode\<close> shows that the escape loop computes \<open>encodeURIComponent\<close> and is inverted by the
  decoders; \<open>QueryStrings\<close> follows the loop of the parser over one pair, and then over the text: what is
  written is read back, and the two parsers agree. The separators of the plain codec are single
  characters here, and decoders or encoders given as options are left out.

  \<^bold>\<open>JSON patches\<close> (fast-json-patch). \<open>JsonPatch\<close> has the paths with their escapes, the seven operations
  on objects and arrays, \<open>applyPatch\<close>, the equality of the \<open>test\<close> operation, and \<open>compare\<close>. A document is a
  tree, so a changed document is a new tree; what leaves the trees (inherited properties, holes,
  cycles) is the error \<open>Outside\<close>. \<open>JsonPatches\<close> shows that the patch \<open>compare\<close> makes of two documents takes
  the first to the second, and four places where the code does something else. The optional validator
  of operations and the observers of changes are not modelled.

  \<^bold>\<open>Bounds and fuel.\<close> Structural and measured recursion is used wherever the loop has a measure. Fuel
  occurs where a loop ends for a reason that needs an invariant: the search loops and the tokenizer
  of \<open>MdInline\<close> get the length of the text they walk over, and one, and \<open>inline_parser_ends\<close> shows that
  this is enough for every text; the repetitions of a pattern get the length of the text. The loops
  of \<open>Punycode\<close> get the number of code points that are left, and \<open>puny_encode_ends\<close> shows that it is
  enough. The tokenizer of \<open>MdBlock\<close> gets the option \<open>maxNesting\<close>, and one, since an inner call stands
  below an open token, and its loops get the number of lines left, and one; \<open>block_parser_ends\<close> shows
  that this is enough unless the rules for quotes and for description lists are both enabled, and
  \<open>deflist_loops\<close> shows the loop that does not end then. Taking reference definitions off a text gets
  the length of the text, and one. Round trips of Punycode are stated for labels of up to 1900 code units (a label of a host
  name has at most 63); list positions are exact below \<open>2 ^ 30\<close>, the bound of the code's own tables.

  \<^bold>\<open>Plan.\<close> What would come next are the remaining core rules of Remarkable (\<open>abbr\<close>, \<open>replacements\<close>,
  \<open>smartquotes\<close>, \<open>linkify\<close>; the preset of the page enables none that has an effect), then the address
  parsers (\<open>url\<close>, \<open>url-parse\<close>).

  \<^bold>\<open>Not modelled\<close>, with the reasons. The React components, the DOM helpers and the style sheets are
  input and output. The plug-ins of Swagger UI (actions, reducers, selectors) are one-line uses of
  the store, whose operations are modelled. The polyfills of core-js define the language's own
  library again. The resolver of the Swagger client, which makes the patches, is asynchronous and driven
  by the answers of servers. \<open>js-yaml\<close>, the XML writer, \<open>DOMPurify\<close> and the validator of schemas are further
  programs of the bundle, left for later. The file \<open>swagger-ui-standalone-preset.js\<close> carries a second
  copy of the same libraries. Of the buffers, the floating point accessors; of the collections, the
  in-place variants under \<open>withMutations\<close> (they differ in sharing only), ordered maps, stacks and lazy
  sequences; object keys, whose hash is an identity number. Unicode case mapping beyond ASCII is a
  parameter of the reference normaliser, of which nothing is assumed. The Go, C and shell sources
  are outside this library.
\<close>

end
